(* ===== verification/LSM_Prelude.thy ===== *)
theory LSM_Prelude
  imports Main "HOL-Library.Word" "HOL-Library.List_Lexorder" "HOL-Library.Multiset"
begin

text \<open>
  The prelude of the development: the byte and word types of the Go sources, the record of
  \<^verbatim>\<open>pkg/lsm/types/entry.go\<close>, the error values of \<^verbatim>\<open>pkg/lsm/errs/errs.go\<close>, slices, the
  little-endian codecs of \<^verbatim>\<open>encoding/binary\<close>, and the generic list lemmas the components
  share.  Go's \<^verbatim>\<open>[]byte\<close> is a list of 8-bit words; \<^verbatim>\<open>bytes.Compare\<close> is the
  lexicographic order on such lists, so \<open>a < b\<close> below is \<^verbatim>\<open>bytes.Compare(a, b) < 0\<close>.
\<close>

unbundle bit_operations_syntax

named_theorems codec_simps \<open>length and slice facts of encoders\<close>
named_theorems inv_intros \<open>operations that keep a component's invariant\<close>
named_theorems model_defs \<open>definitions of small helpers, unfolded together\<close>

section \<open>Types\<close>

type_synonym byte = "8 word"
type_synonym bytes = "8 word list"
type_synonym u16 = "16 word"
type_synonym u32 = "32 word"
type_synonym u64 = "64 word"

text \<open>\<^verbatim>\<open>types.Entry\<close>; \<^verbatim>\<open>memory.EntryView\<close> has the same fields and the same value.\<close>

record entry =
  Key :: bytes
  Value :: bytes
  Tombstone :: bool
  Seq :: u64

definition zero_entry :: entry where
  "zero_entry = \<lparr>Key = [], Value = [], Tombstone = False, Seq = 0\<rparr>"

text \<open>
  The sentinel errors of \<^verbatim>\<open>errs.go\<close>.  \<open>ErrMsg\<close> is an error built by \<^verbatim>\<open>fmt.Errorf\<close>
  or \<^verbatim>\<open>errors.New\<close> that callers do not test for; \<open>PanicBounds\<close>, \<open>PanicDivide\<close> and
  \<open>PanicNil\<close> are Go's run-time panics on an index or slice expression out of range, a division
  by zero and a nil dereference; \<open>PanicMsg\<close> is a panic that a library raises with a message.
\<close>

datatype lsm_error =
    ErrNotLeader
  | ErrWALCorrupt
  | ErrWALCorruptSegment
  | ErrWALMissingSegment
  | ErrWALClosed
  | ErrWALEmptyKey
  | ErrWALEmptyValue
  | ErrBackpressure
  | ErrWALRecordTooLarge
  | ErrRangeUnsupported
  | ErrSSTableBadMagic
  | ErrSSTableBadFooter
  | ErrSSTableBadBlock
  | ErrSSTableBadMeta
  | ErrSSTableBadIndex
  | ErrSSTableUnknownCompression
  | ErrClosed
  | ErrShardNotFound
  | ErrControlRevisionConflict
  | ErrControlOperationConflict
  | ErrControlWriteOptionsUnsupported
  | ErrEOF
  | ErrMsg string
  | PanicBounds
  | PanicDivide
  | PanicNil
  | PanicMsg string

type_synonym 'a result = "lsm_error + 'a"

definition bind_result :: "'a result \<Rightarrow> ('a \<Rightarrow> 'b result) \<Rightarrow> 'b result" where
  "bind_result r f = (case r of Inl e \<Rightarrow> Inl e | Inr x \<Rightarrow> f x)"

lemma bind_result_simps [simp]:
  "bind_result (Inl e) f = Inl e"
  "bind_result (Inr x) f = f x"
  by (simp_all add: bind_result_def)

lemma bind_result_InrE:
  assumes "bind_result r f = Inr y"
  obtains x where "r = Inr x" "f x = Inr y"
  using assms by (cases r) auto

lemma bind_result_Inr_iff:
  "bind_result r f = Inr y \<longleftrightarrow> (\<exists>x. r = Inr x \<and> f x = Inr y)"
  by (cases r) auto

text \<open>Outcomes of code with loops that may not end: \<open>None\<close> is a run that never returns.\<close>

lemma find_append: "List.find P (xs @ ys) = (case List.find P xs of None \<Rightarrow> List.find P ys | Some x \<Rightarrow> Some x)"
  by (induction xs) auto

lemma find_Some_set: "List.find P xs = Some x \<Longrightarrow> x \<in> set xs \<and> P x"
  by (auto simp: find_Some_iff)

definition bind_outcome :: "'a result option \<Rightarrow> ('a \<Rightarrow> 'b result option) \<Rightarrow> 'b result option" where
  "bind_outcome m f = (case m of None \<Rightarrow> None | Some (Inl e) \<Rightarrow> Some (Inl e) | Some (Inr x) \<Rightarrow> f x)"

lemma bind_outcome_simps [simp]:
  "bind_outcome None f = None"
  "bind_outcome (Some (Inl e)) f = Some (Inl e)"
  "bind_outcome (Some (Inr x)) f = f x"
  by (simp_all add: bind_outcome_def)

section \<open>Slices\<close>

text \<open>
  \<open>bslice a b xs\<close> is Go's \<^verbatim>\<open>xs[a:b]\<close> where it is in range; \<open>go_slice\<close> is the same
  expression with the panic written out.
\<close>

text \<open>The value of an \<^verbatim>\<open>int\<close> expression, which wraps at 64 bits.\<close>

definition go_int :: "int \<Rightarrow> int" where
  "go_int n = sint (word_of_int n :: 64 word)"

lemma go_int_id: "- (2 ^ 63) \<le> n \<Longrightarrow> n < 2 ^ 63 \<Longrightarrow> go_int n = n"
  unfolding go_int_def by transfer (simp add: signed_take_bit_int_eq_self)

lemma go_int_range: "- (2 ^ 63) \<le> go_int n" "go_int n < 2 ^ 63"
  using sint_ge [of "word_of_int n :: 64 word"] sint_lt [of "word_of_int n :: 64 word"] by (simp_all add: go_int_def)

lemma go_int_wraps:
  assumes "2 ^ 63 \<le> n" "n \<le> 2 ^ 64"
  shows "go_int n \<le> 0"
proof -
  have "(word_of_int n :: 64 word) = word_of_int (n - 2 ^ 64)"
    by transfer (simp add: take_bit_eq_mod mod_diff_eq [symmetric])
  then have "go_int n = go_int (n - 2 ^ 64)" by (simp only: go_int_def)
  then show ?thesis using assms go_int_id [of "n - 2 ^ 64"] by simp
qed

definition bslice :: "nat \<Rightarrow> nat \<Rightarrow> 'a list \<Rightarrow> 'a list" where
  "bslice a b xs = take (b - a) (drop a xs)"

text \<open>
  A slice expression, which panics out of range.  Go bounds it by the capacity; the buffers here have no spare
  capacity, so that it is their length.
\<close>

definition go_slice :: "nat \<Rightarrow> nat \<Rightarrow> 'a list \<Rightarrow> 'a list result" where
  "go_slice a b xs = (if a \<le> b \<and> b \<le> length xs then Inr (bslice a b xs) else Inl PanicBounds)"

lemma length_bslice [codec_simps]: "b \<le> length xs \<Longrightarrow> length (bslice a b xs) = b - a"
  by (simp add: bslice_def)

lemma bslice_append1: "b \<le> length xs \<Longrightarrow> bslice a b (xs @ ys) = bslice a b xs"
  by (simp add: bslice_def)

lemma bslice_append2:
  "length xs \<le> a \<Longrightarrow> bslice a b (xs @ ys) = bslice (a - length xs) (b - length xs) ys"
  by (simp add: bslice_def)

lemma bslice_all: "length xs \<le> b \<Longrightarrow> bslice 0 b xs = xs"
  by (simp add: bslice_def)

lemma bslice_drop: "bslice a b (drop n xs) = bslice (n + a) (n + b) xs"
  by (simp add: bslice_def add.commute)

lemma bslice_take: "b \<le> n \<Longrightarrow> bslice a b (take n xs) = bslice a b xs"
  by (simp add: bslice_def drop_take min_def)

lemma bslice_append_exact:
  "a = length xs \<Longrightarrow> b = length xs + length ys \<Longrightarrow> bslice a b (xs @ ys @ zs) = ys"
  by (simp add: bslice_def)

lemma go_slice_in_range:
  "a \<le> b \<Longrightarrow> b \<le> length xs \<Longrightarrow> go_slice a b xs = Inr (bslice a b xs)"
  by (simp add: go_slice_def)

section \<open>Little-endian integers\<close>

text \<open>
  \<^verbatim>\<open>binary.LittleEndian.PutUintN\<close> writes byte \<open>i\<close> as \<^verbatim>\<open>byte(v >> (8*i))\<close>;
  \<^verbatim>\<open>UintN\<close> is the disjunction of the bytes shifted back.
\<close>

definition put_le :: "nat \<Rightarrow> 'a::len word \<Rightarrow> bytes" where
  "put_le n w = map (\<lambda>i. ucast (drop_bit (8 * i) w)) [0..<n]"

fun get_le :: "bytes \<Rightarrow> 'a::len word" where
  "get_le [] = 0"
| "get_le (b # bs) = ucast b OR push_bit 8 (get_le bs)"

abbreviation PutUint16 :: "u16 \<Rightarrow> bytes" where "PutUint16 \<equiv> put_le 2"
abbreviation PutUint32 :: "u32 \<Rightarrow> bytes" where "PutUint32 \<equiv> put_le 4"
abbreviation PutUint64 :: "u64 \<Rightarrow> bytes" where "PutUint64 \<equiv> put_le 8"
abbreviation Uint16 :: "bytes \<Rightarrow> u16" where "Uint16 \<equiv> get_le"
abbreviation Uint32 :: "bytes \<Rightarrow> u32" where "Uint32 \<equiv> get_le"
abbreviation Uint64 :: "bytes \<Rightarrow> u64" where "Uint64 \<equiv> get_le"

lemma length_put_le [simp, codec_simps]: "length (put_le n w) = n"
  by (simp add: put_le_def)

lemma bit_get_le:
  "bit (get_le bs :: 'a::len word) i \<longleftrightarrow>
     i < LENGTH('a) \<and> i div 8 < length bs \<and> bit (bs ! (i div 8)) (i mod 8)"
proof (induction bs arbitrary: i)
  case Nil
  then show ?case by simp
next
  case (Cons b bs)
  show ?case
  proof (cases "i < 8")
    case True
    then show ?thesis
      by (auto simp: bit_or_iff bit_push_bit_iff bit_ucast_iff dest: bit_imp_le_length)
  next
    case False
    then have "i div 8 = Suc ((i - 8) div 8)" "i mod 8 = (i - 8) mod 8"
      by (simp_all add: le_div_geq le_mod_geq)
    with False Cons.IH [of "i - 8"] show ?thesis
      by (auto simp: bit_or_iff bit_push_bit_iff bit_ucast_iff dest: bit_imp_le_length)
  qed
qed

lemma get_put_le:
  assumes "8 * n = LENGTH('a::len)"
  shows "(get_le (put_le n w) :: 'a word) = w"
proof (rule bit_word_eqI)
  fix i assume i: "i < LENGTH('a)"
  with assms have "i div 8 < n" by (simp add: less_mult_imp_div_less)
  then show "bit (get_le (put_le n w) :: 'a word) i = bit w i"
    using i by (simp add: bit_get_le put_le_def bit_ucast_iff bit_drop_bit_eq
        mult.commute [of 8])
qed

lemma get_put_le_word [simp, codec_simps]:
  "Uint16 (PutUint16 a) = a"
  "Uint32 (PutUint32 b) = b"
  "Uint64 (PutUint64 c) = c"
  by (rule get_put_le, simp)+

lemma put_get_le:
  assumes "length bs = n" "8 * n = LENGTH('a::len)"
  shows "put_le n (get_le bs :: 'a word) = bs"
proof (rule nth_equalityI)
  show "length (put_le n (get_le bs :: 'a word)) = length bs" using assms by simp
next
  fix i assume "i < length (put_le n (get_le bs :: 'a word))"
  then have i: "i < n" by simp
  show "put_le n (get_le bs :: 'a word) ! i = bs ! i"
  proof (rule bit_word_eqI)
    fix j assume "j < LENGTH(8)"
    then have j: "j < 8" by simp
    with i assms have "8 * i + j < LENGTH('a)" by linarith
    with i j assms show "bit (put_le n (get_le bs :: 'a word) ! i) j = bit (bs ! i) j"
      by (simp add: put_le_def bit_ucast_iff bit_drop_bit_eq bit_get_le)
  qed
qed

section \<open>Bounds of words as numbers\<close>

lemma unat_u32_less: "unat (w :: u32) < 2 ^ 32"
proof -
  have "unat w < 2 ^ LENGTH(32)" by (rule unsigned_less)
  then show ?thesis by simp
qed

lemma unat_u64_less: "unat (w :: u64) < 2 ^ 64"
proof -
  have "unat w < 2 ^ LENGTH(64)" by (rule unsigned_less)
  then show ?thesis by simp
qed

lemma unat_word_of_nat_u32: "n < 2 ^ 32 \<Longrightarrow> unat (word_of_nat n :: u32) = n"
  by (simp add: unat_of_nat take_bit_nat_eq_self)

lemma unat_word_of_nat_u64: "n < 2 ^ 64 \<Longrightarrow> unat (word_of_nat n :: u64) = n"
  by (simp add: unat_of_nat take_bit_nat_eq_self)

end
