(* ===== verification/Go_Std.thy ===== *)
theory Go_Std
  imports LSM_Prelude
begin

text \<open>
  The parts of Go's standard library the engine computes with: \<^verbatim>\<open>hash/crc32\<close>,
  \<^verbatim>\<open>hash/fnv\<close>, \<^verbatim>\<open>sort.Search\<close>, \<^verbatim>\<open>sort.Slice\<close> and \<^verbatim>\<open>container/heap\<close>.
  The lemmas show that the binary search finds the least index of a monotone predicate, that
  sorting orders and permutes, and that a heap hands out a least element and keeps the rest.
\<close>

section \<open>Checksums and hashes\<close>

fun crc_shift :: "nat \<Rightarrow> u32 \<Rightarrow> u32 \<Rightarrow> u32" where
  "crc_shift 0 poly c = c"
| "crc_shift (Suc n) poly c =
     crc_shift n poly (if bit c 0 then drop_bit 1 c XOR poly else drop_bit 1 c)"

definition crc_table :: "u32 \<Rightarrow> byte \<Rightarrow> u32" where
  "crc_table poly i = crc_shift 8 poly (ucast i)"

definition crc_step :: "u32 \<Rightarrow> byte \<Rightarrow> u32 \<Rightarrow> u32" where
  "crc_step poly v c = crc_table poly (ucast c XOR v) XOR drop_bit 8 c"

definition crc32_update :: "u32 \<Rightarrow> u32 \<Rightarrow> bytes \<Rightarrow> u32" where
  "crc32_update poly c p = NOT (fold (crc_step poly) p (NOT c))"

definition IEEE :: u32 where "IEEE = 0xedb88320"
definition Castagnoli :: u32 where "Castagnoli = 0x82f63b78"

abbreviation ChecksumIEEE :: "bytes \<Rightarrow> u32" where
  "ChecksumIEEE \<equiv> crc32_update IEEE 0"

abbreviation ChecksumCastagnoli :: "bytes \<Rightarrow> u32" where
  "ChecksumCastagnoli \<equiv> crc32_update Castagnoli 0"

lemma crc32_update_append:
  "crc32_update poly (crc32_update poly c a) b = crc32_update poly c (a @ b)"
  by (simp add: crc32_update_def)

lemma crc32_update_Nil [simp]: "crc32_update poly c [] = c"
  by (simp add: crc32_update_def)

definition fnv64a_step :: "byte \<Rightarrow> u64 \<Rightarrow> u64" where
  "fnv64a_step b h = (h XOR ucast b) * 1099511628211"

definition fnv64a :: "bytes \<Rightarrow> u64" where
  "fnv64a p = fold fnv64a_step p 14695981039346656037"

section \<open>Binary search\<close>

function search_loop :: "(nat \<Rightarrow> bool) \<Rightarrow> nat \<Rightarrow> nat \<Rightarrow> nat" where
  "search_loop f i j =
     (if i < j then
        let h = (i + j) div 2
        in if \<not> f h then search_loop f (h + 1) j else search_loop f i h
      else i)"
  by pat_completeness auto
termination by (relation "measure (\<lambda>(f, i, j). j - i)") auto

declare search_loop.simps [simp del]

definition sort_Search :: "nat \<Rightarrow> (nat \<Rightarrow> bool) \<Rightarrow> nat" where
  "sort_Search n f = search_loop f 0 n"

lemma search_loop_bounds: "i \<le> j \<Longrightarrow> i \<le> search_loop f i j \<and> search_loop f i j \<le> j"
proof (induction f i j rule: search_loop.induct)
  case (1 f i j)
  show ?case
  proof (cases "i < j")
    case True
    define h where "h = (i + j) div 2"
    have h: "i \<le> h" "h < j" using True by (auto simp: h_def)
    have eq: "search_loop f i j = (if f h then search_loop f i h else search_loop f (h + 1) j)"
      using True by (subst search_loop.simps) (simp add: h_def Let_def)
    show ?thesis
      unfolding eq using "1.IH" [OF True h_def] h by auto
  next
    case False
    with "1.prems" show ?thesis by (simp add: search_loop.simps)
  qed
qed

lemma search_loop_least:
  assumes "\<And>a b. a \<le> b \<Longrightarrow> b < n \<Longrightarrow> f a \<Longrightarrow> f b"
    and "i \<le> j" "j \<le> n" "\<And>k. k < i \<Longrightarrow> \<not> f k" "j < n \<Longrightarrow> f j"
  shows "(\<forall>k < search_loop f i j. \<not> f k) \<and> (search_loop f i j < n \<longrightarrow> f (search_loop f i j))"
  using assms
proof (induction f i j rule: search_loop.induct)
  case (1 f i j)
  note mono = "1.prems"(1)
  show ?case
  proof (cases "i < j")
    case True
    define h where "h = (i + j) div 2"
    have h: "i \<le> h" "h < j" using True by (auto simp: h_def)
    show ?thesis
    proof (cases "f h")
      case fh: True
      have eq: "search_loop f i j = search_loop f i h"
        using True fh by (subst search_loop.simps) (simp add: h_def Let_def)
      show ?thesis
        unfolding eq
        by (rule "1.IH"(2) [OF True h_def]) (use fh h mono "1.prems" in \<open>auto\<close>)
    next
      case fh: False
      have eq: "search_loop f i j = search_loop f (h + 1) j"
        using True fh by (subst search_loop.simps) (simp add: h_def Let_def)
      have "\<not> f k" if "k < h + 1" for k
        using mono [of k h] fh h that "1.prems"(3) by auto
      then show ?thesis
        unfolding eq
        by (intro "1.IH"(1) [OF True h_def]) (use fh h mono "1.prems" in \<open>auto\<close>)
    qed
  next
    case False
    with "1.prems" have "i = j" by simp
    with "1.prems" show ?thesis by (simp add: search_loop.simps)
  qed
qed

lemma sort_Search_le: "sort_Search n f \<le> n"
  using search_loop_bounds [of 0 n f] by (simp add: sort_Search_def)

lemma sort_Search_least:
  assumes "\<And>a b. a \<le> b \<Longrightarrow> b < n \<Longrightarrow> f a \<Longrightarrow> f b"
  shows "k < sort_Search n f \<Longrightarrow> \<not> f k" and "sort_Search n f < n \<Longrightarrow> f (sort_Search n f)"
  using search_loop_least [of n f 0 n] assms by (auto simp: sort_Search_def)

lemma search_loop_step:
  "i < j \<Longrightarrow> search_loop f i j =
     (if f ((i + j) div 2) then search_loop f i ((i + j) div 2)
      else search_loop f ((i + j) div 2 + 1) j)"
  by (subst search_loop.simps) (simp add: Let_def)

lemma search_loop_end: "\<not> i < j \<Longrightarrow> search_loop f i j = i"
  by (subst search_loop.simps) simp

lemma search_loop_cong:
  "(\<And>k. k < j \<Longrightarrow> f k = g k) \<Longrightarrow> search_loop f i j = search_loop g i j"
proof (induction "j - i" arbitrary: i j rule: less_induct)
  case less
  show ?case
  proof (cases "i < j")
    case True
    let ?h = "(i + j) div 2"
    have h: "i \<le> ?h" "?h < j" using True by auto
    have "search_loop f (?h + 1) j = search_loop g (?h + 1) j"
      using h less.prems by (intro less.hyps) auto
    moreover have "search_loop f i ?h = search_loop g i ?h"
      using h less.prems by (intro less.hyps) auto
    ultimately show ?thesis
      using less.prems [OF h(2)] by (simp only: search_loop_step [OF True])
  next
    case False
    then show ?thesis by (simp add: search_loop_end)
  qed
qed

lemma sort_Search_cong: "(\<And>k. k < n \<Longrightarrow> f k = g k) \<Longrightarrow> sort_Search n f = sort_Search n g"
  unfolding sort_Search_def by (rule search_loop_cong)

section \<open>Sorting\<close>

text \<open>
  \<^verbatim>\<open>sort.Slice\<close> leaves the order of equivalent elements open; the model keeps their input
  order.  The comparators of the engine are total on the lists they sort, or the position of
  equivalent elements does not matter to a property below.
\<close>

fun insert_by :: "('a \<Rightarrow> 'a \<Rightarrow> bool) \<Rightarrow> 'a \<Rightarrow> 'a list \<Rightarrow> 'a list" where
  "insert_by lt x [] = [x]"
| "insert_by lt x (y # ys) = (if lt x y then x # y # ys else y # insert_by lt x ys)"

definition sort_Slice :: "('a \<Rightarrow> 'a \<Rightarrow> bool) \<Rightarrow> 'a list \<Rightarrow> 'a list" where
  "sort_Slice lt xs = fold (insert_by lt) xs []"

lemma mset_insert_by [simp]: "mset (insert_by lt x ys) = add_mset x (mset ys)"
  by (induction ys) auto

lemma set_insert_by [simp]: "set (insert_by lt x ys) = insert x (set ys)"
  by (induction ys) auto

lemma length_insert_by [simp]: "length (insert_by lt x ys) = Suc (length ys)"
  by (induction ys) auto

lemma mset_fold_insert_by: "mset (fold (insert_by lt) xs ys) = mset xs + mset ys"
  by (induction xs arbitrary: ys) auto

lemma mset_sort_Slice [simp]: "mset (sort_Slice lt xs) = mset xs"
  by (simp add: sort_Slice_def mset_fold_insert_by)

lemma set_sort_Slice [simp]: "set (sort_Slice lt xs) = set xs"
  by (rule mset_eq_setD) simp

lemma length_sort_Slice [simp]: "length (sort_Slice lt xs) = length xs"
  by (rule mset_eq_length) simp

lemma distinct_map_sort_Slice [simp]:
  "distinct (map f (sort_Slice lt xs)) \<longleftrightarrow> distinct (map f xs)"
  by (rule mset_eq_imp_distinct_iff) simp

text \<open>What a comparator handed to \<^verbatim>\<open>sort.Slice\<close> or \<^verbatim>\<open>container/heap\<close> promises.\<close>

locale strict_weak =
  fixes lt :: "'a \<Rightarrow> 'a \<Rightarrow> bool"
  assumes lt_asym: "lt x y \<Longrightarrow> \<not> lt y x"
    and lt_cotrans: "lt x z \<Longrightarrow> lt x y \<or> lt y z"
begin

lemma lt_irrefl: "\<not> lt x x"
  using lt_asym [of x x] by blast

lemma lt_trans: "lt x y \<Longrightarrow> lt y z \<Longrightarrow> lt x z"
  using lt_asym [of y z] lt_cotrans [of x y z] by blast

lemma not_lt_trans: "\<not> lt y x \<Longrightarrow> \<not> lt z y \<Longrightarrow> \<not> lt z x"
  using lt_cotrans [of z x y] by blast

lemma sorted_insert_by:
  "sorted_wrt (\<lambda>a b. \<not> lt b a) ys \<Longrightarrow> sorted_wrt (\<lambda>a b. \<not> lt b a) (insert_by lt x ys)"
proof (induction ys)
  case (Cons y ys)
  show ?case
  proof (cases "lt x y")
    case True
    then have "\<not> lt z x" if "z \<in> set ys" for z
      using Cons.prems that lt_trans [of z x y] by auto
    with True Cons.prems show ?thesis by (simp add: lt_asym)
  next
    case False
    with Cons show ?thesis by simp
  qed
qed simp

lemma sorted_sort_Slice: "sorted_wrt (\<lambda>a b. \<not> lt b a) (sort_Slice lt xs)"
proof -
  have "sorted_wrt (\<lambda>a b. \<not> lt b a) ys \<Longrightarrow>
          sorted_wrt (\<lambda>a b. \<not> lt b a) (fold (insert_by lt) xs ys)" for ys
    by (induction xs arbitrary: ys) (auto simp: sorted_insert_by)
  then show ?thesis by (simp add: sort_Slice_def)
qed

end

section \<open>Heaps\<close>

text \<open>
  \<^verbatim>\<open>container/heap\<close> on a slice: \<^verbatim>\<open>Init\<close>, \<^verbatim>\<open>Push\<close> and \<^verbatim>\<open>Pop\<close>
  with their \<^verbatim>\<open>up\<close> and \<^verbatim>\<open>down\<close> loops.  The element type's own
  \<^verbatim>\<open>Push\<close> appends and its \<^verbatim>\<open>Pop\<close> takes the last element.
\<close>

definition swap_nth :: "'a list \<Rightarrow> nat \<Rightarrow> nat \<Rightarrow> 'a list" where
  "swap_nth h i j = h[i := h ! j, j := h ! i]"

function heap_up :: "('a \<Rightarrow> 'a \<Rightarrow> bool) \<Rightarrow> 'a list \<Rightarrow> nat \<Rightarrow> 'a list" where
  "heap_up lt h j =
     (let i = (j - 1) div 2
      in if i = j \<or> \<not> lt (h ! j) (h ! i) then h else heap_up lt (swap_nth h i j) i)"
  by pat_completeness auto
termination by (relation "measure (\<lambda>(lt, h, j). j)") auto

definition smaller_child :: "('a \<Rightarrow> 'a \<Rightarrow> bool) \<Rightarrow> 'a list \<Rightarrow> nat \<Rightarrow> nat \<Rightarrow> nat" where
  "smaller_child lt h i n =
     (if 2 * i + 2 < n \<and> lt (h ! (2 * i + 2)) (h ! (2 * i + 1)) then 2 * i + 2 else 2 * i + 1)"

function heap_down :: "('a \<Rightarrow> 'a \<Rightarrow> bool) \<Rightarrow> 'a list \<Rightarrow> nat \<Rightarrow> nat \<Rightarrow> 'a list" where
  "heap_down lt h i n =
     (if 2 * i + 1 \<ge> n then h
      else let j = smaller_child lt h i n
           in if \<not> lt (h ! j) (h ! i) then h else heap_down lt (swap_nth h i j) j n)"
  by pat_completeness auto
termination
  by (relation "measure (\<lambda>(lt, h, i, n). n - i)") (auto simp: smaller_child_def)

declare heap_up.simps [simp del] heap_down.simps [simp del]

fun heap_init_loop :: "('a \<Rightarrow> 'a \<Rightarrow> bool) \<Rightarrow> 'a list \<Rightarrow> nat \<Rightarrow> 'a list" where
  "heap_init_loop lt h 0 = h"
| "heap_init_loop lt h (Suc i) = heap_init_loop lt (heap_down lt h i (length h)) i"

definition heap_Init :: "('a \<Rightarrow> 'a \<Rightarrow> bool) \<Rightarrow> 'a list \<Rightarrow> 'a list" where
  "heap_Init lt h = heap_init_loop lt h (length h div 2)"

definition heap_Push :: "('a \<Rightarrow> 'a \<Rightarrow> bool) \<Rightarrow> 'a list \<Rightarrow> 'a \<Rightarrow> 'a list" where
  "heap_Push lt h x = heap_up lt (h @ [x]) (length h)"

definition heap_Pop :: "('a \<Rightarrow> 'a \<Rightarrow> bool) \<Rightarrow> 'a list \<Rightarrow> 'a \<times> 'a list" where
  "heap_Pop lt h =
     (let n = length h - 1; h' = heap_down lt (swap_nth h 0 n) 0 n
      in (last h', butlast h'))"

text \<open>Entries of the heap at \<open>i\<close> whose parent index is at least \<open>a\<close> are not below their parent.\<close>

definition heap_from :: "('a \<Rightarrow> 'a \<Rightarrow> bool) \<Rightarrow> nat \<Rightarrow> nat \<Rightarrow> 'a list \<Rightarrow> bool" where
  "heap_from lt a n h \<longleftrightarrow>
     (\<forall>k. 0 < k \<and> k < n \<and> a \<le> (k - 1) div 2 \<longrightarrow> \<not> lt (h ! k) (h ! ((k - 1) div 2)))"

definition heap_ok :: "('a \<Rightarrow> 'a \<Rightarrow> bool) \<Rightarrow> 'a list \<Rightarrow> bool" where
  "heap_ok lt h \<longleftrightarrow> heap_from lt 0 (length h) h"

lemma length_swap_nth [simp]: "length (swap_nth h i j) = length h"
  by (simp add: swap_nth_def)

lemma mset_swap_nth [simp]:
  "i < length h \<Longrightarrow> j < length h \<Longrightarrow> mset (swap_nth h i j) = mset h"
  by (simp add: swap_nth_def mset_swap)

lemma nth_swap_nth:
  "i < length h \<Longrightarrow> j < length h \<Longrightarrow> k < length h \<Longrightarrow>
     swap_nth h i j ! k = (if k = j then h ! i else if k = i then h ! j else h ! k)"
  by (simp add: swap_nth_def nth_list_update)

lemma smaller_child_bounds:
  "2 * i + 1 < n \<Longrightarrow> i < smaller_child lt h i n \<and> smaller_child lt h i n < n"
  by (simp add: smaller_child_def)

lemma smaller_child_parent [simp]: "(smaller_child lt h i n - Suc 0) div 2 = i"
  by (simp add: smaller_child_def)

lemma mset_heap_down: "n \<le> length h \<Longrightarrow> mset (heap_down lt h i n) = mset h"
proof (induction lt h i n rule: heap_down.induct)
  case (1 lt h i n)
  then show ?case
    using smaller_child_bounds [of i n lt h]
    by (subst heap_down.simps) (auto simp: Let_def)
qed

lemma length_heap_down [simp]: "length (heap_down lt h i n) = length h"
proof (induction lt h i n rule: heap_down.induct)
  case (1 lt h i n)
  then show ?case by (subst heap_down.simps) (auto simp: Let_def)
qed

lemma nth_heap_down_ge:
  "n \<le> k \<Longrightarrow> k < length h \<Longrightarrow> heap_down lt h i n ! k = h ! k"
proof (induction lt h i n rule: heap_down.induct)
  case (1 lt h i n)
  then show ?case
    using smaller_child_bounds [of i n lt h]
    by (subst heap_down.simps) (auto simp: Let_def nth_swap_nth)
qed

lemma mset_heap_up: "j < length h \<Longrightarrow> mset (heap_up lt h j) = mset h"
proof (induction lt h j rule: heap_up.induct)
  case (1 lt h j)
  have "(j - 1) div 2 < length h" using "1.prems" by linarith
  with 1 show ?case by (subst heap_up.simps) (auto simp: Let_def)
qed

lemma length_heap_up [simp]: "j < length h \<Longrightarrow> length (heap_up lt h j) = length h"
  by (rule mset_eq_length) (rule mset_heap_up)

lemma mset_heap_Push [simp]: "mset (heap_Push lt h x) = add_mset x (mset h)"
  by (simp add: heap_Push_def mset_heap_up)

lemma length_heap_Push [simp]: "length (heap_Push lt h x) = Suc (length h)"
  by (simp add: heap_Push_def)

lemma mset_heap_init_loop: "mset (heap_init_loop lt h i) = mset h"
  by (induction lt h i rule: heap_init_loop.induct) (auto simp: mset_heap_down)

lemma mset_heap_Init [simp]: "mset (heap_Init lt h) = mset h"
  by (simp add: heap_Init_def mset_heap_init_loop)

lemma length_heap_Init [simp]: "length (heap_Init lt h) = length h"
  by (rule mset_eq_length) simp

lemma heap_Pop_fst: "h \<noteq> [] \<Longrightarrow> fst (heap_Pop lt h) = h ! 0"
  by (simp add: heap_Pop_def Let_def last_conv_nth nth_heap_down_ge nth_swap_nth
      flip: length_greater_0_conv)

lemma heap_Pop_mset:
  assumes "h \<noteq> []"
  shows "mset h = add_mset (fst (heap_Pop lt h)) (mset (snd (heap_Pop lt h)))"
proof -
  define h' where "h' = heap_down lt (swap_nth h 0 (length h - 1)) 0 (length h - 1)"
  have m: "mset h' = mset h"
    using assms by (simp add: h'_def mset_heap_down)
  with assms have "h' \<noteq> []" by auto
  then have "mset h' = add_mset (last h') (mset (butlast h'))"
    by (metis append_butlast_last_id mset.simps(2) mset_rev rev.simps(2) rev_rev_ident)
  with m show ?thesis by (simp add: heap_Pop_def Let_def h'_def)
qed

lemma length_heap_Pop [simp]: "length (snd (heap_Pop lt h)) = length h - 1"
  by (simp add: heap_Pop_def Let_def)

context strict_weak
begin

lemma heap_down_from:
  assumes "n \<le> length h" "a \<le> i"
    and "\<And>k. 0 < k \<Longrightarrow> k < n \<Longrightarrow> a \<le> (k - 1) div 2 \<Longrightarrow> (k - 1) div 2 \<noteq> i \<Longrightarrow>
            \<not> lt (h ! k) (h ! ((k - 1) div 2))"
    and "\<And>k. 0 < i \<Longrightarrow> a \<le> (i - 1) div 2 \<Longrightarrow> 0 < k \<Longrightarrow> k < n \<Longrightarrow> (k - 1) div 2 = i \<Longrightarrow>
            \<not> lt (h ! k) (h ! ((i - 1) div 2))"
  shows "heap_from lt a n (heap_down lt h i n)"
  using assms
proof (induction "n - i" arbitrary: h i rule: less_induct)
  case less
  define j where "j = smaller_child lt h i n"
  show ?case
  proof (cases "n \<le> 2 * i + 1")
    case True
    then have "(k - 1) div 2 \<noteq> i" if "0 < k" "k < n" for k
      using that by (auto; presburger)
    with True less.prems(3) show ?thesis
      by (simp add: heap_down.simps [of lt h i n] heap_from_def)
  next
    case inner: False
    then have j: "i < j" "j < n" "(j - 1) div 2 = i"
      unfolding j_def using smaller_child_bounds [of i n lt h] by auto
    have least: "\<not> lt (h ! k) (h ! j)" if "0 < k" "k < n" "(k - 1) div 2 = i" for k
    proof -
      have "k = 2 * i + 1 \<or> k = 2 * i + 2" using that by presburger
      with that(2) show ?thesis
        unfolding j_def smaller_child_def by (auto dest: lt_asym simp: lt_irrefl)
    qed
    show ?thesis
    proof (cases "lt (h ! j) (h ! i)")
      case False
      have "\<not> lt (h ! k) (h ! ((k - 1) div 2))" if "0 < k" "k < n" "a \<le> (k - 1) div 2" for k
        using that False least [of k] less.prems(3) [of k]
          not_lt_trans [of "h ! j" "h ! i" "h ! k"] by (cases "(k - 1) div 2 = i") auto
      with False inner show ?thesis
        by (simp add: heap_down.simps [of lt h i n] heap_from_def j_def [symmetric] Let_def)
    next
      case True
      let ?h = "swap_nth h i j"
      have nth: "?h ! k = (if k = j then h ! i else if k = i then h ! j else h ! k)"
        if "k < n" for k
        using that j less.prems(1) by (simp add: nth_swap_nth)
      have eq: "heap_down lt h i n = heap_down lt ?h j n"
        using inner True by (subst heap_down.simps) (simp add: j_def [symmetric] Let_def)
      have "heap_from lt a n (heap_down lt ?h j n)"
      proof (rule less.hyps)
        show "n - j < n - i" "n \<le> length ?h" "a \<le> j"
          using j less.prems(1,2) by auto
      next
        fix k assume k: "0 < k" "k < n" "a \<le> (k - 1) div 2" "(k - 1) div 2 \<noteq> j"
        have p: "(k - 1) div 2 < n" "(k - 1) div 2 < k" using k by linarith+
        show "\<not> lt (?h ! k) (?h ! ((k - 1) div 2))"
        proof (cases "(k - 1) div 2 = i")
          case True
          with k p j \<open>lt (h ! j) (h ! i)\<close> least [of k] show ?thesis
            by (auto simp: nth dest: lt_asym)
        next
          case False
          with k p j less.prems(3) [of k] less.prems(4) [of j] show ?thesis
            by (auto simp: nth)
        qed
      next
        fix k assume k: "0 < j" "a \<le> (j - 1) div 2" "0 < k" "k < n" "(k - 1) div 2 = j"
        then have "k \<noteq> i" "k \<noteq> j" using j by auto
        with k j less.prems(3) [of k] show "\<not> lt (?h ! k) (?h ! ((j - 1) div 2))"
          by (simp add: nth)
      qed
      with eq show ?thesis by simp
    qed
  qed
qed

lemma heap_up_from:
  assumes "j < length h"
    and "\<And>k. 0 < k \<Longrightarrow> k < length h \<Longrightarrow> k \<noteq> j \<Longrightarrow> \<not> lt (h ! k) (h ! ((k - 1) div 2))"
    and "\<And>k. 0 < j \<Longrightarrow> 0 < k \<Longrightarrow> k < length h \<Longrightarrow> (k - 1) div 2 = j \<Longrightarrow>
            \<not> lt (h ! k) (h ! ((j - 1) div 2))"
  shows "heap_ok lt (heap_up lt h j)"
  using assms
proof (induction j arbitrary: h rule: less_induct)
  case (less j)
  define i where "i = (j - 1) div 2"
  have par: "(j - Suc 0) div 2 = i" by (simp add: i_def)
  show ?case
  proof (cases "i = j \<or> \<not> lt (h ! j) (h ! i)")
    case True
    then have "\<not> lt (h ! k) (h ! ((k - 1) div 2))" if "0 < k" "k < length h" for k
      using less.prems(2) [of k] that by (cases "k = j") (auto simp: par lt_irrefl)
    with True show ?thesis
      by (subst heap_up.simps) (auto simp: heap_ok_def heap_from_def Let_def par)
  next
    case False
    then have i: "i < j" "0 < j" unfolding i_def by linarith+
    let ?h = "swap_nth h i j"
    have nth: "?h ! k = (if k = j then h ! i else if k = i then h ! j else h ! k)"
      if "k < length h" for k
      using that i less.prems(1) by (simp add: nth_swap_nth)
    have eq: "heap_up lt h j = heap_up lt ?h i"
      using False by (subst heap_up.simps) (simp add: Let_def par)
    have "heap_ok lt (heap_up lt ?h i)"
    proof (rule less.IH [OF i(1)])
      show "i < length ?h" using i less.prems(1) by simp
    next
      fix k assume k: "0 < k" "k < length ?h" "k \<noteq> i"
      then have p: "(k - 1) div 2 < length h" "(k - 1) div 2 < k" by (simp, linarith+)
      consider "k = j" | "k \<noteq> j" "(k - 1) div 2 = i" | "k \<noteq> j" "(k - 1) div 2 = j"
        | "k \<noteq> j" "(k - 1) div 2 \<noteq> i" "(k - 1) div 2 \<noteq> j" by blast
      then show "\<not> lt (?h ! k) (?h ! ((k - 1) div 2))"
      proof cases
        case 1
        with False k p i show ?thesis by (simp add: nth lt_asym par)
      next
        case 2
        with k p i False less.prems(2) [of k] not_lt_trans [of "h ! i" "h ! j" "h ! k"]
        show ?thesis by (auto simp: nth dest: lt_asym)
      next
        case 3
        with k p i less.prems(3) [of k] show ?thesis by (auto simp: nth par)
      next
        case 4
        with k p less.prems(2) [of k] show ?thesis by (simp add: nth)
      qed
    next
      fix k assume k: "0 < i" "0 < k" "k < length ?h" "(k - 1) div 2 = i"
      have pp: "(i - 1) div 2 < i" using k(1) by linarith
      have ok: "\<not> lt (h ! i) (h ! ((i - 1) div 2))"
        using less.prems(1) less.prems(2) [of i] k i by auto
      have "\<not> lt (h ! k) (h ! i)" if "k \<noteq> j"
        using less.prems(2) [of k] k that by simp
      with ok have "\<not> lt (h ! k) (h ! ((i - 1) div 2))" if "k \<noteq> j"
        using that not_lt_trans [of "h ! i" "h ! ((i - 1) div 2)" "h ! k"] by simp
      moreover have "k \<noteq> i" using k i by auto
      ultimately show "\<not> lt (?h ! k) (?h ! ((i - 1) div 2))"
        using k pp ok i less.prems(1) by (auto simp: nth)
    qed
    with eq show ?thesis by simp
  qed
qed

lemma heap_ok_Push:
  assumes "heap_ok lt h"
  shows "heap_ok lt (heap_Push lt h x)"
proof -
  have "\<not> lt ((h @ [x]) ! k) ((h @ [x]) ! ((k - 1) div 2))" if "0 < k" "k < length h" for k
  proof -
    have "(k - 1) div 2 < length h" using that by linarith
    with that assms show ?thesis by (simp add: heap_ok_def heap_from_def nth_append)
  qed
  then show ?thesis
    unfolding heap_Push_def by (intro heap_up_from) auto
qed

lemma heap_ok_init_loop:
  "heap_from lt i (length h) h \<Longrightarrow> heap_ok lt (heap_init_loop lt h i)"
proof (induction i arbitrary: h)
  case 0
  then show ?case by (simp add: heap_ok_def)
next
  case (Suc i)
  have "heap_from lt i (length h) (heap_down lt h i (length h))"
  proof (rule heap_down_from)
    fix k assume "0 < k" "k < length h" "i \<le> (k - 1) div 2" "(k - 1) div 2 \<noteq> i"
    then show "\<not> lt (h ! k) (h ! ((k - 1) div 2))"
      using Suc.prems by (simp add: heap_from_def)
  next
    fix k assume "0 < i" "i \<le> (i - 1) div 2"
    then show "\<not> lt (h ! k) (h ! ((i - 1) div 2))" by linarith
  qed simp_all
  then show ?case using Suc.IH [of "heap_down lt h i (length h)"] by simp
qed

lemma heap_least:
  assumes "heap_ok lt h" "x \<in> set h"
  shows "\<not> lt x (h ! 0)"
proof -
  have "\<not> lt (h ! k) (h ! 0)" if "k < length h" for k
    using that
  proof (induction k rule: less_induct)
    case (less k)
    show ?case
    proof (cases "k = 0")
      case False
      then have "(k - 1) div 2 < k" by linarith
      with less False assms(1) show ?thesis
        using not_lt_trans [of "h ! ((k - 1) div 2)" "h ! 0" "h ! k"]
        by (simp add: heap_ok_def heap_from_def)
    qed (simp add: lt_irrefl)
  qed
  with assms(2) show ?thesis by (metis in_set_conv_nth)
qed

lemma heap_ok_Init: "heap_ok lt (heap_Init lt h)"
proof -
  have "\<not> length h div 2 \<le> (k - 1) div 2" if "0 < k" "k < length h" for k
    using that by linarith
  then have "heap_from lt (length h div 2) (length h) h"
    by (auto simp: heap_from_def)
  then show ?thesis by (simp add: heap_Init_def heap_ok_init_loop)
qed

lemma heap_ok_Pop:
  assumes "heap_ok lt h" "h \<noteq> []"
  shows "heap_ok lt (snd (heap_Pop lt h))"
proof -
  define n where "n = length h - 1"
  define h' where "h' = heap_down lt (swap_nth h 0 n) 0 n"
  have n: "n < length h" using assms(2) by (simp add: n_def)
  have "heap_from lt 0 n h'"
    unfolding h'_def
  proof (rule heap_down_from)
    fix k assume k: "0 < k" "k < n" "(k - 1) div 2 \<noteq> 0"
    then have "(k - 1) div 2 < n" by linarith
    then show "\<not> lt (swap_nth h 0 n ! k) (swap_nth h 0 n ! ((k - 1) div 2))"
      using k n assms by (simp add: nth_swap_nth heap_ok_def heap_from_def)
  qed (use n in auto)
  moreover have "length (butlast h') = n" by (simp add: h'_def n_def)
  moreover have "butlast h' ! k = h' ! k" if "k < n" for k
    using that by (intro nth_butlast) (simp add: h'_def n_def)
  moreover have "(k - 1) div 2 < n" if "k < n" for k
    using that by linarith
  ultimately have "heap_ok lt (butlast h')"
    by (simp add: heap_ok_def heap_from_def)
  then show ?thesis by (simp add: heap_Pop_def Let_def h'_def n_def)
qed

lemma heap_Pop_least:
  assumes "heap_ok lt h" "x \<in> set h"
  shows "\<not> lt x (fst (heap_Pop lt h))"
proof -
  have "h \<noteq> []" using assms(2) by auto
  with heap_least [OF assms] show ?thesis by (simp add: heap_Pop_fst)
qed

end

lemma sum_list_mset_nat: "mset xs = mset ys \<Longrightarrow> sum_list (map (f :: 'a \<Rightarrow> nat) xs) = sum_list (map f ys)"
  by (metis mset_map sum_mset_sum_list)

lemma heap_Push_sum: "sum_list (map (f :: 'a \<Rightarrow> nat) (heap_Push lt h x)) = f x + sum_list (map f h)"
  using sum_list_mset_nat [of "heap_Push lt h x" "x # h" f] by simp

lemma heap_Pop_sum:
  "heap_Pop lt h = (x, h') \<Longrightarrow> h \<noteq> [] \<Longrightarrow> sum_list (map (f :: 'a \<Rightarrow> nat) h) = f x + sum_list (map f h')"
  using sum_list_mset_nat [of h "x # h'" f] heap_Pop_mset [of h lt] by simp

section \<open>Strings\<close>

definition ascii_lower :: "char \<Rightarrow> char" where
  "ascii_lower c =
     (let n = (of_char c :: nat) in if 65 \<le> n \<and> n \<le> 90 then char_of (n + 32) else c)"

text \<open>
  \<^verbatim>\<open>strings.TrimSpace\<close>: the white space characters of Unicode in their UTF-8 encodings, taken off
  both ends.
\<close>

definition go_spaces :: "nat list list" where
  "go_spaces =
     [[9], [10], [11], [12], [13], [32], [0xC2, 0x85], [0xC2, 0xA0], [0xE1, 0x9A, 0x80],
      [0xE2, 0x80, 0x80], [0xE2, 0x80, 0x81], [0xE2, 0x80, 0x82], [0xE2, 0x80, 0x83], [0xE2, 0x80, 0x84],
      [0xE2, 0x80, 0x85], [0xE2, 0x80, 0x86], [0xE2, 0x80, 0x87], [0xE2, 0x80, 0x88], [0xE2, 0x80, 0x89],
      [0xE2, 0x80, 0x8A], [0xE2, 0x80, 0xA8], [0xE2, 0x80, 0xA9], [0xE2, 0x80, 0xAF], [0xE2, 0x81, 0x9F],
      [0xE3, 0x80, 0x80]]"

definition space_prefix :: "nat list list \<Rightarrow> string \<Rightarrow> nat" where
  "space_prefix spaces s =
     (case List.find (\<lambda>w. map of_char (take (length w) s) = w) spaces of None \<Rightarrow> 0 | Some w \<Rightarrow> length w)"

function trim_front :: "nat list list \<Rightarrow> string \<Rightarrow> string" where
  "trim_front spaces s =
     (let n = space_prefix spaces s in if n = 0 \<or> s = [] then s else trim_front spaces (drop n s))"
  by pat_completeness auto
termination by (relation "measure (\<lambda>(_, s). length s)") auto

declare trim_front.simps [simp del]

definition TrimSpace :: "string \<Rightarrow> string" where
  "TrimSpace s = rev (trim_front (map rev go_spaces) (rev (trim_front go_spaces s)))"

lemma trim_front_fixed: "space_prefix spaces (trim_front spaces s) = 0 \<or> trim_front spaces s = []"
proof (induction spaces s rule: trim_front.induct)
  case (1 spaces s)
  then show ?case by (subst (1 2) trim_front.simps) (auto simp: Let_def)
qed

lemma trim_front_idem [simp]: "trim_front spaces (trim_front spaces s) = trim_front spaces s"
  using trim_front_fixed [of spaces s] by (subst trim_front.simps) (simp add: Let_def)

end
