(* ===== verification/Wal_Codec.thy ===== *)
theory Wal_Codec
  imports Go_Std
begin

text \<open>
  The write-ahead log's on-disk format, \<^verbatim>\<open>internal/lsm/wal/codec\<close>: records, blocks and
  segment headers.  A reader is the list of bytes it has not consumed yet, so
  \<^verbatim>\<open>io.ReadFull\<close> on a short reader consumes what is left, as the code's readers do.
  A slice expression out of range is the value \<open>Inl PanicBounds\<close>.
\<close>

section \<open>Format constants\<close>

definition segmentMagic :: bytes where "segmentMagic = [76, 83, 77, 87]"
definition blockMagic :: bytes where "blockMagic = [76, 83, 77, 66]"
definition recordVersion :: byte where "recordVersion = 1"

definition SegmentHeaderSize :: nat where "SegmentHeaderSize = 4 + 1 + 4 + 8 + 8 + 4"
definition BlockHeaderSize :: nat where "BlockHeaderSize = 4 + 4 + 4"
definition RecordCRCSize :: nat where "RecordCRCSize = 4"
definition RecordHeaderSize :: nat where "RecordHeaderSize = 1 + 8 + 4 + 4"
definition MinBlockSize :: nat where "MinBlockSize = RecordHeaderSize + RecordCRCSize + 1"

lemmas wal_sizes [codec_simps] =
  SegmentHeaderSize_def BlockHeaderSize_def RecordCRCSize_def RecordHeaderSize_def

lemma length_magic [simp, codec_simps]: "length segmentMagic = 4" "length blockMagic = 4"
  by (simp_all add: segmentMagic_def blockMagic_def)

section \<open>Records\<close>

record RecordBuffer =
  rb_header :: bytes
  rb_key :: bytes
  rb_val :: bytes
  rb_crc :: bytes
  rb_Total :: nat

definition NewRecordBufferOwned :: "entry \<Rightarrow> RecordBuffer" where
  "NewRecordBufferOwned e =
     (let flags = (if Tombstone e then 0 OR 1 else 0) :: byte;
          header = flags # PutUint64 (Seq e) @ PutUint32 (word_of_nat (length (Key e)))
                     @ PutUint32 (word_of_nat (length (Value e)));
          crc = crc32_update IEEE (crc32_update IEEE (ChecksumIEEE header) (Key e)) (Value e);
          crcb = PutUint32 crc
      in \<lparr>rb_header = header, rb_key = Key e, rb_val = Value e, rb_crc = crcb,
          rb_Total = length header + length (Key e) + length (Value e) + length crcb\<rparr>)"

text \<open>The copying constructor builds the same values from copies of the slices.\<close>

definition NewRecordBuffer :: "entry \<Rightarrow> RecordBuffer" where
  "NewRecordBuffer e =
     (let flags = (if Tombstone e then 0 OR 1 else 0) :: byte;
          header = flags # PutUint64 (Seq e) @ PutUint32 (word_of_nat (length (Key e)))
                     @ PutUint32 (word_of_nat (length (Value e)));
          key = [] @ Key e;
          val = [] @ Value e;
          crc = crc32_update IEEE (crc32_update IEEE (ChecksumIEEE header) key) val;
          crcb = PutUint32 crc
      in \<lparr>rb_header = header, rb_key = key, rb_val = val, rb_crc = crcb,
          rb_Total = length header + length key + length val + length crcb\<rparr>)"

definition buffers :: "RecordBuffer \<Rightarrow> bytes list" where
  "buffers rb = [rb_header rb, rb_key rb, rb_val rb, rb_crc rb]"

definition EncodeEntry :: "entry \<Rightarrow> bytes" where
  "EncodeEntry e =
     (let rb = NewRecordBuffer e
      in take (rb_Total rb) (rb_header rb @ rb_key rb @ rb_val rb @ rb_crc rb))"

text \<open>
  One round of the decoding loop at \<open>offset\<close>: \<open>Inr None\<close> is the early return with
  \<^verbatim>\<open>ErrWALCorrupt\<close>.  The two lengths are added in \<^verbatim>\<open>uint32\<close> before the
  conversion to \<^verbatim>\<open>int\<close>.
\<close>

definition decode_record :: "bytes \<Rightarrow> nat \<Rightarrow> (entry \<times> nat) option result" where
  "decode_record payload offset =
     (if length payload - offset < RecordHeaderSize + RecordCRCSize then Inr None
      else
        let header = bslice offset (offset + RecordHeaderSize) payload;
            flags = header ! 0;
            seq = Uint64 (bslice 1 9 header);
            keyLen = Uint32 (bslice 9 13 header);
            valLen = Uint32 (bslice 13 17 header);
            offset1 = offset + RecordHeaderSize
        in if length payload - offset1 < unat (keyLen + valLen) + RecordCRCSize then Inr None
           else
             let offset2 = offset1 + unat keyLen;
                 offset3 = offset2 + unat valLen
             in bind_result (go_slice offset1 offset2 payload) (\<lambda>key.
                bind_result (go_slice offset2 offset3 payload) (\<lambda>val.
                bind_result (go_slice offset3 (offset3 + RecordCRCSize) payload) (\<lambda>crcBytes.
                  if Uint32 crcBytes \<noteq>
                       crc32_update IEEE (crc32_update IEEE (ChecksumIEEE header) key) val
                  then Inr None
                  else Inr (Some (\<lparr>Key = key, Value = val,
                                    Tombstone = (flags AND 1 = 1), Seq = seq\<rparr>,
                                  offset3 + RecordCRCSize))))))"

lemma decode_record_progress:
  "decode_record payload offset = Inr (Some (e, offset')) \<Longrightarrow>
     offset < offset' \<and> offset' \<le> length payload"
  by (auto simp: decode_record_def Let_def wal_sizes go_slice_def bind_result_def
      split: if_splits sum.splits)

function decode_records_loop ::
  "bytes \<Rightarrow> nat \<Rightarrow> entry list \<Rightarrow> (entry list \<times> lsm_error option) result" where
  "decode_records_loop payload offset entries =
     (if offset < length payload then
        (case decode_record payload offset of
           Inl p \<Rightarrow> Inl p
         | Inr None \<Rightarrow> Inr (entries, Some ErrWALCorrupt)
         | Inr (Some (e, offset')) \<Rightarrow> decode_records_loop payload offset' (entries @ [e]))
      else Inr (entries, None))"
  by pat_completeness auto
termination
  by (relation "measure (\<lambda>(payload, offset, entries). length payload - offset)")
     (auto dest!: decode_record_progress)

declare decode_records_loop.simps [simp del]

definition DecodeRecords :: "bytes \<Rightarrow> (entry list \<times> lsm_error option) result" where
  "DecodeRecords payload = decode_records_loop payload 0 []"

text \<open>
  The borrowing decoder runs the same loop; its entries alias \<^verbatim>\<open>payload\<close>, which no
  caller in the log writes while it holds them, so as values they are the same.
\<close>

definition DecodeRecordViews :: "bytes \<Rightarrow> (entry list \<times> lsm_error option) result" where
  "DecodeRecordViews payload = decode_records_loop payload 0 []"

section \<open>Blocks\<close>

definition record_bytes :: "RecordBuffer \<Rightarrow> bytes" where
  "record_bytes rb = concat (buffers rb)"

text \<open>The bytes \<^verbatim>\<open>WriteBlock\<close> hands to the writer, header first.\<close>

definition WriteBlock :: "RecordBuffer list \<Rightarrow> bytes" where
  "WriteBlock records =
     (if records = [] then []
      else
        let payloadLen = sum_list (map rb_Total records);
            blockCRC = fold (\<lambda>r c. crc32_update IEEE (crc32_update IEEE (crc32_update IEEE
                         (crc32_update IEEE c (rb_header r)) (rb_key r)) (rb_val r)) (rb_crc r))
                         records 0;
            header = blockMagic @ PutUint32 (word_of_nat payloadLen) @ PutUint32 blockCRC
        in concat (header # concat (map buffers records)))"

datatype read_full = ReadOk bytes | ReadEOF | ReadUnexpectedEOF

definition ReadFull :: "nat \<Rightarrow> bytes \<Rightarrow> read_full \<times> bytes" where
  "ReadFull n r =
     (if n = 0 then (ReadOk [], r)
      else if r = [] then (ReadEOF, [])
      else if length r < n then (ReadUnexpectedEOF, [])
      else (ReadOk (take n r), drop n r))"

datatype block_read = BlockEOF | BlockErr lsm_error | BlockOk bytes

definition DecodeBlockAfterMagic :: "bytes \<Rightarrow> u32 \<Rightarrow> block_read \<times> bytes" where
  "DecodeBlockAfterMagic r maxPayload =
     (case ReadFull 4 r of
        (ReadOk lenBuf, r1) \<Rightarrow>
          (case ReadFull 4 r1 of
             (ReadOk crcBuf, r2) \<Rightarrow>
               let payloadLen = Uint32 lenBuf
               in if 0 < maxPayload \<and> maxPayload < payloadLen then (BlockErr ErrWALCorrupt, r2)
                  else (case ReadFull (unat payloadLen) r2 of
                          (ReadOk payload, r3) \<Rightarrow>
                            if ChecksumIEEE payload \<noteq> Uint32 crcBuf
                            then (BlockErr ErrWALCorrupt, r3) else (BlockOk payload, r3)
                        | (_, r3) \<Rightarrow> (BlockErr ErrWALCorrupt, r3))
           | (_, r2) \<Rightarrow> (BlockErr ErrWALCorrupt, r2))
      | (_, r1) \<Rightarrow> (BlockErr ErrWALCorrupt, r1))"

definition DecodeBlock :: "bytes \<Rightarrow> u32 \<Rightarrow> block_read \<times> bytes" where
  "DecodeBlock r maxPayload =
     (case ReadFull 4 r of
        (ReadOk magic, r1) \<Rightarrow>
          if magic \<noteq> blockMagic then (BlockErr ErrWALCorrupt, r1)
          else DecodeBlockAfterMagic r1 maxPayload
      | (ReadEOF, r1) \<Rightarrow> (BlockEOF, r1)
      | (ReadUnexpectedEOF, r1) \<Rightarrow> (BlockErr ErrWALCorrupt, r1))"

text \<open>The four-byte window slides over the reader until it holds the magic.\<close>

fun resync_loop :: "bytes \<Rightarrow> bytes \<Rightarrow> bool \<times> bytes" where
  "resync_loop window [] = (False, [])"
| "resync_loop window (b # r) =
     (let window' = (if length window < length blockMagic then window @ [b]
                     else drop 1 window @ [b])
      in if length window' = length blockMagic \<and> window' = blockMagic then (True, r)
         else resync_loop window' r)"

definition ResyncBlock :: "bytes \<Rightarrow> bool \<times> bytes" where
  "ResyncBlock r = resync_loop [] r"

section \<open>Segment headers\<close>

record SegmentHeader =
  sh_Version :: byte
  sh_BlockSize :: u32
  sh_SegmentID :: u64
  sh_CreatedAt :: u64

text \<open>\<open>now\<close> is the clock's reading, \<^verbatim>\<open>time.Now().UnixNano()\<close>.\<close>

definition WriteSegmentHeader :: "u32 \<Rightarrow> u64 \<Rightarrow> u64 \<Rightarrow> bytes" where
  "WriteSegmentHeader blockSize segmentID now =
     (let body = recordVersion # PutUint32 blockSize @ PutUint64 segmentID @ PutUint64 now
      in segmentMagic @ body @ PutUint32 (ChecksumIEEE body))"

definition ReadSegmentHeader :: "bytes \<Rightarrow> SegmentHeader result \<times> bytes" where
  "ReadSegmentHeader r =
     (case ReadFull SegmentHeaderSize r of
        (ReadOk buf, r1) \<Rightarrow>
          (if bslice 0 4 buf \<noteq> segmentMagic then Inl ErrWALCorrupt
           else if buf ! 4 \<noteq> recordVersion then Inl ErrWALCorrupt
           else if ChecksumIEEE (bslice 4 25 buf) \<noteq> Uint32 (bslice 25 29 buf) then Inl ErrWALCorrupt
           else Inr \<lparr>sh_Version = buf ! 4, sh_BlockSize = Uint32 (bslice 5 9 buf),
                     sh_SegmentID = Uint64 (bslice 9 17 buf),
                     sh_CreatedAt = Uint64 (bslice 17 25 buf)\<rparr>, r1)
      | (_, r1) \<Rightarrow> (Inl ErrEOF, r1))"

section \<open>Round trips\<close>

definition record_header :: "entry \<Rightarrow> bytes" where
  "record_header e = (if Tombstone e then 1 else 0) # PutUint64 (Seq e)
     @ PutUint32 (word_of_nat (length (Key e))) @ PutUint32 (word_of_nat (length (Value e)))"

definition entry_fits :: "entry \<Rightarrow> bool" where
  "entry_fits e \<longleftrightarrow> length (Key e) + length (Value e) < 2 ^ 32"

lemma NewRecordBuffer_eq: "NewRecordBuffer e = NewRecordBufferOwned e"
  by (simp add: NewRecordBuffer_def NewRecordBufferOwned_def Let_def)

lemma NewRecordBufferOwned_sel [simp]:
  "rb_header (NewRecordBufferOwned e) = record_header e"
  "rb_key (NewRecordBufferOwned e) = Key e"
  "rb_val (NewRecordBufferOwned e) = Value e"
  "rb_crc (NewRecordBufferOwned e) = PutUint32 (ChecksumIEEE (record_header e @ Key e @ Value e))"
  "rb_Total (NewRecordBufferOwned e) = 21 + length (Key e) + length (Value e)"
  by (simp_all add: NewRecordBufferOwned_def Let_def record_header_def crc32_update_append)

lemma length_record_header [simp]: "length (record_header e) = 17"
  by (simp add: record_header_def)

lemma EncodeEntry_eq:
  "EncodeEntry e = record_header e @ Key e @ Value e
     @ PutUint32 (ChecksumIEEE (record_header e @ Key e @ Value e))"
  by (simp add: EncodeEntry_def NewRecordBuffer_eq Let_def)

lemma length_EncodeEntry [simp]: "length (EncodeEntry e) = 21 + length (Key e) + length (Value e)"
  by (simp add: EncodeEntry_eq)

lemma record_bytes_EncodeEntry: "record_bytes (NewRecordBufferOwned e) = EncodeEntry e"
  by (simp add: record_bytes_def buffers_def EncodeEntry_eq)

lemma record_header_fields:
  "record_header e ! 0 = (if Tombstone e then 1 else 0)"
  "bslice 1 9 (record_header e) = PutUint64 (Seq e)"
  "bslice 9 13 (record_header e) = PutUint32 (word_of_nat (length (Key e)))"
  "bslice 13 17 (record_header e) = PutUint32 (word_of_nat (length (Value e)))"
  by (simp_all add: record_header_def bslice_def)

lemma decode_record_EncodeEntry:
  assumes "entry_fits e" "offset = length pre"
  shows "decode_record (pre @ EncodeEntry e @ post) offset =
           Inr (Some (e, offset + length (EncodeEntry e)))"
proof -
  define P where "P = pre @ EncodeEntry e @ post"
  let ?k = "word_of_nat (length (Key e)) :: u32" and ?v = "word_of_nat (length (Value e)) :: u32"
  have lens: "unat ?k = length (Key e)" "unat ?v = length (Value e)"
    "unat (?k + ?v) = length (Key e) + length (Value e)"
    using assms(1)
    by (simp_all add: entry_fits_def unat_of_nat take_bit_nat_eq_self flip: of_nat_add)
  have len: "length P = offset + 21 + length (Key e) + length (Value e) + length post"
    using assms(2) by (simp add: P_def)
  have hdr: "bslice offset (offset + 17) P = record_header e"
    and key: "bslice (offset + 17) (offset + 17 + length (Key e)) P = Key e"
    and val: "bslice (offset + 17 + length (Key e))
                (offset + 17 + length (Key e) + length (Value e)) P = Value e"
    and crc: "bslice (offset + 17 + length (Key e) + length (Value e))
                (offset + 17 + length (Key e) + length (Value e) + 4) P
                = PutUint32 (ChecksumIEEE (record_header e @ Key e @ Value e))"
    using assms(2) by (simp_all add: P_def bslice_def EncodeEntry_eq)
  have sizes: "RecordHeaderSize = 17" "RecordCRCSize = 4"
    by (simp_all add: wal_sizes)
  have "decode_record P offset = Inr (Some (e, offset + length (EncodeEntry e)))"
    unfolding decode_record_def sizes hdr Let_def record_header_fields get_put_le_word lens
      go_slice_def key val crc crc32_update_append append_assoc
    by (simp add: len)
  then show ?thesis by (simp add: P_def)
qed

lemma decode_records_loop_encoded:
  assumes "\<forall>e \<in> set es. entry_fits e" "offset = length pre"
  shows "decode_records_loop (pre @ concat (map EncodeEntry es)) offset acc = Inr (acc @ es, None)"
  using assms
proof (induction es arbitrary: pre offset acc)
  case Nil
  then show ?case by (simp add: decode_records_loop.simps)
next
  case (Cons e es)
  have "decode_record (pre @ EncodeEntry e @ concat (map EncodeEntry es)) offset =
          Inr (Some (e, offset + length (EncodeEntry e)))"
    using Cons.prems by (intro decode_record_EncodeEntry) auto
  moreover have "decode_records_loop ((pre @ EncodeEntry e) @ concat (map EncodeEntry es))
      (offset + length (EncodeEntry e)) (acc @ [e]) = Inr ((acc @ [e]) @ es, None)"
    using Cons.prems by (intro Cons.IH) auto
  ultimately show ?case
    using Cons.prems(2) by (subst decode_records_loop.simps) simp
qed

lemma DecodeRecords_encoded:
  "\<forall>e \<in> set es. entry_fits e \<Longrightarrow>
     DecodeRecords (concat (map EncodeEntry es)) = Inr (es, None)"
  using decode_records_loop_encoded [of es 0 "[]" "[]"] by (simp add: DecodeRecords_def)

lemma DecodeRecordViews_eq: "DecodeRecordViews p = DecodeRecords p"
  by (simp add: DecodeRecordViews_def DecodeRecords_def)

text \<open>The payload of the block \<^verbatim>\<open>WriteBlock\<close> writes for the given entries.\<close>

definition block_payload :: "entry list \<Rightarrow> bytes" where
  "block_payload es = concat (map EncodeEntry es)"

definition block_bytes :: "entry list \<Rightarrow> bytes" where
  "block_bytes es = WriteBlock (map NewRecordBufferOwned es)"

lemma length_block_payload:
  "length (block_payload es) = sum_list (map (\<lambda>e. 21 + length (Key e) + length (Value e)) es)"
  by (induction es) (simp_all add: block_payload_def)

lemma block_crc_fold:
  "fold (\<lambda>r c. crc32_update IEEE (crc32_update IEEE (crc32_update IEEE
      (crc32_update IEEE c (rb_header r)) (rb_key r)) (rb_val r)) (rb_crc r))
    (map NewRecordBufferOwned es) c = crc32_update IEEE c (block_payload es)"
  by (induction es arbitrary: c)
     (simp_all add: block_payload_def crc32_update_append EncodeEntry_eq)

lemma WriteBlock_entries:
  "es \<noteq> [] \<Longrightarrow> block_bytes es =
     blockMagic @ PutUint32 (word_of_nat (length (block_payload es)))
       @ PutUint32 (ChecksumIEEE (block_payload es)) @ block_payload es"
proof -
  assume ne: "es \<noteq> []"
  have tot: "sum_list (map rb_Total (map NewRecordBufferOwned es)) = length (block_payload es)"
    by (simp add: length_block_payload comp_def)
  have body: "concat (concat (map buffers (map NewRecordBufferOwned es))) = block_payload es"
    by (induction es) (simp_all add: block_payload_def buffers_def EncodeEntry_eq)
  show ?thesis
    using ne unfolding block_bytes_def WriteBlock_def block_crc_fold tot Let_def
    by (simp add: body [simplified])
qed

lemma length_block_bytes: "es \<noteq> [] \<Longrightarrow> length (block_bytes es) = 12 + length (block_payload es)"
  by (simp add: WriteBlock_entries)

text \<open>A block whose payload is within the reader's cap (0 is no cap).\<close>

definition block_fits :: "u32 \<Rightarrow> entry list \<Rightarrow> bool" where
  "block_fits maxPayload es \<longleftrightarrow> es \<noteq> [] \<and> length (block_payload es) < 2 ^ 32 \<and>
     (0 < maxPayload \<longrightarrow> length (block_payload es) \<le> unat maxPayload)"

lemma ReadFull_append [simp]:
  "n = length a \<Longrightarrow> ReadFull n (a @ r) = (ReadOk a, r)"
  by (auto simp: ReadFull_def)

lemma ReadFull_self [simp]: "n = length a \<Longrightarrow> ReadFull n a = (ReadOk a, [])"
  by (auto simp: ReadFull_def)

lemma ReadFull_short:
  "length r < n \<Longrightarrow>
     (case ReadFull n r of (ReadOk b, r1) \<Rightarrow> f b r1 | (ReadEOF, r1) \<Rightarrow> g r1
        | (ReadUnexpectedEOF, r1) \<Rightarrow> g r1) = g []"
  by (auto simp: ReadFull_def)

lemma block_fits_len:
  assumes "block_fits m es"
  shows "unat (word_of_nat (length (block_payload es)) :: u32) = length (block_payload es)"
    and "\<not> (0 < m \<and> m < word_of_nat (length (block_payload es)))"
proof -
  show len: "unat (word_of_nat (length (block_payload es)) :: u32) = length (block_payload es)"
    using assms by (simp add: block_fits_def unat_of_nat take_bit_nat_eq_self)
  show "\<not> (0 < m \<and> m < word_of_nat (length (block_payload es)))"
    using assms len by (auto simp: block_fits_def word_less_nat_alt)
qed

lemma DecodeBlockAfterMagic_block:
  assumes "block_fits m es"
  shows "DecodeBlockAfterMagic (drop 4 (block_bytes es) @ r) m = (BlockOk (block_payload es), r)"
  using assms block_fits_len [OF assms]
  by (auto simp: DecodeBlockAfterMagic_def WriteBlock_entries block_fits_def Let_def)

lemma DecodeBlock_block:
  assumes "block_fits m es"
  shows "DecodeBlock (block_bytes es @ r) m = (BlockOk (block_payload es), r)"
proof -
  have ne: "es \<noteq> []" using assms by (simp add: block_fits_def)
  then have "ReadFull 4 (block_bytes es @ r) = (ReadOk blockMagic, drop 4 (block_bytes es) @ r)"
    by (simp add: WriteBlock_entries)
  then show ?thesis
    using DecodeBlockAfterMagic_block [OF assms, of r] by (simp add: DecodeBlock_def)
qed

lemma DecodeBlock_Nil [simp]: "DecodeBlock [] m = (BlockEOF, [])"
  by (simp add: DecodeBlock_def ReadFull_def)

lemma DecodeBlock_truncated:
  assumes fits: "block_fits m es" and n: "0 < n" "n < length (block_bytes es)"
  shows "DecodeBlock (take n (block_bytes es)) m = (BlockErr ErrWALCorrupt, [])"
proof -
  let ?p = "block_payload es" and ?l = "PutUint32 (word_of_nat (length (block_payload es)))"
  let ?c = "PutUint32 (ChecksumIEEE (block_payload es))"
  have ne: "es \<noteq> []" using fits by (simp add: block_fits_def)
  have b: "block_bytes es = blockMagic @ ?l @ ?c @ ?p" using ne by (rule WriteBlock_entries)
  have n': "n < 12 + length ?p" using n(2) ne by (simp add: length_block_bytes)
  consider "n < 4" | "4 \<le> n" "n < 8" | "8 \<le> n" "n < 12" | "12 \<le> n" by linarith
  then show ?thesis
  proof cases
    case 1
    then have "ReadFull 4 (take n (block_bytes es)) = (ReadUnexpectedEOF, [])"
      using n(1) ne by (auto simp: ReadFull_def b blockMagic_def)
    then show ?thesis by (simp add: DecodeBlock_def)
  next
    case 2
    then have "take n (block_bytes es) = blockMagic @ take (n - 4) ?l" by (simp add: b)
    moreover have "length (take (n - 4) ?l) < 4" using 2 by simp
    ultimately show ?thesis
      by (simp add: DecodeBlock_def DecodeBlockAfterMagic_def ReadFull_short del: length_take)
  next
    case 3
    then have "take n (block_bytes es) = blockMagic @ ?l @ take (n - 8) ?c" by (simp add: b)
    moreover have "length (take (n - 8) ?c) < 4" using 3 by simp
    ultimately show ?thesis
      by (simp add: DecodeBlock_def DecodeBlockAfterMagic_def ReadFull_short del: length_take)
  next
    case 4
    then have "take n (block_bytes es) = blockMagic @ ?l @ ?c @ take (n - 12) ?p" by (simp add: b)
    moreover have "length (take (n - 12) ?p) < length ?p" using 4 n' by simp
    ultimately show ?thesis
      using block_fits_len [OF fits]
      by (auto simp: DecodeBlock_def DecodeBlockAfterMagic_def ReadFull_short Let_def
          simp del: length_take)
  qed
qed

lemma length_WriteSegmentHeader [simp]: "length (WriteSegmentHeader bs i t) = 29"
  by (simp add: WriteSegmentHeader_def Let_def)

lemma ReadSegmentHeader_written:
  "ReadSegmentHeader (WriteSegmentHeader bs i t @ r) =
     (Inr \<lparr>sh_Version = recordVersion, sh_BlockSize = bs, sh_SegmentID = i, sh_CreatedAt = t\<rparr>, r)"
proof -
  define H where "H = WriteSegmentHeader bs i t"
  define B where "B = recordVersion # PutUint32 bs @ PutUint64 i @ PutUint64 t"
  have H: "H = segmentMagic @ B @ PutUint32 (ChecksumIEEE B)"
    by (simp add: H_def B_def WriteSegmentHeader_def Let_def)
  have f: "bslice 0 4 H = segmentMagic" "H ! 4 = recordVersion" "bslice 4 25 H = B"
    "bslice 25 29 H = PutUint32 (ChecksumIEEE B)" "bslice 5 9 H = PutUint32 bs"
    "bslice 9 17 H = PutUint64 i" "bslice 17 25 H = PutUint64 t"
    by (simp_all add: H B_def bslice_def nth_append)
  have "ReadFull SegmentHeaderSize (H @ r) = (ReadOk H, r)"
    by (simp add: H_def SegmentHeaderSize_def)
  then show ?thesis by (simp add: ReadSegmentHeader_def f flip: H_def)
qed

section \<open>Properties\<close>

lemma block_fits_entries:
  assumes "block_fits m es" "e \<in> set es"
  shows "entry_fits e"
proof -
  have "21 + length (Key e) + length (Value e) \<le> length (block_payload es)"
    unfolding length_block_payload using assms(2) by (intro member_le_sum_list) auto
  with assms(1) show ?thesis by (simp add: block_fits_def entry_fits_def)
qed

text \<open>
  C21: a block written for entries whose payload is within the reader's cap is read back: the
  reader returns the payload and stands at the byte after the block, and both record decoders
  return the entries in order and no error.
\<close>

theorem wal_block_roundtrip:
  assumes "block_fits maxPayload es"
  shows "DecodeBlock (WriteBlock (map NewRecordBufferOwned es) @ rest) maxPayload =
           (BlockOk (block_payload es), rest) \<and>
         DecodeRecords (block_payload es) = Inr (es, None) \<and>
         DecodeRecordViews (block_payload es) = Inr (es, None)"
  using DecodeBlock_block [OF assms, of rest] block_fits_entries [OF assms]
  by (simp add: block_bytes_def block_payload_def DecodeRecords_encoded DecodeRecordViews_eq)

theorem wal_block_roundtrip_witness:
  "block_fits 65536 [\<lparr>Key = [107], Value = [1, 2], Tombstone = False, Seq = 7\<rparr>] \<and>
   DecodeRecords (block_payload [\<lparr>Key = [107], Value = [1, 2], Tombstone = False, Seq = 7\<rparr>]) =
     Inr ([\<lparr>Key = [107], Value = [1, 2], Tombstone = False, Seq = 7\<rparr>], None)"
proof -
  have *: "block_fits 65536 [\<lparr>Key = [107], Value = [1, 2], Tombstone = False, Seq = 7\<rparr>]"
    by (simp add: block_fits_def length_block_payload)
  show ?thesis using * wal_block_roundtrip [OF *] by simp
qed

text \<open>
  C27: exactly when decoding a record panics.  The bounds check adds the two lengths in 32 bits;
  when the sum wraps so that the wrapped value passes the check while the real lengths do not
  fit, the slice expressions after it are out of range and the process panics instead of
  reporting a corrupt record.  (The payload fills its buffer: capacity and length agree.)
\<close>

theorem decode_record_panics_iff:
  assumes "offset + 21 \<le> length payload"
    and "keyLen = Uint32 (bslice (offset + 9) (offset + 13) payload)"
    and "valLen = Uint32 (bslice (offset + 13) (offset + 17) payload)"
  shows "decode_record payload offset = Inl PanicBounds \<longleftrightarrow>
           unat (keyLen + valLen) + 21 \<le> length payload - offset \<and>
           length payload - offset < unat keyLen + unat valLen + 21"
proof -
  have sizes: "RecordHeaderSize = 17" "RecordCRCSize = 4" by (simp_all add: wal_sizes)
  have h: "bslice 9 13 (bslice offset (offset + 17) payload) = bslice (offset + 9) (offset + 13) payload"
    "bslice 13 17 (bslice offset (offset + 17) payload) = bslice (offset + 13) (offset + 17) payload"
    by (simp_all add: bslice_def drop_take min_def add.commute)
  show ?thesis
    using assms(1)
    unfolding decode_record_def sizes Let_def h assms(2,3) [symmetric]
    by (auto simp: go_slice_def bind_result_def)
qed

theorem decode_record_panics_iff_witness:
  "decode_record ([0, 0, 0, 0, 0, 0, 0, 0, 0, 255, 255, 255, 255, 1, 0, 0, 0, 0, 0, 0, 0]) 0
     = Inl PanicBounds"
proof -
  let ?p = "[0, 0, 0, 0, 0, 0, 0, 0, 0, 255, 255, 255, 255, 1, 0, 0, 0, 0, 0, 0, 0] :: bytes"
  have k: "0xFFFFFFFF = Uint32 (bslice (0 + 9) (0 + 13) ?p)"
    and v: "1 = Uint32 (bslice (0 + 13) (0 + 17) ?p)"
    by code_simp+
  show ?thesis
    by (subst decode_record_panics_iff [OF _ k v]) simp_all
qed

end
