(* ===== verification/Go_Fs.thy ===== *)
theory Go_Fs
  imports Go_Std
begin

text \<open>
  The file system the components write, as \<^verbatim>\<open>internal/lsm/iofs\<close> offers it, and the decimal
  numbers in file names.  A directory is an association list from file names to contents.
  Decimal printing (\<^verbatim>\<open>%d\<close>) and \<^verbatim>\<open>strconv.Atoi\<close> are written out, since names carry
  the segment order.

  The file system carries a list of the outcomes of the next input/output operations: each
  write, sync, close, open or rename takes the next one, and an empty list means success.  A
  failing write leaves a prefix of its bytes in the file.  Reads of an existing file do not
  fail.
\<close>

section \<open>Files\<close>

type_synonym dir = "(string \<times> bytes) list"

definition put_file :: "string \<Rightarrow> bytes \<Rightarrow> dir \<Rightarrow> dir" where
  "put_file name b d = (name, b) # filter (\<lambda>(n, _). n \<noteq> name) d"

definition del_file :: "string \<Rightarrow> dir \<Rightarrow> dir" where
  "del_file name d = filter (\<lambda>(n, _). n \<noteq> name) d"

lemma map_of_filter_fst: "map_of (filter (\<lambda>(n, _). n \<noteq> name) d) = (map_of d)(name := None)"
  by (induction d) auto

lemma map_of_put_file [simp]: "map_of (put_file name b d) = (map_of d)(name \<mapsto> b)"
  by (simp add: put_file_def map_of_filter_fst)

lemma map_of_del_file [simp]: "map_of (del_file name d) = (map_of d)(name := None)"
  by (simp add: del_file_def map_of_filter_fst)

section \<open>Decimal numbers\<close>

definition digit_char :: "nat \<Rightarrow> char" where
  "digit_char n = char_of (48 + n)"

fun show_nat :: "nat \<Rightarrow> string" where
  "show_nat n = (if n < 10 then [digit_char n] else show_nat (n div 10) @ [digit_char (n mod 10)])"

declare show_nat.simps [simp del]

definition digit_val :: "char \<Rightarrow> nat option" where
  "digit_val c = (let n = (of_char c :: nat) in if 48 \<le> n \<and> n \<le> 57 then Some (n - 48) else None)"

fun digits_val :: "nat \<Rightarrow> string \<Rightarrow> nat option" where
  "digits_val acc [] = Some acc"
| "digits_val acc (c # cs) =
     (case digit_val c of None \<Rightarrow> None | Some d \<Rightarrow> digits_val (acc * 10 + d) cs)"

definition Atoi :: "string \<Rightarrow> int option" where
  "Atoi s =
     (let neg = (s \<noteq> [] \<and> hd s = CHR ''-'');
          ds = (if s \<noteq> [] \<and> (hd s = CHR ''-'' \<or> hd s = CHR ''+'') then tl s else s)
      in if ds = [] then None
         else case digits_val 0 ds of
                None \<Rightarrow> None
              | Some v \<Rightarrow>
                  if neg then (if v \<le> 2 ^ 63 then Some (- int v) else None)
                  else (if v < 2 ^ 63 then Some (int v) else None))"

lemma digit_val_digit_char [simp]: "n < 10 \<Longrightarrow> digit_val (digit_char n) = Some n"
  by (simp add: digit_val_def digit_char_def Let_def)

lemma digits_val_append:
  "digits_val acc (s @ t) = (case digits_val acc s of None \<Rightarrow> None | Some v \<Rightarrow> digits_val v t)"
  by (induction s arbitrary: acc) (auto split: option.splits)

lemma digits_val_show_nat: "digits_val 0 (show_nat n) = Some n"
  by (induction n rule: show_nat.induct)
     (subst show_nat.simps, auto simp: digits_val_append)

lemma show_nat_not_Nil [simp]: "show_nat n \<noteq> []"
  by (subst show_nat.simps) simp

lemma hd_show_nat: "\<exists>k < 10. hd (show_nat n) = digit_char k"
proof (induction n rule: show_nat.induct)
  case (1 n)
  show ?case
  proof (cases "n < 10")
    case True
    then show ?thesis by (subst show_nat.simps) auto
  next
    case False
    then show ?thesis using 1 by (subst show_nat.simps) (simp add: hd_append)
  qed
qed

lemma digit_char_not_sign: "k < 10 \<Longrightarrow> digit_char k \<noteq> CHR ''-'' \<and> digit_char k \<noteq> CHR ''+''"
proof -
  assume "k < 10"
  then have "digit_val (digit_char k) = Some k" by simp
  moreover have "digit_val CHR ''-'' = None" "digit_val CHR ''+'' = None"
    by (simp_all add: digit_val_def)
  ultimately show ?thesis by force
qed

lemma Atoi_show_nat: "n < 2 ^ 63 \<Longrightarrow> Atoi (show_nat n) = Some (int n)"
proof -
  assume n: "n < 2 ^ 63"
  obtain k where "k < 10" "hd (show_nat n) = digit_char k" using hd_show_nat by blast
  then have "hd (show_nat n) \<noteq> CHR ''-''" "hd (show_nat n) \<noteq> CHR ''+''"
    using digit_char_not_sign [of k] by simp_all
  with n show ?thesis by (simp add: Atoi_def digits_val_show_nat Let_def)
qed

lemma show_nat_inject: "show_nat m = show_nat n \<longleftrightarrow> m = n"
  using digits_val_show_nat by (metis option.inject)

section \<open>The file system\<close>

datatype io_outcome = IoOk | IoFail nat

record fs =
  fs_dir :: dir
  fs_now :: u64
  fs_faults :: "io_outcome list"

definition next_outcome :: "fs \<Rightarrow> io_outcome \<times> fs" where
  "next_outcome s = (case fs_faults s of [] \<Rightarrow> (IoOk, s) | x # xs \<Rightarrow> (x, s\<lparr>fs_faults := xs\<rparr>))"

definition ErrIO :: lsm_error where "ErrIO = ErrMsg ''io''"

text \<open>
  A write at the end of an open file: the number of bytes written and the error.  A handle that
  was closed, or a file that is gone, takes no bytes.
\<close>

definition fs_write :: "string \<Rightarrow> bytes \<Rightarrow> fs \<Rightarrow> (nat \<times> lsm_error option) \<times> fs" where
  "fs_write name b s =
     (case map_of (fs_dir s) name of
        None \<Rightarrow> ((0, Some ErrIO), s)
      | Some old \<Rightarrow>
          (case next_outcome s of
             (IoOk, s') \<Rightarrow>
               ((length b, None), s'\<lparr>fs_dir := put_file name (old @ b) (fs_dir s')\<rparr>)
           | (IoFail n, s') \<Rightarrow>
               ((min n (length b), Some ErrIO),
                s'\<lparr>fs_dir := put_file name (old @ take n b) (fs_dir s')\<rparr>)))"

text \<open>An operation without data of its own: \<^verbatim>\<open>Sync\<close>, \<^verbatim>\<open>Close\<close>, \<^verbatim>\<open>MkdirAll\<close>.\<close>

definition fs_effect :: "fs \<Rightarrow> lsm_error option \<times> fs" where
  "fs_effect s = (case next_outcome s of (IoOk, s') \<Rightarrow> (None, s') | (IoFail _, s') \<Rightarrow> (Some ErrIO, s'))"

definition fs_rename :: "string \<Rightarrow> string \<Rightarrow> fs \<Rightarrow> lsm_error option \<times> fs" where
  "fs_rename old new s =
     (case fs_effect s of
        (Some e, s') \<Rightarrow> (Some e, s')
      | (None, s') \<Rightarrow>
          (case map_of (fs_dir s') old of
             None \<Rightarrow> (Some ErrIO, s')
           | Some b \<Rightarrow> (None, s'\<lparr>fs_dir := put_file new b (del_file old (fs_dir s'))\<rparr>)))"

text \<open>\<^verbatim>\<open>O_CREATE|O_APPEND\<close> keeps an existing file, \<^verbatim>\<open>O_CREATE|O_TRUNC\<close> empties it.\<close>

definition fs_open :: "bool \<Rightarrow> string \<Rightarrow> fs \<Rightarrow> lsm_error option \<times> fs" where
  "fs_open trunc name s =
     (case fs_effect s of
        (Some e, s') \<Rightarrow> (Some e, s')
      | (None, s') \<Rightarrow>
          (None, (if trunc \<or> map_of (fs_dir s') name = None
                  then s'\<lparr>fs_dir := put_file name [] (fs_dir s')\<rparr> else s')))"

definition file_size :: "string \<Rightarrow> fs \<Rightarrow> nat" where
  "file_size name s = (case map_of (fs_dir s) name of None \<Rightarrow> 0 | Some b \<Rightarrow> length b)"

lemma no_faults [simp]:
  assumes "fs_faults s = []"
  shows "next_outcome s = (IoOk, s)" "fs_effect s = (None, s)"
    "fs_open trunc name s =
       (None, if trunc \<or> map_of (fs_dir s) name = None
              then s\<lparr>fs_dir := put_file name [] (fs_dir s)\<rparr> else s)"
    "map_of (fs_dir s) name = Some old \<Longrightarrow> fs_write name b s =
       ((length b, None), s\<lparr>fs_dir := put_file name (old @ b) (fs_dir s)\<rparr>)"
    "map_of (fs_dir s) name = Some old \<Longrightarrow> fs_rename name new s =
       (None, s\<lparr>fs_dir := put_file new old (del_file name (fs_dir s))\<rparr>)"
proof -
  show no: "next_outcome s = (IoOk, s)" using assms by (simp add: next_outcome_def)
  then show eff: "fs_effect s = (None, s)" by (simp add: fs_effect_def)
  show "fs_open trunc name s =
       (None, if trunc \<or> map_of (fs_dir s) name = None
              then s\<lparr>fs_dir := put_file name [] (fs_dir s)\<rparr> else s)"
    by (simp add: fs_open_def eff)
  show "map_of (fs_dir s) name = Some old \<Longrightarrow> fs_write name b s =
       ((length b, None), s\<lparr>fs_dir := put_file name (old @ b) (fs_dir s)\<rparr>)"
    by (simp add: fs_write_def no)
  show "map_of (fs_dir s) name = Some old \<Longrightarrow> fs_rename name new s =
       (None, s\<lparr>fs_dir := put_file new old (del_file name (fs_dir s))\<rparr>)"
    by (simp add: fs_rename_def eff)
qed

end
