(* ===== verification/Wal_Segment.thy ===== *)
theory Wal_Segment
  imports Go_Fs
begin

text \<open>
  The directory a log lives in and the discovery of its rotated segments,
  \<^verbatim>\<open>internal/lsm/wal/segment/segments.go\<close>.  Names are relative to the log's directory, so
  \<^verbatim>\<open>filepath.Dir\<close>, \<^verbatim>\<open>Base\<close> and \<^verbatim>\<open>Join\<close> leave no trace.
\<close>

section \<open>Segment discovery\<close>

definition has_prefix :: "string \<Rightarrow> string \<Rightarrow> bool" where
  "has_prefix name p \<longleftrightarrow> take (length p) name = p"

definition trim_prefix :: "string \<Rightarrow> string \<Rightarrow> string" where
  "trim_prefix name p = (if has_prefix name p then drop (length p) name else name)"

text \<open>The number a directory entry contributes, if any.\<close>

definition segment_num :: "string \<Rightarrow> string \<Rightarrow> int option" where
  "segment_num base name =
     (if has_prefix name (base @ ''.'') then
        let part = trim_prefix name (base @ ''.'') in if part = [] then None else Atoi part
      else None)"

definition segment_name :: "string \<Rightarrow> int \<Rightarrow> string" where
  "segment_name base n =
     base @ ''.'' @ (if n < 0 then ''-'' @ show_nat (nat (- n)) else show_nat (nat n))"

definition segment_nums :: "string \<Rightarrow> dir \<Rightarrow> int list" where
  "segment_nums base d = List.map_filter (\<lambda>(name, _). segment_num base name) d"

definition ListSegments :: "string \<Rightarrow> dir \<Rightarrow> string list \<times> bool" where
  "ListSegments base d =
     (let nums = segment_nums base d
      in if nums = [] then ([], False)
         else
           let nums = sort nums;
               missing = (\<exists>i \<in> set [0..<length nums]. nums ! i \<noteq> int i + 1)
           in (map (segment_name base) nums, missing))"

definition NextSegmentID :: "string \<Rightarrow> dir \<Rightarrow> u64" where
  "NextSegmentID base d = word_of_int (foldl max 0 (segment_nums base d) + 1)"

lemma segment_num_name:
  "0 \<le> n \<Longrightarrow> n < 2 ^ 63 \<Longrightarrow> segment_num base (segment_name base n) = Some n"
  by (simp add: segment_num_def segment_name_def has_prefix_def trim_prefix_def Let_def
      Atoi_show_nat nat_less_iff)

lemma segment_num_base [simp]: "segment_num base base = None"
  by (simp add: segment_num_def has_prefix_def)

lemma segment_name_neq_base [simp]: "segment_name base n \<noteq> base" "base \<noteq> segment_name base n"
  by (auto simp: segment_name_def)

lemma segment_name_inject:
  "0 \<le> m \<Longrightarrow> 0 \<le> n \<Longrightarrow> segment_name base m = segment_name base n \<longleftrightarrow> m = n"
  by (auto simp: segment_name_def show_nat_inject)

lemma segment_nums_put_base:
  "segment_nums base (put_file base b d) = segment_nums base d"
  by (induction d) (auto simp: put_file_def segment_nums_def map_filter_simps split: option.splits)

lemma segment_nums_del_base:
  "segment_nums base (del_file base d) = segment_nums base d"
  by (induction d) (auto simp: del_file_def segment_nums_def map_filter_simps split: option.splits)

lemma segment_nums_put_new:
  assumes "segment_num base name = Some n" "n \<notin> set (segment_nums base d)"
  shows "segment_nums base (put_file name b d) = n # segment_nums base d"
proof -
  have "\<forall>(m, c) \<in> set d. m \<noteq> name"
    using assms by (force simp: segment_nums_def map_filter_def)
  then have "filter (\<lambda>(m, _). m \<noteq> name) d = d" by (simp add: filter_id_conv split_beta)
  then show ?thesis using assms(1) by (simp add: put_file_def segment_nums_def map_filter_simps)
qed

lemma ListSegments_consecutive:
  assumes "sort (segment_nums base d) = map (\<lambda>i. int i + 1) [0..<n]"
  shows "ListSegments base d = (map (\<lambda>i. segment_name base (int i + 1)) [0..<n], False)"
proof (cases n)
  case 0
  with assms have "segment_nums base d = []" by (metis list.map_disc_iff set_empty set_sort upt_0)
  with 0 show ?thesis by (simp add: ListSegments_def)
next
  case (Suc m)
  with assms have "segment_nums base d \<noteq> []" by auto
  with assms show ?thesis by (simp add: ListSegments_def Let_def)
qed

end
