(* ===== verification/Wal_Log.thy ===== *)
theory Wal_Log
  imports Wal_Codec Wal_Segment
begin

text \<open>
  The write-ahead log, \<^verbatim>\<open>internal/lsm/wal\<close>: opening, appending with block framing and
  rotation, the asynchronous writer's batches, closing, and replay with resynchronisation and
  repair.  The state is the \<^verbatim>\<open>WAL\<close> struct and the file system it writes
  (theory \<open>Go_Fs\<close>).  Errors that wrap a sentinel with \<^verbatim>\<open>%w\<close> are the sentinel.
\<close>

section \<open>The log's state\<close>

text \<open>
  \<open>HNil\<close> is Go's nil file, \<open>HClosed\<close> a handle whose file was closed while the struct still
  points to it (a rotation that failed half way).
\<close>

datatype handle = HNil | HOpen | HClosed

record WAL =
  w_f :: handle
  w_path :: string
  w_sync :: bool
  w_maxBytes :: u64
  w_sizeBytes :: u64
  w_maxRecord :: u64
  w_blockSize :: u32
  w_segmentID :: u64
  w_records :: "RecordBuffer list"
  w_blockLen :: nat
  w_async :: bool
  w_batchMax :: int
  w_closed :: bool
  w_repairOnReplay :: bool

record wal_options =
  o_Path :: string
  o_Sync :: bool
  o_MaxSegment :: u64
  o_MaxRecordBytes :: u64
  o_BlockSize :: u32
  o_Async :: bool
  o_BatchMax :: int
  o_RepairOnReplay :: bool

text \<open>A call that ends with an error and the state it leaves.\<close>

type_synonym wal_call = "lsm_error option \<times> WAL \<times> fs"

definition and_then :: "wal_call \<Rightarrow> (WAL \<Rightarrow> fs \<Rightarrow> wal_call) \<Rightarrow> wal_call" where
  "and_then r k = (case r of (None, w, s) \<Rightarrow> k w s | (Some e, w, s) \<Rightarrow> (Some e, w, s))"

lemma and_then_simps [simp]:
  "and_then (None, w, s) k = k w s"
  "and_then (Some e, w, s) k = (Some e, w, s)"
  by (simp_all add: and_then_def)

section \<open>Opening\<close>

text \<open>
  The block size and segment number after the header step: written for an empty file, read
  from a non-empty one when it can be opened and its header is valid, and otherwise the
  configured ones.  An error of opening or reading is ignored; the handle opened for reading is
  closed before the size is checked.
\<close>

definition read_header :: "string \<Rightarrow> u32 \<Rightarrow> u64 \<Rightarrow> fs \<Rightarrow> (u32 \<times> u64) \<times> fs" where
  "read_header path blockSize segmentID s =
     (let b = (case map_of (fs_dir s) path of None \<Rightarrow> [] | Some b \<Rightarrow> b);
          (seen, s') = (case next_outcome s of (IoOk, s') \<Rightarrow> (b, s') | (IoFail n, s') \<Rightarrow> (take n b, s'))
      in (case fst (ReadSegmentHeader seen) of
            Inr hdr \<Rightarrow> (sh_BlockSize hdr, sh_SegmentID hdr)
          | Inl _ \<Rightarrow> (blockSize, segmentID), s'))"

definition open_header :: "string \<Rightarrow> u32 \<Rightarrow> u64 \<Rightarrow> fs \<Rightarrow> (u32 \<times> u64) result \<times> fs" where
  "open_header path blockSize segmentID s =
     (if file_size path s = 0 then
        (case fs_write path (WriteSegmentHeader blockSize segmentID (fs_now s)) s of
           ((_, Some e), s') \<Rightarrow> (Inl e, s')
         | ((_, None), s') \<Rightarrow> (Inr (blockSize, segmentID), s'))
      else
        let (cerr, (bs, sid), s') =
          (case fs_effect s of
             (Some _, s1) \<Rightarrow> (None, (blockSize, segmentID), s1)
           | (None, s1) \<Rightarrow>
               (let (hdr, s2) = read_header path blockSize segmentID s1; (cerr, s3) = fs_effect s2
                in (cerr, hdr, s3)))
        in (case cerr of
              Some e \<Rightarrow> (Inl e, s')
            | None \<Rightarrow>
                if unat bs < MinBlockSize then (Inl (ErrMsg ''wal block size too small''), s')
                else (Inr (bs, sid), s')))"

definition NewWAL :: "wal_options \<Rightarrow> fs \<Rightarrow> WAL result \<times> fs" where
  "NewWAL opts s =
     (if o_Path opts = [] then (Inl (ErrMsg ''wal path required''), s)
      else
        let blockSize = (if o_BlockSize opts = 0 then 64 * 1024 else o_BlockSize opts)
        in if unat blockSize < MinBlockSize then (Inl (ErrMsg ''wal block size too small''), s)
        else (case fs_effect s of
          (Some e, s1) \<Rightarrow> (Inl e, s1)
        | (None, s1) \<Rightarrow>
            (case fs_open False (o_Path opts) s1 of
               (Some e, s2) \<Rightarrow> (Inl e, s2)
             | (None, s2) \<Rightarrow>
                 let segmentID = NextSegmentID (o_Path opts) (fs_dir s2)
                 in (case open_header (o_Path opts) blockSize segmentID s2 of
                       (Inl e, s3) \<Rightarrow> (Inl e, s3)
                     | (Inr (bs, sid), s3) \<Rightarrow>
                         if 0 < o_MaxRecordBytes opts \<and> ucast bs < o_MaxRecordBytes opts
                         then (Inl (ErrMsg ''wal max record bytes exceeds block size''), s3)
                         else (Inr \<lparr>w_f = HOpen, w_path = o_Path opts, w_sync = o_Sync opts,
                                    w_maxBytes = o_MaxSegment opts,
                                    w_sizeBytes = word_of_nat (file_size (o_Path opts) s3),
                                    w_maxRecord = o_MaxRecordBytes opts, w_blockSize = bs,
                                    w_segmentID = sid, w_records = [], w_blockLen = 0,
                                    w_async = o_Async opts, w_batchMax = o_BatchMax opts,
                                    w_closed = False,
                                    w_repairOnReplay = o_RepairOnReplay opts\<rparr>, s3)))))"

section \<open>Appending\<close>

definition ValidateEntry :: "WAL \<Rightarrow> entry \<Rightarrow> lsm_error option" where
  "ValidateEntry w entry =
     (if Key entry = [] then Some ErrWALEmptyKey
      else if Value entry = [] \<and> \<not> Tombstone entry then Some ErrWALEmptyValue
      else
        let rb = NewRecordBufferOwned entry
        in if unat (w_blockSize w) < rb_Total rb then Some ErrWALRecordTooLarge
           else if 0 < w_maxRecord w \<and> unat (w_maxRecord w) < rb_Total rb
                then Some ErrWALRecordTooLarge
           else None)"

definition rotate_wal :: "WAL \<Rightarrow> fs \<Rightarrow> wal_call" where
  "rotate_wal w s =
     (if w_f w = HNil then (Some ErrWALClosed, w, s)
      else
        let seg = segment_name (w_path w) (uint (w_segmentID w))
        in (case (if w_f w = HClosed then (Some ErrIO, s) else fs_effect s) of
              (Some e, s1) \<Rightarrow> (Some e, w\<lparr>w_f := HClosed\<rparr>, s1)
            | (None, s1) \<Rightarrow>
                (case fs_rename (w_path w) seg s1 of
                   (Some e, s2) \<Rightarrow> (Some e, w\<lparr>w_f := HClosed\<rparr>, s2)
                 | (None, s2) \<Rightarrow>
                     let w = w\<lparr>w_f := HClosed, w_segmentID := w_segmentID w + 1\<rparr>
                     in (case fs_open True (w_path w) s2 of
                           (Some e, s3) \<Rightarrow> (Some e, w, s3)
                         | (None, s3) \<Rightarrow>
                             (case fs_write (w_path w) (WriteSegmentHeader (w_blockSize w)
                                     (w_segmentID w) (fs_now s3)) s3 of
                                ((_, Some e), s4) \<Rightarrow> (Some e, w, snd (fs_effect s4))
                              | ((_, None), s4) \<Rightarrow>
                                  (None, w\<lparr>w_f := HOpen,
                                           w_sizeBytes := word_of_nat SegmentHeaderSize\<rparr>, s4))))))"

definition flushBlock :: "WAL \<Rightarrow> fs \<Rightarrow> wal_call" where
  "flushBlock w s =
     (if w_blockLen w = 0 then (None, w, s)
      else
        (case (if w_f w = HOpen then fs_write (w_path w) (WriteBlock (w_records w)) s
               else ((0, Some ErrIO), s)) of
           ((_, Some e), s1) \<Rightarrow> (Some e, w, s1)
         | ((n, None), s1) \<Rightarrow>
             let w = w\<lparr>w_sizeBytes := w_sizeBytes w + word_of_nat n, w_records := [],
                       w_blockLen := 0\<rparr>
             in if 0 < w_maxBytes w \<and> w_maxBytes w \<le> w_sizeBytes w then rotate_wal w s1
                else (None, w, s1)))"

definition appendLocked :: "WAL \<Rightarrow> fs \<Rightarrow> entry \<Rightarrow> wal_call" where
  "appendLocked w s entry =
     (if w_f w = HNil then (Some ErrWALClosed, w, s)
      else case ValidateEntry w entry of
        Some e \<Rightarrow> (Some e, w, s)
      | None \<Rightarrow>
          let rb = NewRecordBufferOwned entry
          in and_then
               (if 0 < w_blockLen w \<and> unat (w_blockSize w) < w_blockLen w + rb_Total rb
                then flushBlock w s else (None, w, s))
               (\<lambda>w s. (None, w\<lparr>w_records := w_records w @ [rb],
                             w_blockLen := w_blockLen w + rb_Total rb\<rparr>, s)))"

definition sync_file :: "WAL \<Rightarrow> fs \<Rightarrow> wal_call" where
  "sync_file w s =
     (if w_f w = HOpen then (case fs_effect s of (e, s') \<Rightarrow> (e, w, s')) else (Some ErrIO, w, s))"

definition append_sync :: "WAL \<Rightarrow> fs \<Rightarrow> entry \<Rightarrow> wal_call" where
  "append_sync w s entry =
     and_then (appendLocked w s entry) (\<lambda>w s.
     and_then (flushBlock w s) (\<lambda>w s.
       if w_sync w then sync_file w s else (None, w, s)))"

section \<open>Closing and the asynchronous writer\<close>

definition closeFile :: "WAL \<Rightarrow> fs \<Rightarrow> wal_call" where
  "closeFile w s =
     (if w_f w = HNil then (None, w, s)
      else if w_f w = HClosed then (Some ErrIO, w\<lparr>w_f := HNil\<rparr>, s)
      else (case fs_effect s of (e, s') \<Rightarrow> (e, w\<lparr>w_f := HNil\<rparr>, s')))"

definition Close_sync :: "WAL \<Rightarrow> fs \<Rightarrow> wal_call" where
  "Close_sync w s =
     (if w_f w = HNil then (None, w, s)
      else and_then (flushBlock w s) closeFile)"

definition isFatalAppendError :: "lsm_error \<Rightarrow> bool" where
  "isFatalAppendError e = (e \<notin> {ErrWALEmptyKey, ErrWALEmptyValue, ErrWALRecordTooLarge})"

text \<open>The loop over a batch: the error of each request, the fatal error, and the state.\<close>

fun batch_loop ::
  "WAL \<Rightarrow> fs \<Rightarrow> entry list \<Rightarrow> lsm_error option \<Rightarrow>
     lsm_error option list \<times> lsm_error option \<times> WAL \<times> fs" where
  "batch_loop w s [] fatal = ([], fatal, w, s)"
| "batch_loop w s (e # es) (Some f) =
     (let (errs, fatal, w', s') = batch_loop w s es (Some f) in (Some f # errs, fatal, w', s'))"
| "batch_loop w s (e # es) None =
     (case appendLocked w s e of
        (None, w1, s1) \<Rightarrow>
          (let (errs, fatal, w', s') = batch_loop w1 s1 es None in (None # errs, fatal, w', s'))
      | (Some err, w1, s1) \<Rightarrow>
          (let (errs, fatal, w', s') =
                 batch_loop w1 s1 es (if isFatalAppendError err then Some err else None)
           in (Some err # errs, fatal, w', s')))"

definition processBatch ::
  "WAL \<Rightarrow> fs \<Rightarrow> entry list \<Rightarrow> bool \<Rightarrow> lsm_error option list \<times> lsm_error option \<times> WAL \<times> fs" where
  "processBatch w s batch syncNow =
     (let (errs, fatal, w1, s1) = batch_loop w s batch None;
          (fatal2, w2, s2) =
            (if fatal = None then
               (case flushBlock w1 s1 of
                  (Some e, w', s') \<Rightarrow> (Some e, w', s')
                | (None, w', s') \<Rightarrow> if syncNow then sync_file w' s' else (None, w', s'))
             else (fatal, w1, s1))
      in (case fatal2 of
            None \<Rightarrow> errs
          | Some f \<Rightarrow> map (\<lambda>e. if e = None then Some f else e) errs, fatal2, w2, s2))"

text \<open>\<^verbatim>\<open>collectBatch\<close> takes what is queued, up to \<^verbatim>\<open>batchMax\<close> requests.\<close>

fun collectBatch :: "int \<Rightarrow> 'a list \<Rightarrow> 'a list \<Rightarrow> 'a list \<times> 'a list" where
  "collectBatch batchMax batch [] = (batch, [])"
| "collectBatch batchMax batch (q # qs) =
     (if batchMax = 0 \<or> int (length batch) < batchMax
      then collectBatch batchMax (batch @ [q]) qs else (batch, q # qs))"

text \<open>The last flush, sync and close of \<^verbatim>\<open>drainAndClose\<close>.\<close>

definition finish_drain :: "WAL \<Rightarrow> fs \<Rightarrow> wal_call" where
  "finish_drain w s =
     (let (err, w2, s2) = flushBlock w s;
          (err2, w3, s3) = (if err = None \<and> w_sync w2 then sync_file w2 s2 else (err, w2, s2));
          (cerr, w4, s4) = closeFile w3 s3
      in (if err2 = None then cerr else err2, w4, s4))"

text \<open>
  \<^verbatim>\<open>drainAndClose\<close> on the queue it finds: full batches while it collects, the remainder,
  then a last flush and the close.  The answers to the requests come first.
\<close>

fun drain_loop ::
  "WAL \<Rightarrow> fs \<Rightarrow> entry list \<Rightarrow> entry list \<Rightarrow> lsm_error option list \<times> wal_call" where
  "drain_loop w s pending [] =
     (let (errs, fatal, w1, s1) =
            (if pending = [] then ([], None, w, s) else processBatch w s pending False)
      in (errs,
          case fatal of
            Some f \<Rightarrow> (let (_, w2, s2) = closeFile w1 s1 in (Some f, w2, s2))
          | None \<Rightarrow> finish_drain w1 s1))"
| "drain_loop w s pending (q # qs) =
     (if 0 < w_batchMax w \<and> w_batchMax w \<le> int (length pending) + 1 then
        (let (errs, fatal, w1, s1) = processBatch w s (pending @ [q]) False
         in case fatal of
              Some f \<Rightarrow> (let (_, w2, s2) = closeFile w1 s1 in (errs, Some f, w2, s2))
            | None \<Rightarrow> (let (errs', r) = drain_loop w1 s1 [] qs in (errs @ errs', r)))
      else drain_loop w s (pending @ [q]) qs)"

definition drainAndClose :: "WAL \<Rightarrow> fs \<Rightarrow> entry list \<Rightarrow> lsm_error option list \<times> wal_call" where
  "drainAndClose w s queue = drain_loop w s [] queue"

section \<open>Replay\<close>

text \<open>
  The callback is a state transformer that may fail.  The \<^verbatim>\<open>Views\<close> variants differ only
  in the record decoder, which is an argument here.
\<close>

type_synonym decoder = "bytes \<Rightarrow> (entry list \<times> lsm_error option) result"
type_synonym 's callback = "entry \<Rightarrow> 's \<Rightarrow> lsm_error option \<times> 's"

fun apply_entries :: "'s callback \<Rightarrow> entry list \<Rightarrow> 's \<Rightarrow> lsm_error option \<times> 's" where
  "apply_entries fn [] st = (None, st)"
| "apply_entries fn (e # es) st =
     (case fn e st of (None, st') \<Rightarrow> apply_entries fn es st' | (Some err, st') \<Rightarrow> (Some err, st'))"

definition apply_payload_with ::
  "decoder \<Rightarrow> bytes \<Rightarrow> 's callback \<Rightarrow> 's \<Rightarrow> lsm_error option \<times> 's" where
  "apply_payload_with decode payload fn st =
     (case decode payload of
        Inl panic \<Rightarrow> (Some panic, st)
      | Inr (_, Some _) \<Rightarrow> (Some ErrWALCorrupt, st)
      | Inr (entries, None) \<Rightarrow> apply_entries fn entries st)"

lemma resync_loop_progress:
  "resync_loop win r = (True, r') \<Longrightarrow> length r' < length r"
  by (induction win r rule: resync_loop.induct) (auto simp: Let_def split: if_splits)

lemma resync_loop_length: "resync_loop win r = (f, r') \<Longrightarrow> length r' \<le> length r"
  by (induction win r rule: resync_loop.induct) (fastforce simp: Let_def split: if_splits)+

lemma ReadFull_length: "ReadFull n r = (x, r') \<Longrightarrow> length r' \<le> length r"
  by (auto simp: ReadFull_def split: if_splits)

lemma DecodeBlockAfterMagic_length:
  "DecodeBlockAfterMagic r m = (x, r') \<Longrightarrow> length r' \<le> length r"
  by (auto simp: DecodeBlockAfterMagic_def Let_def dest!: ReadFull_length
      split: prod.splits read_full.splits if_splits)

lemma DecodeBlock_progress:
  "DecodeBlock r m = (x, r') \<Longrightarrow> x \<noteq> BlockEOF \<Longrightarrow> length r' < length r"
  by (cases "r = []")
     (auto simp: DecodeBlock_def ReadFull_def dest!: DecodeBlockAfterMagic_length
       split: if_splits)

function replay_from_resync_with ::
  "decoder \<Rightarrow> bytes \<Rightarrow> u32 \<Rightarrow> 's callback \<Rightarrow> 's \<Rightarrow> (bool \<times> lsm_error option) \<times> bytes \<times> 's" where
  "replay_from_resync_with decode r blockSize fn st =
     (case ResyncBlock r of
        (False, r1) \<Rightarrow> ((False, None), r1, st)
      | (True, r1) \<Rightarrow>
          (case DecodeBlockAfterMagic r1 blockSize of
             (BlockErr e, r2) \<Rightarrow>
               if e = ErrWALCorrupt then replay_from_resync_with decode r2 blockSize fn st
               else ((True, Some e), r2, st)
           | (BlockOk payload, r2) \<Rightarrow>
               (case apply_payload_with decode payload fn st of
                  (err, st') \<Rightarrow> ((True, err), r2, st'))
           | (BlockEOF, r2) \<Rightarrow> ((True, None), r2, st)))"
  by pat_completeness auto
termination
  by (relation "measure (\<lambda>(d, r, b, f, st). length r)")
     (auto simp: ResyncBlock_def
       dest!: resync_loop_progress [OF sym] DecodeBlockAfterMagic_length [OF sym])

declare replay_from_resync_with.simps [simp del]

lemma replay_from_resync_length:
  "replay_from_resync_with d r b fn st = (x, r', st') \<Longrightarrow> length r' \<le> length r"
proof (induction d r b fn st rule: replay_from_resync_with.induct)
  case (1 d r b fn st)
  obtain f r1 where r1: "ResyncBlock r = (f, r1)" by force
  obtain y r2 where r2: "DecodeBlockAfterMagic r1 b = (y, r2)" by force
  have le: "length r1 \<le> length r" "length r2 \<le> length r1"
    using r1 r2 by (auto simp: ResyncBlock_def dest: resync_loop_length DecodeBlockAfterMagic_length)
  show ?case
  proof (cases "f \<and> y = BlockErr ErrWALCorrupt")
    case True
    with "1.prems" r1 r2 have "replay_from_resync_with d r2 b fn st = (x, r', st')"
      by (subst (asm) replay_from_resync_with.simps) simp
    from "1.IH" [OF r1 [symmetric] _ r2 [symmetric] _ refl this] True le
    show ?thesis by simp
  next
    case False
    with "1.prems" r1 r2 le show ?thesis
      by (subst (asm) replay_from_resync_with.simps)
         (auto split: block_read.splits prod.splits if_splits bool.splits)
  qed
qed

text \<open>
  One round of the block loop of \<^verbatim>\<open>replaySegment\<close>: either it leaves the loop with the last
  good offset, an error and the callback's state, or it goes on with the reader, the last good
  offset, the corruption flag and the state.  \<open>flen\<close> is the file's length, so the offset of the
  reader is what it has consumed.
\<close>

type_synonym 's replay_end = "nat \<times> lsm_error option \<times> 's"
type_synonym 's replay_next = "bytes \<times> nat \<times> bool \<times> 's"

definition resync_round ::
  "decoder \<Rightarrow> nat \<Rightarrow> bytes \<Rightarrow> u32 \<Rightarrow> 's callback \<Rightarrow> nat \<Rightarrow> 's \<Rightarrow> 's replay_end + 's replay_next" where
  "resync_round decode flen r blockSize fn lastGood st =
     (case replay_from_resync_with decode r blockSize fn st of
        ((_, Some e), _, st') \<Rightarrow> Inl (lastGood, Some e, st')
      | ((False, None), _, st') \<Rightarrow> Inl (lastGood, Some ErrWALCorruptSegment, st')
      | ((True, None), r', st') \<Rightarrow> Inr (r', flen - length r', True, st'))"

definition replay_round ::
  "decoder \<Rightarrow> nat \<Rightarrow> bytes \<Rightarrow> u32 \<Rightarrow> 's callback \<Rightarrow> nat \<Rightarrow> bool \<Rightarrow> 's \<Rightarrow>
     's replay_end + 's replay_next" where
  "replay_round decode flen r blockSize fn lastGood corrupt st =
     (case DecodeBlock r blockSize of
        (BlockErr e, r1) \<Rightarrow>
          if e = ErrWALCorrupt then resync_round decode flen r1 blockSize fn lastGood st
          else Inl (lastGood, Some e, st)
      | (BlockEOF, r1) \<Rightarrow>
          Inl (lastGood, if corrupt then Some ErrWALCorruptSegment else None, st)
      | (BlockOk payload, r1) \<Rightarrow>
          (case apply_payload_with decode payload fn st of
             (None, st1) \<Rightarrow> Inr (r1, flen - length r1, corrupt, st1)
           | (Some e, st1) \<Rightarrow>
               if e = ErrWALCorrupt then resync_round decode flen r1 blockSize fn lastGood st1
               else Inl (lastGood, Some e, st1)))"

lemma resync_round_length:
  "resync_round d n r b fn l st = Inr (r', x) \<Longrightarrow> length r' \<le> length r"
  by (auto simp: resync_round_def split: prod.splits option.splits bool.splits
      dest!: replay_from_resync_length)

lemma replay_round_progress:
  "replay_round d n r b fn l c st = Inr (r', x) \<Longrightarrow> length r' < length r"
  by (cases "DecodeBlock r b")
     (auto simp: replay_round_def split: block_read.splits prod.splits option.splits if_splits
       dest!: resync_round_length DecodeBlock_progress)

function replay_blocks ::
  "decoder \<Rightarrow> nat \<Rightarrow> bytes \<Rightarrow> u32 \<Rightarrow> 's callback \<Rightarrow> nat \<Rightarrow> bool \<Rightarrow> 's \<Rightarrow> 's replay_end" where
  "replay_blocks decode flen r blockSize fn lastGood corrupt st =
     (case replay_round decode flen r blockSize fn lastGood corrupt st of
        Inl res \<Rightarrow> res
      | Inr (r', lastGood', corrupt', st') \<Rightarrow>
          replay_blocks decode flen r' blockSize fn lastGood' corrupt' st')"
  by pat_completeness auto
termination
  by (relation "measure (\<lambda>(d, n, r, b, f, l, c, st). length r)")
     (auto dest: replay_round_progress)

declare replay_blocks.simps [simp del]

definition replay_segment_with ::
  "decoder \<Rightarrow> bytes option \<Rightarrow> 's callback \<Rightarrow> 's \<Rightarrow> 's replay_end" where
  "replay_segment_with decode file fn st =
     (case file of
        None \<Rightarrow> (0, None, st)
      | Some b \<Rightarrow>
          (case ReadSegmentHeader b of
             (Inl _, _) \<Rightarrow> (0, Some ErrWALCorruptSegment, st)
           | (Inr hdr, r) \<Rightarrow>
               replay_blocks decode (length b) r (sh_BlockSize hdr) fn (length b - length r) False st))"

text \<open>Truncation of the file to the last good offset.\<close>

definition repairSegment :: "string \<Rightarrow> nat \<Rightarrow> fs \<Rightarrow> fs" where
  "repairSegment path offset s =
     (if offset = 0 then s
      else case fs_effect s of
        (Some _, s') \<Rightarrow> s'
      | (None, s') \<Rightarrow>
          (case map_of (fs_dir s') path of
             None \<Rightarrow> s'
           | Some b \<Rightarrow> s'\<lparr>fs_dir := put_file path (take offset b) (fs_dir s')\<rparr>))"

text \<open>The loop over the rotated segments: the corruption flag, an error that stops it, the state.\<close>

fun replay_rotated ::
  "decoder \<Rightarrow> dir \<Rightarrow> string list \<Rightarrow> 's callback \<Rightarrow> bool \<Rightarrow> 's \<Rightarrow> bool \<times> lsm_error option \<times> 's" where
  "replay_rotated decode d [] fn corrupt st = (corrupt, None, st)"
| "replay_rotated decode d (seg # segs) fn corrupt st =
     (case replay_segment_with decode (map_of d seg) fn st of
        (_, None, st') \<Rightarrow> replay_rotated decode d segs fn corrupt st'
      | (_, Some e, st') \<Rightarrow>
          if e = ErrWALCorruptSegment then replay_rotated decode d segs fn True st'
          else (corrupt, Some e, st'))"

definition replay_with ::
  "decoder \<Rightarrow> WAL \<Rightarrow> fs \<Rightarrow> 's callback \<Rightarrow> 's \<Rightarrow> lsm_error option \<times> fs \<times> 's" where
  "replay_with decode w s fn st =
     (let (segs, missing) = ListSegments (w_path w) (fs_dir s)
      in (case replay_rotated decode (fs_dir s) segs fn False st of
            (_, Some e, st1) \<Rightarrow> (Some e, s, st1)
          | (corrupt, None, st1) \<Rightarrow>
              (case replay_segment_with decode (map_of (fs_dir s) (w_path w)) fn st1 of
                 (lastGood, err, st2) \<Rightarrow>
                   if err \<noteq> None \<and> err \<noteq> Some ErrWALCorruptSegment then (err, s, st2)
                   else
                     let s' = (if err = Some ErrWALCorruptSegment \<and> w_repairOnReplay w \<and> 0 < lastGood
                               then repairSegment (w_path w) lastGood s else s)
                     in (if missing then Some ErrWALMissingSegment
                         else if corrupt \<or> err = Some ErrWALCorruptSegment
                              then Some ErrWALCorruptSegment else None, s', st2))))"

definition Replay :: "WAL \<Rightarrow> fs \<Rightarrow> 's callback \<Rightarrow> 's \<Rightarrow> lsm_error option \<times> fs \<times> 's" where
  "Replay = replay_with DecodeRecords"

definition ReplayViews :: "WAL \<Rightarrow> fs \<Rightarrow> 's callback \<Rightarrow> 's \<Rightarrow> lsm_error option \<times> fs \<times> 's" where
  "ReplayViews = replay_with DecodeRecordViews"

definition replaySegment :: "bytes option \<Rightarrow> 's callback \<Rightarrow> 's \<Rightarrow> 's replay_end" where
  "replaySegment = replay_segment_with DecodeRecords"

definition replaySegmentViews :: "bytes option \<Rightarrow> 's callback \<Rightarrow> 's \<Rightarrow> 's replay_end" where
  "replaySegmentViews = replay_segment_with DecodeRecordViews"

lemma ReplayViews_eq: "ReplayViews = Replay" "replaySegmentViews = replaySegment"
  by (simp_all add: ReplayViews_def Replay_def replaySegmentViews_def replaySegment_def
      DecodeRecordViews_def [abs_def] DecodeRecords_def [abs_def])

text \<open>The callback that collects the entries it is given.\<close>

definition collect :: "entry list callback" where
  "collect e acc = (None, acc @ [e])"

section \<open>Replay of a written segment\<close>

definition segment_file :: "u32 \<Rightarrow> u64 \<Rightarrow> u64 \<Rightarrow> entry list list \<Rightarrow> bytes" where
  "segment_file bs i t blks = WriteSegmentHeader bs i t @ concat (map block_bytes blks)"

definition blocks_fit :: "u32 \<Rightarrow> entry list list \<Rightarrow> bool" where
  "blocks_fit bs blks \<longleftrightarrow> (\<forall>blk \<in> set blks. block_fits bs blk)"

lemma blocks_fit_simps [simp]:
  "blocks_fit bs []"
  "blocks_fit bs (b # blks) \<longleftrightarrow> block_fits bs b \<and> blocks_fit bs blks"
  "blocks_fit bs (xs @ ys) \<longleftrightarrow> blocks_fit bs xs \<and> blocks_fit bs ys"
  by (auto simp: blocks_fit_def)

lemma apply_entries_collect [simp]: "apply_entries collect es acc = (None, acc @ es)"
  by (induction es arbitrary: acc) (auto simp: collect_def)

lemma apply_entries_append:
  "apply_entries fn (xs @ ys) st =
     (case apply_entries fn xs st of (None, st') \<Rightarrow> apply_entries fn ys st' | r \<Rightarrow> r)"
  by (induction xs arbitrary: st) (auto split: prod.splits option.splits)

lemma apply_payload_block:
  "block_fits bs es \<Longrightarrow>
     apply_payload_with DecodeRecords (block_payload es) fn st = apply_entries fn es st"
  using DecodeRecords_encoded [of es] block_fits_entries [of bs es]
  by (simp add: apply_payload_with_def block_payload_def)

lemma replay_blocks_written:
  assumes "blocks_fit bs blks" "apply_entries fn (concat blks) st = (None, st')"
  shows "replay_blocks DecodeRecords n (concat (map block_bytes blks) @ tail) bs fn l c st =
         replay_blocks DecodeRecords n tail bs fn (if blks = [] then l else n - length tail) c st'"
  using assms
proof (induction blks arbitrary: l st)
  case Nil
  then show ?case by simp
next
  case (Cons b blks)
  from Cons.prems(2) obtain st1 where
    st1: "apply_entries fn b st = (None, st1)" "apply_entries fn (concat blks) st1 = (None, st')"
    by (auto simp: apply_entries_append split: prod.splits option.splits)
  let ?r = "concat (map block_bytes blks) @ tail"
  have "replay_round DecodeRecords n (block_bytes b @ ?r) bs fn l c st =
          Inr (?r, n - length ?r, c, st1)"
    using Cons.prems(1) st1(1)
    by (simp add: replay_round_def DecodeBlock_block apply_payload_block [of bs])
  then show ?case
    using Cons.IH [OF _ st1(2)] Cons.prems(1)
    by (subst replay_blocks.simps) simp
qed

lemma replay_blocks_end:
  "replay_blocks d n [] bs fn l c st = (l, if c then Some ErrWALCorruptSegment else None, st)"
  by (subst replay_blocks.simps) (simp add: replay_round_def)

lemma replay_from_resync_Nil:
  "replay_from_resync_with d [] bs fn st = ((False, None), [], st)"
  by (subst replay_from_resync_with.simps) (simp add: ResyncBlock_def)

lemma replay_blocks_torn:
  assumes "block_fits bs b" "0 < k" "k < length (block_bytes b)"
  shows "replay_blocks d n (take k (block_bytes b)) bs fn l c st =
           (l, Some ErrWALCorruptSegment, st)"
  using DecodeBlock_truncated [OF assms]
  by (subst replay_blocks.simps)
     (simp add: replay_round_def resync_round_def replay_from_resync_Nil)

lemma replay_segment_header:
  "replaySegment (Some (WriteSegmentHeader bs i t @ r)) fn st =
     replay_blocks DecodeRecords (29 + length r) r bs fn 29 False st"
  by (simp add: replaySegment_def replay_segment_with_def ReadSegmentHeader_written)

lemma replay_segment_written:
  assumes "blocks_fit bs blks" "apply_entries fn (concat blks) st = (None, st')"
  shows "replaySegment (Some (segment_file bs i t blks)) fn st =
           (length (segment_file bs i t blks), None, st')"
  using replay_blocks_written [OF assms, of _ "[]"]
  by (simp add: segment_file_def replay_segment_header replay_blocks_end)

lemma replay_segment_torn:
  assumes "blocks_fit bs blks" "apply_entries fn (concat blks) st = (None, st')"
    and "block_fits bs b" "0 < k" "k < length (block_bytes b)"
  shows "replaySegment (Some (segment_file bs i t blks @ take k (block_bytes b))) fn st =
           (length (segment_file bs i t blks), Some ErrWALCorruptSegment, st')"
  using replay_blocks_written [OF assms(1,2), of _ "take k (block_bytes b)"]
  by (simp add: segment_file_def replay_segment_header replay_blocks_torn [OF assms(3-5)])

section \<open>The log's invariant\<close>

text \<open>
  The files of a log: the rotated segments numbered from one without a gap, each with its
  blocks, and the active file.  \<open>segs\<close> lists the blocks of each rotated segment, \<open>act\<close> those
  of the active file.
\<close>

definition rotated_ok :: "string \<Rightarrow> dir \<Rightarrow> entry list list list \<Rightarrow> bool" where
  "rotated_ok path d segs \<longleftrightarrow>
     sort (segment_nums path d) = map (\<lambda>i. int i + 1) [0..<length segs] \<and>
     (\<forall>i < length segs. \<exists>bs id t. blocks_fit bs (segs ! i) \<and>
        map_of d (segment_name path (int i + 1)) = Some (segment_file bs id t (segs ! i)))"

definition log_files ::
  "string \<Rightarrow> dir \<Rightarrow> entry list list list \<Rightarrow> u32 \<Rightarrow> entry list list \<Rightarrow> bool" where
  "log_files path d segs bs act \<longleftrightarrow>
     rotated_ok path d segs \<and> blocks_fit bs act \<and>
     (\<exists>t. map_of d path = Some (segment_file bs (word_of_nat (Suc (length segs))) t act))"

definition log_entries :: "entry list list list \<Rightarrow> entry list list \<Rightarrow> entry list" where
  "log_entries segs act = concat (concat segs) @ concat act"

lemma replay_rotated_written:
  assumes "\<forall>i < length segs. \<exists>bs id t. blocks_fit bs (segs ! i) \<and>
             map_of d (names ! i) = Some (segment_file bs id t (segs ! i))"
    and "length names = length segs"
    and "apply_entries fn (concat (concat segs)) st = (None, st')"
  shows "replay_rotated DecodeRecords d names fn c st = (c, None, st')"
  using assms
proof (induction names arbitrary: segs st)
  case Nil
  then show ?case by simp
next
  case (Cons name names)
  from Cons.prems(2) obtain seg segs' where segs: "segs = seg # segs'" by (cases segs) auto
  from Cons.prems(3) obtain st1 where
    st1: "apply_entries fn (concat seg) st = (None, st1)"
      "apply_entries fn (concat (concat segs')) st1 = (None, st')"
    by (auto simp: segs apply_entries_append split: prod.splits option.splits)
  obtain bs id t where "blocks_fit bs seg" "map_of d name = Some (segment_file bs id t seg)"
    using Cons.prems(1) segs by force
  then have "replay_segment_with DecodeRecords (map_of d name) fn st =
      (length (segment_file bs id t seg), None, st1)"
    using replay_segment_written [OF _ st1(1)] by (simp add: replaySegment_def)
  moreover have "replay_rotated DecodeRecords d names fn c st1 = (c, None, st')"
  proof (rule Cons.IH [OF _ _ st1(2)], intro allI impI)
    fix i assume "i < length segs'"
    then show "\<exists>bs id t. blocks_fit bs (segs' ! i) \<and>
             map_of d (names ! i) = Some (segment_file bs id t (segs' ! i))"
      using Cons.prems(1) [rule_format, of "Suc i"] by (simp add: segs)
  next
    show "length names = length segs'" using Cons.prems(2) segs by simp
  qed
  ultimately show ?case by simp
qed

lemma Replay_log_files:
  assumes "log_files (w_path w) (fs_dir s) segs bs act"
    and "apply_entries fn (log_entries segs act) st = (None, st')"
  shows "Replay w s fn st = (None, s, st')"
proof -
  from assms(2) obtain st1 where
    st1: "apply_entries fn (concat (concat segs)) st = (None, st1)"
      "apply_entries fn (concat act) st1 = (None, st')"
    by (auto simp: log_entries_def apply_entries_append split: prod.splits option.splits)
  let ?names = "map (\<lambda>i. segment_name (w_path w) (int i + 1)) [0..<length segs]"
  have rot: "rotated_ok (w_path w) (fs_dir s) segs" and fit: "blocks_fit bs act"
    using assms(1) by (simp_all add: log_files_def)
  obtain t where act: "map_of (fs_dir s) (w_path w) =
      Some (segment_file bs (word_of_nat (Suc (length segs))) t act)"
    using assms(1) by (auto simp: log_files_def)
  have "ListSegments (w_path w) (fs_dir s) = (?names, False)"
    using rot by (intro ListSegments_consecutive) (simp add: rotated_ok_def)
  moreover have "replay_rotated DecodeRecords (fs_dir s) ?names fn False st = (False, None, st1)"
    using rot by (intro replay_rotated_written [OF _ _ st1(1)]) (simp_all add: rotated_ok_def)
  moreover have "replay_segment_with DecodeRecords (map_of (fs_dir s) (w_path w)) fn st1 =
      (length (segment_file bs (word_of_nat (Suc (length segs))) t act), None, st')"
    using replay_segment_written [OF fit st1(2)] by (simp add: act replaySegment_def)
  ultimately show ?thesis by (simp add: Replay_def replay_with_def)
qed

definition buffer_ok :: "WAL \<Rightarrow> entry list \<Rightarrow> bool" where
  "buffer_ok w buf \<longleftrightarrow>
     w_records w = map NewRecordBufferOwned buf \<and> w_blockLen w = length (block_payload buf) \<and>
     (buf \<noteq> [] \<longrightarrow> block_fits (w_blockSize w) buf)"

text \<open>An open log without pending faults, its files, and the entries it still buffers.\<close>

definition wal_inv ::
  "WAL \<Rightarrow> fs \<Rightarrow> entry list list list \<Rightarrow> entry list list \<Rightarrow> entry list \<Rightarrow> bool" where
  "wal_inv w s segs act buf \<longleftrightarrow>
     fs_faults s = [] \<and> w_f w = HOpen \<and> MinBlockSize \<le> unat (w_blockSize w) \<and>
     w_segmentID w = word_of_nat (Suc (length segs)) \<and>
     log_files (w_path w) (fs_dir s) segs (w_blockSize w) act \<and> buffer_ok w buf"

definition wal_log :: "WAL \<Rightarrow> fs \<Rightarrow> nat \<Rightarrow> entry list \<Rightarrow> entry list \<Rightarrow> bool" where
  "wal_log w s n es buf \<longleftrightarrow>
     (\<exists>segs act. wal_inv w s segs act buf \<and> log_entries segs act = es \<and> length segs \<le> n)"

definition same_config :: "WAL \<Rightarrow> WAL \<Rightarrow> bool" where
  "same_config w w' \<longleftrightarrow>
     w_path w' = w_path w \<and> w_sync w' = w_sync w \<and> w_maxRecord w' = w_maxRecord w \<and>
     w_blockSize w' = w_blockSize w \<and> w_batchMax w' = w_batchMax w \<and> w_closed w' = w_closed w \<and>
     w_async w' = w_async w \<and> w_repairOnReplay w' = w_repairOnReplay w"

lemma same_config_refl [simp]: "same_config w w"
  by (simp add: same_config_def)

lemma same_config_trans [trans]: "same_config w w' \<Longrightarrow> same_config w' w'' \<Longrightarrow> same_config w w''"
  by (simp add: same_config_def)

lemma ValidateEntry_config: "same_config w w' \<Longrightarrow> ValidateEntry w' e = ValidateEntry w e"
  by (simp add: ValidateEntry_def same_config_def)

lemma uint_word_of_nat: "n < 2 ^ 63 \<Longrightarrow> uint (word_of_nat n :: u64) = int n"
  by (simp add: unsigned_of_nat take_bit_nat_eq_self)

lemma uint_segment_id:
  "Suc n < 2 ^ 63 \<Longrightarrow> uint (word_of_nat (Suc n) :: u64) = int n + 1"
  using uint_word_of_nat [of "Suc n"] by (simp del: of_nat_Suc)

lemma rotated_ok_put_active:
  "rotated_ok path d segs \<Longrightarrow> rotated_ok path (put_file path b d) segs"
  by (simp add: rotated_ok_def segment_nums_put_base)

lemma sort_Cons_max: "(\<forall>y \<in> set xs. y \<le> x) \<Longrightarrow> sort (x # xs) = sort xs @ [x]"
  for x :: "'a::linorder"
  by (rule properties_for_sort) (simp_all add: sorted_append)

text \<open>Moving the active file to the next number extends the rotated segments by one.\<close>

lemma rotated_ok_rename:
  assumes "log_files path d segs bs act" "Suc (length segs) < 2 ^ 63"
    and "map_of d path = Some b"
  shows "rotated_ok path (put_file (segment_name path (int (length segs) + 1)) b (del_file path d))
           (segs @ [act])"
proof -
  let ?n = "int (length segs) + 1"
  let ?d = "put_file (segment_name path ?n) b (del_file path d)"
  have rot: "rotated_ok path d segs" and fit: "blocks_fit bs act"
    using assms(1) by (simp_all add: log_files_def)
  obtain t where b: "b = segment_file bs (word_of_nat (Suc (length segs))) t act"
    using assms(1,3) by (auto simp: log_files_def)
  have nums: "sort (segment_nums path d) = map (\<lambda>i. int i + 1) [0..<length segs]"
    using rot by (simp add: rotated_ok_def)
  have mem: "set (segment_nums path d) = (\<lambda>i. int i + 1) ` {0..<length segs}"
    using arg_cong [OF nums, of set] by simp
  then have new: "?n \<notin> set (segment_nums path d)" by auto
  have "segment_nums path ?d = ?n # segment_nums path d"
    using assms(2) new segment_num_name [of ?n path]
    by (subst segment_nums_put_new) (simp_all add: segment_nums_del_base)
  moreover have "sort (?n # segment_nums path d) = map (\<lambda>i. int i + 1) [0..<length segs] @ [?n]"
    by (subst sort_Cons_max) (simp_all add: mem nums)
  moreover have "\<exists>bs id t. blocks_fit bs ((segs @ [act]) ! i) \<and>
      map_of ?d (segment_name path (int i + 1)) = Some (segment_file bs id t ((segs @ [act]) ! i))"
    if "i < length (segs @ [act])" for i
  proof (cases "i = length segs")
    case True
    with fit b show ?thesis by auto
  next
    case False
    with that have i: "i < length segs" by simp
    with rot obtain bs id t where "blocks_fit bs (segs ! i)"
      "map_of d (segment_name path (int i + 1)) = Some (segment_file bs id t (segs ! i))"
      unfolding rotated_ok_def by blast
    with i show ?thesis by (auto simp: nth_append segment_name_inject)
  qed
  ultimately show ?thesis by (simp add: rotated_ok_def)
qed

section \<open>Every operation keeps the log\<close>

lemma rotate_wal_log:
  assumes inv: "wal_inv w s segs act []" and n: "length segs + 2 < 2 ^ 63"
  shows "\<exists>w' s'. rotate_wal w s = (None, w', s') \<and> wal_inv w' s' (segs @ [act]) [] [] \<and>
           same_config w w'"
proof -
  from inv have s: "fs_faults s = []" and f: "w_f w = HOpen"
    and files: "log_files (w_path w) (fs_dir s) segs (w_blockSize w) act"
    and sid: "w_segmentID w = word_of_nat (Suc (length segs))"
    by (simp_all add: wal_inv_def)
  from files obtain b where b: "map_of (fs_dir s) (w_path w) = Some b"
    by (auto simp: log_files_def)
  have seg: "segment_name (w_path w) (uint (w_segmentID w)) =
      segment_name (w_path w) (int (length segs) + 1)"
    using n by (simp add: sid uint_segment_id del: of_nat_Suc)
  let ?d = "put_file (segment_name (w_path w) (int (length segs) + 1)) b
              (del_file (w_path w) (fs_dir s))"
  let ?hdr = "WriteSegmentHeader (w_blockSize w) (w_segmentID w + 1) (fs_now s)"
  let ?w = "w\<lparr>w_f := HOpen, w_segmentID := w_segmentID w + 1,
              w_sizeBytes := word_of_nat SegmentHeaderSize\<rparr>"
  let ?s = "s\<lparr>fs_dir := put_file (w_path w) ?hdr (put_file (w_path w) [] ?d)\<rparr>"
  have rot: "rotate_wal w s = (None, ?w, ?s)"
    unfolding rotate_wal_def Let_def seg
    using f s b by simp
  have "rotated_ok (w_path w) (put_file (w_path w) ?hdr (put_file (w_path w) [] ?d)) (segs @ [act])"
    using rotated_ok_rename [OF files _ b] n by (intro rotated_ok_put_active) simp
  moreover have "?hdr = segment_file (w_blockSize w) (word_of_nat (Suc (length (segs @ [act]))))
      (fs_now s) []"
    by (simp add: segment_file_def sid add.commute)
  ultimately have "wal_inv ?w ?s (segs @ [act]) [] []"
    using inv by (auto simp: wal_inv_def log_files_def buffer_ok_def sid add.commute)
  with rot show ?thesis by (auto simp: same_config_def)
qed

lemma block_payload_Nil [simp]: "block_payload [] = []"
  by (simp add: block_payload_def)

lemma block_payload_append [simp]: "block_payload (xs @ ys) = block_payload xs @ block_payload ys"
  by (simp add: block_payload_def)

lemma block_payload_eq_Nil [simp]: "block_payload es = [] \<longleftrightarrow> es = []"
  using length_EncodeEntry by (cases es) (auto simp: block_payload_def simp flip: length_0_conv)

lemma buffer_ok_empty: "buffer_ok w buf \<Longrightarrow> w_blockLen w = 0 \<longleftrightarrow> buf = []"
  by (simp add: buffer_ok_def)

lemma wal_logI:
  "wal_inv w s segs act buf \<Longrightarrow> log_entries segs act = es \<Longrightarrow> length segs \<le> n \<Longrightarrow> wal_log w s n es buf"
  by (auto simp: wal_log_def)

lemma wal_log_mono: "wal_log w s m es buf \<Longrightarrow> m \<le> n \<Longrightarrow> wal_log w s n es buf"
  by (fastforce simp: wal_log_def)

lemma flushBlock_log:
  assumes log: "wal_log w s n es buf" and n: "n + 2 < 2 ^ 63"
  shows "\<exists>w' s'. flushBlock w s = (None, w', s') \<and> wal_log w' s' (n + 1) (es @ buf) [] \<and>
           same_config w w'"
proof -
  from log obtain segs act where inv: "wal_inv w s segs act buf"
    and es: "log_entries segs act = es" "length segs \<le> n"
    by (auto simp: wal_log_def)
  have buf: "buffer_ok w buf" using inv by (simp add: wal_inv_def)
  show ?thesis
  proof (cases "buf = []")
    case True
    with buf log have "flushBlock w s = (None, w, s)" by (simp add: flushBlock_def buffer_ok_empty)
    moreover have "wal_log w s (n + 1) (es @ buf) []"
      using True wal_log_mono [OF log, of "n + 1"] by simp
    ultimately show ?thesis by auto
  next
    case False
    from inv have s: "fs_faults s = []" and f: "w_f w = HOpen"
      and files: "log_files (w_path w) (fs_dir s) segs (w_blockSize w) act"
      by (simp_all add: wal_inv_def)
    from files obtain t where
      b: "map_of (fs_dir s) (w_path w) =
            Some (segment_file (w_blockSize w) (word_of_nat (Suc (length segs))) t act)"
      by (auto simp: log_files_def)
    let ?b = "segment_file (w_blockSize w) (word_of_nat (Suc (length segs))) t (act @ [buf])"
    let ?s = "s\<lparr>fs_dir := put_file (w_path w) ?b (fs_dir s)\<rparr>"
    let ?w = "w\<lparr>w_sizeBytes := w_sizeBytes w + word_of_nat (length (block_bytes buf)),
                w_records := [], w_blockLen := 0\<rparr>"
    have wr: "WriteBlock (w_records w) = block_bytes buf"
      using buf by (simp add: buffer_ok_def block_bytes_def)
    have flush: "flushBlock w s =
        (if 0 < w_maxBytes w \<and> w_maxBytes w \<le> w_sizeBytes ?w then rotate_wal ?w ?s
         else (None, ?w, ?s))"
      using False buf s f b wr
      by (simp add: flushBlock_def buffer_ok_empty Let_def segment_file_def)
    have fit: "blocks_fit (w_blockSize w) (act @ [buf])"
      using files buf False by (simp add: log_files_def buffer_ok_def)
    have "rotated_ok (w_path w) (put_file (w_path w) ?b (fs_dir s)) segs"
      using files by (simp add: log_files_def rotated_ok_put_active)
    with fit have inv1: "wal_inv ?w ?s segs (act @ [buf]) []"
      using inv by (auto simp: wal_inv_def log_files_def buffer_ok_def)
    show ?thesis
    proof (cases "0 < w_maxBytes w \<and> w_maxBytes w \<le> w_sizeBytes ?w")
      case True
      have "length segs + 2 < 2 ^ 63" using n es(2) by linarith
      from rotate_wal_log [OF inv1 this] obtain w' s' where
        r: "rotate_wal ?w ?s = (None, w', s')" "wal_inv w' s' (segs @ [act @ [buf]]) [] []"
          "same_config ?w w'"
        by blast
      have "wal_log w' s' (n + 1) (es @ buf) []"
        using es by (intro wal_logI [OF r(2)]) (simp_all add: log_entries_def)
      moreover have "same_config w w'" using r(3) by (simp add: same_config_def)
      ultimately show ?thesis using flush True r(1) by auto
    next
      case False
      with flush have "flushBlock w s = (None, ?w, ?s)" by auto
      moreover have "wal_log ?w ?s (n + 1) (es @ buf) []"
        using es by (intro wal_logI [OF inv1]) (simp_all add: log_entries_def)
      ultimately show ?thesis by (auto simp: same_config_def)
    qed
  qed
qed

lemma ValidateEntry_fits:
  "ValidateEntry w e = None \<Longrightarrow> 21 + length (Key e) + length (Value e) \<le> unat (w_blockSize w)"
  by (auto simp: ValidateEntry_def Let_def split: if_splits)

lemma ValidateEntry_nonfatal: "ValidateEntry w e = Some err \<Longrightarrow> \<not> isFatalAppendError err"
  by (auto simp: ValidateEntry_def isFatalAppendError_def Let_def split: if_splits)

lemma length_block_payload_single [simp]:
  "length (block_payload [e]) = 21 + length (Key e) + length (Value e)"
  by (simp add: length_block_payload)

lemma block_fits_blockSize:
  fixes bs :: u32
  assumes "es \<noteq> []" "length (block_payload es) \<le> unat bs"
  shows "block_fits bs es"
  using assms unat_u32_less [of bs] by (simp add: block_fits_def)

lemma appendLocked_invalid:
  "w_f w = HOpen \<Longrightarrow> ValidateEntry w e = Some err \<Longrightarrow> appendLocked w s e = (Some err, w, s)"
  by (simp add: appendLocked_def)

lemma appendLocked_buffer:
  assumes "wal_log w s n es buf" "ValidateEntry w e = None"
    and fits: "w_blockLen w + (21 + length (Key e) + length (Value e)) \<le> unat (w_blockSize w)"
  shows "wal_log (w\<lparr>w_records := w_records w @ [NewRecordBufferOwned e],
                   w_blockLen := w_blockLen w + (21 + length (Key e) + length (Value e))\<rparr>) s n es
           (buf @ [e])"
proof -
  from assms(1) obtain segs act where inv: "wal_inv w s segs act buf"
    and es: "log_entries segs act = es" "length segs \<le> n"
    by (auto simp: wal_log_def)
  have "block_fits (w_blockSize w) (buf @ [e])"
    using inv fits by (intro block_fits_blockSize) (simp_all add: wal_inv_def buffer_ok_def)
  with inv show ?thesis
    by (intro wal_logI [OF _ es]) (simp_all add: wal_inv_def buffer_ok_def)
qed

lemma wal_log_blockLen: "wal_log w s n es buf \<Longrightarrow> w_blockLen w = length (block_payload buf)"
  by (auto simp: wal_log_def wal_inv_def buffer_ok_def)

lemma wal_log_open: "wal_log w s n es buf \<Longrightarrow> w_f w = HOpen \<and> fs_faults s = []"
  by (auto simp: wal_log_def wal_inv_def)

lemma appendLocked_log:
  assumes log: "wal_log w s n es buf" and n: "n + 2 < 2 ^ 63"
    and valid: "ValidateEntry w e = None"
  shows "\<exists>w' s' es' buf'. appendLocked w s e = (None, w', s') \<and> wal_log w' s' (n + 1) es' buf' \<and>
           es' @ buf' = es @ buf @ [e] \<and> same_config w w'"
proof -
  let ?t = "21 + length (Key e) + length (Value e)"
  have f: "w_f w = HOpen" using wal_log_open [OF log] by simp
  show ?thesis
  proof (cases "0 < w_blockLen w \<and> unat (w_blockSize w) < w_blockLen w + ?t")
    case True
    from flushBlock_log [OF log n] obtain w1 s1 where
      fl: "flushBlock w s = (None, w1, s1)" "wal_log w1 s1 (n + 1) (es @ buf) []" "same_config w w1"
      by blast
    have v: "ValidateEntry w1 e = None" using valid fl(3) by (simp add: ValidateEntry_config)
    have "wal_log (w1\<lparr>w_records := w_records w1 @ [NewRecordBufferOwned e],
                   w_blockLen := w_blockLen w1 + ?t\<rparr>) s1 (n + 1) (es @ buf) ([] @ [e])"
      using fl(2) v ValidateEntry_fits [OF v] wal_log_blockLen [OF fl(2)]
      by (intro appendLocked_buffer) simp_all
    then show ?thesis
      using True fl f valid by (fastforce simp: appendLocked_def Let_def same_config_def)
  next
    case False
    then have "w_blockLen w + ?t \<le> unat (w_blockSize w)"
      using ValidateEntry_fits [OF valid] by linarith
    with log valid have "wal_log (w\<lparr>w_records := w_records w @ [NewRecordBufferOwned e],
                   w_blockLen := w_blockLen w + ?t\<rparr>) s n es (buf @ [e])"
      by (rule appendLocked_buffer)
    from wal_log_mono [OF this, of "n + 1"] show ?thesis
      using False f valid by (fastforce simp: appendLocked_def Let_def same_config_def)
  qed
qed

lemma sync_file_log: "wal_log w s n es buf \<Longrightarrow> sync_file w s = (None, w, s)"
  using wal_log_open [of w s n es buf] by (simp add: sync_file_def)

lemma append_sync_buffered:
  assumes log: "wal_log w s n es buf" and n: "n + 4 < 2 ^ 63"
    and valid: "ValidateEntry w e = None"
  shows "\<exists>w' s'. append_sync w s e = (None, w', s') \<and> wal_log w' s' (n + 2) (es @ buf @ [e]) [] \<and>
           same_config w w'"
proof -
  have n2: "n + 2 < 2 ^ 63" "n + 1 + 2 < 2 ^ 63" using n by simp_all
  from appendLocked_log [OF log n2(1) valid] obtain w1 s1 es1 buf1 where
    a: "appendLocked w s e = (None, w1, s1)" "wal_log w1 s1 (n + 1) es1 buf1"
      "es1 @ buf1 = es @ buf @ [e]" "same_config w w1"
    by blast
  from flushBlock_log [OF a(2) n2(2)] obtain w2 s2 where
    b: "flushBlock w1 s1 = (None, w2, s2)" "wal_log w2 s2 (n + 2) (es @ buf @ [e]) []" "same_config w1 w2"
    using a(3) by auto
  show ?thesis
    using a b sync_file_log [OF b(2)] same_config_trans [OF a(4) b(3)]
    by (simp add: append_sync_def)
qed

lemma append_sync_log:
  assumes "wal_log w s n es []" "n + 4 < 2 ^ 63" "ValidateEntry w e = None"
  shows "\<exists>w' s'. append_sync w s e = (None, w', s') \<and> wal_log w' s' (n + 2) (es @ [e]) [] \<and>
           same_config w w'"
  using append_sync_buffered [OF assms] by simp

text \<open>An append whose block cannot be written is refused, and its record stays in the buffer.\<close>

lemma append_sync_refused:
  assumes log: "wal_log w s n es []" and valid: "ValidateEntry w e = None"
  shows "\<exists>w' s'. append_sync w (s\<lparr>fs_faults := [IoFail 0]\<rparr>) e = (Some ErrIO, w', s') \<and> wal_log w' s' n es [e] \<and>
           same_config w w'"
proof -
  from log obtain segs act where inv: "wal_inv w s segs act []" "log_entries segs act = es" "length segs \<le> n"
    by (auto simp: wal_log_def)
  then have files: "log_files (w_path w) (fs_dir s) segs (w_blockSize w) act" by (simp add: wal_inv_def)
  then obtain t where b: "map_of (fs_dir s) (w_path w) =
      Some (segment_file (w_blockSize w) (word_of_nat (Suc (length segs))) t act)"
    by (auto simp: log_files_def)
  let ?s = "s\<lparr>fs_dir := put_file (w_path w) (segment_file (w_blockSize w) (word_of_nat (Suc (length segs))) t act) (fs_dir s)\<rparr>"
  let ?w = "w\<lparr>w_records := w_records w @ [NewRecordBufferOwned e],
              w_blockLen := w_blockLen w + (21 + length (Key e) + length (Value e))\<rparr>"
  have "log_files (w_path w) (fs_dir ?s) segs (w_blockSize w) act"
    using files by (auto simp: log_files_def rotated_ok_put_active)
  then have "wal_log w ?s n es []" using inv by (intro wal_logI) (auto simp: wal_inv_def)
  from appendLocked_buffer [OF this valid] have log1: "wal_log ?w ?s n es [e]"
    using ValidateEntry_fits [OF valid] wal_log_blockLen [OF log] by simp
  have f: "w_f w = HOpen" "fs_faults s = []" "w_blockLen w = 0"
    using wal_log_open [OF log] wal_log_blockLen [OF log] by simp_all
  have "append_sync w (s\<lparr>fs_faults := [IoFail 0]\<rparr>) e = (Some ErrIO, ?w, ?s)"
    using f valid b by (simp add: append_sync_def appendLocked_def flushBlock_def fs_write_def next_outcome_def)
  with log1 show ?thesis by (auto simp: same_config_def)
qed

lemma append_sync_invalid:
  "w_f w = HOpen \<Longrightarrow> ValidateEntry w e = Some err \<Longrightarrow> append_sync w s e = (Some err, w, s)"
  by (simp add: append_sync_def appendLocked_invalid)

text \<open>A sequence of synchronous appends and the error of each.\<close>

fun append_all :: "WAL \<Rightarrow> fs \<Rightarrow> entry list \<Rightarrow> lsm_error option list \<times> WAL \<times> fs" where
  "append_all w s [] = ([], w, s)"
| "append_all w s (e # es) =
     (let (err, w1, s1) = append_sync w s e; (errs, w2, s2) = append_all w1 s1 es
      in (err # errs, w2, s2))"

lemma append_all_log:
  assumes "wal_log w s n es []" "n + 2 * length xs + 2 < 2 ^ 63"
  shows "\<exists>w' s'. append_all w s xs = (map (ValidateEntry w) xs, w', s') \<and>
           wal_log w' s' (n + 2 * length xs) (es @ filter (\<lambda>e. ValidateEntry w e = None) xs) [] \<and>
           same_config w w'"
  using assms
proof (induction xs arbitrary: w s n es)
  case Nil
  then show ?case by auto
next
  case (Cons x xs)
  show ?case
  proof (cases "ValidateEntry w x")
    case None
    have n: "n + 4 < 2 ^ 63" using Cons.prems(2) by simp
    from append_sync_log [OF Cons.prems(1) n None] obtain w1 s1 where
      a: "append_sync w s x = (None, w1, s1)" "wal_log w1 s1 (n + 2) (es @ [x]) []"
        "same_config w w1"
      by blast
    have eq: "ValidateEntry w1 = ValidateEntry w"
      using a(3) by (intro ext) (rule ValidateEntry_config)
    have "n + 2 + 2 * length xs + 2 < 2 ^ 63" using Cons.prems(2) by simp
    from Cons.IH [OF a(2) this] a None show ?thesis
      by (auto simp: eq Let_def dest: same_config_trans)
  next
    case (Some err)
    have "append_sync w s x = (Some err, w, s)"
      using Some wal_log_open [OF Cons.prems(1)] by (simp add: append_sync_invalid)
    moreover have "wal_log w s (n + 2) es []" using wal_log_mono [OF Cons.prems(1)] by simp
    moreover have "n + 2 + 2 * length xs + 2 < 2 ^ 63" using Cons.prems(2) by simp
    ultimately show ?thesis
      using Cons.IH [of w s "n + 2" es] Some by (auto simp: Let_def)
  qed
qed

section \<open>Batches, closing and opening\<close>

lemma batch_loop_log:
  assumes "wal_log w s n es buf" "n + length xs + 2 < 2 ^ 63"
  shows "\<exists>w' s' es' buf'. batch_loop w s xs None = (map (ValidateEntry w) xs, None, w', s') \<and>
           wal_log w' s' (n + length xs) es' buf' \<and>
           es' @ buf' = es @ buf @ filter (\<lambda>e. ValidateEntry w e = None) xs \<and> same_config w w'"
  using assms
proof (induction xs arbitrary: w s n es buf)
  case Nil
  then show ?case by auto
next
  case (Cons x xs)
  show ?case
  proof (cases "ValidateEntry w x")
    case None
    have n: "n + 2 < 2 ^ 63" using Cons.prems(2) by simp
    from appendLocked_log [OF Cons.prems(1) n None] obtain w1 s1 es1 buf1 where
      a: "appendLocked w s x = (None, w1, s1)" "wal_log w1 s1 (n + 1) es1 buf1"
        "es1 @ buf1 = es @ buf @ [x]" "same_config w w1"
      by blast
    have eq: "ValidateEntry w1 = ValidateEntry w"
      using a(4) by (intro ext) (rule ValidateEntry_config)
    have "n + 1 + length xs + 2 < 2 ^ 63" using Cons.prems(2) by simp
    from Cons.IH [OF a(2) this] obtain w' s' es' buf' where
      b: "batch_loop w1 s1 xs None = (map (ValidateEntry w) xs, None, w', s')"
        "wal_log w' s' (n + length (x # xs)) es' buf'"
        "es' @ buf' = (es1 @ buf1) @ filter (\<lambda>e. ValidateEntry w e = None) xs" "same_config w1 w'"
      by (auto simp: eq)
    then show ?thesis
      using a None by (auto simp: a(3) intro!: exI dest: same_config_trans)
  next
    case (Some err)
    have "appendLocked w s x = (Some err, w, s)"
      using Some wal_log_open [OF Cons.prems(1)] by (simp add: appendLocked_invalid)
    moreover have "wal_log w s (n + 1) es buf" using wal_log_mono [OF Cons.prems(1)] by simp
    moreover have "n + 1 + length xs + 2 < 2 ^ 63" using Cons.prems(2) by simp
    moreover obtain w' s' es' buf' where
      "batch_loop w s xs None = (map (ValidateEntry w) xs, None, w', s')"
      "wal_log w' s' (n + length (x # xs)) es' buf'"
      "es' @ buf' = es @ buf @ filter (\<lambda>e. ValidateEntry w e = None) xs" "same_config w w'"
      using Cons.IH [of w s "n + 1" es buf] calculation(2,3) by auto
    ultimately show ?thesis
      using Some ValidateEntry_nonfatal [OF Some] by simp blast
  qed
qed

lemma processBatch_log:
  assumes log: "wal_log w s n es []" and n: "n + length xs + 2 < 2 ^ 63"
  shows "\<exists>w' s'. processBatch w s xs sync = (map (ValidateEntry w) xs, None, w', s') \<and>
           wal_log w' s' (n + length xs + 1) (es @ filter (\<lambda>e. ValidateEntry w e = None) xs) [] \<and>
           same_config w w'"
proof -
  from batch_loop_log [OF log n] obtain w1 s1 es1 buf1 where
    a: "batch_loop w s xs None = (map (ValidateEntry w) xs, None, w1, s1)"
      "wal_log w1 s1 (n + length xs) es1 buf1"
      "es1 @ buf1 = es @ filter (\<lambda>e. ValidateEntry w e = None) xs" "same_config w w1"
    by auto
  from flushBlock_log [OF a(2) n] obtain w2 s2 where
    b: "flushBlock w1 s1 = (None, w2, s2)"
      "wal_log w2 s2 (n + length xs + 1) (es @ filter (\<lambda>e. ValidateEntry w e = None) xs) []"
      "same_config w1 w2"
    using a(3) by auto
  show ?thesis
    using a b sync_file_log [OF b(2)] same_config_trans [OF a(4) b(3)]
    by (simp add: processBatch_def)
qed

text \<open>The files of a closed or open log hold the given entries.\<close>

definition files_hold :: "string \<Rightarrow> dir \<Rightarrow> entry list \<Rightarrow> bool" where
  "files_hold path d es \<longleftrightarrow>
     (\<exists>segs bs act. log_files path d segs bs act \<and> MinBlockSize \<le> unat bs \<and>
        log_entries segs act = es)"

lemma wal_log_files: "wal_log w s n es [] \<Longrightarrow> files_hold (w_path w) (fs_dir s) es"
  by (auto simp: wal_log_def wal_inv_def files_hold_def)

lemma Replay_files_hold:
  "files_hold (w_path w) (fs_dir s) es \<Longrightarrow> Replay w s collect [] = (None, s, es)"
  by (auto simp: files_hold_def intro!: Replay_log_files)

lemma Close_sync_log:
  assumes "wal_log w s n es []" "n + 2 < 2 ^ 63"
  shows "\<exists>w' s'. Close_sync w s = (None, w', s') \<and> w_f w' = HNil \<and> fs_faults s' = [] \<and>
           files_hold (w_path w) (fs_dir s') es \<and> same_config w w'"
proof -
  from flushBlock_log [OF assms] obtain w1 s1 where
    a: "flushBlock w s = (None, w1, s1)" "wal_log w1 s1 (n + 1) es []" "same_config w w1"
    by auto
  have "files_hold (w_path w) (fs_dir s1) es"
    using wal_log_files [OF a(2)] a(3) by (simp add: same_config_def)
  then show ?thesis
    using a wal_log_open [OF assms(1)] wal_log_open [OF a(2)]
    by (simp add: Close_sync_def closeFile_def same_config_def)
qed

lemma NewWAL_empty:
  assumes "fs_faults s = []" "map_of (fs_dir s) (o_Path opts) = None"
    and "segment_nums (o_Path opts) (fs_dir s) = []" "o_Path opts \<noteq> []"
    and "o_BlockSize opts = 0 \<or> MinBlockSize \<le> unat (o_BlockSize opts)"
    and "o_MaxRecordBytes opts = 0 \<or>
         o_MaxRecordBytes opts \<le> ucast (if o_BlockSize opts = 0 then 65536 else o_BlockSize opts)"
  shows "\<exists>w s'. NewWAL opts s = (Inr w, s') \<and> wal_log w s' 0 [] [] \<and> w_path w = o_Path opts \<and>
           w_blockSize w = (if o_BlockSize opts = 0 then 65536 else o_BlockSize opts) \<and>
           w_maxRecord w = o_MaxRecordBytes opts"
proof -
  define bs where "bs = (if o_BlockSize opts = 0 then 65536 else o_BlockSize opts)"
  have default: "(if o_BlockSize opts = 0 then 64 * 1024 else o_BlockSize opts) = bs"
    by (simp add: bs_def)
  let ?p = "o_Path opts"
  let ?s = "s\<lparr>fs_dir := put_file ?p (WriteSegmentHeader bs 1 (fs_now s))
                         (put_file ?p [] (fs_dir s))\<rparr>"
  have bs: "MinBlockSize \<le> unat bs"
    using assms(5) by (auto simp: MinBlockSize_def wal_sizes bs_def)
  have maxrec: "\<not> (0 < o_MaxRecordBytes opts \<and> ucast bs < o_MaxRecordBytes opts)"
    using assms(6) by (auto simp: bs_def)
  have next1: "NextSegmentID ?p (put_file ?p [] (fs_dir s)) = 1"
    using assms(3) by (simp add: NextSegmentID_def segment_nums_put_base)
  have hdr: "open_header ?p bs 1 (s\<lparr>fs_dir := put_file ?p [] (fs_dir s)\<rparr>) = (Inr (bs, 1), ?s)"
    using assms(1) by (simp add: open_header_def file_size_def)
  have "rotated_ok ?p (fs_dir ?s) []"
    using assms(3) by (simp add: rotated_ok_def segment_nums_put_base)
  then have files: "log_files ?p (fs_dir ?s) [] bs []"
    by (auto simp: log_files_def segment_file_def)
  obtain w where w: "NewWAL opts s = (Inr w, ?s)" "w_path w = ?p" "w_blockSize w = bs"
    "w_segmentID w = 1" "w_f w = HOpen" "w_records w = []" "w_blockLen w = 0"
    "w_maxRecord w = o_MaxRecordBytes opts"
    using assms(1,2,4) bs unfolding NewWAL_def Let_def default
    by (simp add: next1 hdr maxrec not_less)
  have "wal_inv w ?s [] [] []"
    using w files assms(1) bs by (simp add: wal_inv_def buffer_ok_def)
  then have "wal_log w ?s 0 [] []" by (rule wal_logI) (simp_all add: log_entries_def)
  with w show ?thesis unfolding bs_def [symmetric] by auto
qed

text \<open>The conditions on the options are those under which opening succeeds.\<close>

lemma NewWAL_options:
  assumes "NewWAL opts s = (Inr w, s')" "fs_faults s = []" "map_of (fs_dir s) (o_Path opts) = None"
  shows "o_Path opts \<noteq> []" "o_BlockSize opts = 0 \<or> MinBlockSize \<le> unat (o_BlockSize opts)"
    "o_MaxRecordBytes opts = 0 \<or>
       o_MaxRecordBytes opts \<le> ucast (if o_BlockSize opts = 0 then 65536 else o_BlockSize opts)"
  using assms
  by (auto simp: NewWAL_def open_header_def file_size_def Let_def not_less word_gt_0 split: if_splits)

lemma NewWAL_fresh:
  assumes "fs_faults s = []" "map_of (fs_dir s) (o_Path opts) = None"
    and "segment_nums (o_Path opts) (fs_dir s) = []" "NewWAL opts s = (Inr w, s')"
  shows "wal_log w s' 0 [] []"
  using NewWAL_empty [OF assms(1-3) NewWAL_options [OF assms(4,1,2)]] assms(4) by auto

lemma NewWAL_not_closed: "NewWAL opts s = (Inr w, s') \<Longrightarrow> \<not> w_closed w"
  by (auto simp: NewWAL_def Let_def split: if_splits prod.splits option.splits sum.splits)

lemma Replay_torn:
  assumes rot: "rotated_ok (w_path w) (fs_dir s) segs" and fit: "blocks_fit bs act" "block_fits bs blk"
    and act: "map_of (fs_dir s) (w_path w) =
                Some (segment_file bs sid t act @ take k (block_bytes blk))"
    and k: "0 < k" "k < length (block_bytes blk)"
  shows "Replay w s collect [] =
           (Some ErrWALCorruptSegment,
            if w_repairOnReplay w
            then repairSegment (w_path w) (length (segment_file bs sid t act)) s else s,
            log_entries segs act)"
proof -
  let ?names = "map (\<lambda>i. segment_name (w_path w) (int i + 1)) [0..<length segs]"
  have "ListSegments (w_path w) (fs_dir s) = (?names, False)"
    using rot by (intro ListSegments_consecutive) (simp add: rotated_ok_def)
  moreover have "replay_rotated DecodeRecords (fs_dir s) ?names collect False [] =
      (False, None, concat (concat segs))"
    using rot by (intro replay_rotated_written) (simp_all add: rotated_ok_def)
  moreover have "replay_segment_with DecodeRecords (map_of (fs_dir s) (w_path w)) collect
        (concat (concat segs)) =
      (length (segment_file bs sid t act), Some ErrWALCorruptSegment, log_entries segs act)"
    using replay_segment_torn [OF fit(1) _ fit(2) k, of collect "concat (concat segs)"]
    by (simp add: act replaySegment_def log_entries_def)
  moreover have "0 < length (segment_file bs sid t act)" by (simp add: segment_file_def)
  ultimately show ?thesis by (simp add: Replay_def replay_with_def)
qed

lemma open_header_existing:
  assumes "fs_faults s = []" "map_of (fs_dir s) path = Some (segment_file bs sid t act)"
    and "MinBlockSize \<le> unat bs"
  shows "open_header path b0 i0 s = (Inr (bs, sid), s)"
proof -
  have "fst (ReadSegmentHeader (segment_file bs sid t act)) =
      Inr \<lparr>sh_Version = recordVersion, sh_BlockSize = bs, sh_SegmentID = sid, sh_CreatedAt = t\<rparr>"
    by (simp add: segment_file_def ReadSegmentHeader_written)
  moreover have "file_size path s \<noteq> 0"
    by (simp add: file_size_def assms(2) segment_file_def)
  ultimately show ?thesis using assms by (simp add: open_header_def read_header_def)
qed

lemma NewWAL_existing:
  assumes s: "fs_faults s = []" and path: "o_Path opts \<noteq> []"
    and files: "log_files (o_Path opts) (fs_dir s) segs bs act" and bs: "MinBlockSize \<le> unat bs"
    and opt: "o_BlockSize opts = 0 \<or> MinBlockSize \<le> unat (o_BlockSize opts)"
    and maxrec: "o_MaxRecordBytes opts = 0 \<or> o_MaxRecordBytes opts \<le> ucast bs"
  shows "\<exists>w. NewWAL opts s = (Inr w, s) \<and> wal_inv w s segs act [] \<and> w_path w = o_Path opts \<and>
           w_maxRecord w = o_MaxRecordBytes opts \<and> w_blockSize w = bs"
proof -
  obtain t where t: "map_of (fs_dir s) (o_Path opts) =
      Some (segment_file bs (word_of_nat (Suc (length segs))) t act)"
    using files by (auto simp: log_files_def)
  have "MinBlockSize \<le> unat (if o_BlockSize opts = 0 then 64 * 1024 else o_BlockSize opts)"
    using opt by (auto simp: MinBlockSize_def wal_sizes)
  moreover have "\<not> (0 < o_MaxRecordBytes opts \<and> ucast bs < o_MaxRecordBytes opts)"
    using maxrec by auto
  ultimately have "\<exists>w. NewWAL opts s = (Inr w, s) \<and> w_f w = HOpen \<and> w_blockSize w = bs \<and>
      w_segmentID w = word_of_nat (Suc (length segs)) \<and> w_records w = [] \<and> w_blockLen w = 0 \<and>
      w_path w = o_Path opts \<and> w_maxRecord w = o_MaxRecordBytes opts"
    unfolding NewWAL_def Let_def using s path t
    by (simp add: open_header_existing [OF s t bs] not_less)
  then show ?thesis using s files bs by (auto simp: wal_inv_def buffer_ok_def)
qed

section \<open>Properties\<close>

text \<open>
  C4: as long as no input/output operation fails, a log opened on a directory without one, then
  given any sequence of synchronous appends, answers each append with the outcome of its
  validation, and replay (by copies or by views) delivers exactly the accepted entries in append
  order, across every block flush and segment rotation, without an error and without touching
  the files.
\<close>

theorem wal_append_then_replay:
  assumes "fs_faults s = []" "map_of (fs_dir s) (o_Path opts) = None"
    and "segment_nums (o_Path opts) (fs_dir s) = []" "o_Path opts \<noteq> []"
    and "o_BlockSize opts = 0 \<or> MinBlockSize \<le> unat (o_BlockSize opts)"
    and "o_MaxRecordBytes opts = 0 \<or>
         o_MaxRecordBytes opts \<le> ucast (if o_BlockSize opts = 0 then 65536 else o_BlockSize opts)"
    and "length xs < 2 ^ 61"
  shows "\<exists>w s1 w' s'. NewWAL opts s = (Inr w, s1) \<and> w_maxRecord w = o_MaxRecordBytes opts \<and>
           w_blockSize w = (if o_BlockSize opts = 0 then 65536 else o_BlockSize opts) \<and>
           append_all w s1 xs = (map (ValidateEntry w) xs, w', s') \<and>
           Replay w' s' collect [] = (None, s', filter (\<lambda>e. ValidateEntry w e = None) xs) \<and>
           ReplayViews w' s' collect [] = (None, s', filter (\<lambda>e. ValidateEntry w e = None) xs)"
proof -
  obtain w s1 where w: "NewWAL opts s = (Inr w, s1)" "wal_log w s1 0 [] []"
    "w_maxRecord w = o_MaxRecordBytes opts"
    "w_blockSize w = (if o_BlockSize opts = 0 then 65536 else o_BlockSize opts)"
    using NewWAL_empty [OF assms(1-6)] by blast
  have "0 + 2 * length xs + 2 < 2 ^ 63" using assms(7) by simp
  from append_all_log [OF w(2) this] obtain w' s' where
    a: "append_all w s1 xs = (map (ValidateEntry w) xs, w', s')"
      "wal_log w' s' (2 * length xs) (filter (\<lambda>e. ValidateEntry w e = None) xs) []"
    by auto
  from Replay_files_hold [OF wal_log_files [OF a(2)]] w(1,3,4) a(1) show ?thesis
    unfolding ReplayViews_eq by blast
qed

definition demo_opts :: wal_options where
  "demo_opts = \<lparr>o_Path = ''wal'', o_Sync = True, o_MaxSegment = 64, o_MaxRecordBytes = 0,
     o_BlockSize = 4096, o_Async = False, o_BatchMax = 0, o_RepairOnReplay = True\<rparr>"

definition demo_fs :: fs where
  "demo_fs = \<lparr>fs_dir = [], fs_now = 5, fs_faults = []\<rparr>"

definition demo_entry :: "nat \<Rightarrow> entry" where
  "demo_entry n = \<lparr>Key = [107, word_of_nat n], Value = [1], Tombstone = False, Seq = word_of_nat n\<rparr>"

theorem wal_append_then_replay_witness:
  "\<exists>w s1 w' s'. NewWAL demo_opts demo_fs = (Inr w, s1) \<and>
     append_all w s1 [demo_entry 1, demo_entry 2] = ([None, None], w', s') \<and>
     Replay w' s' collect [] = (None, s', [demo_entry 1, demo_entry 2])"
proof -
  have hyps: "fs_faults demo_fs = []" "map_of (fs_dir demo_fs) (o_Path demo_opts) = None"
    "segment_nums (o_Path demo_opts) (fs_dir demo_fs) = []" "o_Path demo_opts \<noteq> []"
    "o_BlockSize demo_opts = 0 \<or> MinBlockSize \<le> unat (o_BlockSize demo_opts)"
    "o_MaxRecordBytes demo_opts = 0 \<or> o_MaxRecordBytes demo_opts
       \<le> ucast (if o_BlockSize demo_opts = 0 then 65536 else o_BlockSize demo_opts)"
    "length [demo_entry 1, demo_entry 2] < 2 ^ 61"
    by (simp_all add: demo_fs_def demo_opts_def segment_nums_def map_filter_simps MinBlockSize_def
        wal_sizes)
  have "ValidateEntry w (demo_entry n) = None"
    if "w_maxRecord w = o_MaxRecordBytes demo_opts"
      "w_blockSize w = (if o_BlockSize demo_opts = 0 then 65536 else o_BlockSize demo_opts)" for w n
    using that by (simp add: ValidateEntry_def demo_entry_def demo_opts_def)
  then show ?thesis using wal_append_then_replay [OF hyps] by fastforce
qed

text \<open>
  C29: a refused append can come back.  When the write of its block fails and writes nothing, an append is answered
  with the error, but its record stays in the buffer of the log: the next append that succeeds
  writes both, and replay delivers the refused entry before the accepted one.
\<close>

theorem wal_refused_append_is_replayed:
  assumes "fs_faults s = []" "map_of (fs_dir s) (o_Path opts) = None"
    and "segment_nums (o_Path opts) (fs_dir s) = []" "o_Path opts \<noteq> []"
    and "o_BlockSize opts = 0 \<or> MinBlockSize \<le> unat (o_BlockSize opts)"
    and "o_MaxRecordBytes opts = 0 \<or>
         o_MaxRecordBytes opts \<le> ucast (if o_BlockSize opts = 0 then 65536 else o_BlockSize opts)"
    and "length xs < 2 ^ 61" "NewWAL opts s = (Inr w, s1)" "append_all w s1 xs = (errs, w1, s2)"
    and "ValidateEntry w e = None" "ValidateEntry w e' = None"
  shows "\<exists>w2 s3 w3 s4. append_sync w1 (s2\<lparr>fs_faults := [IoFail 0]\<rparr>) e = (Some ErrIO, w2, s3) \<and>
           append_sync w2 s3 e' = (None, w3, s4) \<and>
           Replay w3 s4 collect [] = (None, s4, filter (\<lambda>e. ValidateEntry w e = None) xs @ [e, e'])"
proof -
  have log: "wal_log w s1 0 [] []" using NewWAL_empty [OF assms(1-6)] assms(8) by auto
  have n: "0 + 2 * length xs + 2 < 2 ^ 63" "2 * length xs + 4 < 2 ^ 63" using assms(7) by simp_all
  have a: "wal_log w1 s2 (2 * length xs) (filter (\<lambda>e. ValidateEntry w e = None) xs) []" "same_config w w1"
    using append_all_log [OF log n(1)] assms(9) by auto
  have v: "ValidateEntry w1 e = None" using assms(10) a(2) by (simp add: ValidateEntry_config)
  obtain w2 s3 where b: "append_sync w1 (s2\<lparr>fs_faults := [IoFail 0]\<rparr>) e = (Some ErrIO, w2, s3)"
      "wal_log w2 s3 (2 * length xs) (filter (\<lambda>e. ValidateEntry w e = None) xs) [e]" "same_config w1 w2"
    using append_sync_refused [OF a(1) v] by blast
  have "ValidateEntry w2 e' = None" using assms(11) same_config_trans [OF a(2) b(3)] by (simp add: ValidateEntry_config)
  from append_sync_buffered [OF b(2) n(2) this] obtain w3 s4 where c: "append_sync w2 s3 e' = (None, w3, s4)"
      "wal_log w3 s4 (2 * length xs + 2) (filter (\<lambda>e. ValidateEntry w e = None) xs @ [e] @ [e']) []" by blast
  show ?thesis using b(1) c(1) Replay_files_hold [OF wal_log_files [OF c(2)]] by auto
qed

theorem wal_refused_append_is_replayed_witness:
  "\<exists>w s1 w2 s3 w3 s4. NewWAL demo_opts demo_fs = (Inr w, s1) \<and>
     append_sync w (s1\<lparr>fs_faults := [IoFail 0]\<rparr>) (demo_entry 1) = (Some ErrIO, w2, s3) \<and>
     append_sync w2 s3 (demo_entry 2) = (None, w3, s4) \<and>
     Replay w3 s4 collect [] = (None, s4, [demo_entry 1, demo_entry 2])"
proof -
  have hyps: "fs_faults demo_fs = []" "map_of (fs_dir demo_fs) (o_Path demo_opts) = None"
    "segment_nums (o_Path demo_opts) (fs_dir demo_fs) = []" "o_Path demo_opts \<noteq> []"
    "o_BlockSize demo_opts = 0 \<or> MinBlockSize \<le> unat (o_BlockSize demo_opts)"
    "o_MaxRecordBytes demo_opts = 0 \<or> o_MaxRecordBytes demo_opts
       \<le> ucast (if o_BlockSize demo_opts = 0 then 65536 else o_BlockSize demo_opts)"
    "length ([] :: entry list) < 2 ^ 61"
    by (simp_all add: demo_fs_def demo_opts_def segment_nums_def map_filter_simps MinBlockSize_def
        wal_sizes)
  obtain w s1 where w: "NewWAL demo_opts demo_fs = (Inr w, s1)" "w_maxRecord w = 0" "w_blockSize w = 4096"
    using NewWAL_empty [OF hyps(1-6)] by (auto simp: demo_opts_def)
  have "ValidateEntry w (demo_entry n) = None" for n using w by (simp add: ValidateEntry_def demo_entry_def)
  then show ?thesis
    using wal_refused_append_is_replayed [OF hyps w(1), of "[]" w s1 "demo_entry 1" "demo_entry 2"] w(1) by fastforce
qed

text \<open>
  C5: a crash during the write of a block.  The rotated segments and the complete blocks of the
  active file are intact and a proper non-empty prefix of the last block follows them.  Replay
  delivers exactly the entries of the complete blocks and reports a corrupt segment; with repair
  on, the active file is truncated to its complete blocks, and reopening, with the default block and
  record limits, gives a log that holds these entries and accepts further appends.
\<close>

theorem wal_crash_recovery:
  assumes "rotated_ok (w_path w) (fs_dir s) segs" "blocks_fit bs act" "block_fits bs blk"
    and "map_of (fs_dir s) (w_path w) =
           Some (segment_file bs (word_of_nat (Suc (length segs))) t act @ take k (block_bytes blk))"
    and "0 < k" "k < length (block_bytes blk)"
    and "fs_faults s = []" "w_repairOnReplay w" "MinBlockSize \<le> unat bs"
    and "o_Path opts = w_path w" "w_path w \<noteq> []" "o_BlockSize opts = 0" "o_MaxRecordBytes opts = 0"
  shows "\<exists>s' w'. Replay w s collect [] = (Some ErrWALCorruptSegment, s', log_entries segs act) \<and>
           NewWAL opts s' = (Inr w', s') \<and> wal_inv w' s' segs act []"
proof -
  let ?n = "length (segment_file bs (word_of_nat (Suc (length segs))) t act)"
  let ?s = "repairSegment (w_path w) ?n s"
  have s': "?s = s\<lparr>fs_dir := put_file (w_path w)
              (segment_file bs (word_of_nat (Suc (length segs))) t act) (fs_dir s)\<rparr>"
    using assms(4,7) by (simp add: repairSegment_def segment_file_def)
  have "log_files (w_path w) (fs_dir ?s) segs bs act"
    using assms(1,2) unfolding s' by (auto simp: log_files_def rotated_ok_put_active)
  then have "\<exists>w'. NewWAL opts ?s = (Inr w', ?s) \<and> wal_inv w' ?s segs act []"
    using NewWAL_existing [of ?s opts segs bs act] assms(7,9-13) unfolding s' by auto
  then show ?thesis
    using Replay_torn [OF assms(1-6)] assms(8) by auto
qed

theorem wal_crash_recovery_witness:
  "\<exists>w s s' w'. Replay w s collect [] = (Some ErrWALCorruptSegment, s', [demo_entry 1]) \<and>
     NewWAL (demo_opts\<lparr>o_BlockSize := 0\<rparr>) s' = (Inr w', s') \<and> wal_inv w' s' [] [[demo_entry 1]] []"
proof -
  define blk where "blk = [demo_entry 2]"
  define s where "s = demo_fs\<lparr>fs_dir := [(''wal'', segment_file 4096 1 5 [[demo_entry 1]]
                                @ take 7 (block_bytes blk))]\<rparr>"
  define w where "w = \<lparr>w_f = HOpen, w_path = ''wal'', w_sync = True, w_maxBytes = 0,
      w_sizeBytes = 0, w_maxRecord = 0, w_blockSize = 4096, w_segmentID = 1, w_records = [],
      w_blockLen = 0, w_async = False, w_batchMax = 0, w_closed = False,
      w_repairOnReplay = True\<rparr>"
  have fits: "block_fits 4096 [demo_entry n]" for n
    by (rule block_fits_blockSize) (simp_all add: demo_entry_def)
  have "rotated_ok (w_path w) (fs_dir s) []"
    by (simp add: rotated_ok_def w_def s_def segment_nums_def map_filter_simps)
  moreover have "map_of (fs_dir s) (w_path w) =
      Some (segment_file 4096 (word_of_nat (Suc (length ([] :: entry list list list)))) 5
        [[demo_entry 1]] @ take 7 (block_bytes blk))"
    by (simp add: s_def w_def)
  moreover have "7 < length (block_bytes blk)" by (simp add: blk_def length_block_bytes)
  ultimately have "\<exists>s' w'. Replay w s collect [] =
      (Some ErrWALCorruptSegment, s', log_entries [] [[demo_entry 1]]) \<and>
      NewWAL (demo_opts\<lparr>o_BlockSize := 0\<rparr>) s' = (Inr w', s') \<and> wal_inv w' s' [] [[demo_entry 1]] []"
    by (intro wal_crash_recovery [where bs = 4096 and blk = blk and t = 5 and k = 7])
       (use fits in \<open>simp_all add: blk_def s_def w_def demo_fs_def demo_opts_def MinBlockSize_def
          wal_sizes\<close>)
  then show ?thesis by (auto simp: log_entries_def)
qed

lemma append_sync_plain:
  assumes "fs_faults s = []" "w_f w = HOpen" "w_records w = []" "w_blockLen w = 0"
    and "w_maxBytes w = 0" "ValidateEntry w e = None" "map_of (fs_dir s) (w_path w) = Some b"
  shows "append_sync w s e =
           (None, w\<lparr>w_sizeBytes := w_sizeBytes w + word_of_nat (length (block_bytes [e])),
                    w_records := [], w_blockLen := 0\<rparr>,
            s\<lparr>fs_dir := put_file (w_path w) (b @ block_bytes [e]) (fs_dir s)\<rparr>)"
  using assms
  by (simp add: append_sync_def appendLocked_def flushBlock_def sync_file_def Let_def
      block_bytes_def)

lemma Replay_single_file:
  assumes "segment_nums (w_path w) (fs_dir s) = []"
    and "replaySegment (map_of (fs_dir s) (w_path w)) collect [] =
           (lastGood, Some ErrWALCorruptSegment, es)"
    and "lastGood = 0 \<or> \<not> w_repairOnReplay w"
  shows "Replay w s collect [] = (Some ErrWALCorruptSegment, s, es)"
  using assms by (auto simp: Replay_def replay_with_def ListSegments_def replaySegment_def)

text \<open>
  C28: a log whose first header write was torn after one to three bytes.  Opening it again
  succeeds and appends to it are acknowledged, with or without \<^verbatim>\<open>fsync\<close>, but the header is
  never repaired: replay rejects the whole file, so no acknowledged entry is ever delivered.
\<close>

theorem wal_torn_header_loses_appends:
  assumes "fs_faults s = []" "segment_nums (o_Path opts) (fs_dir s) = []" "o_Path opts \<noteq> []"
    and "map_of (fs_dir s) (o_Path opts) = Some (take k (WriteSegmentHeader hsize sid t))"
    and "0 < k" "k < 4" "o_BlockSize opts = 0" "o_MaxRecordBytes opts = 0" "o_MaxSegment opts = 0"
    and "Key e \<noteq> []" "Value e \<noteq> []" "length (Key e) + length (Value e) < 65000"
  shows "\<exists>w w' s'. NewWAL opts s = (Inr w, s) \<and> append_sync w s e = (None, w', s') \<and>
           Replay w' s' collect [] = (Some ErrWALCorruptSegment, s', [])"
proof -
  let ?p = "o_Path opts"
  define b where "b = take k segmentMagic"
  have b: "map_of (fs_dir s) ?p = Some b"
    using assms(4,6) by (simp add: b_def WriteSegmentHeader_def)
  consider "k = 1" | "k = 2" | "k = 3" using assms(5,6) by linarith
  then have "b \<noteq> [] \<and> length b < 29 \<and> take 4 (b @ blockMagic) \<noteq> segmentMagic"
    by cases (simp_all add: b_def segmentMagic_def blockMagic_def)
  then have b': "b \<noteq> []" "length b < 29" "take 4 (b @ blockMagic) \<noteq> segmentMagic"
    by simp_all
  have short: "ReadSegmentHeader b = (Inl ErrEOF, [])"
    using b' by (simp add: ReadSegmentHeader_def ReadFull_def SegmentHeaderSize_def)
  have "open_header ?p 65536 i s = (Inr (65536, i), s)" for i
    using b b'(1) short assms(1)
    by (simp add: open_header_def read_header_def file_size_def MinBlockSize_def wal_sizes)
  then obtain w where w: "NewWAL opts s = (Inr w, s)" "w_f w = HOpen" "w_records w = []"
    "w_blockLen w = 0" "w_maxBytes w = 0" "w_path w = ?p" "w_blockSize w = 65536" "w_maxRecord w = 0"
    unfolding NewWAL_def Let_def using assms(1,3,7-9) b
    by (simp add: MinBlockSize_def wal_sizes)
  have "ValidateEntry w e = None"
    using w assms(10-12) by (simp add: ValidateEntry_def)
  with w b assms(1) append_sync_plain [of s w e b] obtain w' where
    a: "append_sync w s e = (None, w', s\<lparr>fs_dir := put_file ?p (b @ block_bytes [e]) (fs_dir s)\<rparr>)"
      "w_path w' = ?p" by auto
  let ?f = "b @ block_bytes [e]"
  have "bslice 0 4 (take 29 ?f) = take 4 (b @ blockMagic)"
    using assms(6) by (auto simp: bslice_def WriteBlock_entries b_def min_def)
  with b' have "\<exists>r. ReadSegmentHeader ?f = (Inl ErrWALCorrupt, r) \<or> ReadSegmentHeader ?f = (Inl ErrEOF, r)"
    by (auto simp: ReadSegmentHeader_def ReadFull_def SegmentHeaderSize_def)
  then have "replaySegment (Some ?f) collect [] = (0, Some ErrWALCorruptSegment, [])"
    by (auto simp: replaySegment_def replay_segment_with_def)
  then have "Replay w' (s\<lparr>fs_dir := put_file ?p ?f (fs_dir s)\<rparr>) collect [] =
      (Some ErrWALCorruptSegment, s\<lparr>fs_dir := put_file ?p ?f (fs_dir s)\<rparr>, [])"
    using a(2) assms(2)
    by (intro Replay_single_file [where lastGood = 0]) (simp_all add: segment_nums_put_base)
  with w(1) a(1) show ?thesis by auto
qed

theorem wal_torn_header_loses_appends_witness:
  "\<exists>w w' s'. NewWAL (demo_opts\<lparr>o_BlockSize := 0, o_MaxSegment := 0\<rparr>)
       (demo_fs\<lparr>fs_dir := [(''wal'', take 2 (WriteSegmentHeader 65536 1 5))]\<rparr>) =
       (Inr w, demo_fs\<lparr>fs_dir := [(''wal'', take 2 (WriteSegmentHeader 65536 1 5))]\<rparr>) \<and>
     append_sync w (demo_fs\<lparr>fs_dir := [(''wal'', take 2 (WriteSegmentHeader 65536 1 5))]\<rparr>)
       (demo_entry 1) = (None, w', s') \<and>
     Replay w' s' collect [] = (Some ErrWALCorruptSegment, s', [])"
  by (rule wal_torn_header_loses_appends [where k = 2 and hsize = 65536 and sid = 1 and t = 5])
     (simp_all add: demo_fs_def demo_opts_def demo_entry_def segment_nums_def map_filter_simps
       segment_num_def has_prefix_def)

lemma replay_blocks_swallow:
  assumes "block_fits bs blk" "12 \<le> k" "k + length r < length (block_bytes blk)"
  shows "replay_blocks d n (take k (block_bytes blk) @ r) bs fn l c st =
           (l, Some ErrWALCorruptSegment, st)"
proof -
  let ?p = "block_payload blk" and ?l = "PutUint32 (word_of_nat (length (block_payload blk)))"
  let ?c = "PutUint32 (ChecksumIEEE (block_payload blk))"
  have ne: "blk \<noteq> []" using assms(1) by (simp add: block_fits_def)
  have "take k (block_bytes blk) @ r = blockMagic @ ?l @ ?c @ (take (k - 12) ?p @ r)"
    using assms(2) ne by (simp add: WriteBlock_entries)
  moreover have "length (take (k - 12) ?p @ r) < length ?p"
    using assms(2,3) ne by (simp add: length_block_bytes)
  ultimately have "DecodeBlock (take k (block_bytes blk) @ r) bs = (BlockErr ErrWALCorrupt, [])"
    using block_fits_len [OF assms(1)]
    by (auto simp: DecodeBlock_def DecodeBlockAfterMagic_def ReadFull_short Let_def
        simp del: length_take length_append)
  then show ?thesis
    by (subst replay_blocks.simps)
       (simp add: replay_round_def resync_round_def replay_from_resync_Nil)
qed

text \<open>
  C30: resynchronisation starts after the bytes a broken block has already consumed, not at the
  next block magic.  When a torn block is left in the active file (repair off) and the bytes
  appended after it are fewer than the torn block still claims, replay reads them as that
  block's payload: an entry whose append was acknowledged is not delivered although its own
  block is complete in the file.
\<close>

theorem wal_torn_block_swallows_append:
  assumes "fs_faults s = []" "segment_nums (o_Path opts) (fs_dir s) = []" "o_Path opts \<noteq> []"
    and "map_of (fs_dir s) (o_Path opts) =
           Some (segment_file bs 1 t act @ take k (block_bytes blk))"
    and "blocks_fit bs act" "block_fits bs blk" "12 \<le> k"
    and "k + length (block_bytes [e]) < length (block_bytes blk)"
    and "MinBlockSize \<le> unat bs" "o_BlockSize opts = 0" "o_MaxRecordBytes opts = 0"
    and "o_MaxSegment opts = 0" "\<not> o_RepairOnReplay opts" "Key e \<noteq> []" "Value e \<noteq> []"
    and "21 + length (Key e) + length (Value e) \<le> unat bs"
  shows "\<exists>w w' s'. NewWAL opts s = (Inr w, s) \<and> append_sync w s e = (None, w', s') \<and>
           map_of (fs_dir s') (o_Path opts) =
             Some (segment_file bs 1 t act @ take k (block_bytes blk) @ block_bytes [e]) \<and>
           Replay w' s' collect [] = (Some ErrWALCorruptSegment, s', concat act)"
proof -
  let ?p = "o_Path opts"
  let ?b = "segment_file bs 1 t act @ take k (block_bytes blk)"
  have "fst (ReadSegmentHeader ?b) =
      Inr \<lparr>sh_Version = recordVersion, sh_BlockSize = bs, sh_SegmentID = 1, sh_CreatedAt = t\<rparr>"
    by (simp add: segment_file_def ReadSegmentHeader_written)
  then have "open_header ?p 65536 i s = (Inr (bs, 1), s)" for i
    using assms(1,4,9) by (simp add: open_header_def read_header_def file_size_def segment_file_def)
  then obtain w where w: "NewWAL opts s = (Inr w, s)" "w_f w = HOpen" "w_records w = []"
    "w_blockLen w = 0" "w_maxBytes w = 0" "w_path w = ?p" "w_blockSize w = bs" "w_maxRecord w = 0"
    "\<not> w_repairOnReplay w"
    unfolding NewWAL_def Let_def using assms(1,3,4,9-13)
    by (simp add: MinBlockSize_def wal_sizes)
  have "ValidateEntry w e = None"
    using w assms(14-16) by (simp add: ValidateEntry_def)
  with w assms(1,4) append_sync_plain [of s w e ?b] obtain w' where
    a: "append_sync w s e = (None, w', s\<lparr>fs_dir := put_file ?p (?b @ block_bytes [e]) (fs_dir s)\<rparr>)"
      "w_path w' = ?p" "\<not> w_repairOnReplay w'" by auto
  let ?s = "s\<lparr>fs_dir := put_file ?p (?b @ block_bytes [e]) (fs_dir s)\<rparr>"
  have "replaySegment (Some (?b @ block_bytes [e])) collect [] =
      (length (segment_file bs 1 t act), Some ErrWALCorruptSegment, concat act)"
    using replay_blocks_written [OF assms(5), of collect "[]" "concat act" _
        "take k (block_bytes blk) @ block_bytes [e]"]
    by (simp add: segment_file_def replay_segment_header replay_blocks_swallow [OF assms(6-8)])
  then have "Replay w' ?s collect [] = (Some ErrWALCorruptSegment, ?s, concat act)"
    using a(2,3) assms(2)
    by (intro Replay_single_file [where lastGood = "length (segment_file bs 1 t act)"])
       (simp_all add: segment_nums_put_base)
  with w(1) a(1) show ?thesis by auto
qed

theorem wal_torn_block_swallows_append_witness:
  "\<exists>opts s w w' s'. NewWAL opts s = (Inr w, s) \<and> append_sync w s (demo_entry 2) = (None, w', s') \<and>
     Replay w' s' collect [] = (Some ErrWALCorruptSegment, s', [demo_entry 1])"
proof -
  define big where "big = (demo_entry 9)\<lparr>Value := replicate 100 7\<rparr>"
  define s where "s = demo_fs\<lparr>fs_dir := [(''wal'', segment_file 4096 1 5 [[demo_entry 1]]
                                @ take 20 (block_bytes [big]))]\<rparr>"
  define opts where "opts = demo_opts\<lparr>o_BlockSize := 0, o_MaxSegment := 0, o_RepairOnReplay := False\<rparr>"
  have "\<exists>w w' s'. NewWAL opts s = (Inr w, s) \<and> append_sync w s (demo_entry 2) = (None, w', s') \<and>
      map_of (fs_dir s') (o_Path opts) =
        Some (segment_file 4096 1 5 [[demo_entry 1]] @ take 20 (block_bytes [big])
              @ block_bytes [demo_entry 2]) \<and>
      Replay w' s' collect [] = (Some ErrWALCorruptSegment, s', concat [[demo_entry 1]])"
    by (rule wal_torn_block_swallows_append)
       (simp_all add: s_def opts_def big_def demo_fs_def demo_opts_def demo_entry_def segment_nums_def
         map_filter_simps segment_num_def has_prefix_def length_block_bytes block_fits_blockSize
         MinBlockSize_def wal_sizes)
  then show ?thesis unfolding concat.simps append_Nil2 by blast
qed

end
