(* ===== verification/Wal_Async.thy ===== *)
theory Wal_Async
  imports Wal_Log
begin

text \<open>
  The asynchronous log writer (\<^verbatim>\<open>appendAsync\<close>, \<^verbatim>\<open>runWriter\<close>, \<^verbatim>\<open>closeAsync\<close>
  of \<^verbatim>\<open>wal_append.go\<close>) as a step relation.  Callers, the writer goroutine and the closer
  interleave freely; a step is one caller passing the closed check, one send into the request
  channel, one batch of the writer, or the drain at close.  The channel is a list with the
  configured capacity, and an answer is what a caller receives on its \<^verbatim>\<open>done\<close> channel.
\<close>

record async =
  a_w :: WAL
  a_s :: fs
  a_cap :: nat
  a_passed :: "(nat \<times> entry) list"
  a_queue :: "(nat \<times> entry) list"
  a_answers :: "(nat \<times> entry \<times> lsm_error option) list"
  a_closing :: bool
  a_done :: bool

definition answer :: "(nat \<times> entry) list \<Rightarrow> lsm_error option list \<Rightarrow>
    (nat \<times> entry \<times> lsm_error option) list" where
  "answer reqs errs = map (\<lambda>((i, e), err). (i, e, err)) (zip reqs errs)"

inductive async_step :: "async \<Rightarrow> async \<Rightarrow> bool" where
  call_closed: "w_closed (a_w a) \<Longrightarrow>
    async_step a (a\<lparr>a_answers := a_answers a @ [(i, e, Some ErrWALClosed)]\<rparr>)"
| call_open: "\<not> w_closed (a_w a) \<Longrightarrow>
    async_step a (a\<lparr>a_passed := a_passed a @ [(i, e)]\<rparr>)"
| send: "(i, e) \<in> set (a_passed a) \<Longrightarrow> length (a_queue a) < a_cap a \<Longrightarrow>
    async_step a (a\<lparr>a_passed := remove1 (i, e) (a_passed a),
                   a_queue := a_queue a @ [(i, e)]\<rparr>)"
| give_up: "(i, e) \<in> set (a_passed a) \<Longrightarrow> a_done a \<Longrightarrow>
    async_step a (a\<lparr>a_passed := remove1 (i, e) (a_passed a),
                   a_answers := a_answers a @ [(i, e, Some ErrWALClosed)]\<rparr>)"
| write_batch: "\<not> a_done a \<Longrightarrow> a_queue a = q # qs \<Longrightarrow>
    collectBatch (w_batchMax (a_w a)) [q] qs = (batch, rest) \<Longrightarrow>
    processBatch (a_w a) (a_s a) (map snd batch) (w_sync (a_w a)) = (errs, fatal, w', s') \<Longrightarrow>
    async_step a (a\<lparr>a_w := w', a_s := s', a_queue := rest,
                   a_answers := a_answers a @ answer batch errs\<rparr>)"
| close_call: "\<not> w_closed (a_w a) \<Longrightarrow>
    async_step a (a\<lparr>a_w := (a_w a)\<lparr>w_closed := True\<rparr>, a_closing := True\<rparr>)"
| drain: "a_closing a \<Longrightarrow> \<not> a_done a \<Longrightarrow>
    drainAndClose (a_w a) (a_s a) (map snd (a_queue a)) = (errs, err, w', s') \<Longrightarrow>
    async_step a (a\<lparr>a_w := w', a_s := s', a_queue := drop (length errs) (a_queue a),
                   a_answers := a_answers a @ answer (a_queue a) errs,
                   a_closing := False, a_done := True\<rparr>)"

abbreviation async_steps :: "async \<Rightarrow> async \<Rightarrow> bool" where
  "async_steps \<equiv> async_step\<^sup>*\<^sup>*"

text \<open>The calls made so far: answered, queued, or past the closed check.\<close>

definition a_total :: "async \<Rightarrow> nat" where
  "a_total a = length (a_answers a) + length (a_queue a) + length (a_passed a)"

definition acked :: "async \<Rightarrow> entry list" where
  "acked a = map (\<lambda>(i, e, err). e) (filter (\<lambda>(i, e, err). err = None) (a_answers a))"

section \<open>Draining\<close>

lemma finish_drain_log:
  assumes log: "wal_log w s n es []" and n: "n + 2 < 2 ^ 63"
  shows "\<exists>w' s'. finish_drain w s = (None, w', s') \<and> files_hold (w_path w) (fs_dir s') es \<and>
           w_path w' = w_path w"
proof -
  from flushBlock_log [OF log n] obtain w1 s1 where
    a: "flushBlock w s = (None, w1, s1)" "wal_log w1 s1 (n + 1) es []" "same_config w w1"
    by auto
  show ?thesis
    using a(1,3) sync_file_log [OF a(2)] wal_log_open [OF a(2)] wal_log_files [OF a(2)]
    by (simp add: finish_drain_def closeFile_def same_config_def)
qed

lemma drain_loop_log:
  assumes "wal_log w s n es []" "n + 2 * (length pending + length qs) + 3 < 2 ^ 63"
  shows "\<exists>w' s'. drain_loop w s pending qs = (map (ValidateEntry w) (pending @ qs), None, w', s') \<and>
           files_hold (w_path w) (fs_dir s')
             (es @ filter (\<lambda>e. ValidateEntry w e = None) (pending @ qs)) \<and> w_path w' = w_path w"
  using assms
proof (induction qs arbitrary: w s n es pending)
  case Nil
  show ?case
  proof (cases "pending = []")
    case True
    then show ?thesis
      using finish_drain_log [OF Nil.prems(1)] Nil.prems(2) by simp
  next
    case False
    then have n: "n + length pending + 2 < 2 ^ 63" "n + length pending + 1 + 2 < 2 ^ 63"
      using Nil.prems(2) by simp_all
    from processBatch_log [OF Nil.prems(1) n(1), of False] obtain w1 s1 where
      a: "processBatch w s pending False = (map (ValidateEntry w) pending, None, w1, s1)"
        "wal_log w1 s1 (n + length pending + 1)
           (es @ filter (\<lambda>e. ValidateEntry w e = None) pending) []" "same_config w w1"
      by blast
    from finish_drain_log [OF a(2) n(2)] a False show ?thesis
      by (simp add: same_config_def)
  qed
next
  case (Cons q qs)
  show ?case
  proof (cases "0 < w_batchMax w \<and> w_batchMax w \<le> int (length pending) + 1")
    case True
    let ?b = "pending @ [q]"
    have n: "n + length ?b + 2 < 2 ^ 63" using Cons.prems(2) by simp
    from processBatch_log [OF Cons.prems(1) n, of False] obtain w1 s1 where
      a: "processBatch w s ?b False = (map (ValidateEntry w) ?b, None, w1, s1)"
        "wal_log w1 s1 (n + length ?b + 1) (es @ filter (\<lambda>e. ValidateEntry w e = None) ?b) []"
        "same_config w w1"
      by blast
    have eq: "ValidateEntry w1 = ValidateEntry w"
      using a(3) by (intro ext) (rule ValidateEntry_config)
    have path: "w_path w1 = w_path w" using a(3) by (simp add: same_config_def)
    have "n + length ?b + 1 + 2 * (length ([] :: entry list) + length qs) + 3 < 2 ^ 63"
      using Cons.prems(2) by simp
    from Cons.IH [OF a(2) this] obtain w' s' where
      "drain_loop w1 s1 [] qs = (map (ValidateEntry w) qs, None, w', s')"
      "files_hold (w_path w) (fs_dir s') ((es @ filter (\<lambda>e. ValidateEntry w e = None) ?b)
         @ filter (\<lambda>e. ValidateEntry w e = None) qs)" "w_path w' = w_path w"
      unfolding eq path append_Nil by blast
    with a(1) True show ?thesis by (cases "ValidateEntry w q") simp_all
  next
    case False
    have "n + 2 * (length (pending @ [q]) + length qs) + 3 < 2 ^ 63" using Cons.prems(2) by simp
    from Cons.IH [OF Cons.prems(1) this]
    have "\<exists>w' s'. drain_loop w s (pending @ [q]) qs =
        (map (ValidateEntry w) (pending @ q # qs), None, w', s') \<and>
        files_hold (w_path w) (fs_dir s')
          (es @ filter (\<lambda>e. ValidateEntry w e = None) (pending @ q # qs)) \<and> w_path w' = w_path w"
      by (simp only: append.assoc append.simps)
    moreover have "drain_loop w s pending (q # qs) = drain_loop w s (pending @ [q]) qs"
      using False by (simp only: drain_loop.simps if_False)
    ultimately show ?thesis by (simp only:)
  qed
qed

section \<open>The invariant\<close>

text \<open>
  While the number of calls keeps the segment counter in range, the files hold exactly the
  acknowledged entries in the order of their answers.
\<close>

definition async_inv :: "async \<Rightarrow> bool" where
  "async_inv a \<longleftrightarrow>
     (a_total a < 2 ^ 60 \<longrightarrow>
        (if a_done a then files_hold (w_path (a_w a)) (fs_dir (a_s a)) (acked a)
         else wal_log (a_w a) (a_s a) (2 * length (a_answers a)) (acked a) []))"

lemma acked_answer:
  "length errs = length reqs \<Longrightarrow>
     map (\<lambda>(i, e, err). e) (filter (\<lambda>(i, e, err). err = None) (answer reqs errs)) =
     map snd (filter (\<lambda>p. fst p = None) (zip errs (map snd reqs)))"
  by (induction errs reqs rule: list_induct2) (auto simp: answer_def)

lemma filter_zip_validate:
  "map snd (filter (\<lambda>p. fst p = None) (zip (map f xs) xs)) = filter (\<lambda>x. f x = None) xs"
  by (induction xs) auto

lemma length_answer [simp]: "length (answer reqs errs) = min (length reqs) (length errs)"
  by (simp add: answer_def)

lemma acked_answer_validate:
  assumes "a_answers a' = a_answers a @ answer reqs (map f (map snd reqs))"
  shows "acked a' = acked a @ filter (\<lambda>e. f e = None) (map snd reqs)"
  using assms acked_answer [of "map f (map snd reqs)" reqs]
    filter_zip_validate [of f "map snd reqs"]
  by (simp add: acked_def)

lemma collectBatch_append: "collectBatch m batch qs = (b, rest) \<Longrightarrow> b @ rest = batch @ qs"
  by (induction m batch qs rule: collectBatch.induct) (auto split: if_splits)

lemma collectBatch_length: "collectBatch m batch qs = (b, rest) \<Longrightarrow> length batch \<le> length b"
  by (induction m batch qs rule: collectBatch.induct) (auto split: if_splits)

lemma wal_log_closed_flag:
  "wal_log (w\<lparr>w_closed := c\<rparr>) s n es buf = wal_log w s n es buf"
  by (simp add: wal_log_def wal_inv_def buffer_ok_def)

lemma length_batch_loop: "length (fst (batch_loop w s xs f)) = length xs"
proof (induction w s xs f rule: batch_loop.induct)
  case (3 w s e es)
  obtain r w1 s1 where a: "appendLocked w s e = (r, w1, s1)" by (cases "appendLocked w s e")
  show ?case
  proof (cases r)
    case None
    with a "3.IH"(1) [OF a [symmetric] None refl] show ?thesis
      by (simp add: split_beta Let_def)
  next
    case (Some err)
    with a "3.IH"(2) [OF a [symmetric] Some refl] show ?thesis
      by (simp add: split_beta Let_def)
  qed
qed (simp_all add: split_beta Let_def)

lemma length_processBatch:
  assumes "processBatch w s xs sync = (errs, fatal, w', s')"
  shows "length errs = length xs"
proof -
  have "length (fst (processBatch w s xs sync)) = length (fst (batch_loop w s xs None))"
    unfolding processBatch_def Let_def split_beta by (simp split: option.split)
  with assms show ?thesis by (simp add: length_batch_loop)
qed

lemma async_inv_write:
  assumes inv: "async_inv a" and open_: "\<not> a_done a" and queue: "a_queue a = q # qs"
    and col: "collectBatch (w_batchMax (a_w a)) [q] qs = (batch, rest)"
    and proc: "processBatch (a_w a) (a_s a) (map snd batch) (w_sync (a_w a)) = (errs, fatal, w', s')"
  shows "async_inv (a\<lparr>a_w := w', a_s := s', a_queue := rest,
                     a_answers := a_answers a @ answer batch errs\<rparr>)" (is "async_inv ?a")
  unfolding async_inv_def
proof
  let ?n = "2 * length (a_answers a)" and ?es = "map snd batch"
  assume bound: "a_total ?a < 2 ^ 60"
  have len: "length errs = length batch" using length_processBatch [OF proc] by simp
  have b1: "1 \<le> length batch" using collectBatch_length [OF col] by simp
  have tot: "length batch + length rest = Suc (length qs)"
    using arg_cong [OF collectBatch_append [OF col], of length] by simp
  then have "a_total a < 2 ^ 60" using bound len queue by (simp add: a_total_def)
  then have log: "wal_log (a_w a) (a_s a) ?n (acked a) []"
    using inv open_ by (simp add: async_inv_def)
  have n: "?n + length ?es + 2 < 2 ^ 63" using bound len by (simp add: a_total_def)
  from processBatch_log [OF log n, of "w_sync (a_w a)"] proc
  have errs: "errs = map (ValidateEntry (a_w a)) ?es"
    and log': "wal_log w' s' (?n + length batch + 1)
      (acked a @ filter (\<lambda>e. ValidateEntry (a_w a) e = None) ?es) []"
    by auto
  have "acked ?a = acked a @ filter (\<lambda>e. ValidateEntry (a_w a) e = None) ?es"
    by (rule acked_answer_validate) (simp add: errs)
  moreover have "?n + length batch + 1 \<le> 2 * length (a_answers ?a)"
    using b1 len by simp
  ultimately show "if a_done ?a then files_hold (w_path (a_w ?a)) (fs_dir (a_s ?a)) (acked ?a)
        else wal_log (a_w ?a) (a_s ?a) (2 * length (a_answers ?a)) (acked ?a) []"
    using wal_log_mono [OF log'] open_ by simp
qed

lemma async_inv_drain:
  assumes inv: "async_inv a" and open_: "\<not> a_done a"
    and drain: "drainAndClose (a_w a) (a_s a) (map snd (a_queue a)) = (errs, err, w', s')"
  shows "async_inv (a\<lparr>a_w := w', a_s := s', a_queue := drop (length errs) (a_queue a),
                     a_answers := a_answers a @ answer (a_queue a) errs,
                     a_closing := False, a_done := True\<rparr>)" (is "async_inv ?a")
  unfolding async_inv_def
proof
  let ?n = "2 * length (a_answers a)" and ?es = "map snd (a_queue a)"
  assume bound: "a_total ?a < 2 ^ 60"
  then have "a_total a < 2 ^ 60" by (simp add: a_total_def)
  then have log: "wal_log (a_w a) (a_s a) ?n (acked a) []"
    using inv open_ by (simp add: async_inv_def)
  have "?n + 2 * (length ([] :: entry list) + length ?es) + 3 < 2 ^ 63"
    using \<open>a_total a < 2 ^ 60\<close> by (simp add: a_total_def)
  from drain_loop_log [OF log this] drain
  have errs: "errs = map (ValidateEntry (a_w a)) ?es"
    and files: "files_hold (w_path (a_w a)) (fs_dir s')
      (acked a @ filter (\<lambda>e. ValidateEntry (a_w a) e = None) ?es)"
    and path: "w_path w' = w_path (a_w a)"
    by (auto simp: drainAndClose_def)
  have "acked ?a = acked a @ filter (\<lambda>e. ValidateEntry (a_w a) e = None) ?es"
    by (rule acked_answer_validate) (simp add: errs)
  with files path show "if a_done ?a then files_hold (w_path (a_w ?a)) (fs_dir (a_s ?a)) (acked ?a)
        else wal_log (a_w ?a) (a_s ?a) (2 * length (a_answers ?a)) (acked ?a) []"
    by simp
qed

lemma async_inv_refuse:
  assumes "async_inv a" "a_done a' = a_done a" "a_s a' = a_s a"
    and "a_w a' = a_w a \<or> (\<exists>c. a_w a' = (a_w a)\<lparr>w_closed := c\<rparr>)"
    and "a_answers a' = a_answers a \<or> a_answers a' = a_answers a @ [(i, e, Some err)]"
    and "a_total a \<le> a_total a'"
  shows "async_inv a'"
proof -
  have "acked a' = acked a" "length (a_answers a) \<le> length (a_answers a')"
    using assms(5) by (auto simp: acked_def)
  moreover have "w_path (a_w a') = w_path (a_w a)"
    "wal_log (a_w a') s n es b = wal_log (a_w a) s n es b" for s n es b
    using assms(4) by (auto simp: wal_log_closed_flag)
  ultimately show ?thesis
    using assms(1,2,3,6) wal_log_mono [of "a_w a" "a_s a" "2 * length (a_answers a)" "acked a" "[]"]
    by (auto simp: async_inv_def)
qed

lemma async_step_inv: "async_step a a' \<Longrightarrow> async_inv a \<Longrightarrow> async_inv a'"
proof (induction rule: async_step.induct)
  case (send i e a)
  then have "length (a_passed a) = Suc (length (remove1 (i, e) (a_passed a)))"
    using length_pos_if_in_set [of "(i, e)" "a_passed a"] by (simp add: length_remove1)
  with send show ?case by (elim async_inv_refuse) (simp_all add: a_total_def)
next
  case (give_up i e a)
  then have "length (a_passed a) = Suc (length (remove1 (i, e) (a_passed a)))"
    using length_pos_if_in_set [of "(i, e)" "a_passed a"] by (simp add: length_remove1)
  with give_up show ?case
    by (elim async_inv_refuse [where i = i and e = e and err = ErrWALClosed])
       (simp_all add: a_total_def)
next
  case (write_batch a q qs batch rest errs fatal w' s')
  show ?case by (rule async_inv_write [OF write_batch(5) write_batch(1-4)])
next
  case (drain a errs err w' s')
  show ?case by (rule async_inv_drain [OF drain(4) drain(2,3)])
next
  case (call_closed a i e)
  then show ?case
    by (elim async_inv_refuse [where i = i and e = e and err = ErrWALClosed])
       (simp_all add: a_total_def)
qed (erule async_inv_refuse, auto simp: a_total_def)+

lemma async_steps_inv: "async_steps a a' \<Longrightarrow> async_inv a \<Longrightarrow> async_inv a'"
  by (induction rule: rtranclp_induct) (auto intro: async_step_inv)

section \<open>Properties\<close>

text \<open>
  C6: group commit of the asynchronous writer, as long as no input/output operation fails.  From
  a log opened on a directory without one, after any interleaving of calls, sends, batches and
  the close, replay of the files delivers exactly the entries that were acknowledged, in the
  order of the acknowledgements: no acknowledged entry is missing, no refused entry is durable.
  (After a failed write a refused entry may become durable.)
\<close>

theorem async_log_is_acknowledged:
  assumes "fs_faults s = []" "map_of (fs_dir s) (o_Path opts) = None"
    and "segment_nums (o_Path opts) (fs_dir s) = []"
    and "NewWAL opts s = (Inr (a_w a0), a_s a0)" "a_answers a0 = []" "\<not> a_done a0"
    and "async_steps a0 a" "a_total a < 2 ^ 60"
  shows "Replay (a_w a) (a_s a) collect [] = (None, a_s a, acked a)"
proof -
  have "wal_log (a_w a0) (a_s a0) 0 [] []" using NewWAL_fresh [OF assms(1-4)] .
  then have "async_inv a0" using assms(5,6) by (simp add: async_inv_def acked_def)
  with assms(7) have "async_inv a" by (rule async_steps_inv)
  with assms(8) have "files_hold (w_path (a_w a)) (fs_dir (a_s a)) (acked a)"
    by (auto simp: async_inv_def intro: wal_log_files split: if_splits)
  then show ?thesis by (rule Replay_files_hold)
qed

definition async_init :: "WAL \<Rightarrow> fs \<Rightarrow> async" where
  "async_init w s = \<lparr>a_w = w, a_s = s, a_cap = 1, a_passed = [], a_queue = [], a_answers = [],
     a_closing = False, a_done = False\<rparr>"

lemma demo_log:
  obtains w s where "NewWAL demo_opts demo_fs = (Inr w, s)" "wal_log w s 0 [] []"
    "w_blockSize w = 4096" "w_maxRecord w = 0"
  using NewWAL_empty [of demo_fs demo_opts]
  by (auto simp: demo_fs_def demo_opts_def segment_nums_def map_filter_simps MinBlockSize_def
      wal_sizes)

theorem async_log_is_acknowledged_witness:
  "\<exists>a0 a. async_steps a0 a \<and> acked a = [demo_entry 1] \<and>
     Replay (a_w a) (a_s a) collect [] = (None, a_s a, [demo_entry 1])"
proof -
  obtain w0 s where w: "NewWAL demo_opts demo_fs = (Inr w0, s)" "wal_log w0 s 0 [] []" "w_blockSize w0 = 4096"
    "w_maxRecord w0 = 0"
    using demo_log by blast
  let ?r = "(0 :: nat, demo_entry 1)"
  have closed: "\<not> w_closed w0" using w(1) by (rule NewWAL_not_closed)
  note log = w(2)
  have valid: "ValidateEntry w0 (demo_entry 1) = None"
    using w by (simp add: ValidateEntry_def demo_entry_def)
  obtain w1 s1 where p: "processBatch w0 s [demo_entry 1] (w_sync w0) = ([None], None, w1, s1)"
    using processBatch_log [OF log, of "[demo_entry 1]" "w_sync w0"] valid by auto
  let ?a0 = "async_init w0 s"
  let ?a1 = "?a0\<lparr>a_passed := [?r]\<rparr>"
  let ?a2 = "?a1\<lparr>a_passed := [], a_queue := [?r]\<rparr>"
  let ?a3 = "?a2\<lparr>a_w := w1, a_s := s1, a_queue := [], a_answers := answer [?r] [None]\<rparr>"
  have "async_step ?a0 ?a1"
    using call_open [of ?a0 0 "demo_entry 1"] closed by (simp add: async_init_def)
  moreover have "async_step ?a1 ?a2"
    using send [of 0 "demo_entry 1" ?a1] by (simp add: async_init_def)
  moreover have "async_step ?a2 ?a3"
    using write_batch [of ?a2 ?r "[]" "[?r]" "[]" "[None]" None w1 s1] p by (simp add: async_init_def)
  ultimately have steps: "async_steps ?a0 ?a3" by (meson converse_rtranclp_into_rtranclp rtranclp.rtrancl_refl)
  have acked: "acked ?a3 = [demo_entry 1]" by (simp add: acked_def answer_def)
  have "Replay (a_w ?a3) (a_s ?a3) collect [] = (None, a_s ?a3, acked ?a3)"
    by (rule async_log_is_acknowledged [of demo_fs demo_opts, OF _ _ _ _ _ _ steps])
       (use w(1) in \<open>simp_all add: async_init_def a_total_def answer_def demo_fs_def demo_opts_def segment_nums_def
          map_filter_simps\<close>)
  with steps acked show ?thesis by metis
qed

lemma stuck_step:
  "async_step a a' \<Longrightarrow> a_done a \<and> r \<in> set (a_queue a) \<Longrightarrow> a_done a' \<and> r \<in> set (a_queue a')"
  by (induction rule: async_step.induct) auto

lemma stuck_steps:
  "async_steps a a' \<Longrightarrow> a_done a \<and> r \<in> set (a_queue a) \<Longrightarrow> a_done a' \<and> r \<in> set (a_queue a')"
  by (induction rule: rtranclp_induct) (auto dest: stuck_step)

text \<open>
  C31: an append that races with close can wait for ever.  A caller that passed the closed check
  before the close may send its request into the channel after the writer drained it; the writer
  is gone, the request stays in the channel in every continuation, and its caller, which waits
  on its own answer channel only, is never answered.
\<close>

theorem async_append_can_hang:
  assumes "wal_log w s 0 [] []" "\<not> w_closed w"
  shows "\<exists>a. async_steps (async_init w s) a \<and> a_answers a = [] \<and>
           (\<forall>a'. async_steps a a' \<longrightarrow> (i, e) \<in> set (a_queue a'))"
proof -
  let ?r = "(i, e)"
  let ?a0 = "async_init w s"
  let ?a1 = "?a0\<lparr>a_passed := [?r]\<rparr>"
  let ?a2 = "?a1\<lparr>a_w := w\<lparr>w_closed := True\<rparr>, a_closing := True\<rparr>"
  have log: "wal_log (w\<lparr>w_closed := True\<rparr>) s 0 [] []" using assms(1) by (simp add: wal_log_closed_flag)
  obtain w' s' where d: "drainAndClose (w\<lparr>w_closed := True\<rparr>) s [] = ([], None, w', s')"
    using drain_loop_log [OF log, of "[]" "[]"] by (auto simp: drainAndClose_def)
  let ?a3 = "?a2\<lparr>a_w := w', a_s := s', a_closing := False, a_done := True\<rparr>"
  let ?a4 = "?a3\<lparr>a_passed := [], a_queue := [?r]\<rparr>"
  have "async_step ?a0 ?a1"
    using call_open [of ?a0 i e] assms(2) by (simp add: async_init_def)
  moreover have "async_step ?a1 ?a2"
    using close_call [of ?a1] assms(2) by (simp add: async_init_def)
  moreover have "async_step ?a2 ?a3"
    using drain [of ?a2 "[]" None w' s'] d by (simp add: async_init_def answer_def)
  moreover have "async_step ?a3 ?a4"
    using send [of i e ?a3] by (simp add: async_init_def)
  ultimately have "async_steps ?a0 ?a4" by (meson converse_rtranclp_into_rtranclp rtranclp.rtrancl_refl)
  moreover have "a_answers ?a4 = []" by (simp add: async_init_def)
  moreover have "(i, e) \<in> set (a_queue a')" if "async_steps ?a4 a'" for a'
    using stuck_steps [OF that, of ?r] by simp
  ultimately show ?thesis by blast
qed

theorem async_append_can_hang_witness:
  "\<exists>w s a. async_steps (async_init w s) a \<and> a_answers a = [] \<and>
     (\<forall>a'. async_steps a a' \<longrightarrow> (0, demo_entry 1) \<in> set (a_queue a'))"
proof -
  obtain w s where "wal_log w s 0 [] []" using demo_log by blast
  then have "wal_log (w\<lparr>w_closed := False\<rparr>) s 0 [] []" by (simp add: wal_log_closed_flag)
  then show ?thesis using async_append_can_hang [of "w\<lparr>w_closed := False\<rparr>" s 0 "demo_entry 1"] by auto
qed

end
