(* ===== verification/Sst_Format.thy ===== *)
theory Sst_Format
  imports Go_Std
begin

text \<open>
  The sorted-table wire format, \<^verbatim>\<open>internal/lsm/sstable/format\<close>: typed blocks with checksum
  and compression, the footer, the meta block and index blocks.  The snappy package is a pair of
  parameters \<open>enc\<close> and \<open>dec\<close>; what the code relies on is that decoding an encoding gives the
  payload back.
\<close>

section \<open>Blocks\<close>

datatype Compression = CompressionNone | CompressionSnappy | CompressionOther string

datatype BlockType = BlockTypeData | BlockTypeIndex | BlockTypeMeta | BlockTypeFilter

fun block_type_byte :: "BlockType \<Rightarrow> byte" where
  "block_type_byte BlockTypeData = 0"
| "block_type_byte BlockTypeIndex = 1"
| "block_type_byte BlockTypeMeta = 2"
| "block_type_byte BlockTypeFilter = 3"

definition sst_blockMagic :: bytes where "sst_blockMagic = [76, 83, 77, 66]"
definition fileMagic :: bytes where "fileMagic = [76, 83, 77, 49]"
definition fileVersion :: byte where "fileVersion = 1"
definition FooterSizeBytes :: nat where "FooterSizeBytes = 36"
definition BlockHeaderSizeLegacy :: nat where "BlockHeaderSizeLegacy = 1 + 4"
definition sst_BlockHeaderSize :: nat where "sst_BlockHeaderSize = 4 + 1 + 4"
definition BlockCRCLen :: nat where "BlockCRCLen = 4"
definition BlockTypeSize :: nat where "BlockTypeSize = 1"

lemmas sst_sizes = FooterSizeBytes_def BlockHeaderSizeLegacy_def sst_BlockHeaderSize_def
  BlockCRCLen_def BlockTypeSize_def

abbreviation Checksum :: "bytes \<Rightarrow> u32" where
  "Checksum \<equiv> ChecksumCastagnoli"

fun CompressionID :: "Compression \<Rightarrow> byte" where
  "CompressionID CompressionSnappy = 1"
| "CompressionID _ = 0"

definition CompressionFromID :: "byte \<Rightarrow> Compression result" where
  "CompressionFromID i =
     (if i = 0 then Inr CompressionNone
      else if i = 1 then Inr CompressionSnappy
      else Inl ErrSSTableUnknownCompression)"

definition EncodeBlock :: "bytes \<Rightarrow> BlockType \<Rightarrow> Compression \<Rightarrow> u32 \<Rightarrow> bytes" where
  "EncodeBlock payload typ compression uncompressedLen =
     (let header = sst_blockMagic @ [CompressionID compression] @ PutUint32 uncompressedLen;
          out = header @ payload @ [block_type_byte typ]
      in out @ PutUint32 (Checksum out))"

definition decompressPayload ::
  "(bytes \<Rightarrow> bytes option) \<Rightarrow> bytes \<Rightarrow> Compression \<Rightarrow> u32 \<Rightarrow> bytes result" where
  "decompressPayload dec payload compression uncompressedLen =
     (case compression of
        CompressionSnappy \<Rightarrow>
          (case dec payload of
             None \<Rightarrow> Inl (ErrMsg ''snappy: corrupt input'')
           | Some out \<Rightarrow>
               if 0 < uncompressedLen \<and> word_of_nat (length out) \<noteq> uncompressedLen
               then Inl ErrSSTableBadBlock else Inr out)
      | _ \<Rightarrow> Inr payload)"

definition CompressPayload :: "(bytes \<Rightarrow> bytes) \<Rightarrow> bytes \<Rightarrow> Compression \<Rightarrow> bytes \<times> u32" where
  "CompressPayload enc payload compression =
     (case compression of
        CompressionSnappy \<Rightarrow> (enc payload, word_of_nat (length payload))
      | _ \<Rightarrow> (payload, word_of_nat (length payload)))"

text \<open>The header of a block: its length, compression and recorded payload length.\<close>

definition block_header :: "bytes \<Rightarrow> BlockType \<Rightarrow> (nat \<times> Compression \<times> u32) result" where
  "block_header data typ =
     (if sst_BlockHeaderSize \<le> length data \<and> take 4 data = sst_blockMagic then
        bind_result (CompressionFromID (data ! 4)) (\<lambda>cmpr.
          Inr (sst_BlockHeaderSize, cmpr, Uint32 (bslice 5 9 data)))
      else if typ = BlockTypeData \<and> BlockHeaderSizeLegacy \<le> length data then
        bind_result (CompressionFromID (data ! 0)) (\<lambda>cmpr.
          Inr (BlockHeaderSizeLegacy, cmpr, Uint32 (bslice 1 5 data)))
      else Inr (0, CompressionNone, 0))"

definition DecodeBlockPayload ::
  "(bytes \<Rightarrow> bytes option) \<Rightarrow> bytes \<Rightarrow> BlockType \<Rightarrow> lsm_error option \<Rightarrow> bytes result" where
  "DecodeBlockPayload dec data typ errArg =
     (let errChecksum = (case errArg of None \<Rightarrow> ErrSSTableBadBlock | Some e \<Rightarrow> e)
      in if length data < BlockTypeSize + BlockCRCLen then Inl errChecksum
      else
        let blockTypeOffset = length data - BlockTypeSize - BlockCRCLen
        in if data ! blockTypeOffset \<noteq> block_type_byte typ then Inl errChecksum
        else if Checksum (take (length data - BlockCRCLen) data) \<noteq>
                  Uint32 (drop (length data - BlockCRCLen) data) then Inl errChecksum
        else
          bind_result (block_header data typ) (\<lambda>(headerLen, cmpr, uncompressedLen).
            if blockTypeOffset < headerLen then Inl errChecksum
            else
              let payload = bslice headerLen blockTypeOffset data
              in if cmpr = CompressionNone then
                   (if 0 < headerLen \<and> 0 < uncompressedLen \<and>
                       word_of_nat (length payload) \<noteq> uncompressedLen
                    then Inl errChecksum else Inr payload)
                 else decompressPayload dec payload cmpr uncompressedLen))"

lemma length_EncodeBlock [simp]: "length (EncodeBlock p t c n) = length p + 14"
  by (simp add: EncodeBlock_def Let_def sst_blockMagic_def)

lemma EncodeBlock_parts:
  fixes p t c n
  defines "d \<equiv> EncodeBlock p t c n"
  shows "take 4 d = sst_blockMagic" "d ! 4 = CompressionID c" "bslice 5 9 d = PutUint32 n"
    "bslice 9 (9 + length p) d = p" "d ! (9 + length p) = block_type_byte t"
    "Uint32 (drop (length p + 10) d) = Checksum (take (length p + 10) d)"
proof -
  define out where
    "out = sst_blockMagic @ [CompressionID c] @ PutUint32 n @ p @ [block_type_byte t]"
  have d: "d = out @ PutUint32 (Checksum out)"
    by (simp add: d_def EncodeBlock_def out_def Let_def)
  have "length out = length p + 10" by (simp add: out_def sst_blockMagic_def)
  then show "Uint32 (drop (length p + 10) d) = Checksum (take (length p + 10) d)"
    by (simp add: d)
qed (simp_all add: d_def EncodeBlock_def Let_def sst_blockMagic_def bslice_def nth_append)

lemma block_header_EncodeBlock:
  "block_header (EncodeBlock p t c n) typ =
     bind_result (CompressionFromID (CompressionID c)) (\<lambda>cmpr. Inr (9, cmpr, n))"
  by (simp add: block_header_def sst_sizes EncodeBlock_parts)

lemma DecodeBlockPayload_EncodeBlock:
  "DecodeBlockPayload dec (EncodeBlock p t c n) t err =
     (case c of
        CompressionSnappy \<Rightarrow> decompressPayload dec p c n
      | _ \<Rightarrow> if 0 < n \<and> word_of_nat (length p) \<noteq> n
            then Inl (case err of None \<Rightarrow> ErrSSTableBadBlock | Some e \<Rightarrow> e) else Inr p)"
proof -
  have off: "length (EncodeBlock p t c n) - BlockTypeSize - BlockCRCLen = 9 + length p"
    and off2: "length (EncodeBlock p t c n) - BlockCRCLen = length p + 10"
    and long: "\<not> length (EncodeBlock p t c n) < BlockTypeSize + BlockCRCLen"
    by (simp_all add: sst_sizes)
  show ?thesis
    unfolding DecodeBlockPayload_def Let_def off off2 block_header_EncodeBlock
    using long
    by (cases c) (simp_all add: EncodeBlock_parts CompressionFromID_def decompressPayload_def)
qed

lemma DecodeBlockPayload_CompressPayload:
  assumes "\<And>x. dec (enc x) = Some x"
  shows "DecodeBlockPayload dec
           (EncodeBlock (fst (CompressPayload enc p c)) t c (snd (CompressPayload enc p c))) t err = Inr p"
  by (cases c) (simp_all add: DecodeBlockPayload_EncodeBlock CompressPayload_def
      decompressPayload_def assms)

section \<open>Footer\<close>

record Footer =
  ft_Flags :: byte
  ft_IndexOffset :: u64
  ft_IndexLen :: u32
  ft_MetaOffset :: u64
  ft_MetaLen :: u32

definition FooterFlagIndexPartitioned :: byte where "FooterFlagIndexPartitioned = push_bit 0 1"
definition FooterFlagFilterPartitioned :: byte where "FooterFlagFilterPartitioned = push_bit 1 1"

definition EncodeFooter :: "Footer \<Rightarrow> bytes" where
  "EncodeFooter f =
     (let buf = fileMagic @ [fileVersion, ft_Flags f] @ PutUint16 0 @ PutUint64 (ft_IndexOffset f)
                  @ PutUint32 (ft_IndexLen f) @ PutUint64 (ft_MetaOffset f) @ PutUint32 (ft_MetaLen f)
      in buf @ PutUint32 (Checksum buf))"

definition DecodeFooter :: "bytes \<Rightarrow> Footer result" where
  "DecodeFooter buf =
     (if length buf \<noteq> FooterSizeBytes then Inl ErrSSTableBadFooter
      else if take 4 buf \<noteq> fileMagic then Inl ErrSSTableBadMagic
      else if Checksum (take 32 buf) \<noteq> Uint32 (bslice 32 36 buf) then Inl ErrSSTableBadFooter
      else Inr \<lparr>ft_Flags = buf ! 5, ft_IndexOffset = Uint64 (bslice 8 16 buf),
                ft_IndexLen = Uint32 (bslice 16 20 buf), ft_MetaOffset = Uint64 (bslice 20 28 buf),
                ft_MetaLen = Uint32 (bslice 28 32 buf)\<rparr>)"

lemma length_EncodeFooter [simp]: "length (EncodeFooter f) = 36"
  by (simp add: EncodeFooter_def Let_def fileMagic_def)

lemma DecodeFooter_EncodeFooter: "DecodeFooter (EncodeFooter f) = Inr f"
proof -
  have parts: "take 4 (EncodeFooter f) = fileMagic" "EncodeFooter f ! 5 = ft_Flags f"
    "bslice 8 16 (EncodeFooter f) = PutUint64 (ft_IndexOffset f)"
    "bslice 16 20 (EncodeFooter f) = PutUint32 (ft_IndexLen f)"
    "bslice 20 28 (EncodeFooter f) = PutUint64 (ft_MetaOffset f)"
    "bslice 28 32 (EncodeFooter f) = PutUint32 (ft_MetaLen f)"
    "Uint32 (bslice 32 36 (EncodeFooter f)) = Checksum (take 32 (EncodeFooter f))"
    by (simp_all add: EncodeFooter_def Let_def fileMagic_def bslice_def nth_append)
  show ?thesis by (simp add: DecodeFooter_def sst_sizes parts)
qed

section \<open>Meta block\<close>

record Meta =
  mt_MinKey :: bytes
  mt_MaxKey :: bytes
  mt_EntryCount :: u64
  mt_SeqMin :: u64
  mt_SeqMax :: u64
  mt_Compression :: Compression
  mt_BloomBits :: u16
  mt_BloomK :: byte
  mt_BloomOffset :: u64
  mt_BloomLen :: u32

definition MetaHeaderSize :: nat where
  "MetaHeaderSize = 4 + 4 + 8 + 8 + 8 + 1 + 2 + 1 + 8 + 4"

definition EncodeMeta :: "Meta \<Rightarrow> bytes" where
  "EncodeMeta m =
     PutUint32 (word_of_nat (length (mt_MinKey m))) @ PutUint32 (word_of_nat (length (mt_MaxKey m)))
       @ PutUint64 (mt_EntryCount m) @ PutUint64 (mt_SeqMin m) @ PutUint64 (mt_SeqMax m)
       @ [CompressionID (mt_Compression m)] @ PutUint16 (mt_BloomBits m) @ [mt_BloomK m]
       @ PutUint64 (mt_BloomOffset m) @ PutUint32 (mt_BloomLen m) @ mt_MinKey m @ mt_MaxKey m"

definition DecodeMeta :: "bytes \<Rightarrow> Meta result" where
  "DecodeMeta data =
     (if length data < MetaHeaderSize then Inl ErrSSTableBadMeta
      else
        let minLen = Uint32 (take 4 data);
            maxLen = Uint32 (bslice 4 8 data)
        in (case CompressionFromID (data ! 32) of
              Inl _ \<Rightarrow> Inl ErrSSTableBadMeta
            | Inr cmpr \<Rightarrow>
                let pos = MetaHeaderSize
                in if length data - pos < unat (minLen + maxLen) then Inl ErrSSTableBadMeta
                   else
                     bind_result (go_slice pos (pos + unat minLen) data) (\<lambda>minKey.
                     bind_result (go_slice (pos + unat minLen) (pos + unat minLen + unat maxLen) data)
                       (\<lambda>maxKey.
                       Inr \<lparr>mt_MinKey = minKey, mt_MaxKey = maxKey,
                            mt_EntryCount = Uint64 (bslice 8 16 data),
                            mt_SeqMin = Uint64 (bslice 16 24 data),
                            mt_SeqMax = Uint64 (bslice 24 32 data), mt_Compression = cmpr,
                            mt_BloomBits = Uint16 (bslice 33 35 data), mt_BloomK = data ! 35,
                            mt_BloomOffset = Uint64 (bslice 36 44 data),
                            mt_BloomLen = Uint32 (bslice 44 48 data)\<rparr>))))"

lemma DecodeMeta_EncodeMeta:
  assumes "length (mt_MinKey m) + length (mt_MaxKey m) < 2 ^ 32"
    and "mt_Compression m = CompressionNone \<or> mt_Compression m = CompressionSnappy"
  shows "DecodeMeta (EncodeMeta m) = Inr m"
proof -
  define d where "d = EncodeMeta m"
  define i where "i = length (mt_MinKey m)"
  define j where "j = length (mt_MaxKey m)"
  have parts: "take 4 d = PutUint32 (word_of_nat i)" "bslice 4 8 d = PutUint32 (word_of_nat j)"
    "bslice 8 16 d = PutUint64 (mt_EntryCount m)" "bslice 16 24 d = PutUint64 (mt_SeqMin m)"
    "bslice 24 32 d = PutUint64 (mt_SeqMax m)" "d ! 32 = CompressionID (mt_Compression m)"
    "bslice 33 35 d = PutUint16 (mt_BloomBits m)" "d ! 35 = mt_BloomK m"
    "bslice 36 44 d = PutUint64 (mt_BloomOffset m)" "bslice 44 48 d = PutUint32 (mt_BloomLen m)"
    by (simp_all add: d_def i_def j_def EncodeMeta_def bslice_def nth_append)
  obtain hdr where hdr: "d = hdr @ mt_MinKey m @ mt_MaxKey m" "length hdr = 48"
  proof
    show "d = take 48 d @ mt_MinKey m @ mt_MaxKey m" by (simp add: d_def EncodeMeta_def)
    show "length (take 48 d) = 48" by (simp add: d_def EncodeMeta_def)
  qed
  then have keys: "bslice 48 (48 + i) d = mt_MinKey m"
    "bslice (48 + i) (48 + i + j) d = mt_MaxKey m"
    by (simp_all add: bslice_def i_def j_def)
  have len: "length d = 48 + i + j" by (simp add: d_def i_def j_def EncodeMeta_def)
  have ij: "i + j < 2 ^ 32" using assms(1) by (simp add: i_def j_def)
  then have lens: "unat (word_of_nat i :: u32) = i" "unat (word_of_nat j :: u32) = j"
    "unat (word_of_nat i + word_of_nat j :: u32) = i + j"
    by (simp_all add: unat_word_of_nat_u32 flip: of_nat_add)
  have cmpr: "CompressionFromID (CompressionID (mt_Compression m)) = Inr (mt_Compression m)"
    using assms(2) by (auto simp: CompressionFromID_def)
  have size: "MetaHeaderSize = 48" by (simp add: MetaHeaderSize_def)
  show ?thesis
    unfolding d_def [symmetric] DecodeMeta_def size Let_def parts get_put_le_word lens cmpr go_slice_def
    by (simp add: len keys)
qed

section \<open>Index blocks\<close>

record IndexEntry =
  ie_Key :: bytes
  ie_Offset :: u64
  ie_Length :: u32

definition IndexHeaderSize :: nat where "IndexHeaderSize = 4 + 8 + 4"

definition encode_index_entry :: "IndexEntry \<Rightarrow> bytes" where
  "encode_index_entry e =
     PutUint32 (word_of_nat (length (ie_Key e))) @ PutUint64 (ie_Offset e) @ PutUint32 (ie_Length e)
       @ ie_Key e"

definition EncodeIndex :: "IndexEntry list \<Rightarrow> bytes" where
  "EncodeIndex entries = fold (\<lambda>e out. out @ encode_index_entry e) entries []"

function decode_index_loop :: "bytes \<Rightarrow> nat \<Rightarrow> IndexEntry list \<Rightarrow> IndexEntry list result" where
  "decode_index_loop data pos entries =
     (if pos < length data then
        if length data - pos < IndexHeaderSize then Inl ErrSSTableBadIndex
        else
          let keyLen = Uint32 (bslice pos (pos + 4) data);
              off = Uint64 (bslice (pos + 4) (pos + 12) data);
              len = Uint32 (bslice (pos + 12) (pos + 16) data);
              pos1 = pos + IndexHeaderSize
          in if length data - pos1 < unat keyLen then Inl ErrSSTableBadIndex
             else decode_index_loop data (pos1 + unat keyLen)
                    (entries @ [\<lparr>ie_Key = bslice pos1 (pos1 + unat keyLen) data, ie_Offset = off,
                                 ie_Length = len\<rparr>])
      else Inr entries)"
  by pat_completeness auto
termination
  by (relation "measure (\<lambda>(data, pos, entries). length data - pos)") (auto simp: IndexHeaderSize_def)

declare decode_index_loop.simps [simp del]

definition DecodeIndex :: "bytes \<Rightarrow> IndexEntry list result" where
  "DecodeIndex data = decode_index_loop data 0 []"

lemma EncodeIndex_concat: "EncodeIndex es = concat (map encode_index_entry es)"
proof -
  have "fold (\<lambda>e out. out @ encode_index_entry e) es out = out @ concat (map encode_index_entry es)"
    for out
    by (induction es arbitrary: out) auto
  then show ?thesis by (simp add: EncodeIndex_def)
qed

lemma length_encode_index_entry [simp]: "length (encode_index_entry e) = 16 + length (ie_Key e)"
  by (simp add: encode_index_entry_def)

lemma decode_index_loop_encoded:
  assumes "\<forall>e \<in> set es. length (ie_Key e) < 2 ^ 32" "pos = length pre"
  shows "decode_index_loop (pre @ concat (map encode_index_entry es)) pos acc = Inr (acc @ es)"
  using assms
proof (induction es arbitrary: pre pos acc)
  case Nil
  then show ?case by (simp add: decode_index_loop.simps)
next
  case (Cons e es)
  define d where "d = pre @ encode_index_entry e @ concat (map encode_index_entry es)"
  let ?k = "length (ie_Key e)"
  have k: "unat (word_of_nat ?k :: u32) = ?k" using Cons.prems(1) by (simp add: unat_word_of_nat_u32)
  have parts: "bslice pos (pos + 4) d = PutUint32 (word_of_nat ?k)"
    "bslice (pos + 4) (pos + 12) d = PutUint64 (ie_Offset e)"
    "bslice (pos + 12) (pos + 16) d = PutUint32 (ie_Length e)"
    "bslice (pos + 16) (pos + 16 + ?k) d = ie_Key e"
    using Cons.prems(2) by (simp_all add: d_def encode_index_entry_def bslice_def)
  have len: "length d = pos + 16 + ?k + length (concat (map encode_index_entry es))"
    using Cons.prems(2) by (simp add: d_def)
  have e: "\<lparr>ie_Key = ie_Key e, ie_Offset = ie_Offset e, ie_Length = ie_Length e\<rparr> = e" by simp
  have step: "decode_index_loop d pos acc = decode_index_loop d (pos + 16 + ?k) (acc @ [e])"
    by (subst decode_index_loop.simps) (simp add: Let_def IndexHeaderSize_def parts k len e)
  have "decode_index_loop ((pre @ encode_index_entry e) @ concat (map encode_index_entry es))
          (pos + 16 + ?k) (acc @ [e]) = Inr ((acc @ [e]) @ es)"
    using Cons.prems by (intro Cons.IH) simp_all
  with step show ?case by (simp add: d_def)
qed

lemma DecodeIndex_EncodeIndex:
  "\<forall>e \<in> set es. length (ie_Key e) < 2 ^ 32 \<Longrightarrow> DecodeIndex (EncodeIndex es) = Inr es"
  using decode_index_loop_encoded [of es 0 "[]" "[]"] by (simp add: DecodeIndex_def EncodeIndex_concat)

section \<open>Properties\<close>

text \<open>
  C22: every structure of the table format is read back as it was written: the payload of a typed
  block under each compression, given only that the compressor's decoding inverts its encoding,
  the footer, the meta block and the index.  The sizes stay below what the length fields hold.
\<close>

theorem sst_format_roundtrip:
  assumes "\<And>x. dec (enc x) = Some x"
    and "length (mt_MinKey mt) + length (mt_MaxKey mt) < 2 ^ 32"
    and "mt_Compression mt \<in> {CompressionNone, CompressionSnappy}"
    and "\<forall>e \<in> set es. length (ie_Key e) < 2 ^ 32"
  shows "DecodeBlockPayload dec
           (EncodeBlock (fst (CompressPayload enc p c)) t c (snd (CompressPayload enc p c))) t err = Inr p \<and>
         DecodeFooter (EncodeFooter f) = Inr f \<and>
         DecodeMeta (EncodeMeta mt) = Inr mt \<and>
         DecodeIndex (EncodeIndex es) = Inr es"
  using DecodeBlockPayload_CompressPayload [of dec enc, OF assms(1)] DecodeFooter_EncodeFooter
    DecodeMeta_EncodeMeta [of mt] DecodeIndex_EncodeIndex [of es] assms(2-4)
  by auto

theorem sst_format_roundtrip_witness:
  "DecodeBlockPayload (\<lambda>x. Some (rev x))
     (EncodeBlock (rev [1, 2]) BlockTypeMeta CompressionSnappy 2) BlockTypeMeta None = Inr [1, 2] \<and>
   DecodeIndex (EncodeIndex [\<lparr>ie_Key = [5], ie_Offset = 0, ie_Length = 9\<rparr>]) =
     Inr [\<lparr>ie_Key = [5], ie_Offset = 0, ie_Length = 9\<rparr>]"
proof -
  let ?m = "\<lparr>mt_MinKey = [5], mt_MaxKey = [6], mt_EntryCount = 2, mt_SeqMin = 1, mt_SeqMax = 2,
    mt_Compression = CompressionNone, mt_BloomBits = 0, mt_BloomK = 0, mt_BloomOffset = 0,
    mt_BloomLen = 0\<rparr>"
  show ?thesis
    using sst_format_roundtrip [of "\<lambda>x. Some (rev x)" rev ?m
        "[\<lparr>ie_Key = [5], ie_Offset = 0, ie_Length = 9\<rparr>]" "[1, 2]" CompressionSnappy BlockTypeMeta None]
    by (simp add: CompressPayload_def)
qed

text \<open>
  C32: decoding a meta block panics exactly when the sum of the two key lengths, taken in 32 bits,
  passes the bounds check while the real lengths do not fit in the data: a corrupt meta block can
  stop the process instead of being reported as \<^verbatim>\<open>ErrSSTableBadMeta\<close>.  (The data fills its buffer: capacity and
  length agree.)
\<close>

theorem DecodeMeta_panics_iff:
  "DecodeMeta data = Inl PanicBounds \<longleftrightarrow>
     MetaHeaderSize \<le> length data \<and> data ! 32 \<in> {0, 1} \<and>
     unat (Uint32 (take 4 data) + Uint32 (bslice 4 8 data)) \<le> length data - MetaHeaderSize \<and>
     length data - MetaHeaderSize < unat (Uint32 (take 4 data)) + unat (Uint32 (bslice 4 8 data))"
  by (auto simp: DecodeMeta_def Let_def CompressionFromID_def go_slice_def split: if_splits)

end
