(* ===== verification/Bloom_Filter.thy ===== *)
theory Bloom_Filter
  imports Go_Fs Sst_Format
begin

text \<open>
  The Bloom filters of the sorted tables, \<^verbatim>\<open>internal/lsm/sstable/bloom/bloom.go\<close>: building,
  adding, testing, the encoded form and the two writers of filter blocks.  A nil filter is
  \<open>None\<close>.  The number of probes \<^verbatim>\<open>int(float64(bitsPerKey) * 0.69)\<close> is the integer part of
  \<open>bitsPerKey * 69 / 100\<close>: up to the clamp at 30 no product is near an integer.
\<close>

section \<open>The filter\<close>

record BloomFilter =
  fl_bits :: bytes
  fl_k :: byte

definition NewFilter :: "int \<Rightarrow> int \<Rightarrow> BloomFilter option" where
  "NewFilter keys bitsPerKey =
     (if keys \<le> 0 \<or> bitsPerKey \<le> 0 then None
      else
        let m = keys * bitsPerKey;
            m = (if m < 64 then 64 else m);
            byteLen = (m + 7) div 8;
            k = bitsPerKey * 69 div 100;
            k = (if k < 1 then 1 else k);
            k = (if k > 30 then 30 else k)
        in Some \<lparr>fl_bits = replicate (nat byteLen) 0, fl_k = word_of_int k\<rparr>)"

definition hashKey :: "bytes \<Rightarrow> u64 \<times> u64" where
  "hashKey key =
     (let sum = fnv64a key;
          h2 = sum XOR drop_bit 33 sum XOR push_bit 11 sum
      in (sum, if h2 = 0 then Uint64 [0x9e, 0x37, 0x79, 0xb9, 0x7f, 0x4a, 0x7c, 0x15] else h2))"

text \<open>The number of bits, taken modulo \<open>2 ^ 32\<close> by the conversion, and the i-th probe.\<close>

definition bloom_n :: "bytes \<Rightarrow> u32" where
  "bloom_n bits = word_of_nat (length bits * 8)"

definition bloom_bit :: "u64 \<Rightarrow> u64 \<Rightarrow> u32 \<Rightarrow> nat \<Rightarrow> nat" where
  "bloom_bit h1 h2 n i = unat (ucast ((h1 + word_of_nat i * h2) mod ucast n) :: u32)"

fun bloom_set :: "u64 \<Rightarrow> u64 \<Rightarrow> u32 \<Rightarrow> nat list \<Rightarrow> bytes \<Rightarrow> bytes result" where
  "bloom_set h1 h2 n [] bits = Inr bits"
| "bloom_set h1 h2 n (i # is) bits =
     (if n = 0 then Inl PanicDivide
      else
        let b = bloom_bit h1 h2 n i
        in if length bits \<le> b div 8 then Inl PanicBounds
           else bloom_set h1 h2 n is (bits[b div 8 := bits ! (b div 8) OR push_bit (b mod 8) 1]))"

fun bloom_test :: "u64 \<Rightarrow> u64 \<Rightarrow> u32 \<Rightarrow> nat list \<Rightarrow> bytes \<Rightarrow> bool result" where
  "bloom_test h1 h2 n [] bits = Inr True"
| "bloom_test h1 h2 n (i # is) bits =
     (if n = 0 then Inl PanicDivide
      else
        let b = bloom_bit h1 h2 n i
        in if length bits \<le> b div 8 then Inl PanicBounds
           else if bits ! (b div 8) AND push_bit (b mod 8) 1 = 0 then Inr False
           else bloom_test h1 h2 n is bits)"

fun Filter_Add :: "BloomFilter option \<Rightarrow> bytes \<Rightarrow> BloomFilter option result" where
  "Filter_Add None key = Inr None"
| "Filter_Add (Some f) key =
     (let (h1, h2) = hashKey key
      in bind_result (bloom_set h1 h2 (bloom_n (fl_bits f)) [0..<unat (fl_k f)] (fl_bits f))
           (\<lambda>bits. Inr (Some (f\<lparr>fl_bits := bits\<rparr>))))"

fun MayContain :: "BloomFilter option \<Rightarrow> bytes \<Rightarrow> bool result" where
  "MayContain None key = Inr True"
| "MayContain (Some f) key =
     (let (h1, h2) = hashKey key
      in bloom_test h1 h2 (bloom_n (fl_bits f)) [0..<unat (fl_k f)] (fl_bits f))"

fun Filter_Encode :: "BloomFilter option \<Rightarrow> bytes" where
  "Filter_Encode None = []"
| "Filter_Encode (Some f) = fl_k f # fl_bits f"

definition Filter_Decode :: "bytes \<Rightarrow> BloomFilter option" where
  "Filter_Decode data =
     (if length data < 2 then None else Some \<lparr>fl_bits = drop 1 data, fl_k = data ! 0\<rparr>)"

fun Filter_K :: "BloomFilter option \<Rightarrow> byte" where
  "Filter_K None = 0"
| "Filter_K (Some f) = fl_k f"

fun Filter_SizeBytes :: "BloomFilter option \<Rightarrow> nat" where
  "Filter_SizeBytes None = 0"
| "Filter_SizeBytes (Some f) = length (fl_bits f)"

text \<open>The loop of the callers that put a list of keys into a filter.\<close>

fun add_keys :: "BloomFilter option \<Rightarrow> bytes list \<Rightarrow> BloomFilter option result" where
  "add_keys f [] = Inr f"
| "add_keys f (k # ks) = bind_result (Filter_Add f k) (\<lambda>f. add_keys f ks)"

section \<open>Filter blocks\<close>

definition filter_block :: "bytes \<Rightarrow> bytes" where
  "filter_block payload =
     EncodeBlock payload BlockTypeFilter CompressionNone (word_of_nat (length payload))"

definition WriteBloomBlock ::
  "string \<Rightarrow> BloomFilter option \<Rightarrow> u64 \<Rightarrow> fs \<Rightarrow> (u64 \<times> u32) result \<times> u64 \<times> fs" where
  "WriteBloomBlock w flt offset s =
     (if flt = None then (Inr (0, 0), offset, s)
      else case fs_write w (filter_block (Filter_Encode flt)) s of
        ((n, Some e), s') \<Rightarrow> (Inl e, offset, s')
      | ((n, None), s') \<Rightarrow> (Inr (offset, word_of_nat n), offset + word_of_nat n, s'))"

text \<open>
  One partition: \<open>c\<close> block counts from \<open>i\<close>, the filter of the entries they cover, starting at
  \<open>entryIdx\<close>.  An entry or block index out of range panics.
\<close>

definition partition_filter ::
  "entry list \<Rightarrow> nat list \<Rightarrow> int \<Rightarrow> nat \<Rightarrow> (BloomFilter option \<times> nat) result" where
  "partition_filter entries counts bitsPerKey entryIdx =
     (let partEntries = sum_list counts
      in if length entries < entryIdx + partEntries then Inl PanicBounds
         else
           bind_result
             (add_keys (NewFilter (int partEntries) bitsPerKey)
                (map Key (bslice entryIdx (entryIdx + partEntries) entries)))
             (\<lambda>f. Inr (f, entryIdx + partEntries)))"

function partition_loop ::
  "string \<Rightarrow> entry list \<Rightarrow> IndexEntry list \<Rightarrow> nat list \<Rightarrow> nat \<Rightarrow> int \<Rightarrow> nat \<Rightarrow> nat \<Rightarrow>
     IndexEntry list \<Rightarrow> u64 \<Rightarrow> fs \<Rightarrow> IndexEntry list result \<times> u64 \<times> fs" where
  "partition_loop w entries blocks counts per bitsPerKey i entryIdx acc offset s =
     (if i < length counts \<and> 0 < per then
        let end = min (i + per) (length counts)
        in (case partition_filter entries (bslice i end counts) bitsPerKey entryIdx of
              Inl e \<Rightarrow> (Inl e, offset, s)
            | Inr (f, entryIdx') \<Rightarrow>
                (case fs_write w (filter_block (Filter_Encode f)) s of
                   ((n, Some e), s') \<Rightarrow> (Inl e, offset, s')
                 | ((n, None), s') \<Rightarrow>
                     if length blocks \<le> i then (Inl PanicBounds, offset, s')
                     else partition_loop w entries blocks counts per bitsPerKey end entryIdx'
                            (acc @ [\<lparr>ie_Key = ie_Key (blocks ! i), ie_Offset = offset,
                                     ie_Length = word_of_nat n\<rparr>])
                            (offset + word_of_nat n) s'))
      else (Inr acc, offset, s))"
  by pat_completeness auto
termination
  by (relation "measure (\<lambda>(w, entries, blocks, counts, per, b, i, entryIdx, acc, offset, s).
        length counts - i)") auto

declare partition_loop.simps [simp del]

definition WritePartitionedBloomFilters ::
  "string \<Rightarrow> entry list \<Rightarrow> IndexEntry list \<Rightarrow> nat list \<Rightarrow> int \<Rightarrow> int \<Rightarrow> u64 \<Rightarrow> fs \<Rightarrow>
     IndexEntry list result \<times> u64 \<times> fs" where
  "WritePartitionedBloomFilters w entries blocks counts per bitsPerKey offset s =
     (if blocks = [] \<or> counts = [] \<or> per \<le> 0 then (Inr [], offset, s)
      else partition_loop w entries blocks counts (nat per) bitsPerKey 0 0 [] offset s)"

section \<open>Probes and bits\<close>

definition bit_set :: "bytes \<Rightarrow> nat \<Rightarrow> bool" where
  "bit_set bits b \<longleftrightarrow> b div 8 < length bits \<and> bit (bits ! (b div 8)) (b mod 8)"

lemma bloom_bit_less: "n \<noteq> 0 \<Longrightarrow> bloom_bit h1 h2 n i < unat n"
proof -
  assume n: "n \<noteq> 0"
  define m :: u64 where "m = (h1 + word_of_nat i * h2) mod ucast n"
  have un: "unat (ucast n :: u64) = unat n"
    using unat_u32_less [of n] by (simp add: unsigned_ucast_eq take_bit_nat_eq_self)
  with n have "unat (ucast n :: u64) \<noteq> 0" by (simp add: unat_eq_zero)
  then have "unat m < unat n" by (simp add: m_def unat_mod_distrib un)
  moreover from this have "unat (ucast m :: u32) = unat m"
    using unat_u32_less [of n] by (simp add: unsigned_ucast_eq take_bit_nat_eq_self)
  ultimately show ?thesis by (simp add: bloom_bit_def m_def)
qed

lemma bloom_n_le: "unat (bloom_n bits) \<le> length bits * 8"
  unfolding bloom_n_def unat_of_nat by (rule mod_less_eq_dividend)

lemma bloom_probe_in_range:
  "n \<noteq> 0 \<Longrightarrow> unat n \<le> length bits * 8 \<Longrightarrow> bloom_bit h1 h2 n i div 8 < length bits"
  using bloom_bit_less [of n h1 h2 i] by (simp add: less_mult_imp_div_less)

lemma bit_byte_test: "j < 8 \<Longrightarrow> (v :: byte) AND 2 ^ j = 0 \<longleftrightarrow> \<not> bit v j"
proof -
  assume "j < 8"
  then have "bit (v AND 2 ^ j) i \<longleftrightarrow> bit v j \<and> i = j" for i
    by (auto simp: bit_and_iff bit_exp_iff)
  then show ?thesis unfolding bit_eq_iff [of "v AND 2 ^ j"] using \<open>j < 8\<close> by auto
qed

lemma bit_byte_or: "j < 8 \<Longrightarrow> bit ((v :: byte) OR 2 ^ j) i \<longleftrightarrow> bit v i \<or> i = j"
  by (auto simp: bit_or_iff bit_exp_iff)

lemma bit_set_update:
  "b div 8 < length bits \<Longrightarrow>
     bit_set (bits[b div 8 := bits ! (b div 8) OR 2 ^ (b mod 8)]) c \<longleftrightarrow>
       bit_set bits c \<or> c = b"
proof -
  assume b: "b div 8 < length bits"
  have "c = b \<longleftrightarrow> c div 8 = b div 8 \<and> c mod 8 = b mod 8"
    by (metis div_mult_mod_eq)
  with b show ?thesis by (auto simp: bit_set_def nth_list_update bit_byte_or)
qed

lemma bloom_set_ok:
  assumes "n \<noteq> 0" "unat n \<le> length bits * 8"
  shows "\<exists>bits'. bloom_set h1 h2 n is bits = Inr bits' \<and> length bits' = length bits \<and>
           (\<forall>c. bit_set bits' c \<longleftrightarrow> bit_set bits c \<or> c \<in> bloom_bit h1 h2 n ` set is)"
  using assms(2)
proof (induction "is" arbitrary: bits)
  case (Cons i js)
  let ?b = "bloom_bit h1 h2 n i"
  let ?bits = "bits[?b div 8 := bits ! (?b div 8) OR 2 ^ (?b mod 8)]"
  have r: "?b div 8 < length bits" using bloom_probe_in_range assms(1) Cons.prems by blast
  obtain bits' where "bloom_set h1 h2 n js ?bits = Inr bits'" "length bits' = length bits"
    "\<forall>c. bit_set bits' c \<longleftrightarrow> bit_set ?bits c \<or> c \<in> bloom_bit h1 h2 n ` set js"
    using Cons.IH [of ?bits] Cons.prems by auto
  with r assms(1) show ?case by (auto simp: Let_def bit_set_update)
qed simp

lemma bloom_test_ok:
  assumes "n \<noteq> 0" "unat n \<le> length bits * 8"
  shows "bloom_test h1 h2 n is bits = Inr (\<forall>i \<in> set is. bit_set bits (bloom_bit h1 h2 n i))"
proof (induction "is")
  case (Cons i js)
  have "bloom_bit h1 h2 n i div 8 < length bits" using bloom_probe_in_range assms by blast
  with Cons assms(1) show ?case by (simp add: Let_def bit_byte_test bit_set_def)
qed simp

section \<open>Adding and testing\<close>

text \<open>The keys a filter answers for: all their probes are set.\<close>

definition probes :: "BloomFilter \<Rightarrow> bytes \<Rightarrow> nat set" where
  "probes f key = (case hashKey key of (h1, h2) \<Rightarrow>
     bloom_bit h1 h2 (bloom_n (fl_bits f)) ` {0..<unat (fl_k f)})"

lemma MayContain_probes:
  "bloom_n (fl_bits f) \<noteq> 0 \<Longrightarrow>
     MayContain (Some f) key = Inr (\<forall>b \<in> probes f key. bit_set (fl_bits f) b)"
  by (auto simp: probes_def bloom_test_ok bloom_n_le split: prod.splits)

lemma Filter_Add_ok:
  assumes "bloom_n (fl_bits f) \<noteq> 0"
  shows "\<exists>g. Filter_Add (Some f) key = Inr (Some g) \<and> fl_k g = fl_k f \<and>
           length (fl_bits g) = length (fl_bits f) \<and>
           (\<forall>c. bit_set (fl_bits g) c \<longleftrightarrow> bit_set (fl_bits f) c \<or> c \<in> probes f key)"
proof -
  obtain h1 h2 where h: "hashKey key = (h1, h2)" by (cases "hashKey key") auto
  obtain bits where "bloom_set h1 h2 (bloom_n (fl_bits f)) [0..<unat (fl_k f)] (fl_bits f) = Inr bits"
    "length bits = length (fl_bits f)"
    "\<forall>c. bit_set bits c \<longleftrightarrow> bit_set (fl_bits f) c \<or> c \<in> probes f key"
    using bloom_set_ok [OF assms bloom_n_le, of h1 h2 "[0..<unat (fl_k f)]"]
    by (auto simp: probes_def h)
  then show ?thesis by (intro exI [of _ "f\<lparr>fl_bits := bits\<rparr>"]) (simp add: h)
qed

lemma add_keys_ok:
  assumes "bloom_n (fl_bits f) \<noteq> 0"
  shows "\<exists>g. add_keys (Some f) ks = Inr (Some g) \<and> fl_k g = fl_k f \<and>
           length (fl_bits g) = length (fl_bits f) \<and>
           (\<forall>c. bit_set (fl_bits g) c \<longleftrightarrow> bit_set (fl_bits f) c \<or> (\<exists>k \<in> set ks. c \<in> probes f k))"
  using assms
proof (induction ks arbitrary: f)
  case (Cons k ks)
  obtain f1 where f1: "Filter_Add (Some f) k = Inr (Some f1)" "fl_k f1 = fl_k f"
    "length (fl_bits f1) = length (fl_bits f)"
    "\<forall>c. bit_set (fl_bits f1) c \<longleftrightarrow> bit_set (fl_bits f) c \<or> c \<in> probes f k"
    using Filter_Add_ok [OF Cons.prems] by blast
  then have same: "bloom_n (fl_bits f1) = bloom_n (fl_bits f)" "probes f1 = probes f"
    by (auto simp: bloom_n_def probes_def fun_eq_iff)
  obtain g where "add_keys (Some f1) ks = Inr (Some g)" "fl_k g = fl_k f1"
    "length (fl_bits g) = length (fl_bits f1)"
    "\<forall>c. bit_set (fl_bits g) c \<longleftrightarrow> bit_set (fl_bits f1) c \<or> (\<exists>k \<in> set ks. c \<in> probes f1 k)"
    using Cons.IH [of f1] Cons.prems same by auto
  with f1 same show ?case by (auto simp del: Filter_Add.simps)
qed simp

lemma add_keys_None [simp]: "add_keys None ks = Inr None"
  by (induction ks) auto

lemma NewFilter_wf:
  assumes "NewFilter n b = Some f"
  shows "1 \<le> unat (fl_k f)" "unat (fl_k f) \<le> 30" "8 \<le> length (fl_bits f)"
    "int (length (fl_bits f)) = (max 64 (n * b) + 7) div 8"
proof -
  define k where "k = max 1 (min 30 (b * 69 div 100))"
  define m where "m = max 64 (n * b)"
  have f: "f = \<lparr>fl_bits = replicate (nat ((m + 7) div 8)) 0, fl_k = word_of_int k\<rparr>"
    using assms by (auto simp: NewFilter_def Let_def k_def m_def max_def min_def split: if_splits)
  have k: "1 \<le> k" "k \<le> 30" by (simp_all add: k_def)
  then have "unat (word_of_int k :: byte) = nat k"
    by (simp add: unsigned_of_int take_bit_int_eq_self)
  with k show "1 \<le> unat (fl_k f)" "unat (fl_k f) \<le> 30" by (simp_all add: f)
  have "64 \<le> m" by (simp add: m_def)
  then show "8 \<le> length (fl_bits f)" "int (length (fl_bits f)) = (max 64 (n * b) + 7) div 8"
    by (simp_all add: f flip: m_def)
qed

lemma Filter_Decode_Encode:
  "fl_bits g \<noteq> [] \<Longrightarrow> Filter_Decode (Filter_Encode (Some g)) = Some g"
  by (cases g) (auto simp: Filter_Decode_def Suc_le_eq not_less)

lemma filter_block_decodes:
  "DecodeBlockPayload dec (filter_block p) BlockTypeFilter err = Inr p"
  by (simp add: filter_block_def DecodeBlockPayload_EncodeBlock)

lemma length_filter_block [simp]: "length (filter_block p) = length p + 14"
  by (simp add: filter_block_def)

lemma NewFilter_bloom_n:
  assumes "NewFilter n b = Some f" "n * b + 7 < 2 ^ 32"
  shows "bloom_n (fl_bits f) \<noteq> 0"
proof -
  have len: "int (length (fl_bits f)) = (max 64 (n * b) + 7) div 8" "8 \<le> length (fl_bits f)"
    using NewFilter_wf [OF assms(1)] by auto
  have "length (fl_bits f) * 8 < 2 ^ 32"
    using len(1) assms(2) by simp
  then have "unat (bloom_n (fl_bits f)) = length (fl_bits f) * 8"
    unfolding bloom_n_def by (rule unat_word_of_nat_u32)
  with len(2) show ?thesis by (auto simp: unat_eq_zero)
qed

lemma add_keys_contains:
  assumes "bloom_n (fl_bits f) \<noteq> 0"
  shows "\<exists>g. add_keys (Some f) ks = Inr (Some g) \<and> fl_k g = fl_k f \<and>
           length (fl_bits g) = length (fl_bits f) \<and>
           (\<forall>k \<in> set ks. MayContain (Some g) k = Inr True) \<and>
           (\<forall>k. MayContain (Some f) k = Inr True \<longrightarrow> MayContain (Some g) k = Inr True)"
proof -
  obtain g where g: "add_keys (Some f) ks = Inr (Some g)" "fl_k g = fl_k f"
    "length (fl_bits g) = length (fl_bits f)"
    "\<forall>c. bit_set (fl_bits g) c \<longleftrightarrow> bit_set (fl_bits f) c \<or> (\<exists>k \<in> set ks. c \<in> probes f k)"
    using add_keys_ok [OF assms] by blast
  then have n: "bloom_n (fl_bits g) = bloom_n (fl_bits f)" "probes g = probes f"
    by (auto simp: bloom_n_def probes_def fun_eq_iff)
  with assms g show ?thesis
    by (intro exI [of _ g]) (auto simp: MayContain_probes simp del: MayContain.simps)
qed

section \<open>Properties\<close>

text \<open>
  C9: no false negatives.  A filter built for any number of keys accepts every key that was
  added to it, before and after it has been written and read back, and adding keys never makes
  it reject a key it accepted.  The bit array stays below the 32-bit range of the probes.
\<close>

theorem bloom_no_false_negatives:
  assumes "NewFilter n b = Some f" and "n * b + 7 < 2 ^ 32"
  shows "\<exists>g. add_keys (Some f) ks = Inr (Some g) \<and>
           Filter_Decode (Filter_Encode (Some g)) = Some g \<and>
           (\<forall>k \<in> set ks. MayContain (Some g) k = Inr True) \<and>
           (\<forall>k. MayContain (Some f) k = Inr True \<longrightarrow> MayContain (Some g) k = Inr True)"
proof -
  obtain g where g: "add_keys (Some f) ks = Inr (Some g)"
    "length (fl_bits g) = length (fl_bits f)"
    "\<forall>k \<in> set ks. MayContain (Some g) k = Inr True"
    "\<forall>k. MayContain (Some f) k = Inr True \<longrightarrow> MayContain (Some g) k = Inr True"
    using add_keys_contains [OF NewFilter_bloom_n [OF assms]] by blast
  moreover have "fl_bits g \<noteq> []" using g(2) NewFilter_wf(3) [OF assms(1)] by auto
  ultimately show ?thesis using Filter_Decode_Encode by blast
qed

theorem bloom_no_false_negatives_witness:
  "\<exists>f g. NewFilter 2 10 = Some f \<and> add_keys (Some f) [[1], [2, 3]] = Inr (Some g) \<and>
     MayContain (Some g) [2, 3] = Inr True"
proof -
  have f: "NewFilter 2 10 = Some \<lparr>fl_bits = replicate 8 0, fl_k = 6\<rparr>"
    by (simp add: NewFilter_def)
  show ?thesis
    using bloom_no_false_negatives [OF f, of "[[1], [2, 3]]"] f by auto
qed

end
