(* ===== verification/Entry_Maps.thy ===== *)
theory Entry_Maps
  imports Go_Std
begin

text \<open>
  Lists of entries in strictly increasing key order: the abstract value of every ordered
  structure of the engine.  Lookup by key, insertion with replacement, and ranges of keys.
\<close>

definition entry_keys_sorted :: "entry list \<Rightarrow> bool" where
  "entry_keys_sorted es \<longleftrightarrow> sorted_wrt (<) (map Key es)"

definition lookup :: "bytes \<Rightarrow> entry list \<Rightarrow> entry option" where
  "lookup k es = List.find (\<lambda>e. Key e = k) es"

lemma lookup_simps [simp]:
  "lookup k [] = None"
  "lookup k (e # es) = (if Key e = k then Some e else lookup k es)"
  by (simp_all add: lookup_def)

lemma lookup_append: "lookup k (xs @ ys) = (case lookup k xs of None \<Rightarrow> lookup k ys | Some e \<Rightarrow> Some e)"
  by (induction xs) auto

lemma lookup_None_iff: "lookup k es = None \<longleftrightarrow> (\<forall>e \<in> set es. Key e \<noteq> k)"
  by (induction es) auto

lemma lookup_SomeD: "lookup k es = Some e \<Longrightarrow> e \<in> set es \<and> Key e = k"
  by (induction es) (auto split: if_splits)

lemma entry_keys_sorted_simps [simp]:
  "entry_keys_sorted []"
  "entry_keys_sorted (e # es) \<longleftrightarrow> (\<forall>x \<in> set es. Key e < Key x) \<and> entry_keys_sorted es"
  by (auto simp: entry_keys_sorted_def)

lemma entry_keys_sorted_append:
  "entry_keys_sorted (xs @ ys) \<longleftrightarrow> entry_keys_sorted xs \<and> entry_keys_sorted ys \<and>
     (\<forall>x \<in> set xs. \<forall>y \<in> set ys. Key x < Key y)"
  by (auto simp: entry_keys_sorted_def sorted_wrt_append)

lemma find_ge_lookup:
  "entry_keys_sorted es \<Longrightarrow>
     (case List.find (\<lambda>e. k \<le> Key e) es of None \<Rightarrow> Inr None
      | Some e \<Rightarrow> if Key e = k then Inr (Some e) else Inr None) = Inr (lookup k es)"
proof (induction es)
  case (Cons e es)
  show ?case
  proof (cases "k \<le> Key e")
    case True
    then have "lookup k es = None" if "Key e \<noteq> k"
      using Cons.prems that by (auto simp: lookup_None_iff)
    with True show ?thesis by auto
  next
    case False
    with Cons show ?thesis by auto
  qed
qed simp

lemma lookup_unique:
  assumes "distinct (map Key es)" "e \<in> set es"
  shows "lookup (Key e) es = Some e"
  using assms by (induction es) (auto simp: image_iff)

lemma lookup_sort_Slice:
  assumes "distinct (map Key es)"
  shows "lookup k (sort_Slice lt es) = lookup k es"
proof (cases "lookup k es")
  case None
  then have "lookup k (sort_Slice lt es) = None" by (simp add: lookup_None_iff)
  with None show ?thesis by simp
next
  case (Some e)
  then have "e \<in> set es" "Key e = k" by (auto simp: lookup_def find_Some_iff)
  with Some lookup_unique [of "sort_Slice lt es" e] assms show ?thesis by simp
qed

section \<open>Insertion and ranges\<close>

definition upsert :: "entry \<Rightarrow> entry list \<Rightarrow> entry list" where
  "upsert e es =
     takeWhile (\<lambda>x. Key x < Key e) es @ e # dropWhile (\<lambda>x. Key x \<le> Key e) es"

definition in_range :: "bytes \<Rightarrow> bytes \<Rightarrow> bytes \<Rightarrow> bool" where
  "in_range start en k \<longleftrightarrow> start \<le> k \<and> (en \<noteq> [] \<longrightarrow> k < en)"

definition range_entries :: "bytes \<Rightarrow> bytes \<Rightarrow> entry list \<Rightarrow> entry list" where
  "range_entries start en es = filter (\<lambda>e. in_range start en (Key e)) es"

lemma entry_keys_sorted_filter: "entry_keys_sorted es \<Longrightarrow> entry_keys_sorted (filter p es)"
  by (induction es) auto

lemma entry_keys_sorted_distinct: "entry_keys_sorted es \<Longrightarrow> distinct (map Key es)"
  by (induction es) auto

lemma takeWhile_less_sorted:
  "entry_keys_sorted es \<Longrightarrow> takeWhile (\<lambda>x. Key x < k) es = filter (\<lambda>x. Key x < k) es"
proof (induction es)
  case (Cons e es)
  show ?case
  proof (cases "Key e < k")
    case False
    then have "\<forall>x \<in> set es. \<not> Key x < k" using Cons.prems by auto
    with False show ?thesis by simp
  qed (use Cons in simp)
qed simp

lemma dropWhile_le_sorted:
  "entry_keys_sorted es \<Longrightarrow> dropWhile (\<lambda>x. Key x \<le> k) es = filter (\<lambda>x. k < Key x) es"
proof (induction es)
  case (Cons e es)
  show ?case
  proof (cases "Key e \<le> k")
    case False
    then have "\<forall>x \<in> set es. k < Key x" using Cons.prems by auto
    with False show ?thesis by (simp add: not_le)
  qed (use Cons in \<open>simp add: not_less\<close>)
qed simp

lemma dropWhile_less_sorted:
  "entry_keys_sorted es \<Longrightarrow> dropWhile (\<lambda>x. Key x < k) es = filter (\<lambda>x. k \<le> Key x) es"
proof (induction es)
  case (Cons e es)
  show ?case
  proof (cases "Key e < k")
    case False
    then have "\<forall>x \<in> set es. k \<le> Key x" using Cons.prems by auto
    with False show ?thesis by (simp add: not_less)
  qed (use Cons in \<open>simp add: not_le\<close>)
qed simp

lemma upsert_sorted: "entry_keys_sorted es \<Longrightarrow> entry_keys_sorted (upsert e es)"
  by (auto simp: upsert_def takeWhile_less_sorted dropWhile_le_sorted entry_keys_sorted_append
      entry_keys_sorted_filter)

lemma lookup_filter_key: "lookup k (filter (\<lambda>x. p (Key x)) es) = (if p k then lookup k es else None)"
  by (induction es) auto

lemma lookup_upsert:
  "entry_keys_sorted es \<Longrightarrow> lookup k (upsert e es) = (if k = Key e then Some e else lookup k es)"
  using lookup_filter_key [of k "\<lambda>z. z < Key e" es] lookup_filter_key [of k "\<lambda>z. Key e < z" es]
  by (cases k "Key e" rule: linorder_cases)
     (simp_all add: upsert_def takeWhile_less_sorted dropWhile_le_sorted lookup_append split: option.split)

lemma upsert_split:
  assumes "\<forall>x \<in> set A. Key x < Key e" "\<forall>x \<in> set B. Key e < Key x"
  shows "upsert e (A @ B) = A @ e # B" "Key y = Key e \<Longrightarrow> upsert e (A @ y # B) = A @ e # B"
proof -
  have "takeWhile (\<lambda>x. Key x < Key e) B = []" "dropWhile (\<lambda>x. Key x \<le> Key e) B = B"
    using assms(2) by (cases B; force)+
  then show "upsert e (A @ B) = A @ e # B" "Key y = Key e \<Longrightarrow> upsert e (A @ y # B) = A @ e # B"
    using assms(1) by (auto simp: upsert_def takeWhile_append2 dropWhile_append2 order.strict_implies_order)
qed

text \<open>Two sorted lists with the same lookups are equal.\<close>

lemma lookup_in_set: "entry_keys_sorted es \<Longrightarrow> e \<in> set es \<longleftrightarrow> lookup (Key e) es = Some e"
  using lookup_unique [OF entry_keys_sorted_distinct] lookup_SomeD by blast

lemma sorted_entries_eqI:
  assumes "entry_keys_sorted xs" "entry_keys_sorted ys" "\<And>k. lookup k xs = lookup k ys"
  shows "xs = ys"
proof (rule map_sorted_distinct_set_unique [of Key])
  have "e \<in> set xs \<longleftrightarrow> e \<in> set ys" for e
    using lookup_in_set [OF assms(1), of e] lookup_in_set [OF assms(2), of e] assms(3) by simp
  then show "set xs = set ys" by blast
  show "inj_on Key (set xs \<union> set ys)"
    using \<open>set xs = set ys\<close> entry_keys_sorted_distinct [OF assms(1)] by (simp add: distinct_map)
qed (use assms entry_keys_sorted_distinct in
      \<open>auto simp: entry_keys_sorted_def sorted_wrt_map intro: sorted_wrt_mono_rel [OF less_imp_le]\<close>)

lemma sorted_entries_setI:
  assumes "entry_keys_sorted xs" "entry_keys_sorted ys" "set xs = set ys"
  shows "xs = ys"
proof (rule sorted_entries_eqI [OF assms(1,2)])
  fix k show "lookup k xs = lookup k ys"
  proof (cases "lookup k xs")
    case None
    with assms(3) have "lookup k ys = None" by (simp add: lookup_None_iff)
    with None show ?thesis by simp
  next
    case (Some e)
    with lookup_SomeD [OF Some] lookup_in_set [OF assms(2), of e] assms(3) show ?thesis by auto
  qed
qed

lemma fold_upsert_sorted: "entry_keys_sorted m \<Longrightarrow> entry_keys_sorted (fold upsert es m)"
  by (induction es arbitrary: m) (auto simp: upsert_sorted)

lemma filter_upsert:
  assumes "entry_keys_sorted es"
  shows "filter (\<lambda>x. p (Key x)) (upsert e es) =
    (if p (Key e) then upsert e (filter (\<lambda>x. p (Key x)) es) else filter (\<lambda>x. p (Key x)) es)"
proof (rule sorted_entries_eqI)
  note s = entry_keys_sorted_filter [OF assms, of "\<lambda>x. p (Key x)"]
  show "entry_keys_sorted (filter (\<lambda>x. p (Key x)) (upsert e es))"
    by (rule entry_keys_sorted_filter [OF upsert_sorted [OF assms]])
  show "entry_keys_sorted (if p (Key e) then upsert e (filter (\<lambda>x. p (Key x)) es) else filter (\<lambda>x. p (Key x)) es)"
    using s upsert_sorted [OF s] by simp
  show "lookup k (filter (\<lambda>x. p (Key x)) (upsert e es)) =
      lookup k (if p (Key e) then upsert e (filter (\<lambda>x. p (Key x)) es) else filter (\<lambda>x. p (Key x)) es)" for k
    using lookup_filter_key [of k p "upsert e es"] lookup_filter_key [of k p es] lookup_upsert [OF assms, of k e]
      lookup_upsert [OF s, of k e] by auto
qed

lemma filter_fold_upsert:
  "entry_keys_sorted m \<Longrightarrow> filter (\<lambda>x. p (Key x)) (fold upsert es m) =
     fold upsert (filter (\<lambda>x. p (Key x)) es) (filter (\<lambda>x. p (Key x)) m)"
proof (induction es arbitrary: m)
  case (Cons e es)
  from Cons.IH [OF upsert_sorted [OF Cons.prems, of e]] filter_upsert [OF Cons.prems, of p e] show ?case by simp
qed simp

lemma sorted_entries_split:
  assumes "entry_keys_sorted es"
  shows "filter (\<lambda>x. Key x < k) es @ (case lookup k es of None \<Rightarrow> [] | Some e \<Rightarrow> [e]) @ filter (\<lambda>x. k < Key x) es = es"
  using assms
proof (induction es)
  case (Cons e es)
  consider "Key e < k" | "Key e = k" | "k < Key e" by (rule linorder_cases)
  then show ?case
  proof cases
    case 1
    then have "\<not> k < Key e" "Key e \<noteq> k" by auto
    with 1 Cons show ?thesis by simp
  next
    case 2
    then have "filter (\<lambda>x. Key x < k) es = []" "filter (\<lambda>x. k < Key x) es = es"
      using Cons.prems by (auto simp: filter_empty_conv filter_id_conv)
    with 2 show ?thesis by simp
  next
    case 3
    then have l: "\<forall>x \<in> set es. k < Key x" using Cons.prems by (auto intro: less_trans)
    then have "filter (\<lambda>x. Key x < k) es = []" "filter (\<lambda>x. k < Key x) es = es" "lookup k es = None"
      by (auto simp: filter_empty_conv filter_id_conv lookup_None_iff)
    moreover have "\<not> Key e < k" "Key e \<noteq> k" using 3 by auto
    ultimately show ?thesis using 3 by simp
  qed
qed simp

text \<open>What an insertion does to a sum over the entries.\<close>

lemma sum_upsert:
  fixes f :: "entry \<Rightarrow> int"
  assumes "entry_keys_sorted es"
  shows "sum_list (map f (upsert e es)) =
    sum_list (map f es) + f e - (case lookup (Key e) es of None \<Rightarrow> 0 | Some x \<Rightarrow> f x)"
  by (subst (2) sorted_entries_split [OF assms, of "Key e", symmetric])
     (simp add: upsert_def takeWhile_less_sorted [OF assms] dropWhile_le_sorted [OF assms] split: option.split)

lemma length_upsert:
  assumes "entry_keys_sorted es"
  shows "length (upsert e es) = length es + (case lookup (Key e) es of None \<Rightarrow> 1 | Some _ \<Rightarrow> 0)"
  by (subst (2) sorted_entries_split [OF assms, of "Key e", symmetric])
     (simp add: upsert_def takeWhile_less_sorted [OF assms] dropWhile_le_sorted [OF assms] split: option.split)

end
