(* ===== verification/Sst_Block.thy ===== *)
theory Sst_Block
  imports Entry_Maps
begin

text \<open>
  Data blocks of a sorted table, \<^verbatim>\<open>internal/lsm/sstable/format/block.go\<close>: the builder with
  prefix-compressed keys and restart points, the decoder, and the cursor with point lookup and
  seek.  A cursor is a value here; the code's \<^verbatim>\<open>scratch\<close> buffer is reused by the next
  \<^verbatim>\<open>Next\<close>, which matters only to a caller that keeps a view across calls.

  The adaptive restart interval is computed in \<^verbatim>\<open>float64\<close>; the rounding of
  \<^verbatim>\<open>int(float64(shared) / float64(keys) * float64(range))\<close> is the parameter \<open>scale\<close>, and
  nothing below depends on it.
\<close>

section \<open>Builder\<close>

record Builder =
  bd_buf :: bytes
  bd_restartOffsets :: "u32 list"
  bd_restartInterval :: int
  bd_baseRestart :: int
  bd_minRestart :: int
  bd_maxRestart :: int
  bd_adaptive :: bool
  bd_entryCount :: nat
  bd_first :: bytes
  bd_lastKey :: bytes
  bd_sharedSum :: nat
  bd_keySum :: nat

definition entryHeaderSize :: nat where "entryHeaderSize = 4 + 4 + 4 + 8 + 1"
definition blockOffsetSize :: nat where "blockOffsetSize = 4"
definition blockCountSize :: nat where "blockCountSize = 4"
definition defaultRestartInterval :: int where "defaultRestartInterval = 16"

lemmas block_sizes = entryHeaderSize_def blockOffsetSize_def blockCountSize_def

definition NewBuilder :: "int \<Rightarrow> bool \<Rightarrow> int \<Rightarrow> int \<Rightarrow> Builder" where
  "NewBuilder restartInterval adaptive minRestart maxRestart =
     (let restartInterval = (if restartInterval \<le> 0 then defaultRestartInterval else restartInterval);
          minRestart = (if minRestart \<le> 0 then restartInterval else minRestart);
          maxRestart = (if maxRestart \<le> 0 then restartInterval else maxRestart);
          minRestart = (if maxRestart < minRestart then maxRestart else minRestart);
          restartInterval = (if restartInterval < minRestart then minRestart else restartInterval);
          restartInterval = (if maxRestart < restartInterval then maxRestart else restartInterval)
      in \<lparr>bd_buf = [], bd_restartOffsets = [], bd_restartInterval = restartInterval,
          bd_baseRestart = restartInterval, bd_minRestart = minRestart, bd_maxRestart = maxRestart,
          bd_adaptive = adaptive, bd_entryCount = 0, bd_first = [], bd_lastKey = [],
          bd_sharedSum = 0, bd_keySum = 0\<rparr>)"

fun commonPrefixLen :: "bytes \<Rightarrow> bytes \<Rightarrow> nat" where
  "commonPrefixLen (a # as) (b # bs) = (if a = b then Suc (commonPrefixLen as bs) else 0)"
| "commonPrefixLen _ _ = 0"

definition appendEntry :: "bytes \<Rightarrow> nat \<Rightarrow> nat \<Rightarrow> entry \<Rightarrow> bytes" where
  "appendEntry dst shared unshared entry =
     (let flags = (if Tombstone entry then 0 OR 1 else 0) :: byte
      in dst @ PutUint32 (word_of_nat shared) @ PutUint32 (word_of_nat unshared)
           @ PutUint32 (word_of_nat (length (Value entry))) @ PutUint64 (Seq entry) @ [flags]
           @ drop shared (Key entry) @ Value entry)"

definition nextEntrySizing :: "Builder \<Rightarrow> entry \<Rightarrow> Builder \<times> nat \<times> nat \<times> bool" where
  "nextEntrySizing b entry =
     (let b = (if bd_restartInterval b \<le> 0
               then b\<lparr>bd_restartInterval := defaultRestartInterval\<rparr> else b);
          restart = (int (bd_entryCount b) mod bd_restartInterval b = 0);
          shared = (if \<not> restart \<and> 0 < length (bd_lastKey b)
                    then commonPrefixLen (bd_lastKey b) (Key entry) else 0);
          shared = (if length (Key entry) < shared then length (Key entry) else shared)
      in (b, shared, length (Key entry) - shared, restart))"

definition adaptRestartInterval :: "(nat \<Rightarrow> nat \<Rightarrow> int \<Rightarrow> int) \<Rightarrow> Builder \<Rightarrow> Builder" where
  "adaptRestartInterval scale b =
     (if bd_keySum b = 0 \<or> bd_maxRestart b = bd_minRestart b
      then b\<lparr>bd_sharedSum := 0, bd_keySum := 0\<rparr>
      else
        let target = bd_minRestart b
              + scale (bd_sharedSum b) (bd_keySum b) (bd_maxRestart b - bd_minRestart b);
            target = (if target < bd_minRestart b then bd_minRestart b else target);
            target = (if bd_maxRestart b < target then bd_maxRestart b else target)
        in b\<lparr>bd_restartInterval := target, bd_sharedSum := 0, bd_keySum := 0\<rparr>)"

definition Builder_Add :: "(nat \<Rightarrow> nat \<Rightarrow> int \<Rightarrow> int) \<Rightarrow> Builder \<Rightarrow> entry \<Rightarrow> Builder" where
  "Builder_Add scale b0 entry =
     (let (b, shared, unshared, restart) = nextEntrySizing b0 entry;
          b = (if bd_first b = [] then b\<lparr>bd_first := Key entry\<rparr> else b);
          b = (if restart then b\<lparr>bd_restartOffsets := bd_restartOffsets b
                                   @ [word_of_nat (length (bd_buf b))]\<rparr> else b);
          b = b\<lparr>bd_buf := appendEntry (bd_buf b) shared unshared entry,
                bd_lastKey := Key entry, bd_entryCount := Suc (bd_entryCount b),
                bd_sharedSum := bd_sharedSum b + shared,
                bd_keySum := bd_keySum b + (shared + unshared)\<rparr>
      in if bd_adaptive b \<and> int (bd_entryCount b) mod bd_restartInterval b = 0
         then adaptRestartInterval scale b else b)"

definition Builder_Reset :: "Builder \<Rightarrow> Builder" where
  "Builder_Reset b =
     b\<lparr>bd_buf := [], bd_restartOffsets := [], bd_entryCount := 0, bd_first := [], bd_lastKey := [],
       bd_sharedSum := 0, bd_keySum := 0, bd_restartInterval := bd_baseRestart b\<rparr>"

definition Builder_SizeBytes :: "Builder \<Rightarrow> nat" where
  "Builder_SizeBytes b =
     (if bd_entryCount b = 0 then 0
      else length (bd_buf b) + length (bd_restartOffsets b) * blockOffsetSize + blockCountSize)"

definition entryEncodedSize :: "nat \<Rightarrow> nat \<Rightarrow> nat" where
  "entryEncodedSize unshared valLen = entryHeaderSize + unshared + valLen"

definition EstimatedSizeAfter :: "Builder \<Rightarrow> entry \<Rightarrow> nat" where
  "EstimatedSizeAfter b0 entry =
     (let (b, _, unshared, restart) = nextEntrySizing b0 entry;
          entrySize = entryEncodedSize unshared (length (Value entry));
          restarts = length (bd_restartOffsets b) + (if restart then 1 else 0)
      in length (bd_buf b) + entrySize + restarts * blockOffsetSize + blockCountSize)"

definition Builder_Finish :: "Builder \<Rightarrow> bytes" where
  "Builder_Finish b =
     bd_buf b @ concat (map PutUint32 (bd_restartOffsets b))
       @ PutUint32 (word_of_nat (length (bd_restartOffsets b)))"

section \<open>Decoded blocks and cursors\<close>

record Block =
  bk_data :: bytes
  bk_restarts :: "u32 list"
  bk_restartKeys :: "bytes list"

record Cursor =
  cu_offset :: nat
  cu_limit :: nat
  cu_lastKey :: bytes

fun decode_restarts :: "bytes \<Rightarrow> nat \<Rightarrow> u32 \<Rightarrow> nat list \<Rightarrow> u32 list result" where
  "decode_restarts payload offsetStart dataLen [] = Inr []"
| "decode_restarts payload offsetStart dataLen (i # is) =
     (let pos = offsetStart + i * blockOffsetSize;
          off = Uint32 (bslice pos (pos + blockOffsetSize) payload)
      in if dataLen \<le> off then Inl (ErrMsg ''sstable: block restart offset out of range'')
         else bind_result (decode_restarts payload offsetStart dataLen is) (\<lambda>rs. Inr (off # rs)))"

definition restart_key :: "bytes \<Rightarrow> u32 \<Rightarrow> bytes result" where
  "restart_key data off =
     (let pos = unat off
      in if length data - pos < entryHeaderSize then Inl (ErrMsg ''sstable: restart entry truncated'')
         else
           let shared = Uint32 (bslice pos (pos + 4) data);
               unshared = Uint32 (bslice (pos + 4) (pos + 8) data);
               valLen = Uint32 (bslice (pos + 8) (pos + 12) data)
           in if shared \<noteq> 0 then Inl (ErrMsg ''sstable: restart entry has shared prefix'')
              else
                let keyStart = pos + entryHeaderSize;
                    keyEnd = keyStart + unat unshared;
                    valEnd = keyEnd + unat valLen
                in if length data < valEnd then Inl (ErrMsg ''sstable: restart entry truncated'')
                   else Inr (bslice keyStart keyEnd data))"

fun restart_keys :: "bytes \<Rightarrow> u32 list \<Rightarrow> bytes list result" where
  "restart_keys data [] = Inr []"
| "restart_keys data (off # offs) =
     bind_result (restart_key data off) (\<lambda>k.
     bind_result (restart_keys data offs) (\<lambda>ks. Inr (k # ks)))"

definition Block_Decode :: "bytes \<Rightarrow> Block result" where
  "Block_Decode payload =
     (if length payload < blockCountSize then Inl (ErrMsg ''sstable: block too small'')
      else
        let count = Uint32 (drop (length payload - blockCountSize) payload);
            offsetsLen = unat count * blockOffsetSize
        in if length payload < blockCountSize + offsetsLen
           then Inl (ErrMsg ''sstable: block restarts truncated'')
           else
             let offsetStart = length payload - blockCountSize - offsetsLen;
                 data = take offsetStart payload
             in if count = 0 \<and> 0 < length data
                then Inl (ErrMsg ''sstable: block missing restart points'')
                else
                  bind_result (decode_restarts payload offsetStart (word_of_nat (length data))
                                 [0..<unat count]) (\<lambda>restarts.
                  bind_result (restart_keys data restarts) (\<lambda>keys.
                    Inr \<lparr>bk_data = data, bk_restarts = restarts, bk_restartKeys = keys\<rparr>)))"

definition NewCursor :: "Block \<Rightarrow> nat \<Rightarrow> nat \<Rightarrow> Cursor" where
  "NewCursor b offset limit =
     (let limit = (if limit = 0 \<or> length (bk_data b) < limit then length (bk_data b) else limit);
          offset = (if limit < offset then limit else offset)
      in \<lparr>cu_offset = offset, cu_limit = limit, cu_lastKey = []\<rparr>)"

text \<open>\<^verbatim>\<open>Cursor.Next\<close>: an error, the end (\<open>None\<close>), or an entry and the moved cursor.\<close>

definition Cursor_Next :: "bytes \<Rightarrow> Cursor \<Rightarrow> (entry \<times> Cursor) option result" where
  "Cursor_Next data c =
     (if cu_limit c \<le> cu_offset c then Inr None
      else if cu_limit c - cu_offset c < entryHeaderSize then Inl (ErrMsg ''sstable: entry truncated'')
      else
        let off = cu_offset c;
            shared = Uint32 (bslice off (off + 4) data);
            unshared = Uint32 (bslice (off + 4) (off + 8) data);
            valLen = Uint32 (bslice (off + 8) (off + 12) data);
            seq = Uint64 (bslice (off + 12) (off + 20) data);
            flags = data ! (off + 20);
            keyStart = off + entryHeaderSize;
            keyEnd = keyStart + unat unshared;
            valEnd = keyEnd + unat valLen
        in if cu_limit c < valEnd then Inl (ErrMsg ''sstable: entry truncated'')
           else if length (cu_lastKey c) < unat shared
                then Inl (ErrMsg ''sstable: entry shared prefix invalid'')
           else
             let key = take (unat shared) (cu_lastKey c) @ bslice keyStart keyEnd data
             in Inr (Some (\<lparr>Key = key, Value = bslice keyEnd valEnd data,
                            Tombstone = (flags AND 1 = 1), Seq = seq\<rparr>,
                           c\<lparr>cu_offset := valEnd, cu_lastKey := key\<rparr>)))"

lemma Cursor_Next_progress:
  "Cursor_Next data c = Inr (Some (e, c')) \<Longrightarrow>
     cu_offset c < cu_offset c' \<and> cu_offset c' \<le> cu_limit c \<and> cu_limit c' = cu_limit c"
  by (auto simp: Cursor_Next_def Let_def block_sizes split: if_splits)

function find_loop :: "bytes \<Rightarrow> bytes \<Rightarrow> Cursor \<Rightarrow> entry option result" where
  "find_loop data key c =
     (case Cursor_Next data c of
        Inl e \<Rightarrow> Inl e
      | Inr None \<Rightarrow> Inr None
      | Inr (Some (entry, c')) \<Rightarrow>
          if Key entry = key then Inr (Some entry)
          else if key < Key entry then Inr None
          else find_loop data key c')"
  by pat_completeness auto
termination
  by (relation "measure (\<lambda>(data, key, c). cu_limit c - cu_offset c)")
     (auto dest!: Cursor_Next_progress)

function seek_loop :: "bytes \<Rightarrow> bytes \<Rightarrow> Cursor \<Rightarrow> (Cursor \<times> entry) option result" where
  "seek_loop data key c =
     (case Cursor_Next data c of
        Inl e \<Rightarrow> Inl e
      | Inr None \<Rightarrow> Inr None
      | Inr (Some (entry, c')) \<Rightarrow>
          if key \<le> Key entry then Inr (Some (c', entry)) else seek_loop data key c')"
  by pat_completeness auto
termination
  by (relation "measure (\<lambda>(data, key, c). cu_limit c - cu_offset c)")
     (auto dest!: Cursor_Next_progress)

text \<open>Reading a cursor to its end, as every scan over a block does.\<close>

function cursor_all :: "bytes \<Rightarrow> Cursor \<Rightarrow> entry list result" where
  "cursor_all data c =
     (case Cursor_Next data c of
        Inl e \<Rightarrow> Inl e
      | Inr None \<Rightarrow> Inr []
      | Inr (Some (entry, c')) \<Rightarrow> bind_result (cursor_all data c') (\<lambda>es. Inr (entry # es)))"
  by pat_completeness auto
termination
  by (relation "measure (\<lambda>(data, c). cu_limit c - cu_offset c)")
     (auto dest!: Cursor_Next_progress)

declare find_loop.simps [simp del] seek_loop.simps [simp del] cursor_all.simps [simp del]

text \<open>The restart interval a key falls into; the first one when the key is below all.\<close>

definition restart_index :: "Block \<Rightarrow> bytes \<Rightarrow> nat" where
  "restart_index b key =
     sort_Search (length (bk_restartKeys b)) (\<lambda>i. key < bk_restartKeys b ! i) - 1"

definition FindView :: "Block \<Rightarrow> bytes \<Rightarrow> entry option result" where
  "FindView b key =
     (if bk_restarts b = [] then Inr None
      else
        let idx = restart_index b key;
            limit = (if idx + 1 < length (bk_restarts b) then unat (bk_restarts b ! (idx + 1))
                     else length (bk_data b))
        in find_loop (bk_data b) key (NewCursor b (unat (bk_restarts b ! idx)) limit))"

definition Block_Find :: "Block \<Rightarrow> bytes \<Rightarrow> entry option result" where
  "Block_Find b key = FindView b key"

definition Block_Seek :: "Block \<Rightarrow> bytes \<Rightarrow> (Cursor \<times> entry) option result" where
  "Block_Seek b key =
     (if bk_restarts b = [] then Inr None
      else
        let idx = restart_index b key
        in seek_loop (bk_data b) key (NewCursor b (unat (bk_restarts b ! idx)) (length (bk_data b))))"

section \<open>Layout of a built block\<close>

text \<open>
  The entries of a block with the prefix length each shares with its predecessor; \<open>item_off\<close>
  is the offset of the entry with the given index.
\<close>

type_synonym item = "nat \<times> entry"

definition enc_item :: "item \<Rightarrow> bytes" where
  "enc_item x = appendEntry [] (fst x) (length (Key (snd x)) - fst x) (snd x)"

definition enc_items :: "item list \<Rightarrow> bytes" where
  "enc_items xs = concat (map enc_item xs)"

definition item_off :: "item list \<Rightarrow> nat \<Rightarrow> nat" where
  "item_off xs i = length (enc_items (take i xs))"

fun chain_ok :: "bytes \<Rightarrow> item list \<Rightarrow> bool" where
  "chain_ok prev [] = True"
| "chain_ok prev (x # xs) =
     (fst x \<le> length (Key (snd x)) \<and> fst x \<le> length prev \<and>
      take (fst x) prev = take (fst x) (Key (snd x)) \<and> chain_ok (Key (snd x)) xs)"

definition last_key :: "bytes \<Rightarrow> item list \<Rightarrow> bytes" where
  "last_key prev xs = (if xs = [] then prev else Key (snd (last xs)))"

lemma last_key_simps [simp]:
  "last_key prev [] = prev"
  "last_key prev (x # xs) = last_key (Key (snd x)) xs"
  "last_key prev (xs @ [x]) = Key (snd x)"
  by (simp_all add: last_key_def)

lemma chain_ok_append:
  "chain_ok prev (xs @ ys) \<longleftrightarrow> chain_ok prev xs \<and> chain_ok (last_key prev xs) ys"
  by (induction prev xs rule: chain_ok.induct) auto

lemma enc_items_simps [simp]:
  "enc_items [] = []"
  "enc_items (x # xs) = enc_item x @ enc_items xs"
  "enc_items (xs @ ys) = enc_items xs @ enc_items ys"
  by (simp_all add: enc_items_def)

lemma length_enc_item:
  "length (enc_item x) = 21 + (length (Key (snd x)) - fst x) + length (Value (snd x))"
  by (simp add: enc_item_def appendEntry_def Let_def)

lemma appendEntry_enc_item:
  "appendEntry buf shared (length (Key e) - shared) e = buf @ enc_item (shared, e)"
  by (simp add: appendEntry_def enc_item_def Let_def)

lemma item_off_0 [simp]: "item_off xs 0 = 0"
  by (simp add: item_off_def)

lemma item_off_length [simp]: "item_off xs (length xs) = length (enc_items xs)"
  by (simp add: item_off_def)

lemma item_off_Suc: "i < length xs \<Longrightarrow> item_off xs (Suc i) = item_off xs i + length (enc_item (xs ! i))"
  by (simp add: item_off_def take_Suc_conv_app_nth)

lemma item_off_mono: "i \<le> j \<Longrightarrow> item_off xs i \<le> item_off xs j"
proof (induction "j - i" arbitrary: j)
  case 0
  then show ?case by simp
next
  case (Suc d)
  then obtain j' where j: "j = Suc j'" "i \<le> j'" by (cases j) auto
  then have "item_off xs i \<le> item_off xs j'" using Suc by simp
  also have "\<dots> \<le> item_off xs j"
    by (cases "j' < length xs") (simp_all add: j item_off_Suc, simp add: item_off_def)
  finally show ?case .
qed

lemma item_off_le: "item_off xs i \<le> length (enc_items xs)"
proof -
  have "enc_items xs = enc_items (take i xs) @ enc_items (drop i xs)"
    by (simp flip: enc_items_simps(3))
  then show ?thesis by (simp add: item_off_def)
qed

lemma item_off_strict: "i < j \<Longrightarrow> j \<le> length xs \<Longrightarrow> item_off xs i < item_off xs j"
  using item_off_mono [of "Suc i" j xs] item_off_Suc [of i xs]
  by (simp add: length_enc_item)

lemma bslice_sub: "a \<le> b \<Longrightarrow> b \<le> n \<Longrightarrow> bslice (p + a) (p + b) d = bslice a b (bslice p (p + n) d)"
  by (simp add: bslice_def drop_take min_def add.commute)

lemma enc_item_at:
  assumes "i < length xs"
  shows "bslice (item_off xs i) (item_off xs (Suc i)) (enc_items xs) = enc_item (xs ! i)"
proof -
  have "enc_items xs = enc_items (take i xs) @ enc_item (xs ! i) @ enc_items (drop (Suc i) xs)"
    using assms by (metis enc_items_simps(2,3) id_take_nth_drop)
  then show ?thesis
    using assms by (simp add: item_off_Suc) (simp add: item_off_def bslice_def)
qed

text \<open>The header fields and the payload of an encoded entry that stands at offset \<open>p\<close>.\<close>

lemma enc_item_fields:
  assumes at: "bslice p (p + length (enc_item x)) d = enc_item x"
    and small: "length (enc_item x) < 2 ^ 32" and sh: "fst x < 2 ^ 32"
    and pl: "p + length (enc_item x) \<le> length d"
  defines "k \<equiv> length (Key (snd x)) - fst x" and "v \<equiv> length (Value (snd x))"
  shows "unat (Uint32 (bslice p (p + 4) d)) = fst x"
    "unat (Uint32 (bslice (p + 4) (p + 8) d)) = k"
    "unat (Uint32 (bslice (p + 8) (p + 12) d)) = v"
    "Uint64 (bslice (p + 12) (p + 20) d) = Seq (snd x)"
    "(d ! (p + 20) AND 1 = 1) = Tombstone (snd x)"
    "bslice (p + 21) (p + 21 + k) d = drop (fst x) (Key (snd x))"
    "bslice (p + 21 + k) (p + 21 + k + v) d = Value (snd x)"
proof -
  let ?n = "length (enc_item x)"
  have n: "?n = 21 + k + v" by (simp add: length_enc_item k_def v_def)
  have sub: "bslice (p + a) (p + b) d = bslice a b (enc_item x)" if "a \<le> b" "b \<le> ?n" for a b
    using bslice_sub [OF that, of p d] at by simp
  have e: "enc_item x = PutUint32 (word_of_nat (fst x)) @ PutUint32 (word_of_nat k)
      @ PutUint32 (word_of_nat v) @ PutUint64 (Seq (snd x))
      @ [if Tombstone (snd x) then 1 else 0] @ drop (fst x) (Key (snd x)) @ Value (snd x)"
    by (simp add: enc_item_def appendEntry_def Let_def k_def v_def)
  have kv: "k < 2 ^ 32" "v < 2 ^ 32" using small n by simp_all
  have lk: "length (drop (fst x) (Key (snd x))) = k" by (simp add: k_def)
  have h: "bslice 0 4 (enc_item x) = PutUint32 (word_of_nat (fst x))"
    "bslice 4 8 (enc_item x) = PutUint32 (word_of_nat k)"
    "bslice 8 12 (enc_item x) = PutUint32 (word_of_nat v)"
    "bslice 12 20 (enc_item x) = PutUint64 (Seq (snd x))"
    by (simp_all add: e bslice_def)
  show "unat (Uint32 (bslice p (p + 4) d)) = fst x"
    using sub [of 0 4] h(1) sh n by (simp add: unat_word_of_nat_u32)
  show "unat (Uint32 (bslice (p + 4) (p + 8) d)) = k"
    using sub [of 4 8] h(2) kv n by (simp add: unat_word_of_nat_u32)
  show "unat (Uint32 (bslice (p + 8) (p + 12) d)) = v"
    using sub [of 8 12] h(3) kv n by (simp add: unat_word_of_nat_u32)
  show "Uint64 (bslice (p + 12) (p + 20) d) = Seq (snd x)"
    using sub [of 12 20] h(4) n by simp
  have "bslice (p + 20) (p + 21) d = [if Tombstone (snd x) then 1 else 0]"
    using sub [of 20 21] n by (simp add: e bslice_def)
  moreover have "bslice (p + 20) (p + 21) d = [d ! (p + 20)]"
    using pl n by (simp add: bslice_def take_Suc_conv_app_nth hd_drop_conv_nth)
  ultimately show "(d ! (p + 20) AND 1 = 1) = Tombstone (snd x)" by (simp split: if_splits)
  show "bslice (p + 21) (p + 21 + k) d = drop (fst x) (Key (snd x))"
    using sub [of 21 "21 + k"] n lk by (simp add: e bslice_def add.assoc)
  show "bslice (p + 21 + k) (p + 21 + k + v) d = Value (snd x)"
    using sub [of "21 + k" "21 + k + v"] n lk by (simp add: e bslice_def v_def add.assoc)
qed

section \<open>Cursors over a built block\<close>

text \<open>A block as the decoder makes it from \<open>xs\<close> with restart points at the indices \<open>rs\<close>.\<close>

definition items_small :: "item list \<Rightarrow> bool" where
  "items_small xs \<longleftrightarrow> length (enc_items xs) < 2 ^ 32 \<and> chain_ok [] xs \<and>
     (\<forall>x \<in> set xs. length (Key (snd x)) < 2 ^ 32)"

definition restarts_ok :: "item list \<Rightarrow> nat list \<Rightarrow> bool" where
  "restarts_ok xs rs \<longleftrightarrow> sorted_wrt (<) rs \<and> (\<forall>i \<in> set rs. i < length xs \<and> fst (xs ! i) = 0) \<and>
     (xs \<noteq> [] \<longrightarrow> rs \<noteq> [] \<and> hd rs = 0)"

definition block_of :: "item list \<Rightarrow> nat list \<Rightarrow> Block" where
  "block_of xs rs = \<lparr>bk_data = enc_items xs, bk_restarts = map (\<lambda>i. word_of_nat (item_off xs i)) rs,
     bk_restartKeys = map (\<lambda>i. Key (snd (xs ! i))) rs\<rparr>"

text \<open>The cursor stands before entry \<open>i\<close> and may read up to entry \<open>j\<close>.\<close>

definition cursor_at :: "item list \<Rightarrow> nat \<Rightarrow> nat \<Rightarrow> Cursor \<Rightarrow> bool" where
  "cursor_at xs i j c \<longleftrightarrow> i \<le> j \<and> j \<le> length xs \<and> cu_offset c = item_off xs i \<and>
     cu_limit c = item_off xs j \<and> chain_ok (cu_lastKey c) (drop i xs)"

lemma enc_item_small:
  assumes "items_small xs" "i < length xs"
  shows "length (enc_item (xs ! i)) < 2 ^ 32" "fst (xs ! i) < 2 ^ 32"
    "item_off xs (Suc i) \<le> length (enc_items xs)"
proof -
  show le: "item_off xs (Suc i) \<le> length (enc_items xs)" by (rule item_off_le)
  with assms show "length (enc_item (xs ! i)) < 2 ^ 32"
    using item_off_Suc [of i xs] by (simp add: items_small_def)
  have "chain_ok [] (take i xs @ xs ! i # drop (Suc i) xs)"
    using assms by (simp add: items_small_def flip: id_take_nth_drop)
  then have "fst (xs ! i) \<le> length (Key (snd (xs ! i)))" by (simp add: chain_ok_append)
  moreover have "length (Key (snd (xs ! i))) < 2 ^ 32"
    using assms by (simp add: items_small_def)
  ultimately show "fst (xs ! i) < 2 ^ 32" by simp
qed

lemma Cursor_Next_item:
  assumes small: "items_small xs" and at: "cursor_at xs i j c" and ij: "i < j"
  shows "Cursor_Next (enc_items xs) c =
           Inr (Some (snd (xs ! i), c\<lparr>cu_offset := item_off xs (Suc i), cu_lastKey := Key (snd (xs ! i))\<rparr>))"
    and "cursor_at xs (Suc i) j (c\<lparr>cu_offset := item_off xs (Suc i), cu_lastKey := Key (snd (xs ! i))\<rparr>)"
proof -
  let ?x = "xs ! i" and ?d = "enc_items xs" and ?p = "item_off xs i"
  define k where "k = length (Key (snd ?x)) - fst ?x"
  define v where "v = length (Value (snd ?x))"
  have i: "i < length xs" using at ij by (simp add: cursor_at_def)
  have n: "length (enc_item ?x) = 21 + k + v" by (simp add: length_enc_item k_def v_def)
  have suc: "item_off xs (Suc i) = ?p + 21 + k + v" using item_off_Suc [OF i] n by simp
  have lim: "?p + 21 + k + v \<le> cu_limit c"
    using at ij item_off_mono [of "Suc i" j xs] suc by (simp add: cursor_at_def)
  have chain: "chain_ok (cu_lastKey c) (?x # drop (Suc i) xs)"
    using at i by (simp add: cursor_at_def Cons_nth_drop_Suc)
  have "bslice ?p (?p + length (enc_item ?x)) ?d = enc_item ?x"
    using enc_item_at [OF i] suc n by (simp add: add.assoc)
  note f = enc_item_fields [OF this enc_item_small(1,2) [OF small i], folded k_def v_def]
  have pl: "?p + length (enc_item ?x) \<le> length ?d"
    using enc_item_small(3) [OF small i] suc n by simp
  have key: "take (fst ?x) (cu_lastKey c) @ drop (fst ?x) (Key (snd ?x)) = Key (snd ?x)"
    using chain by simp
  have nn: "\<not> cu_limit c \<le> ?p" "\<not> cu_limit c - ?p < 21" "\<not> cu_limit c < ?p + 21 + k + v"
    "\<not> length (cu_lastKey c) < fst ?x"
    using lim chain by auto
  have hs: "entryHeaderSize = 21" by (simp add: entryHeaderSize_def)
  have off: "cu_offset c = ?p" using at by (simp add: cursor_at_def)
  show "Cursor_Next ?d c = Inr (Some (snd ?x,
      c\<lparr>cu_offset := item_off xs (Suc i), cu_lastKey := Key (snd ?x)\<rparr>))"
    unfolding Cursor_Next_def hs off Let_def f [OF pl] key
    using nn by (simp add: suc)
  show "cursor_at xs (Suc i) j (c\<lparr>cu_offset := item_off xs (Suc i), cu_lastKey := Key (snd ?x)\<rparr>)"
    using at ij chain by (simp add: cursor_at_def)
qed

lemma Cursor_Next_end: "cursor_at xs i i c \<Longrightarrow> Cursor_Next d c = Inr None"
  by (simp add: cursor_at_def Cursor_Next_def)

definition items_between :: "item list \<Rightarrow> nat \<Rightarrow> nat \<Rightarrow> entry list" where
  "items_between xs i j = map snd (drop i (take j xs))"

lemma items_between_Cons:
  "i < j \<Longrightarrow> j \<le> length xs \<Longrightarrow> items_between xs i j = snd (xs ! i) # items_between xs (Suc i) j"
proof -
  assume "i < j" "j \<le> length xs"
  then have "drop i (take j xs) = xs ! i # drop (Suc i) (take j xs)"
    using Cons_nth_drop_Suc [of i "take j xs"] by simp
  then show ?thesis by (simp add: items_between_def)
qed

lemma items_between_Nil [simp]: "items_between xs i i = []"
  by (simp add: items_between_def)

lemma cursor_all_items:
  assumes "items_small xs" "cursor_at xs i j c"
  shows "cursor_all (enc_items xs) c = Inr (items_between xs i j)"
  using assms(2)
proof (induction "j - i" arbitrary: i c)
  case 0
  then have "i = j" by (simp add: cursor_at_def)
  with 0 show ?case by (subst cursor_all.simps) (simp add: Cursor_Next_end)
next
  case (Suc n)
  then have ij: "i < j" "j \<le> length xs" by (simp_all add: cursor_at_def)
  note next_ = Cursor_Next_item [OF assms(1) Suc.prems ij(1)]
  show ?case
    using Suc.hyps(1) [OF _ next_(2)] Suc.hyps(2) ij
    by (subst cursor_all.simps) (simp add: next_(1) items_between_Cons)
qed

lemma find_loop_items:
  assumes "items_small xs" "cursor_at xs i j c"
  shows "find_loop (enc_items xs) key c =
           (case List.find (\<lambda>e. key \<le> Key e) (items_between xs i j) of
              None \<Rightarrow> Inr None
            | Some e \<Rightarrow> if Key e = key then Inr (Some e) else Inr None)"
  using assms(2)
proof (induction "j - i" arbitrary: i c)
  case 0
  then have "i = j" by (simp add: cursor_at_def)
  with 0 show ?case by (subst find_loop.simps) (simp add: Cursor_Next_end)
next
  case (Suc n)
  then have ij: "i < j" "j \<le> length xs" by (simp_all add: cursor_at_def)
  note next_ = Cursor_Next_item [OF assms(1) Suc.prems ij(1)]
  have step: "find_loop (enc_items xs) key c =
      (if Key (snd (xs ! i)) = key then Inr (Some (snd (xs ! i)))
       else if key < Key (snd (xs ! i)) then Inr None
       else find_loop (enc_items xs) key
         (c\<lparr>cu_offset := item_off xs (Suc i), cu_lastKey := Key (snd (xs ! i))\<rparr>))"
    by (subst find_loop.simps) (simp add: next_(1))
  have rec: "find_loop (enc_items xs) key
         (c\<lparr>cu_offset := item_off xs (Suc i), cu_lastKey := Key (snd (xs ! i))\<rparr>) =
      (case List.find (\<lambda>e. key \<le> Key e) (items_between xs (Suc i) j) of
         None \<Rightarrow> Inr None | Some e \<Rightarrow> if Key e = key then Inr (Some e) else Inr None)"
    using Suc.hyps(1) [OF _ next_(2)] Suc.hyps(2) by simp
  show ?case
    unfolding step items_between_Cons [OF ij] rec by (auto simp: le_less)
qed

text \<open>Seek stops at the first entry not below the key and leaves the cursor after it.\<close>

lemma seek_loop_items:
  assumes "items_small xs" "cursor_at xs i j c"
  shows "case dropWhile (\<lambda>e. Key e < key) (items_between xs i j) of
           [] \<Rightarrow> seek_loop (enc_items xs) key c = Inr None
         | e # es \<Rightarrow> \<exists>c' i'. seek_loop (enc_items xs) key c = Inr (Some (c', e)) \<and>
                      cursor_at xs i' j c' \<and> items_between xs i' j = es"
  using assms(2)
proof (induction "j - i" arbitrary: i c)
  case 0
  then have "i = j" by (simp add: cursor_at_def)
  with 0 show ?case by (subst seek_loop.simps) (simp add: Cursor_Next_end)
next
  case (Suc n)
  then have ij: "i < j" "j \<le> length xs" by (simp_all add: cursor_at_def)
  note next_ = Cursor_Next_item [OF assms(1) Suc.prems ij(1)]
  show ?case
  proof (cases "Key (snd (xs ! i)) < key")
    case True
    then have eq: "seek_loop (enc_items xs) key c = seek_loop (enc_items xs) key
        (c\<lparr>cu_offset := item_off xs (Suc i), cu_lastKey := Key (snd (xs ! i))\<rparr>)"
      by (subst seek_loop.simps) (simp add: next_(1) flip: not_le)
    have n: "n = j - Suc i" using Suc.hyps(2) by simp
    show ?thesis
      unfolding eq items_between_Cons [OF ij] using Suc.hyps(1) [OF n next_(2)] True by simp
  next
    case False
    then have "seek_loop (enc_items xs) key c = Inr (Some
        (c\<lparr>cu_offset := item_off xs (Suc i), cu_lastKey := Key (snd (xs ! i))\<rparr>, snd (xs ! i)))"
      by (subst seek_loop.simps) (simp add: next_(1) not_less)
    then show ?thesis using False ij next_(2) by (auto simp: items_between_Cons)
  qed
qed

section \<open>Lookup and seek on a built block\<close>

lemma chain_ok_drop:
  assumes "chain_ok prev xs" "i < length xs" "fst (xs ! i) = 0"
  shows "chain_ok [] (drop i xs)"
proof -
  have "chain_ok (last_key prev (take i xs)) (drop i xs)"
    using assms(1) chain_ok_append [of prev "take i xs" "drop i xs"] by simp
  then show ?thesis
    using assms(2,3) by (simp flip: Cons_nth_drop_Suc)
qed

lemma unat_item_off:
  "items_small xs \<Longrightarrow> unat (word_of_nat (item_off xs i) :: u32) = item_off xs i"
  using item_off_le [of xs i] by (intro unat_word_of_nat_u32) (simp add: items_small_def)

text \<open>The cursor over the restart interval that starts at entry \<open>i\<close> and ends before \<open>j\<close>.\<close>

lemma NewCursor_at:
  assumes small: "items_small xs" and i: "i < j" "j \<le> length xs" "fst (xs ! i) = 0"
  shows "cursor_at xs i j (NewCursor (block_of xs rs) (item_off xs i) (item_off xs j))"
proof -
  have "item_off xs i < item_off xs j" using i by (intro item_off_strict)
  moreover have "item_off xs j \<le> length (enc_items xs)" by (rule item_off_le)
  moreover have "chain_ok [] (drop i xs)"
    using small i by (intro chain_ok_drop [of "[]"]) (simp_all add: items_small_def)
  ultimately show ?thesis
    using i by (auto simp: NewCursor_def Let_def cursor_at_def block_of_def)
qed

lemma restart_interval:
  fixes key :: bytes
  assumes ok: "restarts_ok xs rs" and ne: "xs \<noteq> []"
    and sorted: "entry_keys_sorted (map snd xs)"
  defines "idx \<equiv> restart_index (block_of xs rs) key"
  shows "idx < length rs"
    and "i < rs ! idx \<Longrightarrow> Key (snd (xs ! i)) < key"
    and "idx + 1 < length rs \<Longrightarrow> rs ! (idx + 1) \<le> i \<Longrightarrow> i < length xs \<Longrightarrow> key < Key (snd (xs ! i))"
proof -
  let ?rk = "\<lambda>i. Key (snd (xs ! (rs ! i)))" and ?r = "sort_Search (length rs) (\<lambda>i. key < Key (snd (xs ! (rs ! i))))"
  have rs: "rs \<noteq> []" "rs ! 0 = 0" using ok ne by (auto simp: restarts_ok_def hd_conv_nth)
  have mem: "rs ! a < length xs" if "a < length rs" for a
    using ok that by (simp add: restarts_ok_def)
  have inc: "rs ! a < rs ! b" if "a < b" "b < length rs" for a b
    using ok that by (simp add: restarts_ok_def sorted_wrt_iff_nth_less)
  have keys: "Key (snd (xs ! a)) < Key (snd (xs ! b))" if "a < b" "b < length xs" for a b
    using sorted that by (simp add: entry_keys_sorted_def sorted_wrt_iff_nth_less)
  have cong: "sort_Search (length rs) (\<lambda>i. key < map (\<lambda>i. Key (snd (xs ! i))) rs ! i) = ?r"
    by (rule sort_Search_cong) simp
  have idx: "idx = ?r - 1" by (simp add: idx_def restart_index_def block_of_def cong)
  have mono: "key < ?rk b" if "a \<le> b" "b < length rs" "key < ?rk a" for a b
    using that keys [of "rs ! a" "rs ! b"] inc [of a b] mem [of b]
    by (cases "a = b") (auto intro: less_trans)
  note least = sort_Search_least [of "length rs" "\<lambda>i. key < ?rk i", OF mono]
  have r: "?r \<le> length rs" by (rule sort_Search_le)
  show lt: "idx < length rs" using r rs(1) length_greater_0_conv [of rs] unfolding idx by linarith
  show "Key (snd (xs ! i)) < key" if i: "i < rs ! idx"
  proof -
    have "idx \<noteq> 0" using i rs(2) by (cases "idx = 0") auto
    then have "\<not> key < ?rk idx" using least(1) [where k = idx] idx by simp
    moreover have "Key (snd (xs ! i)) < ?rk idx" using i keys mem [OF lt] by simp
    ultimately show ?thesis by simp
  qed
  show "key < Key (snd (xs ! i))"
    if i: "idx + 1 < length rs" "rs ! (idx + 1) \<le> i" "i < length xs"
  proof -
    have "key < ?rk (idx + 1)"
    proof (cases "?r = 0")
      case True
      then have "key < ?rk 0" using least(2) rs by simp
      then show ?thesis using mono [of 0 "idx + 1"] i(1) by simp
    next
      case False
      then show ?thesis using least(2) i(1) idx by simp
    qed
    also have "\<dots> \<le> Key (snd (xs ! i))"
      using keys [of "rs ! (idx + 1)" i] i(2,3) by (cases "rs ! (idx + 1) = i") auto
    finally show ?thesis .
  qed
qed

lemma items_between_split:
  assumes "i \<le> j" "j \<le> length xs"
  shows "map snd xs = items_between xs 0 i @ items_between xs i j @ items_between xs j (length xs)"
proof -
  have "xs = take j xs @ drop j xs" by simp
  also have "take j xs = take i xs @ drop i (take j xs)"
    using append_take_drop_id [of i "take j xs"] assms(1) by (simp add: min_def)
  finally have "map snd xs = map snd (take i xs @ drop i (take j xs) @ drop j xs)" by simp
  then show ?thesis by (simp add: items_between_def)
qed

lemma in_items_between:
  assumes "e \<in> set (items_between xs i j)" "j \<le> length xs"
  obtains a where "i \<le> a" "a < j" "e = snd (xs ! a)"
proof -
  from assms obtain b where "b < length (drop i (take j xs))" "e = snd (drop i (take j xs) ! b)"
    unfolding items_between_def set_map by (metis (no_types) imageE in_set_conv_nth)
  then show thesis using assms(2) that [of "i + b"] by (simp add: min_def split: if_splits)
qed

lemma FindView_block_of:
  assumes small: "items_small xs" and ok: "restarts_ok xs rs"
    and sorted: "entry_keys_sorted (map snd xs)"
  shows "FindView (block_of xs rs) key = Inr (lookup key (map snd xs))"
proof (cases "xs = []")
  case True
  with ok have "rs = []" by (cases rs) (auto simp: restarts_ok_def)
  with True show ?thesis by (simp add: FindView_def block_of_def)
next
  case False
  define idx where "idx = restart_index (block_of xs rs) key"
  define i where "i = rs ! idx"
  define j where "j = (if idx + 1 < length rs then rs ! (idx + 1) else length xs)"
  note iv = restart_interval [OF ok False sorted, where key = key, folded idx_def]
  have rs: "rs \<noteq> []" using ok False by (simp add: restarts_ok_def)
  have i: "i < length xs" "fst (xs ! i) = 0"
    using ok iv(1) by (simp_all add: restarts_ok_def i_def)
  have ij: "i < j" "j \<le> length xs"
    using ok iv(1) i(1) by (auto simp: j_def i_def restarts_ok_def sorted_wrt_iff_nth_less less_imp_le)
  have lim: "(if idx + 1 < length (bk_restarts (block_of xs rs))
        then unat (bk_restarts (block_of xs rs) ! (idx + 1)) else length (bk_data (block_of xs rs)))
      = item_off xs j"
    using unat_item_off [OF small] by (simp add: block_of_def j_def)
  have off: "unat (bk_restarts (block_of xs rs) ! idx) = item_off xs i"
    using unat_item_off [OF small] iv(1) by (simp add: block_of_def i_def)
  have "FindView (block_of xs rs) key =
      find_loop (enc_items xs) key (NewCursor (block_of xs rs) (item_off xs i) (item_off xs j))"
    using rs unfolding FindView_def Let_def idx_def [symmetric] lim off
    by (simp add: block_of_def)
  also have "\<dots> = Inr (lookup key (items_between xs i j))"
    using find_loop_items [OF small NewCursor_at [OF small ij i(2)]]
      find_ge_lookup [of "items_between xs i j" key] sorted
      items_between_split [OF less_imp_le [OF ij(1)] ij(2)]
    by (simp add: entry_keys_sorted_append)
  also have "lookup key (items_between xs i j) = lookup key (map snd xs)"
  proof -
    have "lookup key (items_between xs 0 i) = None"
      using iv(2) i(1) unfolding lookup_None_iff i_def
      by (metis in_items_between less_irrefl less_imp_le)
    moreover have "lookup key (items_between xs j (length xs)) = None"
      unfolding lookup_None_iff
    proof
      fix e assume "e \<in> set (items_between xs j (length xs))"
      then obtain a where "j \<le> a" "a < length xs" "e = snd (xs ! a)"
        using order_refl by (rule in_items_between)
      then show "Key e \<noteq> key" using iv(3) [of a] by (auto simp: j_def split: if_splits)
    qed
    ultimately show ?thesis
      using items_between_split [OF less_imp_le [OF ij(1)] ij(2)]
      by (simp add: lookup_append split: option.split)
  qed
  finally show ?thesis .
qed

lemma dropWhile_append_all:
  "(\<And>x. x \<in> set xs \<Longrightarrow> P x) \<Longrightarrow> dropWhile P (xs @ ys) = dropWhile P ys"
  by (induction xs) auto

text \<open>
  Seek answers the first entry whose key is not below the given one, and reading on from its
  cursor gives the rest of the block.
\<close>

lemma Block_Seek_block_of:
  assumes small: "items_small xs" and ok: "restarts_ok xs rs"
    and sorted: "entry_keys_sorted (map snd xs)"
  shows "case dropWhile (\<lambda>e. Key e < key) (map snd xs) of
           [] \<Rightarrow> Block_Seek (block_of xs rs) key = Inr None
         | e # es \<Rightarrow> \<exists>c. Block_Seek (block_of xs rs) key = Inr (Some (c, e)) \<and>
                      cursor_all (enc_items xs) c = Inr es"
proof (cases "xs = []")
  case True
  with ok have "rs = []" by (cases rs) (auto simp: restarts_ok_def)
  with True show ?thesis by (simp add: Block_Seek_def block_of_def)
next
  case False
  define idx where "idx = restart_index (block_of xs rs) key"
  define i where "i = rs ! idx"
  let ?n = "length xs"
  note iv = restart_interval [OF ok False sorted, where key = key, folded idx_def]
  have rs: "rs \<noteq> []" using ok False by (simp add: restarts_ok_def)
  have i: "i < ?n" "fst (xs ! i) = 0"
    using ok iv(1) by (simp_all add: restarts_ok_def i_def)
  have off: "unat (bk_restarts (block_of xs rs) ! idx) = item_off xs i"
    using unat_item_off [OF small] iv(1) by (simp add: block_of_def i_def)
  have seek: "Block_Seek (block_of xs rs) key =
      seek_loop (enc_items xs) key (NewCursor (block_of xs rs) (item_off xs i) (item_off xs ?n))"
    using rs unfolding Block_Seek_def Let_def idx_def [symmetric] off
    by (simp add: block_of_def)
  have "map snd xs = items_between xs 0 i @ items_between xs i ?n"
    using items_between_split [of i ?n xs] i(1) by simp
  moreover have "Key e < key" if "e \<in> set (items_between xs 0 i)" for e
    using that iv(2) i(1) unfolding i_def by (metis in_items_between less_imp_le)
  ultimately have dw: "dropWhile (\<lambda>e. Key e < key) (map snd xs) =
      dropWhile (\<lambda>e. Key e < key) (items_between xs i ?n)"
    by (simp add: dropWhile_append_all)
  note sl = seek_loop_items [OF small NewCursor_at [OF small i(1) order_refl i(2)], of key rs]
  show ?thesis
  proof (cases "dropWhile (\<lambda>e. Key e < key) (items_between xs i ?n)")
    case Nil
    with sl show ?thesis unfolding dw seek Nil by simp
  next
    case (Cons e es)
    from sl [unfolded Cons] obtain c' i' where
      c: "Block_Seek (block_of xs rs) key = Inr (Some (c', e))" "cursor_at xs i' ?n c'"
        "items_between xs i' ?n = es"
      unfolding seek by auto
    have "cursor_all (enc_items xs) c' = Inr es"
      using cursor_all_items [OF small c(2)] c(3) by simp
    with c(1) show ?thesis unfolding dw Cons by simp
  qed
qed

section \<open>The builder and the decoder\<close>

definition builder_inv :: "Builder \<Rightarrow> item list \<Rightarrow> nat list \<Rightarrow> bool" where
  "builder_inv b xs rs \<longleftrightarrow>
     bd_buf b = enc_items xs \<and> chain_ok [] xs \<and> bd_lastKey b = last_key [] xs \<and>
     bd_entryCount b = length xs \<and> restarts_ok xs rs \<and>
     bd_restartOffsets b = map (\<lambda>i. word_of_nat (item_off xs i)) rs"

lemma commonPrefixLen_le: "commonPrefixLen a b \<le> length a" "commonPrefixLen a b \<le> length b"
  by (induction a b rule: commonPrefixLen.induct) auto

lemma commonPrefixLen_take: "take (commonPrefixLen a b) a = take (commonPrefixLen a b) b"
  by (induction a b rule: commonPrefixLen.induct) auto

lemma item_off_append: "i \<le> length xs \<Longrightarrow> item_off (xs @ ys) i = item_off xs i"
  by (simp add: item_off_def)

lemma builder_inv_NewBuilder [inv_intros]: "builder_inv (NewBuilder r a mn mx) [] []"
  by (simp add: builder_inv_def NewBuilder_def Let_def restarts_ok_def)

lemma builder_inv_Reset [inv_intros]: "builder_inv (Builder_Reset b) [] []"
  by (simp add: builder_inv_def Builder_Reset_def restarts_ok_def)

text \<open>What the sizing step decides: the shared prefix and whether the entry is a restart point.\<close>

lemma nextEntrySizing_inv:
  assumes "builder_inv b xs rs" "nextEntrySizing b e = (b', sh, un, restart)"
  shows "builder_inv b' xs rs" "un = length (Key e) - sh" "sh \<le> length (Key e)"
    "sh \<le> length (bd_lastKey b)" "take sh (bd_lastKey b) = take sh (Key e)"
    "restart \<Longrightarrow> sh = 0" "xs = [] \<Longrightarrow> restart"
  using assms commonPrefixLen_le [of "bd_lastKey b" "Key e"] commonPrefixLen_take [of "bd_lastKey b" "Key e"]
  by (auto simp: nextEntrySizing_def Let_def builder_inv_def split: if_splits)

lemma builder_inv_extend:
  assumes inv: "builder_inv b xs rs" and sh: "sh \<le> length (Key e)" "sh \<le> length (bd_lastKey b)"
    "take sh (bd_lastKey b) = take sh (Key e)"
    and r: "restart \<Longrightarrow> sh = 0" "xs = [] \<Longrightarrow> restart"
    and b': "bd_buf b' = appendEntry (bd_buf b) sh (length (Key e) - sh) e" "bd_lastKey b' = Key e"
      "bd_entryCount b' = Suc (bd_entryCount b)"
      "bd_restartOffsets b' = (if restart then bd_restartOffsets b @ [word_of_nat (length (bd_buf b))]
                               else bd_restartOffsets b)"
  shows "builder_inv b' (xs @ [(sh, e)]) (if restart then rs @ [length xs] else rs)"
proof -
  have ok: "restarts_ok xs rs" using inv by (simp add: builder_inv_def)
  have "restarts_ok (xs @ [(sh, e)]) (if restart then rs @ [length xs] else rs)"
    using ok r unfolding restarts_ok_def
    by (auto simp: sorted_wrt_append nth_append hd_append less_Suc_eq split: if_splits)
  moreover have "map (\<lambda>i. word_of_nat (item_off (xs @ [(sh, e)]) i) :: u32) rs =
      map (\<lambda>i. word_of_nat (item_off xs i)) rs"
    using ok by (intro map_cong refl) (simp add: restarts_ok_def item_off_append less_imp_le)
  moreover have "item_off (xs @ [(sh, e)]) (length xs) = length (bd_buf b)"
    using inv by (simp add: item_off_append builder_inv_def)
  ultimately show ?thesis
    using inv sh b' by (simp add: builder_inv_def appendEntry_enc_item chain_ok_append)
qed

lemma adaptRestartInterval_sel [simp]:
  "bd_buf (adaptRestartInterval scale b) = bd_buf b"
  "bd_lastKey (adaptRestartInterval scale b) = bd_lastKey b"
  "bd_entryCount (adaptRestartInterval scale b) = bd_entryCount b"
  "bd_restartOffsets (adaptRestartInterval scale b) = bd_restartOffsets b"
  "bd_first (adaptRestartInterval scale b) = bd_first b"
  by (simp_all add: adaptRestartInterval_def Let_def)

lemma Builder_Add_inv:
  assumes inv: "builder_inv b xs rs"
  shows "\<exists>sh rs'. builder_inv (Builder_Add scale b e) (xs @ [(sh, e)]) rs'"
proof -
  obtain b1 sh un restart where nx: "nextEntrySizing b e = (b1, sh, un, restart)"
    by (cases "nextEntrySizing b e") auto
  note z = nextEntrySizing_inv [OF inv nx]
  have last: "bd_lastKey b1 = bd_lastKey b" using inv z(1) by (simp add: builder_inv_def)
  have "builder_inv (Builder_Add scale b e) (xs @ [(sh, e)]) (if restart then rs @ [length xs] else rs)"
    by (rule builder_inv_extend [OF z(1,3)])
       (use z last in \<open>auto simp: Builder_Add_def nx Let_def\<close>)
  then show ?thesis by blast
qed

lemma Builder_Add_all_inv:
  "builder_inv b xs rs \<Longrightarrow>
     \<exists>ys rs'. builder_inv (fold (\<lambda>e b. Builder_Add scale b e) es b) (xs @ ys) rs' \<and> map snd ys = es"
proof (induction es arbitrary: b xs rs)
  case Nil
  then show ?case by (auto intro: exI [of _ "[]"])
next
  case (Cons e es)
  from Builder_Add_inv [OF Cons.prems] obtain sh rs1 where
    "builder_inv (Builder_Add scale b e) (xs @ [(sh, e)]) rs1" by blast
  from Cons.IH [OF this] obtain ys rs2 where
    "builder_inv (fold (\<lambda>e b. Builder_Add scale b e) es (Builder_Add scale b e))
       ((xs @ [(sh, e)]) @ ys) rs2" "map snd ys = es" by blast
  then show ?case by (intro exI [of _ "(sh, e) # ys"]) auto
qed

lemma length_Builder_Add:
  "length (bd_buf (Builder_Add scale b e)) \<le> length (bd_buf b) + 21 + length (Key e) + length (Value e)"
proof -
  obtain b1 sh un restart where nx: "nextEntrySizing b e = (b1, sh, un, restart)"
    by (cases "nextEntrySizing b e") auto
  have "bd_buf b1 = bd_buf b" using nx by (auto simp: nextEntrySizing_def Let_def split: if_splits)
  then show ?thesis
    by (simp add: Builder_Add_def nx Let_def appendEntry_def)
qed

lemma length_Builder_Add_all:
  "length (bd_buf (fold (\<lambda>e b. Builder_Add scale b e) es b)) \<le>
     length (bd_buf b) + sum_list (map (\<lambda>e. 21 + length (Key e) + length (Value e)) es)"
proof (induction es arbitrary: b)
  case (Cons e es)
  show ?case
    using Cons.IH [of "Builder_Add scale b e"] length_Builder_Add [of scale b e] by simp
qed simp

lemma chain_key_length:
  "chain_ok prev xs \<Longrightarrow> x \<in> set xs \<Longrightarrow>
     length (Key (snd x)) \<le> length prev + length (enc_items xs)"
proof (induction prev xs rule: chain_ok.induct)
  case (2 prev y xs)
  have y: "length (Key (snd y)) \<le> length prev + length (enc_item y)"
    using "2.prems"(1) unfolding length_enc_item by (simp del: diff_is_0_eq) linarith
  show ?case
  proof (cases "x = y")
    case True
    with y show ?thesis by simp
  next
    case False
    with 2 y show ?thesis by fastforce
  qed
qed simp

lemma items_small_iff:
  "items_small xs \<longleftrightarrow> length (enc_items xs) < 2 ^ 32 \<and> chain_ok [] xs"
  using chain_key_length [of "[]" xs] unfolding items_small_def by fastforce

lemma length_le_enc_items: "length xs \<le> length (enc_items xs)"
  by (induction xs) (simp_all add: length_enc_item)

lemma length_concat_PutUint32: "length (concat (map PutUint32 ws)) = 4 * length ws"
  by (induction ws) simp_all

lemma bslice_concat_PutUint32:
  "i < length ws \<Longrightarrow> bslice (i * 4) (i * 4 + 4) (concat (map PutUint32 ws) @ r) = PutUint32 (ws ! i)"
proof (induction ws arbitrary: i)
  case (Cons w ws)
  show ?case
  proof (cases i)
    case 0
    then show ?thesis by (simp add: bslice_def)
  next
    case (Suc j)
    have "bslice (Suc j * 4) (Suc j * 4 + 4) (PutUint32 w @ concat (map PutUint32 ws) @ r) =
        bslice (j * 4) (j * 4 + 4) (concat (map PutUint32 ws) @ r)"
      by (subst bslice_append2) (simp_all add: add.commute)
    with Cons Suc show ?thesis by simp
  qed
qed simp

lemma decode_restarts_ok:
  assumes "\<And>i. i \<in> set is \<Longrightarrow> Uint32 (bslice (s + i * 4) (s + i * 4 + 4) p) = f i"
    and "\<And>i. i \<in> set is \<Longrightarrow> f i < dl"
  shows "decode_restarts p s dl is = Inr (map f is)"
  using assms
proof (induction "is")
  case (Cons i "is")
  then have "decode_restarts p s dl is = Inr (map f is)" by simp
  with Cons.prems [of i] show ?case by (simp add: blockOffsetSize_def Let_def leD)
qed simp

lemma restart_key_item:
  assumes small: "items_small xs" and i: "i < length xs" "fst (xs ! i) = 0"
  shows "restart_key (enc_items xs) (word_of_nat (item_off xs i)) = Inr (Key (snd (xs ! i)))"
proof -
  let ?x = "xs ! i" and ?d = "enc_items xs" and ?p = "item_off xs i"
  define k where "k = length (Key (snd ?x)) - fst ?x"
  define v where "v = length (Value (snd ?x))"
  have n: "length (enc_item ?x) = 21 + k + v" by (simp add: length_enc_item k_def v_def)
  have suc: "item_off xs (Suc i) = ?p + 21 + k + v" using item_off_Suc [OF i(1)] n by simp
  have "bslice ?p (?p + length (enc_item ?x)) ?d = enc_item ?x"
    using enc_item_at [OF i(1)] suc n by (simp add: add.assoc)
  note f = enc_item_fields [OF this enc_item_small(1,2) [OF small i(1)], folded k_def v_def]
  have pl: "?p + length (enc_item ?x) \<le> length ?d"
    using enc_item_small(3) [OF small i(1)] suc n by simp
  note f = f [OF pl]
  have "Uint32 (bslice ?p (?p + 4) ?d) = 0" using f(1) i(2) by (simp add: unat_eq_0)
  then show ?thesis
    using f(2,3,6) i(2) pl n unat_item_off [OF small, of i]
    by (simp add: restart_key_def Let_def entryHeaderSize_def)
qed

lemma restart_keys_items:
  "items_small xs \<Longrightarrow> \<forall>i \<in> set rs. i < length xs \<and> fst (xs ! i) = 0 \<Longrightarrow>
     restart_keys (enc_items xs) (map (\<lambda>i. word_of_nat (item_off xs i)) rs) =
       Inr (map (\<lambda>i. Key (snd (xs ! i))) rs)"
  by (induction rs) (simp_all add: restart_key_item)

lemma restarts_length: "restarts_ok xs rs \<Longrightarrow> length rs \<le> length xs"
proof -
  assume ok: "restarts_ok xs rs"
  then have "distinct rs" by (simp add: restarts_ok_def strict_sorted_iff)
  then have "length rs = card (set rs)" by (simp add: distinct_card)
  also have "\<dots> \<le> card {0..<length xs}"
    using ok by (intro card_mono) (auto simp: restarts_ok_def)
  finally show ?thesis by simp
qed

lemma Block_Decode_Finish:
  assumes inv: "builder_inv b xs rs" and size: "length (bd_buf b) < 2 ^ 32"
  shows "Block_Decode (Builder_Finish b) = Inr (block_of xs rs)"
proof -
  have buf: "bd_buf b = enc_items xs" and ok: "restarts_ok xs rs"
    and offs: "bd_restartOffsets b = map (\<lambda>i. word_of_nat (item_off xs i)) rs"
    using inv by (simp_all add: builder_inv_def)
  have small: "items_small xs" using inv size by (simp add: items_small_iff builder_inv_def)
  define D where "D = enc_items xs"
  define ws where "ws = bd_restartOffsets b"
  define P where "P = D @ concat (map PutUint32 ws) @ PutUint32 (word_of_nat (length ws))"
  have P: "Builder_Finish b = P" by (simp add: Builder_Finish_def P_def D_def ws_def buf)
  have lw: "length ws = length rs" by (simp add: ws_def offs)
  have "length rs < 2 ^ 32"
    using restarts_length [OF ok] length_le_enc_items [of xs] size buf by simp
  then have cnt: "unat (word_of_nat (length ws) :: u32) = length ws"
    by (simp add: lw unat_word_of_nat_u32)
  have lenP: "length P = length D + 4 * length ws + 4"
    by (simp add: P_def length_concat_PutUint32)
  have tail: "drop (length P - 4) P = PutUint32 (word_of_nat (length ws))"
    unfolding lenP by (simp add: P_def length_concat_PutUint32)
  have data: "take (length D) P = D" by (simp add: P_def)
  have none: "\<not> (word_of_nat (length ws) = (0 :: u32) \<and> 0 < length D)"
  proof -
    have "rs \<noteq> []" if "xs \<noteq> []" using ok that by (simp add: restarts_ok_def)
    moreover have "unat (word_of_nat (length ws) :: u32) = 0" if "word_of_nat (length ws) = (0 :: u32)"
      using that by simp
    ultimately show ?thesis using cnt lw by (cases "xs = []") (auto simp: D_def)
  qed
  have "bslice (length D + i * 4) (length D + i * 4 + 4) P = PutUint32 (ws ! i)"
    if "i < length ws" for i
    using bslice_concat_PutUint32 [OF that] by (simp add: P_def bslice_append2)
  moreover have "ws ! i < word_of_nat (length D)" if "i < length ws" for i
  proof -
    have "rs ! i < length xs" using ok that lw by (simp add: restarts_ok_def)
    then have "item_off xs (rs ! i) < length D"
      using item_off_strict [of "rs ! i" "length xs" xs] by (simp add: D_def)
    then show ?thesis
      using that lw unat_item_off [OF small] unat_word_of_nat_u32 [of "length D"] size buf
      by (simp add: word_less_nat_alt ws_def offs D_def)
  qed
  ultimately have rest: "decode_restarts P (length D) (word_of_nat (length D)) [0..<length ws] = Inr ws"
    by (subst decode_restarts_ok [where f = "\<lambda>i. ws ! i"]) (simp_all add: map_nth)
  have keys: "restart_keys D ws = Inr (map (\<lambda>i. Key (snd (xs ! i))) rs)"
    unfolding D_def ws_def offs using ok by (intro restart_keys_items [OF small]) (simp add: restarts_ok_def)
  have sizes: "blockCountSize = 4" "blockOffsetSize = 4" by (simp_all add: block_sizes)
  have start: "length P - 4 - length ws * 4 = length D" by (simp add: lenP)
  show ?thesis
    unfolding P Block_Decode_def sizes Let_def tail get_put_le_word cnt start data rest keys
      bind_result_simps
    using none by (simp add: lenP block_of_def D_def ws_def offs)
qed

text \<open>What every reader of a block relies on: scan, point lookup and seek agree with the entries.\<close>

definition block_holds :: "Block \<Rightarrow> entry list \<Rightarrow> bool" where
  "block_holds blk es \<longleftrightarrow>
     cursor_all (bk_data blk) (NewCursor blk 0 (length (bk_data blk))) = Inr es \<and>
     (\<forall>key. Block_Find blk key = Inr (lookup key es)) \<and>
     (\<forall>key. case dropWhile (\<lambda>e. Key e < key) es of
        [] \<Rightarrow> Block_Seek blk key = Inr None
      | e # rest \<Rightarrow> \<exists>c. Block_Seek blk key = Inr (Some (c, e)) \<and>
                     cursor_all (bk_data blk) c = Inr rest)"

lemma block_holds_block_of:
  assumes small: "items_small xs" and ok: "restarts_ok xs rs"
    and sorted: "entry_keys_sorted (map snd xs)"
  shows "block_holds (block_of xs rs) (map snd xs)"
proof -
  have data: "bk_data (block_of xs rs) = enc_items xs" by (simp add: block_of_def)
  have "cursor_at xs 0 (length xs) (NewCursor (block_of xs rs) 0 (length (enc_items xs)))"
    using small by (simp add: cursor_at_def NewCursor_def Let_def data items_small_def)
  from cursor_all_items [OF small this]
  have "cursor_all (enc_items xs) (NewCursor (block_of xs rs) 0 (length (enc_items xs))) =
      Inr (map snd xs)"
    by (simp add: items_between_def)
  then show ?thesis
    using FindView_block_of [OF small ok sorted] Block_Seek_block_of [OF small ok sorted]
    unfolding block_holds_def Block_Find_def data by blast
qed

lemma Block_Decode_holds:
  assumes inv: "builder_inv b xs rs" and size: "length (bd_buf b) < 2 ^ 32"
    and sorted: "entry_keys_sorted (map snd xs)"
  shows "\<exists>blk. Block_Decode (Builder_Finish b) = Inr blk \<and> block_holds blk (map snd xs)"
proof -
  have "items_small xs" "restarts_ok xs rs"
    using inv size by (simp_all add: items_small_iff builder_inv_def)
  then show ?thesis
    using Block_Decode_Finish [OF inv size] block_holds_block_of [OF _ _ sorted] by blast
qed

lemma EstimatedSizeAfter_eq:
  "EstimatedSizeAfter b e = Builder_SizeBytes (Builder_Add scale b e) \<and>
   EstimatedSizeAfter b e = length (Builder_Finish (Builder_Add scale b e))"
proof -
  obtain b1 sh un restart where nx: "nextEntrySizing b e = (b1, sh, un, restart)"
    by (cases "nextEntrySizing b e") auto
  have un: "un = length (Key e) - sh" using nx by (auto simp: nextEntrySizing_def Let_def)
  show ?thesis
    by (simp add: EstimatedSizeAfter_def Builder_Add_def Builder_SizeBytes_def Builder_Finish_def nx
        Let_def entryEncodedSize_def block_sizes appendEntry_def length_concat_PutUint32 un)
qed

section \<open>Properties\<close>

text \<open>
  C7: a data block round trip.  Entries in strictly increasing key order go through the builder
  (any restart interval, adaptive or not) and the decoder; a cursor over the whole block returns
  exactly the entries in order, a point lookup of any key returns the entry with that key or
  reports that there is none, and a seek answers the first entry not below the key.
\<close>

theorem block_build_decode_find:
  assumes "entry_keys_sorted es"
    and "b = fold (\<lambda>e b. Builder_Add scale b e) es (NewBuilder interval adaptive mn mx)"
    and "length (bd_buf b) < 2 ^ 32"
  shows "\<exists>blk. Block_Decode (Builder_Finish b) = Inr blk \<and>
           cursor_all (bk_data blk) (NewCursor blk 0 (length (bk_data blk))) = Inr es \<and>
           (\<forall>key. Block_Find blk key = Inr (lookup key es)) \<and>
           (\<forall>key. case dropWhile (\<lambda>e. Key e < key) es of
              [] \<Rightarrow> Block_Seek blk key = Inr None
            | e # rest \<Rightarrow> \<exists>c. Block_Seek blk key = Inr (Some (c, e)) \<and>
                           cursor_all (bk_data blk) c = Inr rest)"
proof -
  from Builder_Add_all_inv [OF builder_inv_NewBuilder, of scale es interval adaptive mn mx]
  obtain xs rs where inv: "builder_inv b xs rs" and es: "map snd xs = es"
    unfolding assms(2) by auto
  from Block_Decode_holds [OF inv assms(3)] assms(1) show ?thesis
    unfolding es block_holds_def by blast
qed

definition demo_entries :: "entry list" where
  "demo_entries = map (\<lambda>i. \<lparr>Key = [1, word_of_nat i], Value = [7], Tombstone = False,
                           Seq = word_of_nat i\<rparr>) [0..<3]"

theorem block_build_decode_find_witness:
  "\<exists>blk. Block_Decode (Builder_Finish (fold (\<lambda>e b. Builder_Add (\<lambda>s k r. 0) b e) demo_entries
            (NewBuilder 2 False 0 0))) = Inr blk \<and>
     Block_Find blk [1, 2] =
       Inr (Some \<lparr>Key = [1, 2], Value = [7], Tombstone = False, Seq = 2\<rparr>) \<and>
     Block_Find blk [1, 3] = Inr None"
proof -
  have e: "demo_entries = [\<lparr>Key = [1, 0], Value = [7], Tombstone = False, Seq = 0\<rparr>,
      \<lparr>Key = [1, 1], Value = [7], Tombstone = False, Seq = 1\<rparr>,
      \<lparr>Key = [1, 2], Value = [7], Tombstone = False, Seq = 2\<rparr>]"
    by (simp add: demo_entries_def upt_rec)
  have sorted: "entry_keys_sorted demo_entries" by (simp add: e)
  have "bd_buf (NewBuilder 2 False 0 0) = []" by (simp add: NewBuilder_def Let_def)
  then have len: "length (bd_buf (fold (\<lambda>e b. Builder_Add (\<lambda>s k r. 0) b e) demo_entries
      (NewBuilder 2 False 0 0))) < 2 ^ 32"
    using length_Builder_Add_all [of "\<lambda>s k r. 0" demo_entries "NewBuilder 2 False 0 0"] by (simp add: e)
  have look: "lookup [1, 2] demo_entries =
      Some \<lparr>Key = [1, 2], Value = [7], Tombstone = False, Seq = 2\<rparr>" "lookup [1, 3] demo_entries = None"
    by (simp_all add: e)
  from block_build_decode_find [OF sorted refl len] obtain blk where
    "Block_Decode (Builder_Finish (fold (\<lambda>e b. Builder_Add (\<lambda>s k r. 0) b e) demo_entries
       (NewBuilder 2 False 0 0))) = Inr blk" "\<forall>key. Block_Find blk key = Inr (lookup key demo_entries)"
    by blast
  with look show ?thesis by (intro exI [of _ blk]) simp
qed

text \<open>
  C23: the size the writer plans with is exact: what \<^verbatim>\<open>EstimatedSizeAfter\<close> announces for an
  entry is the length of the finished block once that entry has been added.
\<close>

theorem EstimatedSizeAfter_exact:
  "EstimatedSizeAfter b e = Builder_SizeBytes (Builder_Add scale b e) \<and>
   EstimatedSizeAfter b e = length (Builder_Finish (Builder_Add scale b e))"
  by (rule EstimatedSizeAfter_eq)

end
