(* ===== verification/Block_Cache.thy ===== *)
theory Block_Cache
  imports Bloom_Filter Sst_Block
begin

text \<open>
  The block, index and filter caches of the table reader,
  \<^verbatim>\<open>internal/lsm/sstable/cache/cache.go\<close>: least-recently-used lists with a byte budget.  The
  three Go types have the same fields, so they share one record: \<open>lc_ll\<close> is the
  \<^verbatim>\<open>container/list\<close>, front first, as element addresses, \<open>lc_elems\<close> the elements' values and
  \<open>lc_items\<close> the map from keys to elements.  A nil cache is \<open>None\<close>.
\<close>

section \<open>The caches\<close>

record 'v lru_entry =
  le_key :: u64
  le_value :: 'v
  le_size :: int

record 'v lru_cache =
  lc_cap :: int
  lc_size :: int
  lc_ll :: "nat list"
  lc_elems :: "nat \<rightharpoonup> 'v lru_entry"
  lc_items :: "u64 \<rightharpoonup> nat"
  lc_next :: nat

type_synonym BlockCache = "Block lru_cache"
type_synonym IndexCache = "IndexEntry list lru_cache"
type_synonym FilterCache = "BloomFilter lru_cache"

definition lru_new :: "int \<Rightarrow> 'v lru_cache option" where
  "lru_new capBytes =
     (if capBytes \<le> 0 then None
      else Some \<lparr>lc_cap = capBytes, lc_size = 0, lc_ll = [], lc_elems = Map.empty,
                 lc_items = Map.empty, lc_next = 0\<rparr>)"

definition NewBlockCache :: "int \<Rightarrow> BlockCache option" where "NewBlockCache = lru_new"
definition NewIndexCache :: "int \<Rightarrow> IndexCache option" where "NewIndexCache = lru_new"
definition NewFilterCache :: "int \<Rightarrow> FilterCache option" where "NewFilterCache = lru_new"

definition MoveToFront :: "nat \<Rightarrow> 'v lru_cache \<Rightarrow> 'v lru_cache" where
  "MoveToFront ele c =
     (if ele \<in> set (lc_ll c) then c\<lparr>lc_ll := ele # remove1 ele (lc_ll c)\<rparr> else c)"

definition PushFront :: "'v lru_entry \<Rightarrow> 'v lru_cache \<Rightarrow> nat \<times> 'v lru_cache" where
  "PushFront ent c =
     (lc_next c, c\<lparr>lc_ll := lc_next c # lc_ll c, lc_elems := (lc_elems c)(lc_next c \<mapsto> ent),
                    lc_next := Suc (lc_next c)\<rparr>)"

fun lru_get :: "'v lru_cache option \<Rightarrow> u64 \<Rightarrow> 'v option \<times> 'v lru_cache option" where
  "lru_get None key = (None, None)"
| "lru_get (Some c) key =
     (case lc_items c key of
        Some ele \<Rightarrow> (Some (le_value (the (lc_elems c ele))), Some (MoveToFront ele c))
      | None \<Rightarrow> (None, Some c))"

definition BlockCache_Get :: "BlockCache option \<Rightarrow> u64 \<Rightarrow> Block option \<times> BlockCache option" where
  "BlockCache_Get = lru_get"

definition IndexCache_Get ::
  "IndexCache option \<Rightarrow> u64 \<Rightarrow> IndexEntry list option \<times> IndexCache option" where
  "IndexCache_Get = lru_get"

definition FilterCache_Get ::
  "FilterCache option \<Rightarrow> u64 \<Rightarrow> BloomFilter option \<times> FilterCache option" where
  "FilterCache_Get = lru_get"

function lru_evict :: "'v lru_cache \<Rightarrow> 'v lru_cache" where
  "lru_evict c =
     (if lc_cap c < lc_size c \<and> lc_ll c \<noteq> [] then
        let entry = the (lc_elems c (last (lc_ll c)))
        in lru_evict (c\<lparr>lc_ll := butlast (lc_ll c), lc_items := (lc_items c)(le_key entry := None),
                        lc_size := lc_size c - le_size entry\<rparr>)
      else c)"
  by pat_completeness auto
termination by (relation "measure (\<lambda>c. length (lc_ll c))") auto

declare lru_evict.simps [simp del]

definition lru_insert :: "'v lru_cache \<Rightarrow> u64 \<Rightarrow> 'v \<Rightarrow> int \<Rightarrow> 'v lru_cache" where
  "lru_insert c key value sz =
     (let (ele, c) = PushFront \<lparr>le_key = key, le_value = value, le_size = sz\<rparr> c
      in lru_evict (c\<lparr>lc_items := (lc_items c)(key \<mapsto> ele), lc_size := lc_size c + sz\<rparr>))"

text \<open>A block that is already cached is replaced, but its recorded size stays what it was.\<close>

definition BlockCache_Add :: "BlockCache option \<Rightarrow> u64 \<Rightarrow> Block \<Rightarrow> BlockCache option" where
  "BlockCache_Add cc key blk =
     (case cc of
        None \<Rightarrow> None
      | Some c \<Rightarrow>
          (case lc_items c key of
             Some ele \<Rightarrow>
               let c = MoveToFront ele c; ent = the (lc_elems c ele)
               in Some (c\<lparr>lc_elems := (lc_elems c)(ele \<mapsto> ent\<lparr>le_value := blk\<rparr>)\<rparr>)
           | None \<Rightarrow> Some (lru_insert c key blk (int (length (bk_data blk))))))"

definition lru_add :: "('v \<Rightarrow> int) \<Rightarrow> 'v lru_cache \<Rightarrow> u64 \<Rightarrow> 'v \<Rightarrow> 'v lru_cache" where
  "lru_add sz c key value =
     (case lc_items c key of
        Some ele \<Rightarrow>
          let c = MoveToFront ele c; ent = the (lc_elems c ele)
          in lru_evict
               (c\<lparr>lc_elems := (lc_elems c)(ele \<mapsto> ent\<lparr>le_value := value, le_size := sz value\<rparr>),
                  lc_size := lc_size c - le_size ent + sz value\<rparr>)
      | None \<Rightarrow> lru_insert c key value (sz value))"

definition indexEntriesSize :: "IndexEntry list \<Rightarrow> int" where
  "indexEntriesSize entries =
     fold (\<lambda>e sz. sz + int (IndexHeaderSize + length (ie_Key e))) entries 0"

definition bloomFilterSize :: "BloomFilter option \<Rightarrow> int" where
  "bloomFilterSize flt = (if flt = None then 0 else int (Filter_SizeBytes flt))"

text \<open>\<^verbatim>\<open>value == nil\<close> holds of the nil slice only; a decoded empty index is nil.\<close>

definition IndexCache_Add :: "IndexCache option \<Rightarrow> u64 \<Rightarrow> IndexEntry list \<Rightarrow> IndexCache option" where
  "IndexCache_Add cc key value =
     (case cc of None \<Rightarrow> None
      | Some c \<Rightarrow> if value = [] then Some c else Some (lru_add indexEntriesSize c key value))"

definition FilterCache_Add :: "FilterCache option \<Rightarrow> u64 \<Rightarrow> BloomFilter \<Rightarrow> FilterCache option" where
  "FilterCache_Add cc key value =
     (case cc of None \<Rightarrow> None
      | Some c \<Rightarrow> Some (lru_add (\<lambda>f. bloomFilterSize (Some f)) c key value))"

section \<open>Invariant\<close>

definition lru_linked :: "'v lru_cache \<Rightarrow> bool" where
  "lru_linked c \<longleftrightarrow>
     distinct (lc_ll c) \<and>
     (\<forall>i \<in> set (lc_ll c). i < lc_next c \<and>
        (\<exists>e. lc_elems c i = Some e \<and> lc_items c (le_key e) = Some i)) \<and>
     (\<forall>k i. lc_items c k = Some i \<longrightarrow> i \<in> set (lc_ll c) \<and> le_key (the (lc_elems c i)) = k) \<and>
     lc_size c = (\<Sum>i\<leftarrow>lc_ll c. le_size (the (lc_elems c i)))"

definition lru_inv :: "'v lru_cache option \<Rightarrow> bool" where
  "lru_inv cc \<longleftrightarrow> (\<forall>c. cc = Some c \<longrightarrow> lru_linked c \<and> lc_size c \<le> lc_cap c \<and> 0 < lc_cap c)"

definition lru_contents :: "'v lru_cache option \<Rightarrow> u64 \<rightharpoonup> 'v" where
  "lru_contents cc k =
     (case cc of None \<Rightarrow> None
      | Some c \<Rightarrow>
          (case lc_items c k of None \<Rightarrow> None | Some i \<Rightarrow> Some (le_value (the (lc_elems c i)))))"

lemma sum_list_remove1_int:
  "x \<in> set xs \<Longrightarrow> (\<Sum>i\<leftarrow>remove1 x xs. (f i :: int)) = (\<Sum>i\<leftarrow>xs. f i) - f x"
  by (induction xs) auto

lemma sum_list_upd_notin: "x \<notin> set xs \<Longrightarrow>
    (\<Sum>i\<leftarrow>xs. f (the ((m(x \<mapsto> y)) i)) :: int) = (\<Sum>i\<leftarrow>xs. f (the (m i)))"
  by (induction xs) auto

lemma lru_linked_MoveToFront:
  assumes "lru_linked c"
  shows "lru_linked (MoveToFront i c)" "lc_items (MoveToFront i c) = lc_items c"
    "lc_elems (MoveToFront i c) = lc_elems c" "lc_size (MoveToFront i c) = lc_size c"
    "lc_cap (MoveToFront i c) = lc_cap c"
    "lc_items c k = Some i \<Longrightarrow> lc_ll (MoveToFront i c) = i # remove1 i (lc_ll c)"
  using assms by (auto simp: MoveToFront_def lru_linked_def sum_list_remove1_int)

lemma lru_evict_step:
  assumes "lru_linked c" "lc_ll c \<noteq> []"
  defines "e \<equiv> the (lc_elems c (last (lc_ll c)))"
  shows "lru_linked (c\<lparr>lc_ll := butlast (lc_ll c), lc_items := (lc_items c)(le_key e := None),
                      lc_size := lc_size c - le_size e\<rparr>)"
proof -
  obtain xs i where ll: "lc_ll c = xs @ [i]" using assms(2) by (cases "lc_ll c" rule: rev_exhaust) auto
  then have e: "lc_elems c i = Some e" "lc_items c (le_key e) = Some i"
    using assms(1) by (auto simp: lru_linked_def e_def)
  have i: "i \<notin> set xs" using assms(1) ll by (auto simp: lru_linked_def)
  have "le_key (the (lc_elems c j)) = k" if "lc_items c k = Some j" for k j
    using assms(1) that by (simp add: lru_linked_def)
  then have "lc_items c k = Some j \<Longrightarrow> k \<noteq> le_key e \<Longrightarrow> j \<noteq> i" for k j
    using e(1) by force
  moreover have "\<exists>e'. lc_elems c j = Some e' \<and> le_key e' \<noteq> le_key e \<and> lc_items c (le_key e') = Some j"
    if "j \<in> set xs" for j
    using assms(1) i ll e(2) that by (fastforce simp: lru_linked_def)
  ultimately show ?thesis using assms(1) i ll e
    by (fastforce simp: lru_linked_def)
qed

lemma lru_evict_ok:
  assumes "lru_linked c" "0 < lc_cap c"
  shows "lru_inv (Some (lru_evict c)) \<and> lc_cap (lru_evict c) = lc_cap c \<and>
         lc_elems (lru_evict c) = lc_elems c \<and> lc_items (lru_evict c) \<subseteq>\<^sub>m lc_items c"
  using assms
proof (induction c rule: lru_evict.induct)
  case (1 c)
  show ?case
  proof (cases "lc_cap c < lc_size c \<and> lc_ll c \<noteq> []")
    case True
    let ?e = "the (lc_elems c (last (lc_ll c)))"
    let ?c = "c\<lparr>lc_ll := butlast (lc_ll c), lc_items := (lc_items c)(le_key ?e := None),
                lc_size := lc_size c - le_size ?e\<rparr>"
    have step: "lru_evict c = lru_evict ?c"
      using True by (subst lru_evict.simps) (simp add: Let_def)
    have "lc_items ?c \<subseteq>\<^sub>m lc_items c" by (auto simp: map_le_def)
    moreover have "lru_inv (Some (lru_evict ?c)) \<and> lc_cap (lru_evict ?c) = lc_cap ?c \<and>
        lc_elems (lru_evict ?c) = lc_elems ?c \<and> lc_items (lru_evict ?c) \<subseteq>\<^sub>m lc_items ?c"
      using 1 True lru_evict_step [of c] by (intro "1.IH" [OF True refl]) auto
    ultimately show ?thesis unfolding step by (auto intro: map_le_trans)
  next
    case False
    then have "lru_evict c = c" by (subst lru_evict.simps) auto
    moreover have "lc_size c \<le> lc_cap c"
      using False "1.prems" by (cases "lc_ll c = []") (auto simp: lru_linked_def)
    ultimately show ?thesis using "1.prems" by (simp add: lru_inv_def)
  qed
qed

lemma map_le_iff: "f \<subseteq>\<^sub>m g \<longleftrightarrow> (\<forall>k v. f k = Some v \<longrightarrow> g k = Some v)"
  by (auto simp: map_le_def dom_def)

lemma lru_contents_mono:
  assumes "lc_elems d = lc_elems c" "lc_items d \<subseteq>\<^sub>m lc_items c"
  shows "lru_contents (Some d) \<subseteq>\<^sub>m lru_contents (Some c)"
  using assms by (fastforce simp: map_le_iff lru_contents_def split: option.splits)

lemma lru_evict_keeps_front:
  assumes "lru_linked c" "lc_ll c = i # xs" "lc_elems c i = Some e" "le_size e \<le> lc_cap c"
  shows "lc_items (lru_evict c) (le_key e) = Some i"
  using assms
proof (induction c arbitrary: xs rule: lru_evict.induct)
  case (1 c)
  have key: "lc_items c (le_key e) = Some i" using "1.prems"(1-3) by (simp add: lru_linked_def)
  show ?case
  proof (cases "lc_cap c < lc_size c \<and> lc_ll c \<noteq> []")
    case True
    have "lc_size c = (\<Sum>j\<leftarrow>lc_ll c. le_size (the (lc_elems c j)))"
      using "1.prems"(1) by (simp add: lru_linked_def)
    with True have xs: "xs \<noteq> []" using "1.prems"(2-4) by auto
    let ?e = "the (lc_elems c (last (lc_ll c)))"
    let ?c = "c\<lparr>lc_ll := butlast (lc_ll c), lc_items := (lc_items c)(le_key ?e := None),
                lc_size := lc_size c - le_size ?e\<rparr>"
    have step: "lru_evict c = lru_evict ?c"
      using True by (subst lru_evict.simps) (simp add: Let_def)
    have "lru_linked ?c" using "1.prems"(1) True by (intro lru_evict_step) auto
    moreover have "lc_ll ?c = i # butlast xs" using "1.prems"(2) xs by simp
    ultimately have "lc_items (lru_evict ?c) (le_key e) = Some i"
      by (intro "1.IH" [OF True refl, of "butlast xs"]) (simp_all add: "1.prems"(3,4))
    then show ?thesis by (simp only: step)
  next
    case False
    then have "lru_evict c = c" by (subst lru_evict.simps) auto
    with key show ?thesis by simp
  qed
qed

lemma lru_insert_ok:
  assumes "lru_linked c" "0 < lc_cap c" "lc_items c key = None"
  shows "lru_inv (Some (lru_insert c key v sz)) \<and> lc_cap (lru_insert c key v sz) = lc_cap c \<and>
         lru_contents (Some (lru_insert c key v sz)) \<subseteq>\<^sub>m (lru_contents (Some c))(key \<mapsto> v) \<and>
         (sz \<le> lc_cap c \<longrightarrow> lru_contents (Some (lru_insert c key v sz)) key = Some v)"
proof -
  let ?n = "lc_next c"
  let ?e = "\<lparr>le_key = key, le_value = v, le_size = sz\<rparr>"
  let ?c = "c\<lparr>lc_ll := ?n # lc_ll c, lc_elems := (lc_elems c)(?n \<mapsto> ?e), lc_next := Suc ?n,
              lc_items := (lc_items c)(key \<mapsto> ?n), lc_size := lc_size c + sz\<rparr>"
  have eq: "lru_insert c key v sz = lru_evict ?c"
    by (simp add: lru_insert_def PushFront_def)
  have n: "?n \<notin> set (lc_ll c)" using assms(1) by (auto simp: lru_linked_def)
  have nk: "lc_items c k \<noteq> Some ?n" for k using assms(1) n by (auto simp: lru_linked_def)
  have "le_key e \<noteq> key" if "i \<in> set (lc_ll c)" "lc_elems c i = Some e" for i e
    using assms(1,3) that by (auto simp: lru_linked_def)
  then have "\<forall>i \<in> set (lc_ll c). i < lc_next c \<and>
      (\<exists>e. lc_elems c i = Some e \<and> le_key e \<noteq> key \<and> lc_items c (le_key e) = Some i)"
    using assms(1) by (fastforce simp: lru_linked_def)
  then have linked: "lru_linked ?c"
    using assms(1) n nk
    by (auto simp: lru_linked_def sum_list_upd_notin [of _ _ le_size, simplified] less_Suc_eq)
  have "lru_contents (Some ?c) = (lru_contents (Some c))(key \<mapsto> v)"
    using nk by (auto simp: lru_contents_def fun_eq_iff split: option.splits)
  moreover have ev: "lru_inv (Some (lru_evict ?c)) \<and> lc_cap (lru_evict ?c) = lc_cap ?c \<and>
        lc_elems (lru_evict ?c) = lc_elems ?c \<and> lc_items (lru_evict ?c) \<subseteq>\<^sub>m lc_items ?c"
    using assms(2) by (intro lru_evict_ok [OF linked]) simp
  then have "lru_contents (Some (lru_evict ?c)) \<subseteq>\<^sub>m lru_contents (Some ?c)"
    by (intro lru_contents_mono) auto
  moreover have "lru_contents (Some (lru_evict ?c)) key = Some v" if "sz \<le> lc_cap c"
    using lru_evict_keeps_front [OF linked, of ?n "lc_ll c" ?e] that ev by (simp add: lru_contents_def)
  ultimately show ?thesis using ev by (simp add: eq)
qed
lemma lru_linked_update_front:
  assumes "lru_linked c" "lc_ll c = i # xs" "lc_elems c i = Some e"
  shows "lru_linked (c\<lparr>lc_elems := (lc_elems c)(i \<mapsto> e\<lparr>le_value := v, le_size := sz\<rparr>),
                       lc_size := lc_size c - le_size e + sz\<rparr>)"
proof -
  have i: "i \<notin> set xs" using assms(1,2) by (auto simp: lru_linked_def)
  have "(\<Sum>j\<leftarrow>xs. le_size (the (((lc_elems c)(i \<mapsto> y)) j))) = (\<Sum>j\<leftarrow>xs. le_size (the (lc_elems c j)))" for y
    using i by (intro arg_cong [where f = sum_list] map_cong) auto
  moreover have "le_key e = k" if "lc_items c k = Some i" for k
  proof -
    have "le_key (the (lc_elems c i)) = k" using assms(1) that by (simp add: lru_linked_def)
    with assms(3) show ?thesis by simp
  qed
  ultimately show ?thesis
    using assms i unfolding lru_linked_def by auto
qed

lemma lru_replace_ok:
  fixes v :: 'v
  assumes "lru_linked c" "lc_items c key = Some i"
  defines "e \<equiv> the (lc_elems c i)" and "c1 \<equiv> MoveToFront i c"
  shows "lru_linked (c1\<lparr>lc_elems := (lc_elems c)(i \<mapsto> e\<lparr>le_value := v, le_size := sz\<rparr>),
                        lc_size := lc_size c - le_size e + sz\<rparr>)"
    and "lru_contents (Some (c1\<lparr>lc_elems := (lc_elems c)(i \<mapsto> e\<lparr>le_value := v, le_size := sz\<rparr>),
                        lc_size := lc_size c - le_size e + sz\<rparr>)) = (lru_contents (Some c))(key \<mapsto> v)"
proof -
  note mv = lru_linked_MoveToFront [OF assms(1), where i = i, folded c1_def]
  have i: "i \<in> set (lc_ll c)" using assms(1,2) by (auto simp: lru_linked_def)
  then have "lc_elems c i = Some e"
    using assms(1) by (fastforce simp: lru_linked_def e_def)
  with lru_linked_update_front [OF mv(1) mv(6) [OF assms(2)], where e = e and v = v and sz = sz] mv
  show "lru_linked (c1\<lparr>lc_elems := (lc_elems c)(i \<mapsto> e\<lparr>le_value := v, le_size := sz\<rparr>),
                        lc_size := lc_size c - le_size e + sz\<rparr>)" by simp
  have "le_key e = k" if "lc_items c k = Some i" for k
    using assms(1) that by (simp add: lru_linked_def e_def)
  then have "k \<noteq> key \<Longrightarrow> lc_items c k \<noteq> Some i" for k
    using assms(2) by blast
  then show "lru_contents (Some (c1\<lparr>lc_elems := (lc_elems c)(i \<mapsto> e\<lparr>le_value := v, le_size := sz\<rparr>),
                        lc_size := lc_size c - le_size e + sz\<rparr>)) = (lru_contents (Some c))(key \<mapsto> v)"
    using mv(2) assms(2) by (auto simp: lru_contents_def fun_eq_iff split: option.splits)
qed

lemma lru_get_ok:
  assumes "lru_inv c"
  shows "fst (lru_get c k) = lru_contents c k" "lru_inv (snd (lru_get c k))"
    "lru_contents (snd (lru_get c k)) = lru_contents c"
  using assms lru_linked_MoveToFront
  by (cases c; fastforce simp: lru_inv_def lru_contents_def split: option.splits)+

lemma lru_add_ok:
  assumes "lru_inv (Some c)"
  shows "lru_inv (Some (lru_add sz c k v)) \<and>
         lru_contents (Some (lru_add sz c k v)) \<subseteq>\<^sub>m (lru_contents (Some c))(k \<mapsto> v) \<and>
         (sz v \<le> lc_cap c \<longrightarrow> lru_contents (Some (lru_add sz c k v)) k = Some v)"
proof -
  have c: "lru_linked c" "0 < lc_cap c" using assms by (auto simp: lru_inv_def)
  show ?thesis
  proof (cases "lc_items c k")
    case None
    with lru_insert_ok [OF c None] show ?thesis by (simp add: lru_add_def)
  next
    case (Some i)
    let ?c = "(MoveToFront i c)\<lparr>lc_elems := (lc_elems c)(i \<mapsto> (the (lc_elems c i))\<lparr>le_value := v, le_size := sz v\<rparr>),
                lc_size := lc_size c - le_size (the (lc_elems c i)) + sz v\<rparr>"
    note mv = lru_linked_MoveToFront [OF c(1), where i = i]
    have eq: "lru_add sz c k v = lru_evict ?c" by (simp add: lru_add_def Some Let_def mv)
    have lk: "lru_linked ?c" and ct: "lru_contents (Some ?c) = (lru_contents (Some c))(k \<mapsto> v)"
      using lru_replace_ok [OF c(1) Some, where v = v and sz = "sz v"] by simp_all
    let ?e = "(the (lc_elems c i))\<lparr>le_value := v, le_size := sz v\<rparr>"
    have ev: "lru_inv (Some (lru_evict ?c)) \<and> lc_elems (lru_evict ?c) = lc_elems ?c \<and>
        lc_items (lru_evict ?c) \<subseteq>\<^sub>m lc_items ?c"
      using lru_evict_ok [OF lk] c(2) mv(5) by simp
    have "le_key (the (lc_elems c i)) = k" using c(1) Some by (simp add: lru_linked_def)
    then have "lru_contents (Some (lru_evict ?c)) k = Some v" if "sz v \<le> lc_cap c"
      using lru_evict_keeps_front [OF lk, of i "remove1 i (lc_ll c)" ?e] that ev mv(5) mv(6) [OF Some]
      by (simp add: lru_contents_def)
    moreover have "lru_contents (Some (lru_evict ?c)) \<subseteq>\<^sub>m (lru_contents (Some c))(k \<mapsto> v)"
      using lru_contents_mono [of "lru_evict ?c" ?c] ev ct by simp
    ultimately show ?thesis using ev unfolding eq by blast
  qed
qed

lemma BlockCache_Add_ok:
  assumes "lru_inv cc"
  shows "lru_inv (BlockCache_Add cc k blk) \<and>
         lru_contents (BlockCache_Add cc k blk) \<subseteq>\<^sub>m (lru_contents cc)(k \<mapsto> blk)"
proof (cases cc)
  case None
  then show ?thesis by (simp add: BlockCache_Add_def lru_inv_def lru_contents_def map_le_iff)
next
  case cc: (Some c)
  have c: "lru_linked c" "0 < lc_cap c" "lc_size c \<le> lc_cap c" using assms by (auto simp: lru_inv_def cc)
  show ?thesis
  proof (cases "lc_items c k")
    case None
    with lru_insert_ok [OF c(1,2) None] cc show ?thesis by (simp add: BlockCache_Add_def)
  next
    case (Some i)
    let ?e = "the (lc_elems c i)"
    note mv = lru_linked_MoveToFront [OF c(1), where i = i]
    have e: "?e\<lparr>le_value := blk, le_size := le_size ?e\<rparr> = ?e\<lparr>le_value := blk\<rparr>" by simp
    have same: "(MoveToFront i c)\<lparr>lc_elems := m, lc_size := lc_size c\<rparr> = (MoveToFront i c)\<lparr>lc_elems := m\<rparr>"
      for m using mv(4) by simp
    from lru_replace_ok [OF c(1) Some, where v = blk and sz = "le_size ?e", unfolded e] c mv cc Some show ?thesis
      by (simp add: BlockCache_Add_def Let_def lru_inv_def same)
  qed
qed

lemma lru_new_ok [simp]: "lru_inv (lru_new n)" "lru_contents (lru_new n) = Map.empty"
  by (auto simp: lru_new_def lru_inv_def lru_linked_def lru_contents_def)

section \<open>The interface\<close>

text \<open>
  What the reader relies on: a lookup answers with the contents and keeps them; storing a value
  leaves no contents but old ones and the new value, and a value that is not storable (the nil
  index) changes nothing.  A run is any sequence of calls, and \<open>last_added\<close> the abstract map it
  builds.
\<close>

datatype 'v cache_op = OpGet u64 | OpAdd u64 'v

fun cache_run ::
  "('c \<Rightarrow> u64 \<Rightarrow> 'v option \<times> 'c) \<Rightarrow> ('c \<Rightarrow> u64 \<Rightarrow> 'v \<Rightarrow> 'c) \<Rightarrow> 'v cache_op list \<Rightarrow> 'c \<Rightarrow> 'c" where
  "cache_run get add [] c = c"
| "cache_run get add (OpGet k # ops) c = cache_run get add ops (snd (get c k))"
| "cache_run get add (OpAdd k v # ops) c = cache_run get add ops (add c k v)"

fun last_added :: "('v \<Rightarrow> bool) \<Rightarrow> 'v cache_op list \<Rightarrow> (u64 \<rightharpoonup> 'v) \<Rightarrow> u64 \<rightharpoonup> 'v" where
  "last_added st [] m = m"
| "last_added st (OpGet k # ops) m = last_added st ops m"
| "last_added st (OpAdd k v # ops) m = last_added st ops (if st v then m(k \<mapsto> v) else m)"

locale coherent_cache =
  fixes get :: "'c \<Rightarrow> u64 \<Rightarrow> 'v option \<times> 'c"
    and add :: "'c \<Rightarrow> u64 \<Rightarrow> 'v \<Rightarrow> 'c"
    and contents :: "'c \<Rightarrow> u64 \<rightharpoonup> 'v"
    and inv :: "'c \<Rightarrow> bool"
    and storable :: "'v \<Rightarrow> bool"
  assumes get_result: "inv c \<Longrightarrow> fst (get c k) = contents c k"
    and get_inv: "inv c \<Longrightarrow> inv (snd (get c k))"
    and get_contents: "inv c \<Longrightarrow> contents (snd (get c k)) = contents c"
    and add_inv: "inv c \<Longrightarrow> inv (add c k v)"
    and add_contents: "inv c \<Longrightarrow> storable v \<Longrightarrow> contents (add c k v) \<subseteq>\<^sub>m (contents c)(k \<mapsto> v)"
    and add_other: "inv c \<Longrightarrow> \<not> storable v \<Longrightarrow> contents (add c k v) = contents c"
begin

text \<open>A cache whose contents satisfy a relation keeps it when the new value satisfies it.\<close>

definition holds :: "(u64 \<Rightarrow> 'v \<Rightarrow> bool) \<Rightarrow> 'c \<Rightarrow> bool" where
  "holds P c \<longleftrightarrow> inv c \<and> (\<forall>k v. contents c k = Some v \<longrightarrow> P k v)"

lemma holds_get: "holds P c \<Longrightarrow> get c k = (r, c') \<Longrightarrow> holds P c' \<and> (\<forall>v. r = Some v \<longrightarrow> P k v)"
  using get_result [of c k] get_inv [of c k] get_contents [of c k] by (auto simp: holds_def)

lemma holds_add: "holds P c \<Longrightarrow> P k v \<Longrightarrow> holds P (add c k v)"
  using add_inv [of c k v] add_contents [of c v k] add_other [of c v k]
  by (cases "storable v") (auto simp: holds_def map_le_iff split: if_splits)

lemma run_ok:
  "inv c \<Longrightarrow> contents c \<subseteq>\<^sub>m m \<Longrightarrow>
     inv (cache_run get add ops c) \<and>
     contents (cache_run get add ops c) \<subseteq>\<^sub>m last_added storable ops m"
proof (induction ops arbitrary: c m)
  case (Cons op ops)
  show ?case
  proof (cases op)
    case (OpGet k)
    with Cons show ?thesis by (simp add: get_inv get_contents)
  next
    case (OpAdd k v)
    have "contents (add c k v) \<subseteq>\<^sub>m (if storable v then m(k \<mapsto> v) else m)"
      using map_le_trans [OF add_contents [OF Cons.prems(1)] map_le_upd [OF Cons.prems(2)]]
        add_other [OF Cons.prems(1), of v k] Cons.prems(2) by simp
    from Cons.IH [OF add_inv [OF Cons.prems(1)] this] show ?thesis
      unfolding OpAdd cache_run.simps last_added.simps .
  qed
qed simp

end

interpretation block_lru: coherent_cache BlockCache_Get BlockCache_Add lru_contents lru_inv "\<lambda>_. True"
  by unfold_locales (simp_all add: BlockCache_Get_def lru_get_ok BlockCache_Add_ok)

interpretation index_lru: coherent_cache IndexCache_Get IndexCache_Add lru_contents lru_inv "\<lambda>v. v \<noteq> []"
proof
  fix c :: "IndexCache option" and k v
  assume c: "lru_inv c"
  then show "lru_inv (IndexCache_Add c k v)"
    by (cases c) (auto simp: IndexCache_Add_def lru_add_ok)
  from c show "v \<noteq> [] \<Longrightarrow> lru_contents (IndexCache_Add c k v) \<subseteq>\<^sub>m (lru_contents c)(k \<mapsto> v)"
    by (cases c) (simp_all add: IndexCache_Add_def lru_add_ok, simp add: lru_contents_def map_le_iff)
  show "\<not> v \<noteq> [] \<Longrightarrow> lru_contents (IndexCache_Add c k v) = lru_contents c"
    by (cases c) (simp_all add: IndexCache_Add_def)
qed (simp_all add: IndexCache_Get_def lru_get_ok)

interpretation filter_lru: coherent_cache FilterCache_Get FilterCache_Add lru_contents lru_inv "\<lambda>_. True"
proof
  fix c :: "FilterCache option" and k v
  assume c: "lru_inv c"
  then show "lru_inv (FilterCache_Add c k v)"
    by (cases c) (auto simp: FilterCache_Add_def lru_add_ok)
  from c show "lru_contents (FilterCache_Add c k v) \<subseteq>\<^sub>m (lru_contents c)(k \<mapsto> v)"
    by (cases c) (simp_all add: FilterCache_Add_def lru_add_ok, simp add: lru_contents_def map_le_iff)
qed (simp_all add: FilterCache_Get_def lru_get_ok)

section \<open>Properties\<close>

text \<open>
  C16: the caches refine a map of the values last stored.  After any sequence of lookups and
  stores on a fresh cache of any capacity, each cached value is the one last stored under its
  key, a lookup answers exactly from the cached values, and the recorded sizes sum up to the
  accounted size, which is within the capacity.
\<close>

theorem caches_refine_last_added:
  "lru_contents (cache_run BlockCache_Get BlockCache_Add bops (NewBlockCache n)) \<subseteq>\<^sub>m
     last_added (\<lambda>_. True) bops Map.empty \<and>
   lru_contents (cache_run IndexCache_Get IndexCache_Add iops (NewIndexCache n)) \<subseteq>\<^sub>m
     last_added (\<lambda>v. v \<noteq> []) iops Map.empty \<and>
   lru_contents (cache_run FilterCache_Get FilterCache_Add fops (NewFilterCache n)) \<subseteq>\<^sub>m
     last_added (\<lambda>_. True) fops Map.empty \<and>
   fst (BlockCache_Get (cache_run BlockCache_Get BlockCache_Add bops (NewBlockCache n)) k) =
     lru_contents (cache_run BlockCache_Get BlockCache_Add bops (NewBlockCache n)) k \<and>
   lru_inv (cache_run BlockCache_Get BlockCache_Add bops (NewBlockCache n)) \<and>
   lru_inv (cache_run IndexCache_Get IndexCache_Add iops (NewIndexCache n)) \<and>
   lru_inv (cache_run FilterCache_Get FilterCache_Add fops (NewFilterCache n))"
  using block_lru.run_ok [of "NewBlockCache n" Map.empty bops]
    index_lru.run_ok [of "NewIndexCache n" Map.empty iops]
    filter_lru.run_ok [of "NewFilterCache n" Map.empty fops]
  by (simp add: NewBlockCache_def NewIndexCache_def NewFilterCache_def block_lru.get_result)

text \<open>
  C24: a stored value that fits is found.  Right after a store into a well-formed cache, a lookup
  of the key answers the stored value whenever its size is within the capacity, so eviction
  removes other entries first.  For the block cache the key is one that was not cached.
\<close>

theorem cache_get_after_add:
  assumes "lru_inv (Some ic)" "lru_inv (Some fc)" "lru_inv (Some bc)"
    and "idx \<noteq> []" "indexEntriesSize idx \<le> lc_cap ic"
    and "int (length (fl_bits flt)) \<le> lc_cap fc"
    and "lc_items bc k = None" "int (length (bk_data blk)) \<le> lc_cap bc"
  shows "fst (IndexCache_Get (IndexCache_Add (Some ic) k idx) k) = Some idx \<and>
         fst (FilterCache_Get (FilterCache_Add (Some fc) k flt) k) = Some flt \<and>
         fst (BlockCache_Get (BlockCache_Add (Some bc) k blk) k) = Some blk"
proof -
  have "lru_linked bc" "0 < lc_cap bc" using assms(3) by (auto simp: lru_inv_def)
  from lru_insert_ok [OF this assms(7), where v = blk and sz = "int (length (bk_data blk))"] show ?thesis
    using assms lru_add_ok [OF assms(1), of indexEntriesSize k idx]
      lru_add_ok [OF assms(2), of "\<lambda>f. bloomFilterSize (Some f)" k flt]
    by (simp add: IndexCache_Get_def FilterCache_Get_def BlockCache_Get_def lru_get_ok
        IndexCache_Add_def FilterCache_Add_def BlockCache_Add_def bloomFilterSize_def
        del: lru_get.simps)
qed

theorem cache_get_after_add_witness:
  "\<exists>ic fc bc. NewIndexCache 64 = Some ic \<and> NewFilterCache 64 = Some fc \<and> NewBlockCache 64 = Some bc \<and>
     fst (IndexCache_Get (IndexCache_Add (Some ic) 7 [\<lparr>ie_Key = [1], ie_Offset = 0, ie_Length = 9\<rparr>]) 7) =
       Some [\<lparr>ie_Key = [1], ie_Offset = 0, ie_Length = 9\<rparr>]"
proof -
  obtain ic fc bc where c: "NewIndexCache 64 = Some ic" "NewFilterCache 64 = Some fc"
    "NewBlockCache 64 = Some bc" "lc_cap ic = 64" "lc_cap fc = 64" "lc_cap bc = 64"
    "lc_items bc 7 = None"
    by (simp add: NewIndexCache_def NewFilterCache_def NewBlockCache_def lru_new_def)
  then have "lru_inv (Some ic)" "lru_inv (Some fc)" "lru_inv (Some bc)"
    by (simp_all add: NewIndexCache_def NewFilterCache_def NewBlockCache_def flip: c(1-3))
  from cache_get_after_add [OF this, of "[\<lparr>ie_Key = [1], ie_Offset = 0, ie_Length = 9\<rparr>]"
      "\<lparr>fl_bits = [0], fl_k = 1\<rparr>" 7 "\<lparr>bk_data = [1], bk_restarts = [], bk_restartKeys = []\<rparr>"]
  show ?thesis using c by (simp add: indexEntriesSize_def IndexHeaderSize_def)
qed

end
