(* ===== verification/Sst_Options.thy ===== *)
theory Sst_Options
  imports Sst_Format
begin

text \<open>
  The options of the sorted tables, \<^verbatim>\<open>internal/lsm/sstable/config/options.go\<close>: defaults,
  normalisation, validation and the policy snapshot of the read pipeline.  The directory and
  the file system are arguments of the operations that use them; observers only receive events
  and are left out.  Go's \<^verbatim>\<open>int\<close> is \<open>int\<close>, and the one product of options wraps at 64 bits.
\<close>

section \<open>Options\<close>

datatype ChecksumName = ChecksumCRC32C | ChecksumOther string

datatype CorruptionPolicy =
  CorruptionFailFast | CorruptionSkipBlock | CorruptionDropTable | CorruptionOther string

record PolicySnapshot =
  ps_UsePrefetch :: bool
  ps_PrefetchBudgetBytes :: int
  ps_PrefetchBudgetBlocks :: int
  ps_PrefetchAsync :: bool
  ps_PrefetchQueueDepth :: int
  ps_PrefetchWorkers :: int
  ps_UsePartitionedIndex :: bool
  ps_UsePartitionedFilter :: bool
  ps_UseMmap :: bool
  ps_ReadBufferMaxBytes :: int
  ps_ReadBlockMaxBytes :: int
  ps_CorruptionPolicy :: CorruptionPolicy

record SstOptions =
  so_BlockTargetBytes :: int
  so_BlockMaxBytes :: int
  so_RestartInterval :: int
  so_IndexPartitionEntries :: int
  so_FilterPartitioned :: bool
  so_ReadBlockMaxBytes :: int
  so_ReadBufferMaxBytes :: int
  so_UseMmap :: bool
  so_Compression :: Compression
  so_BloomBitsPerKey :: int
  so_BlockCacheBytes :: int
  so_IndexCacheBytes :: int
  so_FilterCacheBytes :: int
  so_PrefetchBlocks :: int
  so_PrefetchBytes :: int
  so_PrefetchBudgetBlocks :: int
  so_PrefetchBudgetBytes :: int
  so_PrefetchAsync :: bool
  so_PrefetchQueueDepth :: int
  so_PrefetchWorkers :: int
  so_Checksum :: ChecksumName
  so_CorruptionPolicy :: CorruptionPolicy
  so_RestartIntervalAdaptive :: bool
  so_RestartIntervalMin :: int
  so_RestartIntervalMax :: int
  so_PolicyOverride :: "PolicySnapshot option"

definition DefaultOptions :: SstOptions where
  "DefaultOptions =
     \<lparr>so_BlockTargetBytes = 64 * 1024, so_BlockMaxBytes = 256 * 1024, so_RestartInterval = 16,
      so_IndexPartitionEntries = 256, so_FilterPartitioned = True, so_ReadBlockMaxBytes = 0,
      so_ReadBufferMaxBytes = 0, so_UseMmap = False, so_Compression = CompressionSnappy,
      so_BloomBitsPerKey = 10, so_BlockCacheBytes = 64 * 1024 * 1024, so_IndexCacheBytes = 0,
      so_FilterCacheBytes = 0, so_PrefetchBlocks = 2, so_PrefetchBytes = 0,
      so_PrefetchBudgetBlocks = 0, so_PrefetchBudgetBytes = 0, so_PrefetchAsync = False,
      so_PrefetchQueueDepth = 64, so_PrefetchWorkers = 1, so_Checksum = ChecksumCRC32C,
      so_CorruptionPolicy = CorruptionFailFast, so_RestartIntervalAdaptive = False,
      so_RestartIntervalMin = 0, so_RestartIntervalMax = 0, so_PolicyOverride = None\<rparr>"

text \<open>
  \<^verbatim>\<open>Normalize\<close>, one group of assignments after another: the block sizes, the restart
  interval, the read limits, the prefetch settings and the caches.  The flags of disabled
  caches are read before anything is assigned.
\<close>

definition normalize_blocks :: "SstOptions \<Rightarrow> SstOptions" where
  "normalize_blocks opts =
     (let o1 = (if so_BlockTargetBytes opts \<le> 0 then opts\<lparr>so_BlockTargetBytes := 64 * 1024\<rparr> else opts);
          o2 = (if so_BlockMaxBytes o1 \<le> 0 then o1\<lparr>so_BlockMaxBytes := 256 * 1024\<rparr> else o1)
      in if so_BlockMaxBytes o2 < so_BlockTargetBytes o2
         then o2\<lparr>so_BlockMaxBytes := so_BlockTargetBytes o2\<rparr> else o2)"

definition normalize_restarts :: "SstOptions \<Rightarrow> SstOptions" where
  "normalize_restarts opts =
     (let o1 = (if so_RestartInterval opts \<le> 0 then opts\<lparr>so_RestartInterval := 16\<rparr> else opts);
          o2 = (if so_RestartIntervalMin o1 \<le> 0
                then o1\<lparr>so_RestartIntervalMin := so_RestartInterval o1\<rparr> else o1);
          o3 = (if so_RestartIntervalMax o2 \<le> 0
                then o2\<lparr>so_RestartIntervalMax := so_RestartInterval o2\<rparr> else o2);
          o4 = (if so_RestartIntervalMax o3 < so_RestartIntervalMin o3
                then o3\<lparr>so_RestartIntervalMin := so_RestartIntervalMax o3\<rparr> else o3);
          o5 = (if so_RestartInterval o4 < so_RestartIntervalMin o4
                then o4\<lparr>so_RestartInterval := so_RestartIntervalMin o4\<rparr> else o4);
          o6 = (if so_RestartIntervalMax o5 < so_RestartInterval o5
                then o5\<lparr>so_RestartInterval := so_RestartIntervalMax o5\<rparr> else o5)
      in if so_IndexPartitionEntries o6 < 0 then o6\<lparr>so_IndexPartitionEntries := 0\<rparr> else o6)"

definition normalize_reads :: "bool \<Rightarrow> SstOptions \<Rightarrow> SstOptions" where
  "normalize_reads readBufferDisabled opts =
     (let o1 = (if so_ReadBlockMaxBytes opts \<le> 0 \<and> 0 < so_BlockMaxBytes opts
                then opts\<lparr>so_ReadBlockMaxBytes := go_int (so_BlockMaxBytes opts * 4)\<rparr> else opts);
          o2 = (if 0 < so_ReadBlockMaxBytes o1 \<and> so_ReadBlockMaxBytes o1 < so_BlockMaxBytes o1
                then o1\<lparr>so_ReadBlockMaxBytes := so_BlockMaxBytes o1\<rparr> else o1);
          o3 = (if readBufferDisabled then o2\<lparr>so_ReadBufferMaxBytes := 0\<rparr>
                else if so_ReadBufferMaxBytes o2 = 0
                then o2\<lparr>so_ReadBufferMaxBytes := so_ReadBlockMaxBytes o2\<rparr> else o2);
          o4 = (if so_Compression o3 = CompressionOther '''' then o3\<lparr>so_Compression := CompressionSnappy\<rparr>
                else o3)
      in if so_Checksum o4 = ChecksumOther '''' then o4\<lparr>so_Checksum := ChecksumCRC32C\<rparr> else o4)"

definition normalize_prefetch :: "SstOptions \<Rightarrow> SstOptions" where
  "normalize_prefetch opts =
     (let o1 = (if so_PrefetchBlocks opts < 0 then opts\<lparr>so_PrefetchBlocks := 0\<rparr> else opts);
          o2 = (if so_PrefetchBytes o1 < 0 then o1\<lparr>so_PrefetchBytes := 0\<rparr> else o1);
          o3 = (if so_PrefetchBudgetBlocks o2 < 0 then o2\<lparr>so_PrefetchBudgetBlocks := 0\<rparr> else o2);
          o4 = (if so_PrefetchBudgetBytes o3 < 0 then o3\<lparr>so_PrefetchBudgetBytes := 0\<rparr> else o3);
          o5 = (if so_PrefetchQueueDepth o4 \<le> 0 then o4\<lparr>so_PrefetchQueueDepth := 64\<rparr> else o4);
          o6 = (if so_PrefetchWorkers o5 \<le> 0 then o5\<lparr>so_PrefetchWorkers := 1\<rparr> else o5)
      in if so_CorruptionPolicy o6 = CorruptionOther ''''
         then o6\<lparr>so_CorruptionPolicy := CorruptionFailFast\<rparr> else o6)"

definition normalize_caches :: "bool \<Rightarrow> bool \<Rightarrow> SstOptions \<Rightarrow> SstOptions" where
  "normalize_caches indexCacheDisabled filterCacheDisabled opts =
     (let o1 = (if indexCacheDisabled then opts\<lparr>so_IndexCacheBytes := 0\<rparr> else opts);
          o2 = (if filterCacheDisabled then o1\<lparr>so_FilterCacheBytes := 0\<rparr> else o1)
      in if 0 < so_BlockCacheBytes o2 then
           let o3 = (if so_IndexCacheBytes o2 = 0 \<and> \<not> indexCacheDisabled
                     then o2\<lparr>so_IndexCacheBytes := so_BlockCacheBytes o2 div 8\<rparr> else o2)
           in if so_FilterCacheBytes o3 = 0 \<and> \<not> filterCacheDisabled
              then o3\<lparr>so_FilterCacheBytes := so_BlockCacheBytes o3 div 8\<rparr> else o3
         else o2)"

definition Normalize :: "SstOptions \<Rightarrow> SstOptions" where
  "Normalize opts =
     (let indexCacheDisabled = so_IndexCacheBytes opts < 0;
          filterCacheDisabled = so_FilterCacheBytes opts < 0;
          readBufferDisabled = so_ReadBufferMaxBytes opts < 0
      in normalize_caches indexCacheDisabled filterCacheDisabled
           (normalize_prefetch
              (normalize_reads readBufferDisabled (normalize_restarts (normalize_blocks opts)))))"

definition Validate :: "SstOptions \<Rightarrow> lsm_error option" where
  "Validate opts =
     (case so_Compression opts of
        CompressionOther c \<Rightarrow> Some (ErrMsg (''unsupported compression '' @ c))
      | _ \<Rightarrow>
          (case so_Checksum opts of
             ChecksumOther c \<Rightarrow> Some (ErrMsg (''unsupported checksum '' @ c))
           | ChecksumCRC32C \<Rightarrow>
               (case so_CorruptionPolicy opts of
                  CorruptionOther p \<Rightarrow> Some (ErrMsg (''unsupported corruption policy '' @ p))
                | _ \<Rightarrow> None)))"

definition SnapshotFromOptions :: "SstOptions \<Rightarrow> bool \<Rightarrow> bool \<Rightarrow> PolicySnapshot" where
  "SnapshotFromOptions opts partitionedIndex partitionedFilter =
     (let budgetBytes =
            (if so_PrefetchBudgetBytes opts = 0 \<and> 0 < so_PrefetchBytes opts
             then so_PrefetchBytes opts else so_PrefetchBudgetBytes opts);
          budgetBlocks =
            (if so_PrefetchBudgetBlocks opts = 0 \<and> 0 < so_PrefetchBlocks opts
             then so_PrefetchBlocks opts else so_PrefetchBudgetBlocks opts);
          base =
            \<lparr>ps_UsePrefetch = 0 < budgetBytes \<or> 0 < budgetBlocks \<or> so_PrefetchAsync opts,
             ps_PrefetchBudgetBytes = budgetBytes, ps_PrefetchBudgetBlocks = budgetBlocks,
             ps_PrefetchAsync = so_PrefetchAsync opts,
             ps_PrefetchQueueDepth = so_PrefetchQueueDepth opts,
             ps_PrefetchWorkers = so_PrefetchWorkers opts,
             ps_UsePartitionedIndex = partitionedIndex,
             ps_UsePartitionedFilter = partitionedFilter, ps_UseMmap = so_UseMmap opts,
             ps_ReadBufferMaxBytes = so_ReadBufferMaxBytes opts,
             ps_ReadBlockMaxBytes = so_ReadBlockMaxBytes opts,
             ps_CorruptionPolicy = so_CorruptionPolicy opts\<rparr>
      in case so_PolicyOverride opts of Some p \<Rightarrow> p | None \<Rightarrow> base)"

section \<open>What normalisation establishes\<close>

text \<open>The relations between the options that the writer, the builder and the reader assume.\<close>

definition options_ok :: "SstOptions \<Rightarrow> bool" where
  "options_ok opts \<longleftrightarrow>
     0 < so_BlockTargetBytes opts \<and> so_BlockTargetBytes opts \<le> so_BlockMaxBytes opts \<and>
     so_BlockMaxBytes opts \<le> so_ReadBlockMaxBytes opts \<and>
     0 < so_RestartIntervalMin opts \<and> so_RestartIntervalMin opts \<le> so_RestartInterval opts \<and>
     so_RestartInterval opts \<le> so_RestartIntervalMax opts \<and>
     0 \<le> so_IndexPartitionEntries opts \<and> 0 \<le> so_ReadBufferMaxBytes opts \<and>
     0 \<le> so_PrefetchBlocks opts \<and> 0 \<le> so_PrefetchBytes opts \<and>
     0 \<le> so_PrefetchBudgetBlocks opts \<and> 0 \<le> so_PrefetchBudgetBytes opts \<and>
     0 < so_PrefetchQueueDepth opts \<and> 0 < so_PrefetchWorkers opts \<and>
     0 \<le> so_IndexCacheBytes opts \<and> 0 \<le> so_FilterCacheBytes opts \<and>
     so_Compression opts \<noteq> CompressionOther '''' \<and> so_Checksum opts \<noteq> ChecksumOther '''' \<and>
     so_CorruptionPolicy opts \<noteq> CorruptionOther ''''"

text \<open>Each group of assignments leaves the options of the other groups alone.\<close>

lemma normalize_blocks_other [simp]:
  "so_RestartInterval (normalize_blocks opts) = so_RestartInterval opts"
  "so_IndexPartitionEntries (normalize_blocks opts) = so_IndexPartitionEntries opts"
  "so_FilterPartitioned (normalize_blocks opts) = so_FilterPartitioned opts"
  "so_ReadBlockMaxBytes (normalize_blocks opts) = so_ReadBlockMaxBytes opts"
  "so_ReadBufferMaxBytes (normalize_blocks opts) = so_ReadBufferMaxBytes opts"
  "so_UseMmap (normalize_blocks opts) = so_UseMmap opts"
  "so_Compression (normalize_blocks opts) = so_Compression opts"
  "so_BloomBitsPerKey (normalize_blocks opts) = so_BloomBitsPerKey opts"
  "so_BlockCacheBytes (normalize_blocks opts) = so_BlockCacheBytes opts"
  "so_IndexCacheBytes (normalize_blocks opts) = so_IndexCacheBytes opts"
  "so_FilterCacheBytes (normalize_blocks opts) = so_FilterCacheBytes opts"
  "so_PrefetchBlocks (normalize_blocks opts) = so_PrefetchBlocks opts"
  "so_PrefetchBytes (normalize_blocks opts) = so_PrefetchBytes opts"
  "so_PrefetchBudgetBlocks (normalize_blocks opts) = so_PrefetchBudgetBlocks opts"
  "so_PrefetchBudgetBytes (normalize_blocks opts) = so_PrefetchBudgetBytes opts"
  "so_PrefetchAsync (normalize_blocks opts) = so_PrefetchAsync opts"
  "so_PrefetchQueueDepth (normalize_blocks opts) = so_PrefetchQueueDepth opts"
  "so_PrefetchWorkers (normalize_blocks opts) = so_PrefetchWorkers opts"
  "so_Checksum (normalize_blocks opts) = so_Checksum opts"
  "so_CorruptionPolicy (normalize_blocks opts) = so_CorruptionPolicy opts"
  "so_RestartIntervalAdaptive (normalize_blocks opts) = so_RestartIntervalAdaptive opts"
  "so_RestartIntervalMin (normalize_blocks opts) = so_RestartIntervalMin opts"
  "so_RestartIntervalMax (normalize_blocks opts) = so_RestartIntervalMax opts"
  "so_PolicyOverride (normalize_blocks opts) = so_PolicyOverride opts"
  by (simp_all add: normalize_blocks_def Let_def)

lemma normalize_restarts_other [simp]:
  "so_BlockTargetBytes (normalize_restarts opts) = so_BlockTargetBytes opts"
  "so_BlockMaxBytes (normalize_restarts opts) = so_BlockMaxBytes opts"
  "so_FilterPartitioned (normalize_restarts opts) = so_FilterPartitioned opts"
  "so_ReadBlockMaxBytes (normalize_restarts opts) = so_ReadBlockMaxBytes opts"
  "so_ReadBufferMaxBytes (normalize_restarts opts) = so_ReadBufferMaxBytes opts"
  "so_UseMmap (normalize_restarts opts) = so_UseMmap opts"
  "so_Compression (normalize_restarts opts) = so_Compression opts"
  "so_BloomBitsPerKey (normalize_restarts opts) = so_BloomBitsPerKey opts"
  "so_BlockCacheBytes (normalize_restarts opts) = so_BlockCacheBytes opts"
  "so_IndexCacheBytes (normalize_restarts opts) = so_IndexCacheBytes opts"
  "so_FilterCacheBytes (normalize_restarts opts) = so_FilterCacheBytes opts"
  "so_PrefetchBlocks (normalize_restarts opts) = so_PrefetchBlocks opts"
  "so_PrefetchBytes (normalize_restarts opts) = so_PrefetchBytes opts"
  "so_PrefetchBudgetBlocks (normalize_restarts opts) = so_PrefetchBudgetBlocks opts"
  "so_PrefetchBudgetBytes (normalize_restarts opts) = so_PrefetchBudgetBytes opts"
  "so_PrefetchAsync (normalize_restarts opts) = so_PrefetchAsync opts"
  "so_PrefetchQueueDepth (normalize_restarts opts) = so_PrefetchQueueDepth opts"
  "so_PrefetchWorkers (normalize_restarts opts) = so_PrefetchWorkers opts"
  "so_Checksum (normalize_restarts opts) = so_Checksum opts"
  "so_CorruptionPolicy (normalize_restarts opts) = so_CorruptionPolicy opts"
  "so_RestartIntervalAdaptive (normalize_restarts opts) = so_RestartIntervalAdaptive opts"
  "so_PolicyOverride (normalize_restarts opts) = so_PolicyOverride opts"
  by (simp_all add: normalize_restarts_def Let_def)

lemma normalize_reads_other [simp]:
  "so_BlockTargetBytes (normalize_reads rd opts) = so_BlockTargetBytes opts"
  "so_BlockMaxBytes (normalize_reads rd opts) = so_BlockMaxBytes opts"
  "so_RestartInterval (normalize_reads rd opts) = so_RestartInterval opts"
  "so_IndexPartitionEntries (normalize_reads rd opts) = so_IndexPartitionEntries opts"
  "so_FilterPartitioned (normalize_reads rd opts) = so_FilterPartitioned opts"
  "so_UseMmap (normalize_reads rd opts) = so_UseMmap opts"
  "so_BloomBitsPerKey (normalize_reads rd opts) = so_BloomBitsPerKey opts"
  "so_BlockCacheBytes (normalize_reads rd opts) = so_BlockCacheBytes opts"
  "so_IndexCacheBytes (normalize_reads rd opts) = so_IndexCacheBytes opts"
  "so_FilterCacheBytes (normalize_reads rd opts) = so_FilterCacheBytes opts"
  "so_PrefetchBlocks (normalize_reads rd opts) = so_PrefetchBlocks opts"
  "so_PrefetchBytes (normalize_reads rd opts) = so_PrefetchBytes opts"
  "so_PrefetchBudgetBlocks (normalize_reads rd opts) = so_PrefetchBudgetBlocks opts"
  "so_PrefetchBudgetBytes (normalize_reads rd opts) = so_PrefetchBudgetBytes opts"
  "so_PrefetchAsync (normalize_reads rd opts) = so_PrefetchAsync opts"
  "so_PrefetchQueueDepth (normalize_reads rd opts) = so_PrefetchQueueDepth opts"
  "so_PrefetchWorkers (normalize_reads rd opts) = so_PrefetchWorkers opts"
  "so_CorruptionPolicy (normalize_reads rd opts) = so_CorruptionPolicy opts"
  "so_RestartIntervalAdaptive (normalize_reads rd opts) = so_RestartIntervalAdaptive opts"
  "so_RestartIntervalMin (normalize_reads rd opts) = so_RestartIntervalMin opts"
  "so_RestartIntervalMax (normalize_reads rd opts) = so_RestartIntervalMax opts"
  "so_PolicyOverride (normalize_reads rd opts) = so_PolicyOverride opts"
  by (simp_all add: normalize_reads_def Let_def)

lemma normalize_prefetch_other [simp]:
  "so_BlockTargetBytes (normalize_prefetch opts) = so_BlockTargetBytes opts"
  "so_BlockMaxBytes (normalize_prefetch opts) = so_BlockMaxBytes opts"
  "so_RestartInterval (normalize_prefetch opts) = so_RestartInterval opts"
  "so_IndexPartitionEntries (normalize_prefetch opts) = so_IndexPartitionEntries opts"
  "so_FilterPartitioned (normalize_prefetch opts) = so_FilterPartitioned opts"
  "so_ReadBlockMaxBytes (normalize_prefetch opts) = so_ReadBlockMaxBytes opts"
  "so_ReadBufferMaxBytes (normalize_prefetch opts) = so_ReadBufferMaxBytes opts"
  "so_UseMmap (normalize_prefetch opts) = so_UseMmap opts"
  "so_Compression (normalize_prefetch opts) = so_Compression opts"
  "so_BloomBitsPerKey (normalize_prefetch opts) = so_BloomBitsPerKey opts"
  "so_BlockCacheBytes (normalize_prefetch opts) = so_BlockCacheBytes opts"
  "so_IndexCacheBytes (normalize_prefetch opts) = so_IndexCacheBytes opts"
  "so_FilterCacheBytes (normalize_prefetch opts) = so_FilterCacheBytes opts"
  "so_PrefetchAsync (normalize_prefetch opts) = so_PrefetchAsync opts"
  "so_Checksum (normalize_prefetch opts) = so_Checksum opts"
  "so_RestartIntervalAdaptive (normalize_prefetch opts) = so_RestartIntervalAdaptive opts"
  "so_RestartIntervalMin (normalize_prefetch opts) = so_RestartIntervalMin opts"
  "so_RestartIntervalMax (normalize_prefetch opts) = so_RestartIntervalMax opts"
  "so_PolicyOverride (normalize_prefetch opts) = so_PolicyOverride opts"
  by (simp_all add: normalize_prefetch_def Let_def)

lemma normalize_caches_other [simp]:
  "so_BlockTargetBytes (normalize_caches idis fdis opts) = so_BlockTargetBytes opts"
  "so_BlockMaxBytes (normalize_caches idis fdis opts) = so_BlockMaxBytes opts"
  "so_RestartInterval (normalize_caches idis fdis opts) = so_RestartInterval opts"
  "so_IndexPartitionEntries (normalize_caches idis fdis opts) = so_IndexPartitionEntries opts"
  "so_FilterPartitioned (normalize_caches idis fdis opts) = so_FilterPartitioned opts"
  "so_ReadBlockMaxBytes (normalize_caches idis fdis opts) = so_ReadBlockMaxBytes opts"
  "so_ReadBufferMaxBytes (normalize_caches idis fdis opts) = so_ReadBufferMaxBytes opts"
  "so_UseMmap (normalize_caches idis fdis opts) = so_UseMmap opts"
  "so_Compression (normalize_caches idis fdis opts) = so_Compression opts"
  "so_BloomBitsPerKey (normalize_caches idis fdis opts) = so_BloomBitsPerKey opts"
  "so_BlockCacheBytes (normalize_caches idis fdis opts) = so_BlockCacheBytes opts"
  "so_PrefetchBlocks (normalize_caches idis fdis opts) = so_PrefetchBlocks opts"
  "so_PrefetchBytes (normalize_caches idis fdis opts) = so_PrefetchBytes opts"
  "so_PrefetchBudgetBlocks (normalize_caches idis fdis opts) = so_PrefetchBudgetBlocks opts"
  "so_PrefetchBudgetBytes (normalize_caches idis fdis opts) = so_PrefetchBudgetBytes opts"
  "so_PrefetchAsync (normalize_caches idis fdis opts) = so_PrefetchAsync opts"
  "so_PrefetchQueueDepth (normalize_caches idis fdis opts) = so_PrefetchQueueDepth opts"
  "so_PrefetchWorkers (normalize_caches idis fdis opts) = so_PrefetchWorkers opts"
  "so_Checksum (normalize_caches idis fdis opts) = so_Checksum opts"
  "so_CorruptionPolicy (normalize_caches idis fdis opts) = so_CorruptionPolicy opts"
  "so_RestartIntervalAdaptive (normalize_caches idis fdis opts) = so_RestartIntervalAdaptive opts"
  "so_RestartIntervalMin (normalize_caches idis fdis opts) = so_RestartIntervalMin opts"
  "so_RestartIntervalMax (normalize_caches idis fdis opts) = so_RestartIntervalMax opts"
  "so_PolicyOverride (normalize_caches idis fdis opts) = so_PolicyOverride opts"
  by (simp_all add: normalize_caches_def Let_def)

lemma normalize_blocks_ok:
  "0 < so_BlockTargetBytes (normalize_blocks opts)"
  "so_BlockTargetBytes (normalize_blocks opts) \<le> so_BlockMaxBytes (normalize_blocks opts)"
  by (simp_all add: normalize_blocks_def Let_def)

lemma normalize_restarts_ok:
  "0 < so_RestartIntervalMin (normalize_restarts opts)"
  "so_RestartIntervalMin (normalize_restarts opts) \<le> so_RestartInterval (normalize_restarts opts)"
  "so_RestartInterval (normalize_restarts opts) \<le> so_RestartIntervalMax (normalize_restarts opts)"
  "0 \<le> so_IndexPartitionEntries (normalize_restarts opts)"
  by (simp_all add: normalize_restarts_def Let_def)

text \<open>
  The read limit is not positive afterwards when it was not given and four times the block size wraps to a value
  that is not positive.
\<close>

definition read_limit_wraps :: "SstOptions \<Rightarrow> bool" where
  "read_limit_wraps opts \<longleftrightarrow> so_ReadBlockMaxBytes opts \<le> 0 \<and> go_int (so_BlockMaxBytes opts * 4) \<le> 0"

lemma normalize_reads_limit:
  assumes "0 < so_BlockMaxBytes opts"
  shows "if read_limit_wraps opts then so_ReadBlockMaxBytes (normalize_reads rd opts) \<le> 0
         else so_BlockMaxBytes opts \<le> so_ReadBlockMaxBytes (normalize_reads rd opts)"
  using assms by (auto simp: normalize_reads_def read_limit_wraps_def Let_def)

lemma normalize_reads_ok:
  "0 < so_BlockMaxBytes opts \<Longrightarrow> \<not> read_limit_wraps opts \<Longrightarrow> (\<not> rd \<Longrightarrow> 0 \<le> so_ReadBufferMaxBytes opts) \<Longrightarrow>
     0 \<le> so_ReadBufferMaxBytes (normalize_reads rd opts)"
  "so_Compression (normalize_reads rd opts) \<noteq> CompressionOther []"
  "so_Checksum (normalize_reads rd opts) \<noteq> ChecksumOther []"
  by (auto simp: normalize_reads_def read_limit_wraps_def Let_def)

lemma normalize_prefetch_ok:
  "0 \<le> so_PrefetchBlocks (normalize_prefetch opts)" "0 \<le> so_PrefetchBytes (normalize_prefetch opts)"
  "0 \<le> so_PrefetchBudgetBlocks (normalize_prefetch opts)"
  "0 \<le> so_PrefetchBudgetBytes (normalize_prefetch opts)"
  "0 < so_PrefetchQueueDepth (normalize_prefetch opts)"
  "0 < so_PrefetchWorkers (normalize_prefetch opts)"
  "so_CorruptionPolicy (normalize_prefetch opts) \<noteq> CorruptionOther []"
  by (simp_all add: normalize_prefetch_def Let_def)

lemma normalize_caches_ok:
  "(\<not> idis \<Longrightarrow> 0 \<le> so_IndexCacheBytes opts) \<Longrightarrow>
     0 \<le> so_IndexCacheBytes (normalize_caches idis fdis opts)"
  "(\<not> fdis \<Longrightarrow> 0 \<le> so_FilterCacheBytes opts) \<Longrightarrow>
     0 \<le> so_FilterCacheBytes (normalize_caches idis fdis opts)"
  by (auto simp: normalize_caches_def Let_def)

lemma Normalize_limits:
  "so_BlockMaxBytes (Normalize opts) = so_BlockMaxBytes (normalize_blocks opts)"
  "so_ReadBlockMaxBytes (Normalize opts) =
     so_ReadBlockMaxBytes (normalize_reads (so_ReadBufferMaxBytes opts < 0) (normalize_restarts (normalize_blocks opts)))"
  by (simp_all add: Normalize_def Let_def)

lemma Normalize_options_ok_iff:
  "options_ok (Normalize opts) \<longleftrightarrow> \<not> read_limit_wraps (normalize_restarts (normalize_blocks opts))"
proof -
  let ?o = "normalize_restarts (normalize_blocks opts)"
  have max: "0 < so_BlockMaxBytes ?o" using normalize_blocks_ok [of opts] by simp
  note limit = normalize_reads_limit [OF max, of "so_ReadBufferMaxBytes opts < 0"]
  show ?thesis
  proof (cases "read_limit_wraps ?o")
    case True
    then have "so_ReadBlockMaxBytes (Normalize opts) < so_BlockMaxBytes (Normalize opts)"
      using limit max by (simp add: Normalize_limits)
    then show ?thesis using True by (simp add: options_ok_def)
  next
    case False
    then have "so_BlockMaxBytes ?o \<le> so_ReadBlockMaxBytes (normalize_reads (so_ReadBufferMaxBytes opts < 0) ?o)"
      using limit by simp
    then have "options_ok (Normalize opts)"
      using max False unfolding options_ok_def Normalize_def Let_def
      by (intro conjI)
         (simp_all add: normalize_blocks_ok normalize_restarts_ok normalize_reads_ok
           normalize_prefetch_ok normalize_caches_ok not_less)
    then show ?thesis using False by simp
  qed
qed

lemma Normalize_options_ok:
  assumes "0 < so_ReadBlockMaxBytes (Normalize opts)"
  shows "options_ok (Normalize opts)"
proof -
  have "0 < so_BlockMaxBytes (normalize_restarts (normalize_blocks opts))" using normalize_blocks_ok [of opts] by simp
  from normalize_reads_limit [OF this, of "so_ReadBufferMaxBytes opts < 0"] assms show ?thesis
    by (simp add: Normalize_options_ok_iff Normalize_limits split: if_splits)
qed

section \<open>Properties\<close>

text \<open>
  C25: when normalisation establishes the relations the writer and the reader work with: positive block sizes with
  target, maximum and read limit in order, a restart interval inside its bounds, no negative budget, and named
  algorithms wherever none was given.  It does so exactly when a positive read limit was given or four times the
  block size, at 64 bits, is positive; in particular for block sizes below \<open>2 ^ 61\<close>.  For block sizes from
  \<open>2 ^ 61\<close> up to \<open>2 ^ 62\<close> without a read limit the product wraps and the read limit is not positive.
\<close>

theorem Normalize_establishes:
  "(options_ok (Normalize opts) \<longleftrightarrow>
      0 < so_ReadBlockMaxBytes opts \<or> 0 < go_int (so_BlockMaxBytes (Normalize opts) * 4)) \<and>
   (so_BlockMaxBytes (Normalize opts) < 2 ^ 61 \<longrightarrow> options_ok (Normalize opts)) \<and>
   (so_ReadBlockMaxBytes opts \<le> 0 \<and> so_BlockMaxBytes (Normalize opts) \<in> {2 ^ 61..2 ^ 62} \<longrightarrow>
      so_ReadBlockMaxBytes (Normalize opts) \<le> 0) \<and>
   (Validate (Normalize opts) = None \<longleftrightarrow>
      so_Compression (Normalize opts) \<in> {CompressionNone, CompressionSnappy} \<and>
      so_Checksum (Normalize opts) = ChecksumCRC32C \<and>
      so_CorruptionPolicy (Normalize opts) \<in>
        {CorruptionFailFast, CorruptionSkipBlock, CorruptionDropTable})"
proof -
  let ?n = "so_BlockMaxBytes (Normalize opts)"
  have n: "0 < ?n" using normalize_blocks_ok [of opts] by (simp add: Normalize_limits)
  have wraps: "read_limit_wraps (normalize_restarts (normalize_blocks opts)) \<longleftrightarrow>
      so_ReadBlockMaxBytes opts \<le> 0 \<and> go_int (?n * 4) \<le> 0"
    by (simp add: read_limit_wraps_def Normalize_limits)
  have iff: "options_ok (Normalize opts) \<longleftrightarrow> 0 < so_ReadBlockMaxBytes opts \<or> 0 < go_int (?n * 4)"
    by (auto simp: Normalize_options_ok_iff wraps)
  have small: "go_int (?n * 4) = ?n * 4" if "?n < 2 ^ 61" using that n by (intro go_int_id) simp_all
  have large: "go_int (?n * 4) \<le> 0" if "?n \<in> {2 ^ 61..2 ^ 62}"
    using that by (intro go_int_wraps) simp_all
  have limit: "so_ReadBlockMaxBytes (Normalize opts) \<le> 0" if "so_ReadBlockMaxBytes opts \<le> 0" "go_int (?n * 4) \<le> 0"
    using that wraps n normalize_reads_limit [of "normalize_restarts (normalize_blocks opts)" "so_ReadBufferMaxBytes opts < 0"]
    by (simp add: Normalize_limits)
  have "Validate (Normalize opts) = None \<longleftrightarrow>
      so_Compression (Normalize opts) \<in> {CompressionNone, CompressionSnappy} \<and>
      so_Checksum (Normalize opts) = ChecksumCRC32C \<and>
      so_CorruptionPolicy (Normalize opts) \<in>
        {CorruptionFailFast, CorruptionSkipBlock, CorruptionDropTable}"
    by (auto simp: Validate_def split: Compression.splits ChecksumName.splits CorruptionPolicy.splits)
  then show ?thesis using iff small large limit n by auto
qed

theorem Normalize_establishes_witness:
  "options_ok (Normalize DefaultOptions) \<and>
   so_ReadBlockMaxBytes (Normalize (DefaultOptions\<lparr>so_BlockMaxBytes := 2 ^ 61\<rparr>)) \<le> 0"
proof -
  have "so_BlockMaxBytes (Normalize DefaultOptions) = 262144"
    "so_BlockMaxBytes (Normalize (DefaultOptions\<lparr>so_BlockMaxBytes := 2 ^ 61\<rparr>)) = 2 ^ 61"
    by (simp_all add: Normalize_limits normalize_blocks_def DefaultOptions_def)
  moreover have "so_ReadBlockMaxBytes DefaultOptions = 0" by (simp add: DefaultOptions_def)
  ultimately have "options_ok (Normalize DefaultOptions)"
    "so_ReadBlockMaxBytes (Normalize (DefaultOptions\<lparr>so_BlockMaxBytes := 2 ^ 61\<rparr>)) \<le> 0"
    using Normalize_establishes [of DefaultOptions, THEN conjunct2, THEN conjunct1]
      Normalize_establishes [of "DefaultOptions\<lparr>so_BlockMaxBytes := 2 ^ 61\<rparr>", THEN conjunct2, THEN conjunct2, THEN conjunct1]
    by simp_all
  then show ?thesis ..
qed

text \<open>
  C33: normalisation is not idempotent.  A cache that was switched off by a negative size has the
  size zero afterwards, and a second normalisation gives it its default size: the writer
  normalises its options and the reader it opens normalises them again, so a flushed table is
  read through the caches that were meant to be off.
\<close>

theorem Normalize_reenables_caches:
  assumes "so_IndexCacheBytes opts < 0" and "8 \<le> so_BlockCacheBytes opts"
  shows "so_IndexCacheBytes (Normalize opts) = 0 \<and>
         so_IndexCacheBytes (Normalize (Normalize opts)) = so_BlockCacheBytes opts div 8 \<and>
         0 < so_IndexCacheBytes (Normalize (Normalize opts))"
proof -
  have one: "so_IndexCacheBytes (Normalize opts) = 0"
    using assms(1) by (simp add: Normalize_def normalize_caches_def Let_def)
  have block: "so_BlockCacheBytes (Normalize opts) = so_BlockCacheBytes opts"
    by (simp add: Normalize_def Let_def)
  have "so_IndexCacheBytes (Normalize o') = so_BlockCacheBytes o' div 8"
    if "so_IndexCacheBytes o' = 0" "0 < so_BlockCacheBytes o'" for o'
    using that unfolding Normalize_def Let_def by (simp add: normalize_caches_def Let_def)
  with one block assms(2) show ?thesis by simp
qed

theorem Normalize_reenables_caches_witness:
  "so_IndexCacheBytes (Normalize (DefaultOptions\<lparr>so_IndexCacheBytes := - 1\<rparr>)) = 0 \<and>
   so_IndexCacheBytes (Normalize (Normalize (DefaultOptions\<lparr>so_IndexCacheBytes := - 1\<rparr>))) =
     8 * 1024 * 1024"
  using Normalize_reenables_caches [of "DefaultOptions\<lparr>so_IndexCacheBytes := - 1\<rparr>"]
  by (simp add: DefaultOptions_def)

end
