(* ===== verification/Sst_Pipeline.thy ===== *)
theory Sst_Pipeline
  imports Block_Cache Sst_Options
begin

text \<open>
  The read pipeline of a sorted table, \<^verbatim>\<open>internal/lsm/sstable/flow_pipeline.go\<close>, over the
  block source of \<^verbatim>\<open>sstable/storage/source.go\<close>: filter, index, data and decode nodes, the
  registry of block nodes, the caches and the prefetcher.

  The source holds the file's bytes and a list of the outcomes of its next reads; an empty list
  means success.  The buffer pool only recycles memory and has no field.  A context is the error
  it carries, if any, for the time of the call.  Nodes share the pipeline's source, caches and
  registry by pointer, so each operation takes and returns the whole \<open>Pipeline\<close>.  The parameter
  \<open>dec\<close> is \<^verbatim>\<open>snappy.Decode\<close>.  Observers only receive events.
\<close>

section \<open>Block source\<close>

record BlockDescriptor =
  ds_ID :: u64
  ds_Type :: BlockType
  ds_Offset :: u64
  ds_Length :: u32
  ds_Key :: bytes

record BlockSource =
  sc_file :: bool
  sc_data :: bytes
  sc_size :: nat
  sc_mmap :: bool
  sc_faults :: "lsm_error option list"

definition NewBlockSource :: "bytes \<Rightarrow> nat \<Rightarrow> bool \<Rightarrow> lsm_error option list \<Rightarrow> BlockSource" where
  "NewBlockSource data sz useMmap faults =
     \<lparr>sc_file = True, sc_data = data, sc_size = sz, sc_mmap = useMmap \<and> 0 < sz,
      sc_faults = faults\<rparr>"

definition ReadAt :: "nat \<Rightarrow> nat \<Rightarrow> BlockSource \<Rightarrow> bytes result \<times> BlockSource" where
  "ReadAt off len s =
     (case sc_faults s of
        Some e # fs \<Rightarrow> (Inl e, s\<lparr>sc_faults := fs\<rparr>)
      | fs \<Rightarrow> (Inr (bslice off (off + len) (sc_data s)), s\<lparr>sc_faults := drop 1 fs\<rparr>))"

definition Source_Read ::
  "lsm_error option \<Rightarrow> BlockDescriptor \<Rightarrow> BlockSource \<Rightarrow> bytes result \<times> BlockSource" where
  "Source_Read ctx desc s =
     (if ds_Length desc = 0 then (Inl ErrEOF, s)
      else case ctx of
        Some e \<Rightarrow> (Inl e, s)
      | None \<Rightarrow>
          if \<not> sc_file s then (Inl ErrEOF, s)
          else
            let off = unat (ds_Offset desc); len = unat (ds_Length desc)
            in if sc_size s < off \<or> sc_size s < off + len then (Inl ErrEOF, s)
               else if sc_mmap s then (go_slice off (off + len) (sc_data s), s)
               else ReadAt off len s)"

definition ReadBlockPayload ::
  "(bytes \<Rightarrow> bytes option) \<Rightarrow> lsm_error option \<Rightarrow> BlockDescriptor \<Rightarrow> lsm_error \<Rightarrow> BlockSource \<Rightarrow>
     bytes result \<times> BlockSource" where
  "ReadBlockPayload dec ctx desc errBad s =
     (case Source_Read ctx desc s of
        (Inl e, s') \<Rightarrow> (Inl (if e = ErrEOF then errBad else e), s')
      | (Inr data, s') \<Rightarrow> (DecodeBlockPayload dec data (ds_Type desc) (Some errBad), s'))"

section \<open>The pipeline\<close>

record nodeRegistry =
  nr_data :: "u64 \<rightharpoonup> BlockDescriptor"
  nr_index :: "u64 \<rightharpoonup> BlockDescriptor"
  nr_filter :: "u64 \<rightharpoonup> BlockDescriptor"

record PrefetchBudget =
  pb_bytes :: int
  pb_blocks :: int

definition NewPrefetchBudget :: "PolicySnapshot \<Rightarrow> PrefetchBudget option" where
  "NewPrefetchBudget policy =
     (if 0 < ps_PrefetchBudgetBytes policy
      then Some \<lparr>pb_bytes = ps_PrefetchBudgetBytes policy, pb_blocks = 0\<rparr>
      else if 0 < ps_PrefetchBudgetBlocks policy
      then Some \<lparr>pb_bytes = 0, pb_blocks = ps_PrefetchBudgetBlocks policy\<rparr>
      else None)"

text \<open>
  \<open>pl_prefetcher\<close> says whether the prefetch node exists and \<open>pl_queue\<close> is its channel, \<open>None\<close>
  when it is nil.
\<close>

record Pipeline =
  pl_source :: BlockSource
  pl_nodes :: nodeRegistry
  pl_cache :: "BlockCache option"
  pl_indexCache :: "IndexCache option"
  pl_filterCache :: "FilterCache option"
  pl_top :: "IndexEntry list"
  pl_indexPartitioned :: bool
  pl_filter :: "BloomFilter option"
  pl_filterIndex :: "IndexEntry list"
  pl_filterPartitioned :: bool
  pl_size :: nat
  pl_policy :: PolicySnapshot
  pl_prefetcher :: bool
  pl_queue :: "IndexEntry list option"

definition newNodeRegistry :: nodeRegistry where
  "newNodeRegistry = \<lparr>nr_data = Map.empty, nr_index = Map.empty, nr_filter = Map.empty\<rparr>"

definition Prefetch_Start :: "Pipeline \<Rightarrow> Pipeline" where
  "Prefetch_Start p =
     (if \<not> pl_prefetcher p \<or> \<not> ps_PrefetchAsync (pl_policy p) \<or> pl_queue p \<noteq> None then p
      else p\<lparr>pl_queue := Some []\<rparr>)"

definition NewPipeline ::
  "BlockSource \<Rightarrow> BlockCache option \<Rightarrow> IndexCache option \<Rightarrow> FilterCache option \<Rightarrow>
     IndexEntry list \<Rightarrow> bool \<Rightarrow> BloomFilter option \<Rightarrow> IndexEntry list \<Rightarrow> bool \<Rightarrow> nat \<Rightarrow>
     PolicySnapshot \<Rightarrow> Pipeline" where
  "NewPipeline source cache indexCache filterCache entries indexPartitioned flt filterIndex
     filterPartitioned sz policy =
     (let p = \<lparr>pl_source = source, pl_nodes = newNodeRegistry, pl_cache = cache,
               pl_indexCache = indexCache, pl_filterCache = filterCache, pl_top = entries,
               pl_indexPartitioned = indexPartitioned, pl_filter = flt,
               pl_filterIndex = filterIndex, pl_filterPartitioned = filterPartitioned,
               pl_size = sz, pl_policy = policy,
               pl_prefetcher = ps_UsePrefetch policy \<and> cache \<noteq> None, pl_queue = None\<rparr>
      in if pl_prefetcher p \<and> ps_PrefetchAsync policy then Prefetch_Start p else p)"

section \<open>Block nodes\<close>

definition registry_node ::
  "(u64 \<rightharpoonup> BlockDescriptor) \<Rightarrow> BlockDescriptor \<Rightarrow> BlockDescriptor \<times> (u64 \<rightharpoonup> BlockDescriptor)" where
  "registry_node m desc =
     (case m (ds_Offset desc) of
        Some d \<Rightarrow> if ds_Length d = ds_Length desc then (d, m) else (desc, m(ds_Offset desc \<mapsto> desc))
      | None \<Rightarrow> (desc, m(ds_Offset desc \<mapsto> desc)))"

definition registry_dataNode :: "BlockDescriptor \<Rightarrow> Pipeline \<Rightarrow> BlockDescriptor \<times> Pipeline" where
  "registry_dataNode desc p =
     (let (node, m) = registry_node (nr_data (pl_nodes p)) desc
      in (node, p\<lparr>pl_nodes := (pl_nodes p)\<lparr>nr_data := m\<rparr>\<rparr>))"

definition registry_indexNode :: "BlockDescriptor \<Rightarrow> Pipeline \<Rightarrow> BlockDescriptor \<times> Pipeline" where
  "registry_indexNode desc p =
     (let (node, m) = registry_node (nr_index (pl_nodes p)) desc
      in (node, p\<lparr>pl_nodes := (pl_nodes p)\<lparr>nr_index := m\<rparr>\<rparr>))"

definition registry_filterNode :: "BlockDescriptor \<Rightarrow> Pipeline \<Rightarrow> BlockDescriptor \<times> Pipeline" where
  "registry_filterNode desc p =
     (let (node, m) = registry_node (nr_filter (pl_nodes p)) desc
      in (node, p\<lparr>pl_nodes := (pl_nodes p)\<lparr>nr_filter := m\<rparr>\<rparr>))"

definition dataBlockNode_Fetch ::
  "(bytes \<Rightarrow> bytes option) \<Rightarrow> lsm_error option \<Rightarrow> BlockDescriptor \<Rightarrow> Pipeline \<Rightarrow>
     (Block \<times> bool) result \<times> Pipeline" where
  "dataBlockNode_Fetch dec ctx desc p0 =
     (case BlockCache_Get (pl_cache p0) (ds_Offset desc) of
        (Some blk, c) \<Rightarrow> (Inr (blk, True), p0\<lparr>pl_cache := c\<rparr>)
      | (None, c) \<Rightarrow>
          let p = p0\<lparr>pl_cache := c\<rparr>
          in (case Source_Read ctx desc (pl_source p) of
                (Inl e, s) \<Rightarrow>
                  (Inl (if e = ErrEOF then ErrSSTableBadBlock else e), p\<lparr>pl_source := s\<rparr>)
              | (Inr data, s) \<Rightarrow>
                  let p = p\<lparr>pl_source := s\<rparr>
                  in (case bind_result
                             (DecodeBlockPayload dec data BlockTypeData (Some ErrSSTableBadBlock))
                             Block_Decode of
                        Inl e \<Rightarrow> (Inl e, p)
                      | Inr blk \<Rightarrow>
                          (Inr (blk, False),
                           p\<lparr>pl_cache := BlockCache_Add (pl_cache p) (ds_Offset desc) blk\<rparr>))))"

definition indexBlockNode_Fetch ::
  "(bytes \<Rightarrow> bytes option) \<Rightarrow> lsm_error option \<Rightarrow> BlockDescriptor \<Rightarrow> Pipeline \<Rightarrow>
     IndexEntry list result \<times> Pipeline" where
  "indexBlockNode_Fetch dec ctx desc p0 =
     (case IndexCache_Get (pl_indexCache p0) (ds_Offset desc) of
        (Some entries, c) \<Rightarrow> (Inr entries, p0\<lparr>pl_indexCache := c\<rparr>)
      | (None, c) \<Rightarrow>
          let p = p0\<lparr>pl_indexCache := c\<rparr>
          in (case Source_Read ctx desc (pl_source p) of
                (Inl e, s) \<Rightarrow>
                  (Inl (if e = ErrEOF then ErrSSTableBadIndex else e), p\<lparr>pl_source := s\<rparr>)
              | (Inr data, s) \<Rightarrow>
                  let p = p\<lparr>pl_source := s\<rparr>
                  in (case bind_result
                             (DecodeBlockPayload dec data BlockTypeIndex (Some ErrSSTableBadIndex))
                             DecodeIndex of
                        Inl e \<Rightarrow> (Inl e, p)
                      | Inr entries \<Rightarrow>
                          (Inr entries,
                           p\<lparr>pl_indexCache :=
                               IndexCache_Add (pl_indexCache p) (ds_Offset desc) entries\<rparr>))))"

definition filterBlockNode_Fetch ::
  "(bytes \<Rightarrow> bytes option) \<Rightarrow> lsm_error option \<Rightarrow> BlockDescriptor \<Rightarrow> Pipeline \<Rightarrow>
     BloomFilter result \<times> Pipeline" where
  "filterBlockNode_Fetch dec ctx desc p0 =
     (case FilterCache_Get (pl_filterCache p0) (ds_Offset desc) of
        (Some flt, c) \<Rightarrow> (Inr flt, p0\<lparr>pl_filterCache := c\<rparr>)
      | (None, c) \<Rightarrow>
          let p = p0\<lparr>pl_filterCache := c\<rparr>
          in (case Source_Read ctx desc (pl_source p) of
                (Inl e, s) \<Rightarrow>
                  (Inl (if e = ErrEOF then ErrSSTableBadMeta else e), p\<lparr>pl_source := s\<rparr>)
              | (Inr data, s) \<Rightarrow>
                  let p = p\<lparr>pl_source := s\<rparr>
                  in (case DecodeBlockPayload dec data BlockTypeFilter (Some ErrSSTableBadMeta) of
                        Inl e \<Rightarrow> (Inl e, p)
                      | Inr payload \<Rightarrow>
                          (case Filter_Decode payload of
                             None \<Rightarrow> (Inl ErrSSTableBadMeta, p)
                           | Some flt \<Rightarrow>
                               (Inr flt,
                                p\<lparr>pl_filterCache :=
                                    FilterCache_Add (pl_filterCache p) (ds_Offset desc) flt\<rparr>)))))"

definition entry_desc :: "BlockType \<Rightarrow> IndexEntry \<Rightarrow> BlockDescriptor" where
  "entry_desc typ e =
     \<lparr>ds_ID = ie_Offset e, ds_Type = typ, ds_Offset = ie_Offset e, ds_Length = ie_Length e,
      ds_Key = ie_Key e\<rparr>"

section \<open>Data and index nodes\<close>

text \<open>\<^verbatim>\<open>int64(Offset) + int64(Length)\<close> is the signed reading of the 64-bit sum.\<close>

definition validateEntry :: "Pipeline \<Rightarrow> IndexEntry \<Rightarrow> lsm_error \<Rightarrow> lsm_error option" where
  "validateEntry p e errBad =
     (if ie_Length e = 0 then Some errBad
      else if 0 < ps_ReadBlockMaxBytes (pl_policy p) \<and>
              ps_ReadBlockMaxBytes (pl_policy p) < int (unat (ie_Length e)) then Some errBad
      else if 0 < pl_size p \<and> int (pl_size p) < sint (ie_Offset e + ucast (ie_Length e))
      then Some errBad else None)"

definition dataNode_fetch ::
  "(bytes \<Rightarrow> bytes option) \<Rightarrow> lsm_error option \<Rightarrow> IndexEntry \<Rightarrow> Pipeline \<Rightarrow>
     (Block \<times> bool) result \<times> Pipeline" where
  "dataNode_fetch dec ctx e p =
     (let (node, p) = registry_dataNode (entry_desc BlockTypeData e) p
      in dataBlockNode_Fetch dec ctx node p)"

definition ReadBlockEntry ::
  "(bytes \<Rightarrow> bytes option) \<Rightarrow> IndexEntry \<Rightarrow> Pipeline \<Rightarrow> Block result \<times> Pipeline" where
  "ReadBlockEntry dec e p =
     (case validateEntry p e ErrSSTableBadBlock of
        Some err \<Rightarrow> (Inl err, p)
      | None \<Rightarrow>
          (case dataNode_fetch dec None e p of
             (Inl err, p') \<Rightarrow> (Inl err, p')
           | (Inr (blk, _), p') \<Rightarrow> (Inr blk, p')))"

fun back_loop :: "IndexEntry list \<Rightarrow> bytes \<Rightarrow> nat \<Rightarrow> nat" where
  "back_loop entries key 0 = 0"
| "back_loop entries key (Suc i) =
     (if ie_Key (entries ! i) = key then back_loop entries key i else Suc i)"

text \<open>\<^verbatim>\<open>findBlock\<close>; \<open>None\<close> is the result -1.\<close>

definition findBlock :: "IndexEntry list \<Rightarrow> bytes \<Rightarrow> nat option" where
  "findBlock entries key =
     (if entries = [] then None
      else if key < ie_Key (entries ! 0) then None
      else
        let i = sort_Search (length entries) (\<lambda>i. key < ie_Key (entries ! i))
        in if i = 0 then None
           else
             let idx = i - 1
             in Some (if ie_Key (entries ! idx) = key then back_loop entries key idx else idx))"

definition readPartition ::
  "(bytes \<Rightarrow> bytes option) \<Rightarrow> lsm_error option \<Rightarrow> IndexEntry \<Rightarrow> Pipeline \<Rightarrow>
     IndexEntry list result \<times> Pipeline" where
  "readPartition dec ctx e p =
     (let (node, p) = registry_indexNode (entry_desc BlockTypeIndex e) p
      in indexBlockNode_Fetch dec ctx node p)"

definition indexNode_Find ::
  "(bytes \<Rightarrow> bytes option) \<Rightarrow> lsm_error option \<Rightarrow> bytes \<Rightarrow> Pipeline \<Rightarrow>
     IndexEntry option result \<times> Pipeline" where
  "indexNode_Find dec ctx key p =
     (if \<not> pl_indexPartitioned p then
        (case findBlock (pl_top p) key of
           None \<Rightarrow> (Inr None, p)
         | Some idx \<Rightarrow> (Inr (Some (pl_top p ! idx)), p))
      else
        (case findBlock (pl_top p) key of
           None \<Rightarrow> (Inr None, p)
         | Some partIdx \<Rightarrow>
             (case readPartition dec ctx (pl_top p ! partIdx) p of
                (Inl e, p') \<Rightarrow> (Inl e, p')
              | (Inr part, p') \<Rightarrow>
                  (case findBlock part key of
                     None \<Rightarrow> (Inr None, p')
                   | Some idx \<Rightarrow> (Inr (Some (part ! idx)), p')))))"

text \<open>The operations change caches, registry, queue and the outcomes of reads only.\<close>

definition same_table :: "Pipeline \<Rightarrow> Pipeline \<Rightarrow> bool" where
  "same_table p p' \<longleftrightarrow>
     pl_top p' = pl_top p \<and> pl_indexPartitioned p' = pl_indexPartitioned p \<and>
     pl_filter p' = pl_filter p \<and> pl_filterIndex p' = pl_filterIndex p \<and>
     pl_filterPartitioned p' = pl_filterPartitioned p \<and> pl_size p' = pl_size p \<and>
     pl_policy p' = pl_policy p \<and> pl_prefetcher p' = pl_prefetcher p \<and>
     sc_file (pl_source p') = sc_file (pl_source p) \<and> sc_data (pl_source p') = sc_data (pl_source p) \<and>
     sc_size (pl_source p') = sc_size (pl_source p) \<and> sc_mmap (pl_source p') = sc_mmap (pl_source p)"

lemma same_table_refl [simp]: "same_table p p"
  by (simp add: same_table_def)

lemma same_table_trans [trans]: "same_table p q \<Longrightarrow> same_table q r \<Longrightarrow> same_table p r"
  by (simp add: same_table_def)

lemma Source_Read_same:
  "Source_Read ctx desc s = (r, s') \<Longrightarrow>
     sc_file s' = sc_file s \<and> sc_data s' = sc_data s \<and> sc_size s' = sc_size s \<and> sc_mmap s' = sc_mmap s"
  by (auto simp: Source_Read_def ReadAt_def Let_def split: if_splits option.splits list.splits)

lemma registry_same:
  "registry_dataNode desc p = (d, p1) \<Longrightarrow> same_table p p1"
  "registry_indexNode desc p = (d, p2) \<Longrightarrow> same_table p p2"
  "registry_filterNode desc p = (d, p3) \<Longrightarrow> same_table p p3"
  by (auto simp: registry_dataNode_def registry_indexNode_def registry_filterNode_def same_table_def
      split: prod.splits)

lemma same_table_upd [simp]:
  "same_table p (q\<lparr>pl_cache := c\<rparr>) = same_table p q"
  "same_table p (q\<lparr>pl_indexCache := ic\<rparr>) = same_table p q"
  "same_table p (q\<lparr>pl_filterCache := fc\<rparr>) = same_table p q"
  "same_table p (q\<lparr>pl_queue := qu\<rparr>) = same_table p q"
  by (simp_all add: same_table_def)

lemma same_table_source:
  "Source_Read ctx desc (pl_source p) = (r, s) \<Longrightarrow> same_table p (p\<lparr>pl_source := s\<rparr>)"
  using Source_Read_same [of ctx desc "pl_source p" r s] by (simp add: same_table_def)

lemma same_table_source_upd [simp]:
  "same_table p (q\<lparr>pl_cache := c, pl_source := s\<rparr>) = same_table p (q\<lparr>pl_source := s\<rparr>)"
  "same_table p (q\<lparr>pl_indexCache := ic, pl_source := s\<rparr>) = same_table p (q\<lparr>pl_source := s\<rparr>)"
  "same_table p (q\<lparr>pl_filterCache := fc, pl_source := s\<rparr>) = same_table p (q\<lparr>pl_source := s\<rparr>)"
  by (simp_all add: same_table_def)

lemma Fetch_same:
  shows dataFetch_same: "dataBlockNode_Fetch dec ctx desc p = (r1, p1) \<Longrightarrow> same_table p p1"
    and indexFetch_same: "indexBlockNode_Fetch dec ctx desc p = (r2, p2) \<Longrightarrow> same_table p p2"
    and filterFetch_same: "filterBlockNode_Fetch dec ctx desc p = (r3, p3) \<Longrightarrow> same_table p p3"
  unfolding dataBlockNode_Fetch_def indexBlockNode_Fetch_def filterBlockNode_Fetch_def Let_def
  by (auto simp: same_table_source split: prod.splits option.splits sum.splits)

lemma readPartition_same: "readPartition dec ctx e p = (r, p') \<Longrightarrow> same_table p p'"
  unfolding readPartition_def
  by (auto split: prod.splits dest: registry_same(2) indexFetch_same intro: same_table_trans)

section \<open>Filter node and the flow of a point read\<close>

definition filterNode_MayContain ::
  "(bytes \<Rightarrow> bytes option) \<Rightarrow> lsm_error option \<Rightarrow> bytes \<Rightarrow> Pipeline \<Rightarrow> bool result \<times> Pipeline" where
  "filterNode_MayContain dec ctx key p =
     (if \<not> pl_filterPartitioned p then
        (case pl_filter p of
           None \<Rightarrow> (Inr True, p)
         | Some f \<Rightarrow> (MayContain (Some f) key, p))
      else if pl_filterIndex p = [] then (Inr True, p)
      else
        (case findBlock (pl_filterIndex p) key of
           None \<Rightarrow> (Inr True, p)
         | Some idx \<Rightarrow>
             let (node, p) = registry_filterNode (entry_desc BlockTypeFilter (pl_filterIndex p ! idx)) p
             in (case filterBlockNode_Fetch dec ctx node p of
                   (Inl e, p') \<Rightarrow> (Inl e, p')
                 | (Inr f, p') \<Rightarrow> (MayContain (Some f) key, p'))))"

datatype flow_node = FilterNode | IndexNode | DataNode | DecodeNode

record FlowItem =
  fi_Key :: bytes
  fi_Index :: IndexEntry
  fi_Block :: "Block option"
  fi_Entry :: entry
  fi_Found :: bool
  fi_Done :: bool

record NodeResult =
  re_Next :: "flow_node option"
  re_Done :: bool
  re_Err :: "lsm_error option"

definition next_node :: "flow_node \<Rightarrow> NodeResult" where
  "next_node n = \<lparr>re_Next = Some n, re_Done = False, re_Err = None\<rparr>"
definition done_node :: NodeResult where
  "done_node = \<lparr>re_Next = None, re_Done = True, re_Err = None\<rparr>"
definition fail_node :: "lsm_error \<Rightarrow> NodeResult" where
  "fail_node e = \<lparr>re_Next = None, re_Done = False, re_Err = Some e\<rparr>"

definition filterNode_Process ::
  "(bytes \<Rightarrow> bytes option) \<Rightarrow> lsm_error option \<Rightarrow> FlowItem \<Rightarrow> Pipeline \<Rightarrow>
     NodeResult \<times> FlowItem \<times> Pipeline" where
  "filterNode_Process dec ctx item p =
     (case filterNode_MayContain dec ctx (fi_Key item) p of
        (Inl e, p') \<Rightarrow> (fail_node e, item, p')
      | (Inr ok, p') \<Rightarrow>
          if \<not> ok then (done_node, item\<lparr>fi_Done := True\<rparr>, p') else (next_node IndexNode, item, p'))"

definition indexNode_Process ::
  "(bytes \<Rightarrow> bytes option) \<Rightarrow> lsm_error option \<Rightarrow> FlowItem \<Rightarrow> Pipeline \<Rightarrow>
     NodeResult \<times> FlowItem \<times> Pipeline" where
  "indexNode_Process dec ctx item p =
     (case indexNode_Find dec ctx (fi_Key item) p of
        (Inl e, p') \<Rightarrow> (fail_node e, item, p')
      | (Inr None, p') \<Rightarrow> (done_node, item\<lparr>fi_Done := True\<rparr>, p')
      | (Inr (Some e), p') \<Rightarrow> (next_node DataNode, item\<lparr>fi_Index := e\<rparr>, p'))"

definition dataNode_Process ::
  "(bytes \<Rightarrow> bytes option) \<Rightarrow> lsm_error option \<Rightarrow> FlowItem \<Rightarrow> Pipeline \<Rightarrow>
     NodeResult \<times> FlowItem \<times> Pipeline" where
  "dataNode_Process dec ctx item p =
     (case validateEntry p (fi_Index item) ErrSSTableBadBlock of
        Some e \<Rightarrow> (fail_node e, item, p)
      | None \<Rightarrow>
          (case dataNode_fetch dec ctx (fi_Index item) p of
             (Inl e, p') \<Rightarrow> (fail_node e, item, p')
           | (Inr (blk, _), p') \<Rightarrow> (next_node DecodeNode, item\<lparr>fi_Block := Some blk\<rparr>, p')))"

definition decodeNode_Process :: "FlowItem \<Rightarrow> Pipeline \<Rightarrow> NodeResult \<times> FlowItem \<times> Pipeline" where
  "decodeNode_Process item p =
     (case fi_Block item of
        None \<Rightarrow> (done_node, item, p)
      | Some blk \<Rightarrow>
          (case FindView blk (fi_Key item) of
             Inl e \<Rightarrow> (fail_node e, item, p)
           | Inr r \<Rightarrow>
               (done_node,
                item\<lparr>fi_Entry := (case r of None \<Rightarrow> zero_entry | Some e \<Rightarrow> e),
                     fi_Found := r \<noteq> None, fi_Done := True\<rparr>, p)))"

fun node_Process ::
  "(bytes \<Rightarrow> bytes option) \<Rightarrow> lsm_error option \<Rightarrow> flow_node \<Rightarrow> FlowItem \<Rightarrow> Pipeline \<Rightarrow>
     NodeResult \<times> FlowItem \<times> Pipeline" where
  "node_Process dec ctx FilterNode = filterNode_Process dec ctx"
| "node_Process dec ctx IndexNode = indexNode_Process dec ctx"
| "node_Process dec ctx DataNode = dataNode_Process dec ctx"
| "node_Process dec ctx DecodeNode = decodeNode_Process"

fun node_rank :: "flow_node \<Rightarrow> nat" where
  "node_rank FilterNode = 3"
| "node_rank IndexNode = 2"
| "node_rank DataNode = 1"
| "node_rank DecodeNode = 0"

lemmas node_results = next_node_def done_node_def fail_node_def
lemmas process_defs = filterNode_Process_def indexNode_Process_def dataNode_Process_def
  decodeNode_Process_def

lemma node_Process_rank:
  "node_Process dec ctx node item p = (res, item', p') \<Longrightarrow> re_Next res = Some n \<Longrightarrow>
     node_rank n < node_rank node"
  by (cases node)
     (auto simp: process_defs node_results split: prod.splits sum.splits option.splits if_splits)

text \<open>The loop of \<^verbatim>\<open>Pipeline.Get\<close>; it ends because each node's successor is a later one.\<close>

function flow_loop ::
  "(bytes \<Rightarrow> bytes option) \<Rightarrow> lsm_error option \<Rightarrow> flow_node \<Rightarrow> FlowItem \<Rightarrow> Pipeline \<Rightarrow>
     FlowItem result \<times> Pipeline" where
  "flow_loop dec ctx node item p =
     (case node_Process dec ctx node item p of
        (res, item', p') \<Rightarrow>
          (case re_Err res of
             Some e \<Rightarrow> (Inl e, p')
           | None \<Rightarrow>
               if re_Done res \<or> fi_Done item' then (Inr item', p')
               else case re_Next res of
                 None \<Rightarrow> (Inr item', p')
               | Some n \<Rightarrow> flow_loop dec ctx n item' p'))"
  by pat_completeness auto
termination
  by (relation "measure (\<lambda>(dec, ctx, node, item, p). node_rank node)") (auto dest: node_Process_rank [OF sym])

declare flow_loop.simps [simp del]

definition zero_index_entry :: IndexEntry where
  "zero_index_entry = \<lparr>ie_Key = [], ie_Offset = 0, ie_Length = 0\<rparr>"

definition Pipeline_Get ::
  "(bytes \<Rightarrow> bytes option) \<Rightarrow> lsm_error option \<Rightarrow> bytes \<Rightarrow> Pipeline \<Rightarrow>
     entry option result \<times> Pipeline" where
  "Pipeline_Get dec ctx key p =
     (case flow_loop dec ctx FilterNode
             \<lparr>fi_Key = key, fi_Index = zero_index_entry, fi_Block = None, fi_Entry = zero_entry,
              fi_Found = False, fi_Done = False\<rparr> p of
        (Inl e, p') \<Rightarrow> (Inl e, p')
      | (Inr item, p') \<Rightarrow> (Inr (if fi_Found item then Some (fi_Entry item) else None), p'))"

section \<open>Range plans\<close>

text \<open>\<open>rp_node\<close> is False for the plan of a nil index.\<close>

record IndexRangePlan =
  rp_node :: bool
  rp_start :: bytes
  rp_topIndexI :: nat
  rp_done :: bool
  rp_started :: bool

definition NewRange :: "bytes \<Rightarrow> IndexRangePlan" where
  "NewRange start =
     \<lparr>rp_node = True, rp_start = start, rp_topIndexI = 0, rp_done = False, rp_started = False\<rparr>"

function plan_loop ::
  "(bytes \<Rightarrow> bytes option) \<Rightarrow> IndexRangePlan \<Rightarrow> Pipeline \<Rightarrow>
     IndexEntry list result \<times> IndexRangePlan \<times> Pipeline" where
  "plan_loop dec plan p =
     (if rp_topIndexI plan < length (pl_top p) then
        let e = pl_top p ! rp_topIndexI plan;
            plan = plan\<lparr>rp_topIndexI := Suc (rp_topIndexI plan)\<rparr>
        in (case readPartition dec None e p of
              (Inl err, p') \<Rightarrow> (Inl err, plan, p')
            | (Inr part, p') \<Rightarrow>
                if part = [] then plan_loop dec plan p'
                else (Inr part, plan, p'))
      else (Inl ErrEOF, plan\<lparr>rp_done := True\<rparr>, p))"
  by pat_completeness auto
termination
  by (relation "measure (\<lambda>(dec, plan, p). length (pl_top p) - rp_topIndexI plan)")
     (auto dest: readPartition_same [OF sym] simp: same_table_def)

declare plan_loop.simps [simp del]

definition Plan_Next ::
  "(bytes \<Rightarrow> bytes option) \<Rightarrow> IndexRangePlan \<Rightarrow> Pipeline \<Rightarrow>
     IndexEntry list result \<times> IndexRangePlan \<times> Pipeline" where
  "Plan_Next dec plan p =
     (if \<not> rp_node plan \<or> rp_done plan then (Inl ErrEOF, plan, p)
      else
        let plan =
          (if \<not> rp_started plan then
             let plan = plan\<lparr>rp_started := True\<rparr>
             in if pl_indexPartitioned p \<and> rp_start plan \<noteq> []
                then plan\<lparr>rp_topIndexI :=
                       (case findBlock (pl_top p) (rp_start plan) of None \<Rightarrow> 0 | Some i \<Rightarrow> i)\<rparr>
                else plan
           else plan)
        in if \<not> pl_indexPartitioned p then
             let plan = plan\<lparr>rp_done := True\<rparr>
             in if pl_top p = [] then (Inl ErrEOF, plan, p) else (Inr (pl_top p), plan, p)
           else plan_loop dec plan p)"
section \<open>Prefetching\<close>

definition prefetchEntryCandidate :: "IndexEntry \<Rightarrow> Pipeline \<Rightarrow> bool \<times> Pipeline" where
  "prefetchEntryCandidate e p =
     (if ie_Length e = 0 then (False, p)
      else if 0 < ps_ReadBlockMaxBytes (pl_policy p) \<and>
              ps_ReadBlockMaxBytes (pl_policy p) < int (unat (ie_Length e)) then (False, p)
      else case BlockCache_Get (pl_cache p) (ie_Offset e) of
        (r, c) \<Rightarrow> (r = None, p\<lparr>pl_cache := c\<rparr>))"

fun targets_loop ::
  "PrefetchBudget \<Rightarrow> IndexEntry list \<Rightarrow> IndexEntry list \<Rightarrow> int \<Rightarrow> Pipeline \<Rightarrow>
     IndexEntry list \<times> Pipeline" where
  "targets_loop b [] out remaining p = (out, p)"
| "targets_loop b (e # es) out remaining p0 =
     (case prefetchEntryCandidate e p0 of
        (ok, p) \<Rightarrow>
          if \<not> ok then targets_loop b es out remaining p
          else if 0 < pb_blocks b \<and> pb_blocks b \<le> int (length out) then (out, p)
          else if 0 < pb_bytes b then
            (if remaining \<le> 0 \<and> out \<noteq> [] then (out, p)
             else if remaining < int (unat (ie_Length e)) \<and> out \<noteq> [] then (out, p)
             else targets_loop b es (out @ [e]) (remaining - int (unat (ie_Length e))) p)
          else targets_loop b es (out @ [e]) remaining p)"

definition prefetchTargets ::
  "IndexEntry list \<Rightarrow> nat \<Rightarrow> PrefetchBudget option \<Rightarrow> Pipeline \<Rightarrow> IndexEntry list \<times> Pipeline" where
  "prefetchTargets entries start budget p =
     (case budget of
        None \<Rightarrow> ([], p)
      | Some b \<Rightarrow> targets_loop b (drop (start + 1) entries) [] (pb_bytes b) p)"

definition prefetchEntry :: "(bytes \<Rightarrow> bytes option) \<Rightarrow> IndexEntry \<Rightarrow> Pipeline \<Rightarrow> Pipeline" where
  "prefetchEntry dec e p =
     (if ie_Length e = 0 then p
      else case BlockCache_Get (pl_cache p) (ie_Offset e) of
        (Some _, c) \<Rightarrow> p\<lparr>pl_cache := c\<rparr>
      | (None, c) \<Rightarrow>
          let (node, p) = registry_dataNode (entry_desc BlockTypeData e) (p\<lparr>pl_cache := c\<rparr>)
          in snd (dataBlockNode_Fetch dec None node p))"

text \<open>A full channel drops the entry; a worker takes the oldest one.\<close>

definition prefetch_enqueue :: "IndexEntry \<Rightarrow> Pipeline \<Rightarrow> Pipeline" where
  "prefetch_enqueue e p =
     (case pl_queue p of
        None \<Rightarrow> p
      | Some q \<Rightarrow>
          if int (length q) < ps_PrefetchQueueDepth (pl_policy p) then p\<lparr>pl_queue := Some (q @ [e])\<rparr>
          else p)"

definition prefetch_worker :: "(bytes \<Rightarrow> bytes option) \<Rightarrow> Pipeline \<Rightarrow> Pipeline" where
  "prefetch_worker dec p =
     (case pl_queue p of
        Some (e # q) \<Rightarrow> prefetchEntry dec e (p\<lparr>pl_queue := Some q\<rparr>)
      | _ \<Rightarrow> p)"

text \<open>Stopping closes the channel and waits for the workers, which first empty it.\<close>

definition Prefetch_Stop :: "(bytes \<Rightarrow> bytes option) \<Rightarrow> Pipeline \<Rightarrow> Pipeline" where
  "Prefetch_Stop dec p =
     (case pl_queue p of
        None \<Rightarrow> p
      | Some q \<Rightarrow> fold (prefetchEntry dec) q (p\<lparr>pl_queue := None\<rparr>))"

definition StopPrefetcher :: "(bytes \<Rightarrow> bytes option) \<Rightarrow> Pipeline \<Rightarrow> Pipeline" where
  "StopPrefetcher dec p = (if \<not> pl_prefetcher p then p else Prefetch_Stop dec p)"

definition Prefetch ::
  "(bytes \<Rightarrow> bytes option) \<Rightarrow> IndexEntry list \<Rightarrow> nat \<Rightarrow> PrefetchBudget option \<Rightarrow> Pipeline \<Rightarrow> Pipeline" where
  "Prefetch dec entries start budget p =
     (if pl_cache p = None then p
      else case prefetchTargets entries start budget p of
        (targets, p') \<Rightarrow>
          if ps_PrefetchAsync (pl_policy p') then fold prefetch_enqueue targets p'
          else fold (prefetchEntry dec) targets p')"

definition Pipeline_Prefetch ::
  "(bytes \<Rightarrow> bytes option) \<Rightarrow> IndexEntry list \<Rightarrow> nat \<Rightarrow> PrefetchBudget option \<Rightarrow> Pipeline \<Rightarrow> Pipeline" where
  "Pipeline_Prefetch dec entries start budget p =
     (if \<not> pl_prefetcher p \<or> \<not> ps_UsePrefetch (pl_policy p) then p
      else Prefetch dec entries start budget p)"

section \<open>Locating a key among sorted groups\<close>

lemma back_loop_stays:
  "(i > 0 \<Longrightarrow> ie_Key (entries ! (i - 1)) \<noteq> key) \<Longrightarrow> back_loop entries key i = i"
  by (cases i) auto

lemma findBlock_None: "entries \<noteq> [] \<Longrightarrow> key < ie_Key (hd entries) \<Longrightarrow> findBlock entries key = None"
  by (simp add: findBlock_def hd_conv_nth)

lemma findBlock_Some:
  assumes "entries \<noteq> []" "ie_Key (hd entries) \<le> key" "sorted_wrt (<) (map ie_Key entries)"
  obtains i where "findBlock entries key = Some i" "i < length entries"
    "\<And>j. j \<le> i \<Longrightarrow> ie_Key (entries ! j) \<le> key"
    "\<And>j. i < j \<Longrightarrow> j < length entries \<Longrightarrow> key < ie_Key (entries ! j)"
proof -
  define r where "r = sort_Search (length entries) (\<lambda>i. key < ie_Key (entries ! i))"
  have keys: "ie_Key (entries ! a) < ie_Key (entries ! b)" if "a < b" "b < length entries" for a b
    using assms(3) that by (simp add: sorted_wrt_iff_nth_less)
  have mono: "key < ie_Key (entries ! b)" if "a \<le> b" "b < length entries" "key < ie_Key (entries ! a)" for a b
    using that keys [of a b] by (cases "a = b") auto
  have least: "k < r \<Longrightarrow> \<not> key < ie_Key (entries ! k)" "r < length entries \<Longrightarrow> key < ie_Key (entries ! r)"
    for k
    using sort_Search_least [of "length entries" "\<lambda>i. key < ie_Key (entries ! i)"] mono
    unfolding r_def by blast+
  have le: "r \<le> length entries" by (simp add: r_def sort_Search_le)
  have "r \<noteq> 0"
  proof
    assume "r = 0"
    with least(2) assms(1) have "key < ie_Key (hd entries)" by (simp add: hd_conv_nth)
    with assms(2) show False by simp
  qed
  then obtain i where i: "r = Suc i" by (cases r) auto
  have below: "ie_Key (entries ! j) \<le> key" if "j \<le> i" for j
    using least(1) [of j] that i by (simp add: not_less)
  have above: "key < ie_Key (entries ! j)" if "i < j" "j < length entries" for j
    using mono [of r j] least(2) that i by simp
  have "back_loop entries key i = i"
  proof (rule back_loop_stays)
    assume "0 < i"
    then have "ie_Key (entries ! (i - 1)) < ie_Key (entries ! i)" using keys le i by simp
    also have "\<dots> \<le> key" using below by simp
    finally show "ie_Key (entries ! (i - 1)) \<noteq> key" by simp
  qed
  then have "findBlock entries key = Some i"
    using assms(1,2) i unfolding findBlock_def r_def [symmetric] Let_def
    by (simp add: hd_conv_nth not_less)
  with that i le below above show ?thesis by simp
qed

lemma entry_keys_sorted_concat:
  "entry_keys_sorted (concat gs) \<Longrightarrow> g \<in> set gs \<Longrightarrow> entry_keys_sorted g"
  by (induction gs) (auto simp: entry_keys_sorted_append)

lemma lookup_concat_group:
  assumes "entry_keys_sorted (concat gs)" "i < length gs"
    and "\<And>g. g \<in> set gs \<Longrightarrow> g \<noteq> []"
    and "Key (hd (gs ! i)) \<le> key"
    and "\<And>j. i < j \<Longrightarrow> j < length gs \<Longrightarrow> key < Key (hd (gs ! j))"
  shows "lookup key (concat gs) = lookup key (gs ! i)"
proof -
  have split: "concat gs = concat (take i gs) @ gs ! i @ concat (drop (Suc i) gs)"
    using id_take_nth_drop [OF assms(2)] by (metis append.assoc concat.simps(2) concat_append)
  have hd_in: "hd (gs ! i) \<in> set (gs ! i)" using assms(2,3) by simp
  have "lookup key (concat (take i gs)) = None"
  proof -
    have "Key x < Key (hd (gs ! i))" if "x \<in> set (concat (take i gs))" for x
      using assms(1) hd_in that unfolding split entry_keys_sorted_append by auto
    with assms(4) show ?thesis by (fastforce simp: lookup_None_iff)
  qed
  moreover have "lookup key (concat (drop (Suc i) gs)) = None"
  proof -
    have "key < Key x" if x: "x \<in> set (concat (drop (Suc i) gs))" for x
    proof -
      from x obtain g where g: "g \<in> set (drop (Suc i) gs)" "x \<in> set g" by auto
      then obtain j where "j < length (drop (Suc i) gs)" "drop (Suc i) gs ! j = g"
        by (auto simp: in_set_conv_nth simp del: length_drop nth_drop)
      with g have j: "Suc i + j < length gs" "x \<in> set (gs ! (Suc i + j))" by auto
      then have "gs ! (Suc i + j) \<in> set gs" by simp
      then have "entry_keys_sorted (gs ! (Suc i + j))" "gs ! (Suc i + j) \<noteq> []"
        using assms(1,3) entry_keys_sorted_concat by blast+
      with j have "Key (hd (gs ! (Suc i + j))) \<le> Key x"
        by (cases "gs ! (Suc i + j)") (auto simp: less_imp_le)
      with assms(5) [of "Suc i + j"] j(1) show ?thesis by simp
    qed
    then show ?thesis by (fastforce simp: lookup_None_iff)
  qed
  ultimately show ?thesis
    unfolding split by (simp add: lookup_append split: option.splits)
qed

end
