(* ===== verification/Sst_Table.thy ===== *)
theory Sst_Table
  imports Sst_Pipeline
begin

text \<open>
  What a sorted table's file has to contain for the read pipeline, and that the pipeline reads
  it: point reads answer the entry with the key, through filters, one- or two-level indexes,
  caches and prefetching, and no read error is ever turned into a wrong answer.
\<close>

section \<open>Well-formed tables\<close>

text \<open>The bytes an index entry points to, and what the block nodes make of them.\<close>

definition ref_bytes :: "bytes \<Rightarrow> IndexEntry \<Rightarrow> bytes" where
  "ref_bytes data e = bslice (unat (ie_Offset e)) (unat (ie_Offset e) + unat (ie_Length e)) data"

definition in_file :: "bytes \<Rightarrow> IndexEntry \<Rightarrow> bool" where
  "in_file data e \<longleftrightarrow> ie_Length e \<noteq> 0 \<and> unat (ie_Offset e) + unat (ie_Length e) \<le> length data"

definition load_block :: "(bytes \<Rightarrow> bytes option) \<Rightarrow> bytes \<Rightarrow> IndexEntry \<Rightarrow> Block result" where
  "load_block dec data e =
     bind_result (DecodeBlockPayload dec (ref_bytes data e) BlockTypeData (Some ErrSSTableBadBlock))
       Block_Decode"

definition load_index :: "(bytes \<Rightarrow> bytes option) \<Rightarrow> bytes \<Rightarrow> IndexEntry \<Rightarrow> IndexEntry list result" where
  "load_index dec data e =
     bind_result (DecodeBlockPayload dec (ref_bytes data e) BlockTypeIndex (Some ErrSSTableBadIndex))
       DecodeIndex"

definition load_filter :: "(bytes \<Rightarrow> bytes option) \<Rightarrow> bytes \<Rightarrow> IndexEntry \<Rightarrow> BloomFilter result" where
  "load_filter dec data e =
     bind_result (DecodeBlockPayload dec (ref_bytes data e) BlockTypeFilter (Some ErrSSTableBadMeta))
       (\<lambda>payload. case Filter_Decode payload of None \<Rightarrow> Inl ErrSSTableBadMeta | Some f \<Rightarrow> Inr f)"

text \<open>The data of a pipeline that no operation changes.\<close>

abbreviation pl_data :: "Pipeline \<Rightarrow> bytes" where
  "pl_data p \<equiv> sc_data (pl_source p)"

definition data_ref ::
  "(bytes \<Rightarrow> bytes option) \<Rightarrow> Pipeline \<Rightarrow> IndexEntry \<Rightarrow> entry list \<Rightarrow> bool" where
  "data_ref dec p e es \<longleftrightarrow>
     es \<noteq> [] \<and> ie_Key e = Key (hd es) \<and> in_file (pl_data p) e \<and>
     validateEntry p e ErrSSTableBadBlock = None \<and>
     (\<exists>blk. load_block dec (pl_data p) e = Inr blk \<and> block_holds blk es)"

definition index_ref ::
  "(bytes \<Rightarrow> bytes option) \<Rightarrow> Pipeline \<Rightarrow> IndexEntry \<Rightarrow> IndexEntry list \<Rightarrow> bool" where
  "index_ref dec p e part \<longleftrightarrow>
     part \<noteq> [] \<and> ie_Key e = ie_Key (hd part) \<and> in_file (pl_data p) e \<and>
     load_index dec (pl_data p) e = Inr part"

definition filter_for :: "BloomFilter \<Rightarrow> entry list \<Rightarrow> bool" where
  "filter_for f es \<longleftrightarrow>
     (\<forall>k. \<exists>b. MayContain (Some f) k = Inr b) \<and> (\<forall>e \<in> set es. MayContain (Some f) (Key e) = Inr True)"

definition filter_ref ::
  "(bytes \<Rightarrow> bytes option) \<Rightarrow> Pipeline \<Rightarrow> IndexEntry \<Rightarrow> entry list \<Rightarrow> bool" where
  "filter_ref dec p e es \<longleftrightarrow>
     es \<noteq> [] \<and> ie_Key e = Key (hd es) \<and> in_file (pl_data p) e \<and>
     (\<exists>f. load_filter dec (pl_data p) e = Inr f \<and> filter_for f es)"

definition index_ok :: "(bytes \<Rightarrow> bytes option) \<Rightarrow> Pipeline \<Rightarrow> IndexEntry list \<Rightarrow> bool" where
  "index_ok dec p index \<longleftrightarrow>
     (if pl_indexPartitioned p
      then \<exists>parts. concat parts = index \<and> list_all2 (index_ref dec p) (pl_top p) parts \<and>
             distinct (map ie_Offset (pl_top p))
      else pl_top p = index)"

definition filter_ok :: "(bytes \<Rightarrow> bytes option) \<Rightarrow> Pipeline \<Rightarrow> entry list \<Rightarrow> bool" where
  "filter_ok dec p es \<longleftrightarrow>
     (if pl_filterPartitioned p
      then \<exists>parts. concat parts = es \<and> list_all2 (filter_ref dec p) (pl_filterIndex p) parts \<and>
             distinct (map ie_Offset (pl_filterIndex p))
      else \<forall>f. pl_filter p = Some f \<longrightarrow> filter_for f es)"

definition table_ok ::
  "(bytes \<Rightarrow> bytes option) \<Rightarrow> Pipeline \<Rightarrow> IndexEntry list \<Rightarrow> entry list list \<Rightarrow> bool" where
  "table_ok dec p index blocks \<longleftrightarrow>
     sc_file (pl_source p) \<and> sc_size (pl_source p) = length (pl_data p) \<and>
     list_all2 (data_ref dec p) index blocks \<and> entry_keys_sorted (concat blocks) \<and>
     distinct (map ie_Offset index) \<and> index_ok dec p index \<and> filter_ok dec p (concat blocks)"

lemma table_ok_same: "same_table p p' \<Longrightarrow> table_ok dec p' index blocks = table_ok dec p index blocks"
proof -
  assume "same_table p p'"
  then have st: "pl_top p' = pl_top p" "pl_indexPartitioned p' = pl_indexPartitioned p"
     "pl_filter p' = pl_filter p" "pl_filterIndex p' = pl_filterIndex p"
     "pl_filterPartitioned p' = pl_filterPartitioned p" "pl_size p' = pl_size p"
     "pl_policy p' = pl_policy p" "pl_data p' = pl_data p" "sc_file (pl_source p') = sc_file (pl_source p)"
     "sc_size (pl_source p') = sc_size (pl_source p)"
    by (simp_all add: same_table_def)
  have "data_ref dec p' = data_ref dec p" "index_ref dec p' = index_ref dec p"
    "filter_ref dec p' = filter_ref dec p"
    by (simp_all add: fun_eq_iff data_ref_def index_ref_def filter_ref_def validateEntry_def st)
  then show ?thesis by (simp add: table_ok_def index_ok_def filter_ok_def st)
qed

section \<open>Coherent caches\<close>

definition offsets_ok :: "(u64 \<rightharpoonup> BlockDescriptor) \<Rightarrow> bool" where
  "offsets_ok m \<longleftrightarrow> (\<forall>k d. m k = Some d \<longrightarrow> ds_Offset d = k)"

text \<open>A cached value is what loading some listed block gives.\<close>

definition ref_holds :: "(IndexEntry \<Rightarrow> 'v result) \<Rightarrow> IndexEntry list \<Rightarrow> u64 \<Rightarrow> 'v \<Rightarrow> bool" where
  "ref_holds load refs k v \<longleftrightarrow> (\<exists>e \<in> set refs. ie_Offset e = k \<and> load e = Inr v)"

lemma ref_holds_unique:
  assumes "distinct (map ie_Offset refs)" "e \<in> set refs" "ref_holds load refs (ie_Offset e) v"
  shows "load e = Inr v"
proof -
  from assms(3) obtain e' where "e' \<in> set refs" "ie_Offset e' = ie_Offset e" "load e' = Inr v"
    by (auto simp: ref_holds_def)
  moreover from assms(1) have "inj_on ie_Offset (set refs)" by (simp add: distinct_map)
  ultimately show ?thesis using assms(2) by (auto dest: inj_onD)
qed

text \<open>The entries that wait for a prefetch worker.\<close>

definition queued :: "Pipeline \<Rightarrow> IndexEntry list" where
  "queued p = (case pl_queue p of None \<Rightarrow> [] | Some q \<Rightarrow> q)"

lemma queued_simps [simp]:
  "queued (p\<lparr>pl_nodes := n\<rparr>) = queued p" "queued (p\<lparr>pl_cache := c\<rparr>) = queued p"
  "queued (p\<lparr>pl_queue := Some q\<rparr>) = q" "queued (p\<lparr>pl_queue := None\<rparr>) = []"
  by (simp_all add: queued_def)

definition caches_ok :: "(bytes \<Rightarrow> bytes option) \<Rightarrow> Pipeline \<Rightarrow> IndexEntry list \<Rightarrow> bool" where
  "caches_ok dec p index \<longleftrightarrow>
     block_lru.holds (ref_holds (load_block dec (pl_data p)) index) (pl_cache p) \<and>
     index_lru.holds (ref_holds (load_index dec (pl_data p)) (pl_top p)) (pl_indexCache p) \<and>
     filter_lru.holds (ref_holds (load_filter dec (pl_data p)) (pl_filterIndex p)) (pl_filterCache p) \<and>
     offsets_ok (nr_data (pl_nodes p)) \<and> offsets_ok (nr_index (pl_nodes p)) \<and>
     offsets_ok (nr_filter (pl_nodes p)) \<and> set (queued p) \<subseteq> set index"

definition pipe_ok ::
  "(bytes \<Rightarrow> bytes option) \<Rightarrow> Pipeline \<Rightarrow> IndexEntry list \<Rightarrow> entry list list \<Rightarrow> bool" where
  "pipe_ok dec p index blocks \<longleftrightarrow> table_ok dec p index blocks \<and> caches_ok dec p index"

text \<open>No read error is pending.\<close>

definition calm :: "lsm_error option list \<Rightarrow> bool" where
  "calm fs \<longleftrightarrow> (\<forall>f \<in> set fs. f = None)"

definition quiet :: "Pipeline \<Rightarrow> bool" where
  "quiet p \<longleftrightarrow> calm (sc_faults (pl_source p))"

lemma registry_node_ok:
  assumes "offsets_ok m" "registry_node m desc = (d, m')"
  shows "ds_Offset d = ds_Offset desc" "ds_Length d = ds_Length desc" "offsets_ok m'"
  using assms by (auto simp: registry_node_def offsets_ok_def split: option.splits if_splits)

lemma Source_Read_ok:
  assumes "sc_file s" "sc_size s = length (sc_data s)"
    and "ds_Offset d = ie_Offset e" "ds_Length d = ie_Length e" "in_file (sc_data s) e"
    and "Source_Read ctx d s = (r, s')"
  shows "r = Inr (ref_bytes (sc_data s) e) \<or> (\<exists>err. r = Inl err)"
    and "ctx = None \<Longrightarrow> calm (sc_faults s) \<Longrightarrow>
           r = Inr (ref_bytes (sc_data s) e) \<and> calm (sc_faults s')"
proof -
  have len: "\<not> sc_size s < unat (ie_Offset e)" "ie_Length e \<noteq> 0"
    "\<not> sc_size s < unat (ie_Offset e) + unat (ie_Length e)"
    "unat (ie_Offset e) + unat (ie_Length e) \<le> length (sc_data s)"
    using assms(2,5) by (auto simp: in_file_def)
  show "r = Inr (ref_bytes (sc_data s) e) \<or> (\<exists>err. r = Inl err)"
    using assms(1,3,4,6) len
    by (auto simp: Source_Read_def ReadAt_def Let_def go_slice_def ref_bytes_def
        split: option.splits if_splits list.splits)
  assume "ctx = None" "calm (sc_faults s)"
  then show "r = Inr (ref_bytes (sc_data s) e) \<and> calm (sc_faults s')"
    using assms(1,3,4,6) len
    by (auto simp: calm_def Source_Read_def ReadAt_def Let_def go_slice_def ref_bytes_def
        split: option.splits if_splits list.splits)
qed

section \<open>Fetching blocks\<close>

lemma pipe_ok_table: "pipe_ok dec p index blocks \<Longrightarrow> table_ok dec p index blocks"
  by (simp add: pipe_ok_def)

lemma pipe_ok_source: "pipe_ok dec p index blocks \<Longrightarrow>
    sc_file (pl_source p) \<and> sc_size (pl_source p) = length (pl_data p)"
  by (simp add: pipe_ok_def table_ok_def)

text \<open>
  The outcome of fetching a listed block: the invariant is kept, a value is the loaded one, and
  without pending errors a loadable block is delivered.
\<close>

definition fetched ::
  "(bytes \<Rightarrow> bytes option) \<Rightarrow> IndexEntry list \<Rightarrow> entry list list \<Rightarrow> lsm_error option \<Rightarrow> Pipeline \<Rightarrow>
     'v result \<Rightarrow> 'v result \<Rightarrow> Pipeline \<Rightarrow> bool" where
  "fetched dec index blocks ctx p want r p' \<longleftrightarrow>
     pipe_ok dec p' index blocks \<and> same_table p p' \<and> (\<forall>v. r = Inr v \<longrightarrow> want = Inr v) \<and>
     (ctx = None \<and> quiet p \<longrightarrow> quiet p' \<and> (\<forall>v. want = Inr v \<longrightarrow> r = Inr v))"

lemma caches_ok_same:
  assumes "same_table p p'" "caches_ok dec p index"
    and "block_lru.holds (ref_holds (load_block dec (pl_data p)) index) (pl_cache p')"
    and "index_lru.holds (ref_holds (load_index dec (pl_data p)) (pl_top p)) (pl_indexCache p')"
    and "filter_lru.holds (ref_holds (load_filter dec (pl_data p)) (pl_filterIndex p)) (pl_filterCache p')"
    and "pl_nodes p' = pl_nodes p" "pl_queue p' = pl_queue p"
  shows "caches_ok dec p' index"
  using assms by (simp add: caches_ok_def same_table_def queued_def)

lemma dataFetch_ok:
  assumes ok: "pipe_ok dec p index blocks" and e: "e \<in> set index" "in_file (pl_data p) e"
    and d: "ds_Offset d = ie_Offset e" "ds_Length d = ie_Length e"
    and run: "dataBlockNode_Fetch dec ctx d p = (r, p')"
  shows "fetched dec index blocks ctx p (load_block dec (pl_data p) e) (map_sum id fst r) p'"
proof -
  have same: "same_table p p'" using dataFetch_same [OF run] .
  let ?P = "ref_holds (load_block dec (pl_data p)) index"
  have cs: "caches_ok dec p index" "block_lru.holds ?P (pl_cache p)"
    "distinct (map ie_Offset index)"
    using ok by (simp_all add: pipe_ok_def caches_ok_def table_ok_def)
  obtain g c where get: "BlockCache_Get (pl_cache p) (ie_Offset e) = (g, c)"
    by (cases "BlockCache_Get (pl_cache p) (ie_Offset e)")
  note hg = block_lru.holds_get [OF cs(2) get]
  have holds: "block_lru.holds ?P c" using hg by simp
  have hit: "load_block dec (pl_data p) e = Inr v" if "g = Some v" for v
    using hg that by (intro ref_holds_unique [OF cs(3) e(1)]) simp
  obtain rd s where rd: "Source_Read ctx d (pl_source p) = (rd, s)"
    by (cases "Source_Read ctx d (pl_source p)")
  note src = Source_Read_ok [OF conjunct1 [OF pipe_ok_source [OF ok]]
      conjunct2 [OF pipe_ok_source [OF ok]] d e(2) rd]
  have "block_lru.holds ?P (pl_cache p') \<and> pl_indexCache p' = pl_indexCache p \<and>
      pl_filterCache p' = pl_filterCache p \<and> pl_nodes p' = pl_nodes p \<and> pl_queue p' = pl_queue p \<and>
      (\<forall>v hit. r = Inr (v, hit) \<longrightarrow> load_block dec (pl_data p) e = Inr v) \<and>
      (ctx = None \<and> quiet p \<longrightarrow> quiet p' \<and>
        (\<forall>v. load_block dec (pl_data p) e = Inr v \<longrightarrow> (\<exists>hit. r = Inr (v, hit))))"
  proof (cases g)
    case (Some v)
    with run get holds hit [OF Some] d show ?thesis by (auto simp: dataBlockNode_Fetch_def quiet_def)
  next
    case None
    show ?thesis
    proof (cases rd)
      case (Inl err)
      then have "\<not> (ctx = None \<and> quiet p)" using src(2) by (fastforce simp: quiet_def)
      with Inl None run get holds d rd show ?thesis
        by (auto simp: dataBlockNode_Fetch_def)
    next
      case (Inr data)
      then have data: "data = ref_bytes (pl_data p) e" using src(1) by auto
      have qs: "ctx = None \<and> quiet p \<longrightarrow> calm (sc_faults s)"
        using src(2) by (auto simp: quiet_def)
      have step: "(r, p') =
          (case load_block dec (pl_data p) e of
             Inl err \<Rightarrow> (Inl err, p\<lparr>pl_cache := c, pl_source := s\<rparr>)
           | Inr blk \<Rightarrow> (Inr (blk, False), p\<lparr>pl_source := s, pl_cache := BlockCache_Add c (ie_Offset e) blk\<rparr>))"
        unfolding run [symmetric]
        by (simp add: dataBlockNode_Fetch_def get None d rd Inr data load_block_def Let_def split: sum.split)
      show ?thesis
      proof (cases "load_block dec (pl_data p) e")
        case (Inl err)
        with step holds qs show ?thesis by (simp add: quiet_def)
      next
        case lb: (Inr blk)
        then have "?P (ie_Offset e) blk" using e(1) by (auto simp: ref_holds_def)
        with holds have "block_lru.holds ?P (BlockCache_Add c (ie_Offset e) blk)"
          by (intro block_lru.holds_add)
        with lb step qs show ?thesis by (auto simp: quiet_def)
      qed
    qed
  qed
  moreover from this have "caches_ok dec p' index"
    using caches_ok_same [OF same cs(1)] cs(1) by (simp add: caches_ok_def)
  moreover have "map_sum id fst r = Inr v \<longleftrightarrow> (\<exists>hit. r = Inr (v, hit))" for v
    by (cases r) auto
  ultimately show ?thesis
    using pipe_ok_table [OF ok] same
    unfolding fetched_def pipe_ok_def table_ok_same [OF same] by blast
qed

lemma indexFetch_ok:
  assumes ok: "pipe_ok dec p index blocks" and e: "e \<in> set (pl_top p)" "distinct (map ie_Offset (pl_top p))" "in_file (pl_data p) e"
    and d: "ds_Offset d = ie_Offset e" "ds_Length d = ie_Length e"
    and run: "indexBlockNode_Fetch dec ctx d p = (r, p')"
  shows "fetched dec index blocks ctx p (load_index dec (pl_data p) e) r p'"
proof -
  have same: "same_table p p'" using indexFetch_same [OF run] .
  let ?P = "ref_holds (load_index dec (pl_data p)) (pl_top p)"
  have cs: "caches_ok dec p index" "index_lru.holds ?P (pl_indexCache p)"
    using ok by (simp_all add: pipe_ok_def caches_ok_def table_ok_def)
  obtain g c where get: "IndexCache_Get (pl_indexCache p) (ie_Offset e) = (g, c)"
    by (cases "IndexCache_Get (pl_indexCache p) (ie_Offset e)")
  note hg = index_lru.holds_get [OF cs(2) get]
  have holds: "index_lru.holds ?P c" using hg by simp
  have hit: "load_index dec (pl_data p) e = Inr v" if "g = Some v" for v
    using hg that by (intro ref_holds_unique [OF e(2,1)]) simp
  obtain rd s where rd: "Source_Read ctx d (pl_source p) = (rd, s)"
    by (cases "Source_Read ctx d (pl_source p)")
  note src = Source_Read_ok [OF conjunct1 [OF pipe_ok_source [OF ok]]
      conjunct2 [OF pipe_ok_source [OF ok]] d e(3) rd]
  have "index_lru.holds ?P (pl_indexCache p') \<and> pl_cache p' = pl_cache p \<and>
      pl_filterCache p' = pl_filterCache p \<and> pl_nodes p' = pl_nodes p \<and> pl_queue p' = pl_queue p \<and>
      (\<forall>v. r = Inr v \<longrightarrow> load_index dec (pl_data p) e = Inr v) \<and>
      (ctx = None \<and> quiet p \<longrightarrow> quiet p' \<and>
        (\<forall>v. load_index dec (pl_data p) e = Inr v \<longrightarrow> r = Inr v))"
  proof (cases g)
    case (Some v)
    with run get holds hit [OF Some] d show ?thesis by (auto simp: indexBlockNode_Fetch_def quiet_def)
  next
    case None
    show ?thesis
    proof (cases rd)
      case (Inl err)
      then have "\<not> (ctx = None \<and> quiet p)" using src(2) by (fastforce simp: quiet_def)
      with Inl None run get holds d rd show ?thesis
        by (auto simp: indexBlockNode_Fetch_def)
    next
      case (Inr data)
      then have data: "data = ref_bytes (pl_data p) e" using src(1) by auto
      have qs: "ctx = None \<and> quiet p \<longrightarrow> calm (sc_faults s)"
        using src(2) by (auto simp: quiet_def)
      have step: "(r, p') =
          (case load_index dec (pl_data p) e of
             Inl err \<Rightarrow> (Inl err, p\<lparr>pl_indexCache := c, pl_source := s\<rparr>)
           | Inr blk \<Rightarrow> (Inr blk, p\<lparr>pl_source := s, pl_indexCache := IndexCache_Add c (ie_Offset e) blk\<rparr>))"
        unfolding run [symmetric]
        by (simp add: indexBlockNode_Fetch_def get None d rd Inr data load_index_def Let_def split: sum.split)
      show ?thesis
      proof (cases "load_index dec (pl_data p) e")
        case (Inl err)
        with step holds qs show ?thesis by (simp add: quiet_def)
      next
        case lb: (Inr blk)
        then have "?P (ie_Offset e) blk" using e(1) by (auto simp: ref_holds_def)
        with holds have "index_lru.holds ?P (IndexCache_Add c (ie_Offset e) blk)"
          by (intro index_lru.holds_add)
        with lb step qs show ?thesis by (auto simp: quiet_def)
      qed
    qed
  qed
  moreover from this have "caches_ok dec p' index"
    using caches_ok_same [OF same cs(1)] cs(1) by (simp add: caches_ok_def)
  ultimately show ?thesis
    using pipe_ok_table [OF ok] same
    unfolding fetched_def pipe_ok_def table_ok_same [OF same] by blast
qed

lemma filterFetch_ok:
  assumes ok: "pipe_ok dec p index blocks" and e: "e \<in> set (pl_filterIndex p)" "distinct (map ie_Offset (pl_filterIndex p))" "in_file (pl_data p) e"
    and d: "ds_Offset d = ie_Offset e" "ds_Length d = ie_Length e"
    and run: "filterBlockNode_Fetch dec ctx d p = (r, p')"
  shows "fetched dec index blocks ctx p (load_filter dec (pl_data p) e) r p'"
proof -
  have same: "same_table p p'" using filterFetch_same [OF run] .
  let ?P = "ref_holds (load_filter dec (pl_data p)) (pl_filterIndex p)"
  have cs: "caches_ok dec p index" "filter_lru.holds ?P (pl_filterCache p)"
    using ok by (simp_all add: pipe_ok_def caches_ok_def table_ok_def)
  obtain g c where get: "FilterCache_Get (pl_filterCache p) (ie_Offset e) = (g, c)"
    by (cases "FilterCache_Get (pl_filterCache p) (ie_Offset e)")
  note hg = filter_lru.holds_get [OF cs(2) get]
  have holds: "filter_lru.holds ?P c" using hg by simp
  have hit: "load_filter dec (pl_data p) e = Inr v" if "g = Some v" for v
    using hg that by (intro ref_holds_unique [OF e(2,1)]) simp
  obtain rd s where rd: "Source_Read ctx d (pl_source p) = (rd, s)"
    by (cases "Source_Read ctx d (pl_source p)")
  note src = Source_Read_ok [OF conjunct1 [OF pipe_ok_source [OF ok]]
      conjunct2 [OF pipe_ok_source [OF ok]] d e(3) rd]
  have "filter_lru.holds ?P (pl_filterCache p') \<and> pl_indexCache p' = pl_indexCache p \<and>
      pl_cache p' = pl_cache p \<and> pl_nodes p' = pl_nodes p \<and> pl_queue p' = pl_queue p \<and>
      (\<forall>v. r = Inr v \<longrightarrow> load_filter dec (pl_data p) e = Inr v) \<and>
      (ctx = None \<and> quiet p \<longrightarrow> quiet p' \<and>
        (\<forall>v. load_filter dec (pl_data p) e = Inr v \<longrightarrow> r = Inr v))"
  proof (cases g)
    case (Some v)
    with run get holds hit [OF Some] d show ?thesis by (auto simp: filterBlockNode_Fetch_def quiet_def)
  next
    case None
    show ?thesis
    proof (cases rd)
      case (Inl err)
      then have "\<not> (ctx = None \<and> quiet p)" using src(2) by (fastforce simp: quiet_def)
      with Inl None run get holds d rd show ?thesis
        by (auto simp: filterBlockNode_Fetch_def)
    next
      case (Inr data)
      then have data: "data = ref_bytes (pl_data p) e" using src(1) by auto
      have qs: "ctx = None \<and> quiet p \<longrightarrow> calm (sc_faults s)"
        using src(2) by (auto simp: quiet_def)
      have step: "(r, p') =
          (case load_filter dec (pl_data p) e of
             Inl err \<Rightarrow> (Inl err, p\<lparr>pl_filterCache := c, pl_source := s\<rparr>)
           | Inr blk \<Rightarrow> (Inr blk, p\<lparr>pl_source := s, pl_filterCache := FilterCache_Add c (ie_Offset e) blk\<rparr>))"
        unfolding run [symmetric]
        by (simp add: filterBlockNode_Fetch_def get None d rd Inr data load_filter_def Let_def bind_result_def split: sum.split option.split)
      show ?thesis
      proof (cases "load_filter dec (pl_data p) e")
        case (Inl err)
        with step holds qs show ?thesis by (simp add: quiet_def)
      next
        case lb: (Inr blk)
        then have "?P (ie_Offset e) blk" using e(1) by (auto simp: ref_holds_def)
        with holds have "filter_lru.holds ?P (FilterCache_Add c (ie_Offset e) blk)"
          by (intro filter_lru.holds_add)
        with lb step qs show ?thesis by (auto simp: quiet_def)
      qed
    qed
  qed
  moreover from this have "caches_ok dec p' index"
    using caches_ok_same [OF same cs(1)] cs(1) by (simp add: caches_ok_def)
  ultimately show ?thesis
    using pipe_ok_table [OF ok] same
    unfolding fetched_def pipe_ok_def table_ok_same [OF same] by blast
qed

section \<open>The index\<close>

text \<open>The last entry whose key is not above the given one, the block a key can be in.\<close>

definition find_last :: "IndexEntry list \<Rightarrow> bytes \<Rightarrow> IndexEntry option" where
  "find_last es key = List.find (\<lambda>e. ie_Key e \<le> key) (rev es)"

abbreviation index_sorted :: "IndexEntry list \<Rightarrow> bool" where
  "index_sorted es \<equiv> sorted_wrt (<) (map ie_Key es)"

lemma find_last_NoneD: "find_last es key = None \<Longrightarrow> e \<in> set es \<Longrightarrow> key < ie_Key e"
  by (auto simp: find_last_def find_None_iff not_le)

lemma find_last_SomeD: "find_last es key = Some e \<Longrightarrow> e \<in> set es \<and> ie_Key e \<le> key"
  by (auto simp: find_last_def find_Some_iff rev_nth)

lemma find_last_split:
  assumes "ie_Key e \<le> key" "\<forall>x \<in> set ys. key < ie_Key x"
  shows "find_last (xs @ e # ys) key = Some e"
proof -
  have "List.find (\<lambda>e. ie_Key e \<le> key) (rev ys) = None"
    using assms(2) by (auto simp: find_None_iff not_le)
  then show ?thesis using assms(1) by (simp add: find_last_def find_append)
qed

lemma findBlock_find_last:
  assumes "index_sorted es"
  shows "map_option ((!) es) (findBlock es key) = find_last es key"
proof (cases "es = [] \<or> key < ie_Key (hd es)")
  case True
  then have "find_last es key = None"
    using assms by (cases es) (auto simp: find_last_def find_None_iff not_le intro: less_trans)
  moreover have "findBlock es key = None"
    using True by (cases "es = []") (auto simp: findBlock_None findBlock_def [of "[]"])
  ultimately show ?thesis by simp
next
  case False
  then obtain i where i: "findBlock es key = Some i" "i < length es" "ie_Key (es ! i) \<le> key"
    "\<And>j. i < j \<Longrightarrow> j < length es \<Longrightarrow> key < ie_Key (es ! j)"
    using findBlock_Some [OF _ _ assms, of key] by (metis le_refl not_le)
  have "find_last (take i es @ es ! i # drop (Suc i) es) key = Some (es ! i)"
    using i by (intro find_last_split) (auto simp: in_set_conv_nth)
  with i show ?thesis by (simp add: id_take_nth_drop [symmetric])
qed

lemma index_sorted_append:
  "index_sorted (xs @ ys) \<longleftrightarrow> index_sorted xs \<and> index_sorted ys \<and>
     (\<forall>x \<in> set xs. \<forall>y \<in> set ys. ie_Key x < ie_Key y)"
  by (auto simp: sorted_wrt_append)

text \<open>Heads of consecutive groups of a sorted list, for blocks of entries and for index partitions.\<close>

lemma heads_sorted:
  fixes k :: "'a \<Rightarrow> bytes"
  shows "sorted_wrt (<) (map k (concat gs)) \<Longrightarrow> [] \<notin> set gs \<Longrightarrow> sorted_wrt (<) (map (\<lambda>g. k (hd g)) gs)"
proof (induction gs)
  case (Cons g gs)
  then have "\<forall>x \<in> set gs. k (hd g) < k (hd x)"
    by (auto simp: sorted_wrt_append) (metis hd_in_set)
  with Cons show ?case by (auto simp: sorted_wrt_append)
qed simp

lemma heads_of_list_all2:
  "list_all2 (\<lambda>e g. g \<noteq> [] \<and> ie_Key e = k (hd g)) tops gs \<Longrightarrow>
     map ie_Key tops = map (\<lambda>g. k (hd g)) gs \<and> [] \<notin> set gs"
  by (induction tops gs rule: list_all2_induct) auto

lemma groups_above:
  fixes k :: "'a \<Rightarrow> bytes"
  assumes "sorted_wrt (<) (map k (concat gs))" "\<forall>g \<in> set gs. key < k (hd g)" "x \<in> set (concat gs)"
  shows "key < k x"
proof -
  from assms(3) obtain g where g: "g \<in> set gs" "x \<in> set g" by auto
  then obtain as bs where "gs = as @ g # bs" by (meson split_list)
  with assms(1) have "sorted_wrt (<) (map k g)" by (simp add: sorted_wrt_append)
  with g(2) have "k (hd g) \<le> k x" by (cases g) (auto simp: less_imp_le)
  with assms(2) g(1) show ?thesis by (meson less_le_trans)
qed

lemma find_last_concat:
  assumes "index_sorted (concat parts)"
    and "list_all2 (\<lambda>e part. part \<noteq> [] \<and> ie_Key e = ie_Key (hd part)) tops parts"
  shows "find_last (concat parts) key =
           (case findBlock tops key of None \<Rightarrow> None | Some i \<Rightarrow> find_last (parts ! i) key)"
proof -
  note heads = heads_of_list_all2 [OF assms(2)]
  have tops: "index_sorted tops" using heads_sorted [OF assms(1)] heads by simp
  have len: "length tops = length parts" using assms(2) by (rule list_all2_lengthD)
  have nth: "parts ! j \<noteq> []" "ie_Key (tops ! j) = ie_Key (hd (parts ! j))" if "j < length tops" for j
    using list_all2_nthD [OF assms(2) that] by simp_all
  show ?thesis
  proof (cases "tops = [] \<or> key < ie_Key (hd tops)")
    case True
    then have "\<forall>g \<in> set parts. key < ie_Key (hd g)"
      using tops heads len by (cases tops; cases parts) (auto intro: less_trans)
    then have "find_last (concat parts) key = None"
      using groups_above [OF assms(1), of key] by (auto simp: find_last_def find_None_iff not_le)
    moreover have "findBlock tops key = None"
      using True by (cases "tops = []") (auto simp: findBlock_None findBlock_def [of "[]"])
    ultimately show ?thesis by simp
  next
    case False
    then obtain i where i: "findBlock tops key = Some i" "i < length tops" "ie_Key (tops ! i) \<le> key"
      "\<And>j. i < j \<Longrightarrow> j < length tops \<Longrightarrow> key < ie_Key (tops ! j)"
      using findBlock_Some [OF _ _ tops, of key] by (metis le_refl not_le)
    have split: "concat parts = concat (take i parts) @ parts ! i @ concat (drop (Suc i) parts)"
      using id_take_nth_drop [of i parts] i(2) len by (metis append.assoc concat.simps(2) concat_append)
    have "List.find (\<lambda>e. ie_Key e \<le> key) (rev (concat (drop (Suc i) parts))) = None"
    proof -
      have "\<forall>g \<in> set (drop (Suc i) parts). key < ie_Key (hd g)"
        using i(4) nth(2) len by (force simp: in_set_conv_nth)
      moreover have "index_sorted (concat (drop (Suc i) parts))"
        using assms(1) unfolding split by (simp add: sorted_wrt_append)
      ultimately show ?thesis
        using groups_above [of ie_Key "drop (Suc i) parts" key] by (auto simp: find_None_iff not_le)
    qed
    moreover have "List.find (\<lambda>e. ie_Key e \<le> key) (rev (parts ! i)) \<noteq> None"
      using nth [OF i(2)] i(3) hd_in_set [of "parts ! i"] by (auto simp: find_None_iff simp del: hd_in_set)
    ultimately have "find_last (concat parts) key = find_last (parts ! i) key"
      unfolding split find_last_def by (auto simp: find_append)
    with i(1) show ?thesis by simp
  qed
qed

end
