(* ===== verification/Sst_Get.thy ===== *)
theory Sst_Get
  imports Sst_Table
begin

text \<open>
  Point reads and block reads through the pipeline of a well-formed table: every answer is the
  entry with the key, whatever the caches, the registry and the prefetcher hold, and without
  pending read errors there is an answer.
\<close>

section \<open>Nodes\<close>

lemma registry_dataNode_ok:
  assumes "pipe_ok dec p index blocks" "registry_dataNode desc p = (d, p')"
  shows "pipe_ok dec p' index blocks" "same_table p p'" "pl_source p' = pl_source p"
    "ds_Offset d = ds_Offset desc" "ds_Length d = ds_Length desc"
proof -
  show same: "same_table p p'" by (rule registry_same(1) [OF assms(2)])
  obtain m where m: "registry_node (nr_data (pl_nodes p)) desc = (d, m)"
    "p' = p\<lparr>pl_nodes := (pl_nodes p)\<lparr>nr_data := m\<rparr>\<rparr>"
    using assms(2) by (auto simp: registry_dataNode_def split: prod.splits)
  have "offsets_ok (nr_data (pl_nodes p))" using assms(1) by (simp add: pipe_ok_def caches_ok_def)
  note r = registry_node_ok [OF this m(1)]
  show "ds_Offset d = ds_Offset desc" "ds_Length d = ds_Length desc" "pl_source p' = pl_source p"
    using r m(2) by simp_all
  show "pipe_ok dec p' index blocks"
    using assms(1) r(3) m(2) unfolding pipe_ok_def table_ok_same [OF same] by (simp add: caches_ok_def)
qed

lemma registry_indexNode_ok:
  assumes "pipe_ok dec p index blocks" "registry_indexNode desc p = (d, p')"
  shows "pipe_ok dec p' index blocks" "same_table p p'" "pl_source p' = pl_source p"
    "ds_Offset d = ds_Offset desc" "ds_Length d = ds_Length desc"
proof -
  show same: "same_table p p'" by (rule registry_same(2) [OF assms(2)])
  obtain m where m: "registry_node (nr_index (pl_nodes p)) desc = (d, m)"
    "p' = p\<lparr>pl_nodes := (pl_nodes p)\<lparr>nr_index := m\<rparr>\<rparr>"
    using assms(2) by (auto simp: registry_indexNode_def split: prod.splits)
  have "offsets_ok (nr_index (pl_nodes p))" using assms(1) by (simp add: pipe_ok_def caches_ok_def)
  note r = registry_node_ok [OF this m(1)]
  show "ds_Offset d = ds_Offset desc" "ds_Length d = ds_Length desc" "pl_source p' = pl_source p"
    using r m(2) by simp_all
  show "pipe_ok dec p' index blocks"
    using assms(1) r(3) m(2) unfolding pipe_ok_def table_ok_same [OF same] by (simp add: caches_ok_def)
qed

lemma registry_filterNode_ok:
  assumes "pipe_ok dec p index blocks" "registry_filterNode desc p = (d, p')"
  shows "pipe_ok dec p' index blocks" "same_table p p'" "pl_source p' = pl_source p"
    "ds_Offset d = ds_Offset desc" "ds_Length d = ds_Length desc"
proof -
  show same: "same_table p p'" by (rule registry_same(3) [OF assms(2)])
  obtain m where m: "registry_node (nr_filter (pl_nodes p)) desc = (d, m)"
    "p' = p\<lparr>pl_nodes := (pl_nodes p)\<lparr>nr_filter := m\<rparr>\<rparr>"
    using assms(2) by (auto simp: registry_filterNode_def split: prod.splits)
  have "offsets_ok (nr_filter (pl_nodes p))" using assms(1) by (simp add: pipe_ok_def caches_ok_def)
  note r = registry_node_ok [OF this m(1)]
  show "ds_Offset d = ds_Offset desc" "ds_Length d = ds_Length desc" "pl_source p' = pl_source p"
    using r m(2) by simp_all
  show "pipe_ok dec p' index blocks"
    using assms(1) r(3) m(2) unfolding pipe_ok_def table_ok_same [OF same] by (simp add: caches_ok_def)
qed

lemma fetched_trans:
  assumes "same_table p q" "pl_source q = pl_source p" "fetched dec index blocks ctx q want r p'"
  shows "fetched dec index blocks ctx p want r p'"
  using assms same_table_trans unfolding fetched_def quiet_def by metis

lemma entry_desc_simps [simp]:
  "ds_Offset (entry_desc t e) = ie_Offset e" "ds_Length (entry_desc t e) = ie_Length e"
  by (simp_all add: entry_desc_def)

lemma dataNode_fetch_ok:
  assumes ok: "pipe_ok dec p index blocks" and e: "e \<in> set index" "in_file (pl_data p) e"
    and run: "dataNode_fetch dec ctx e p = (r, p')"
  shows "fetched dec index blocks ctx p (load_block dec (pl_data p) e) (map_sum id fst r) p'"
proof -
  obtain d q where d: "registry_dataNode (entry_desc BlockTypeData e) p = (d, q)"
    by (cases "registry_dataNode (entry_desc BlockTypeData e) p")
  note q = registry_dataNode_ok [OF ok d, simplified]
  have run': "dataBlockNode_Fetch dec ctx d q = (r, p')" using run d by (simp add: dataNode_fetch_def)
  have "in_file (pl_data q) e" using e(2) q(3) by simp
  from fetched_trans [OF q(2,3) dataFetch_ok [OF q(1) e(1) this q(4,5) run']] show ?thesis
    by (simp add: q(3))
qed

lemma readPartition_ok:
  assumes ok: "pipe_ok dec p index blocks"
    and e: "e \<in> set (pl_top p)" "distinct (map ie_Offset (pl_top p))" "in_file (pl_data p) e"
    and run: "readPartition dec ctx e p = (r, p')"
  shows "fetched dec index blocks ctx p (load_index dec (pl_data p) e) r p'"
proof -
  obtain d q where d: "registry_indexNode (entry_desc BlockTypeIndex e) p = (d, q)"
    by (cases "registry_indexNode (entry_desc BlockTypeIndex e) p")
  note q = registry_indexNode_ok [OF ok d, simplified]
  have run': "indexBlockNode_Fetch dec ctx d q = (r, p')" using run d by (simp add: readPartition_def)
  have top: "pl_top q = pl_top p" using q(2) by (simp add: same_table_def)
  have e': "e \<in> set (pl_top q)" "distinct (map ie_Offset (pl_top q))" "in_file (pl_data q) e"
    using e q(3) by (simp_all add: top)
  from fetched_trans [OF q(2,3) indexFetch_ok [OF q(1) e' q(4,5) run']] show ?thesis
    by (simp add: q(3))
qed

section \<open>Finding the block\<close>

lemma table_index_sorted: "table_ok dec p index blocks \<Longrightarrow> index_sorted index"
proof -
  assume ok: "table_ok dec p index blocks"
  then have "list_all2 (\<lambda>e g. g \<noteq> [] \<and> ie_Key e = Key (hd g)) index blocks"
    by (auto simp: table_ok_def data_ref_def elim: list_all2_mono)
  note heads = heads_of_list_all2 [OF this]
  moreover have "sorted_wrt (<) (map Key (concat blocks))"
    using ok by (simp add: table_ok_def entry_keys_sorted_def)
  ultimately show ?thesis using heads_sorted [of Key blocks] by simp
qed

lemma sorted_group:
  "sorted_wrt (<) (map (k :: 'a \<Rightarrow> bytes) (concat gs)) \<Longrightarrow> g \<in> set gs \<Longrightarrow> sorted_wrt (<) (map k g)"
  by (induction gs) (auto simp: sorted_wrt_append)

lemma back_loop_le: "back_loop es key i \<le> i"
  by (induction i) auto

lemma findBlock_less: "findBlock es key = Some i \<Longrightarrow> i < length es"
  using sort_Search_le [of "length es" "\<lambda>i. key < ie_Key (es ! i)"]
    back_loop_le [of es key "sort_Search (length es) (\<lambda>i. key < ie_Key (es ! i)) - 1"]
  by (auto simp: findBlock_def Let_def split: if_splits)

lemma indexNode_Find_ok:
  assumes ok: "pipe_ok dec p index blocks" and run: "indexNode_Find dec ctx key p = (r, p')"
  shows "fetched dec index blocks ctx p (Inr (find_last index key)) r p'"
proof -
  have tab: "table_ok dec p index blocks" using ok by (rule pipe_ok_table)
  note sorted = table_index_sorted [OF tab]
  show ?thesis
  proof (cases "pl_indexPartitioned p")
    case False
    then have top: "pl_top p = index" using tab by (simp add: table_ok_def index_ok_def)
    have "r = Inr (find_last index key)" "p' = p"
      using run False findBlock_find_last [OF sorted, of key]
      by (auto simp: indexNode_Find_def top split: option.splits)
    with ok show ?thesis by (simp add: fetched_def)
  next
    case True
    then obtain parts where parts: "concat parts = index" "list_all2 (index_ref dec p) (pl_top p) parts"
      "distinct (map ie_Offset (pl_top p))"
      using tab by (auto simp: table_ok_def index_ok_def)
    have l2: "list_all2 (\<lambda>e part. part \<noteq> [] \<and> ie_Key e = ie_Key (hd part)) (pl_top p) parts"
      using parts(2) by (auto simp: index_ref_def elim: list_all2_mono)
    note concat = find_last_concat [OF sorted [folded parts(1)] l2, of key, unfolded parts(1)]
    have tops: "index_sorted (pl_top p)"
      using heads_sorted [of ie_Key parts] heads_of_list_all2 [OF l2] sorted parts(1) by simp
    show ?thesis
    proof (cases "findBlock (pl_top p) key")
      case None
      with run True concat ok show ?thesis by (auto simp: indexNode_Find_def fetched_def)
    next
      case (Some i)
      have i: "i < length (pl_top p)" by (rule findBlock_less [OF Some])
      then have ref: "index_ref dec p (pl_top p ! i) (parts ! i)"
        using parts(2) by (rule list_all2_nthD [rotated])
      then have part: "load_index dec (pl_data p) (pl_top p ! i) = Inr (parts ! i)"
        and inf: "in_file (pl_data p) (pl_top p ! i)" by (simp_all add: index_ref_def)
      obtain rp q where rp: "readPartition dec ctx (pl_top p ! i) p = (rp, q)"
        by (cases "readPartition dec ctx (pl_top p ! i) p")
      have fe: "fetched dec index blocks ctx p (Inr (parts ! i)) rp q"
        using readPartition_ok [OF ok _ parts(3) inf rp] i part by simp
      have len: "i < length parts" using i parts(2) by (simp add: list_all2_lengthD)
      have "index_sorted (parts ! i)"
        using sorted_group [of ie_Key parts] sorted parts(1) len by simp
      note inner = findBlock_find_last [OF this, of key]
      show ?thesis
      proof (cases rp)
        case (Inl err)
        with fe run True Some rp show ?thesis by (auto simp: indexNode_Find_def fetched_def)
      next
        case (Inr part')
        with fe have "part' = parts ! i" by (simp add: fetched_def)
        with Inr fe run True Some rp inner concat show ?thesis
          by (auto simp: indexNode_Find_def fetched_def split: option.splits)
      qed
    qed
  qed
qed

section \<open>The filter\<close>

lemma filter_for_False: "filter_for f es \<Longrightarrow> MayContain (Some f) key = Inr False \<Longrightarrow> lookup key es = None"
  by (fastforce simp: filter_for_def lookup_None_iff simp del: MayContain.simps)

lemma lookup_by_heads:
  assumes "entry_keys_sorted (concat gs)" "list_all2 (\<lambda>e g. g \<noteq> [] \<and> ie_Key e = Key (hd g)) es gs"
    and "findBlock es key = Some i"
  shows "lookup key (concat gs) = lookup key (gs ! i)"
proof -
  note heads = heads_of_list_all2 [OF assms(2)]
  have len: "length es = length gs" using assms(2) by (rule list_all2_lengthD)
  have sorted: "index_sorted es"
    using heads_sorted [of Key gs] assms(1) heads by (simp add: entry_keys_sorted_def)
  have ne: "es \<noteq> []" using findBlock_less [OF assms(3)] by auto
  have "\<not> key < ie_Key (hd es)" using findBlock_None [OF ne, of key] assms(3) by auto
  then obtain j where j: "findBlock es key = Some j" "j < length es" "\<And>k. k \<le> j \<Longrightarrow> ie_Key (es ! k) \<le> key"
    "\<And>k. j < k \<Longrightarrow> k < length es \<Longrightarrow> key < ie_Key (es ! k)"
    using findBlock_Some [OF ne _ sorted, of key] by (metis not_less)
  have key: "ie_Key (es ! k) = Key (hd (gs ! k))" if "k < length es" for k
    using list_all2_nthD [OF assms(2) that] by simp
  have "lookup key (concat gs) = lookup key (gs ! j)"
  proof (rule lookup_concat_group [OF assms(1)])
    show "j < length gs" using j(2) len by simp
    show "g \<noteq> []" if "g \<in> set gs" for g using that heads by auto
    show "Key (hd (gs ! j)) \<le> key" using j(2) j(3) [of j] key by simp
    show "key < Key (hd (gs ! k))" if "j < k" "k < length gs" for k
      using j(4) [OF that(1)] that(2) key [of k] len by simp
  qed
  with j(1) assms(3) show ?thesis by simp
qed

lemma filterNode_MayContain_ok:
  assumes ok: "pipe_ok dec p index blocks" and run: "filterNode_MayContain dec ctx key p = (r, p')"
  shows "pipe_ok dec p' index blocks \<and> same_table p p' \<and>
         (r = Inr False \<longrightarrow> lookup key (concat blocks) = None) \<and>
         (ctx = None \<and> quiet p \<longrightarrow> quiet p' \<and> (\<exists>b. r = Inr b))"
proof -
  have tab: "table_ok dec p index blocks" using ok by (rule pipe_ok_table)
  then have fok: "filter_ok dec p (concat blocks)" and srt: "entry_keys_sorted (concat blocks)"
    by (simp_all add: table_ok_def)
  show ?thesis
  proof (cases "pl_filterPartitioned p")
    case False
    show ?thesis
    proof (cases "pl_filter p")
      case None
      with False run ok show ?thesis by (auto simp: filterNode_MayContain_def)
    next
      case (Some f)
      with fok False have f: "filter_for f (concat blocks)" by (simp add: filter_ok_def)
      have run': "r = MayContain (Some f) key" "p' = p"
        using False Some run by (simp_all add: filterNode_MayContain_def del: MayContain.simps)
      have "\<exists>b. MayContain (Some f) key = Inr b" using f by (simp add: filter_for_def del: MayContain.simps)
      with run' ok filter_for_False [OF f, of key] show ?thesis by (simp del: MayContain.simps)
    qed
  next
    case True
    then obtain parts where parts: "concat parts = concat blocks"
      "list_all2 (filter_ref dec p) (pl_filterIndex p) parts" "distinct (map ie_Offset (pl_filterIndex p))"
      using fok by (auto simp: filter_ok_def)
    show ?thesis
    proof (cases "pl_filterIndex p = [] \<or> findBlock (pl_filterIndex p) key = None")
      case none: True
      then have "filterNode_MayContain dec ctx key p = (Inr True, p)"
        using True by (auto simp: filterNode_MayContain_def)
      with run ok show ?thesis by auto
    next
      case False
      then obtain i where i: "findBlock (pl_filterIndex p) key = Some i" "pl_filterIndex p \<noteq> []" by auto
      have len: "i < length (pl_filterIndex p)" by (rule findBlock_less [OF i(1)])
      have ref: "filter_ref dec p (pl_filterIndex p ! i) (parts ! i)"
        using parts(2) len by (rule list_all2_nthD)
      then obtain f where f: "load_filter dec (pl_data p) (pl_filterIndex p ! i) = Inr f"
        "filter_for f (parts ! i)" "in_file (pl_data p) (pl_filterIndex p ! i)"
        by (auto simp: filter_ref_def)
      have l2: "list_all2 (\<lambda>e g. g \<noteq> [] \<and> ie_Key e = Key (hd g)) (pl_filterIndex p) parts"
        using parts(2) by (auto simp: filter_ref_def elim: list_all2_mono)
      have look: "lookup key (concat blocks) = lookup key (parts ! i)"
        using lookup_by_heads [OF srt [folded parts(1)] l2 i(1)] parts(1) by simp
      obtain d q where d: "registry_filterNode (entry_desc BlockTypeFilter (pl_filterIndex p ! i)) p = (d, q)"
        by (cases "registry_filterNode (entry_desc BlockTypeFilter (pl_filterIndex p ! i)) p")
      note q = registry_filterNode_ok [OF ok d, simplified]
      obtain rf q' where rf: "filterBlockNode_Fetch dec ctx d q = (rf, q')"
        by (cases "filterBlockNode_Fetch dec ctx d q")
      have idx: "pl_filterIndex q = pl_filterIndex p" using q(2) by (simp add: same_table_def)
      have mem: "pl_filterIndex p ! i \<in> set (pl_filterIndex q)" using len idx by simp
      have "fetched dec index blocks ctx q (load_filter dec (pl_data q) (pl_filterIndex p ! i)) rf q'"
        using filterFetch_ok [OF q(1) mem _ _ q(4,5) rf] parts(3) f(3) by (simp add: idx q(3))
      then have fe: "fetched dec index blocks ctx p (Inr f) rf q'"
        using fetched_trans [OF q(2,3)] f(1) q(3) by simp
      have run': "(r, p') = (case rf of Inl e \<Rightarrow> (Inl e, q') | Inr f \<Rightarrow> (MayContain (Some f) key, q'))"
        using run True i d rf
        by (auto simp: filterNode_MayContain_def split: sum.splits simp del: MayContain.simps)
      have b: "\<exists>b. MayContain (Some f) key = Inr b"
        using f(2) by (simp add: filter_for_def del: MayContain.simps)
      show ?thesis
      proof (cases rf)
        case (Inl err)
        with run' fe show ?thesis by (auto simp: fetched_def)
      next
        case (Inr f')
        with fe have "f' = f" by (simp add: fetched_def)
        with Inr run' fe b filter_for_False [OF f(2), of key] look show ?thesis
          by (auto simp: fetched_def simp del: MayContain.simps)
      qed
    qed
  qed
qed

section \<open>Point reads\<close>

text \<open>The data node: the block of a listed entry, with its contents.\<close>

lemma table_ref:
  assumes "table_ok dec p index blocks" "e \<in> set index"
  obtains i where "i < length index" "index ! i = e" "data_ref dec p e (blocks ! i)"
proof -
  from assms(2) obtain i where i: "i < length index" "index ! i = e" by (auto simp: in_set_conv_nth)
  have "list_all2 (data_ref dec p) index blocks" using assms(1) by (simp add: table_ok_def)
  from list_all2_nthD [OF this i(1)] i that show ?thesis by simp
qed

lemma lookup_find_last:
  assumes tab: "table_ok dec p index blocks"
  shows "find_last index key = None \<Longrightarrow> lookup key (concat blocks) = None"
    and "find_last index key = Some e \<Longrightarrow> i < length index \<Longrightarrow> index ! i = e \<Longrightarrow>
           lookup key (concat blocks) = lookup key (blocks ! i)"
proof -
  have l2: "list_all2 (\<lambda>e g. g \<noteq> [] \<and> ie_Key e = Key (hd g)) index blocks"
    using tab by (auto simp: table_ok_def data_ref_def elim: list_all2_mono)
  have srt: "entry_keys_sorted (concat blocks)" using tab by (simp add: table_ok_def)
  note sorted = table_index_sorted [OF tab] and heads = heads_of_list_all2 [OF l2]
  show "lookup key (concat blocks) = None" if none: "find_last index key = None"
  proof -
    have "\<forall>x \<in> set (map ie_Key index). key < x" using find_last_NoneD [OF none] by auto
    then have "\<forall>g \<in> set blocks. key < Key (hd g)" unfolding conjunct1 [OF heads] by auto
    then have "\<forall>x \<in> set (concat blocks). key < Key x"
      using groups_above [of Key blocks key] srt unfolding entry_keys_sorted_def by blast
    then show ?thesis by (fastforce simp: lookup_None_iff)
  qed
  show "lookup key (concat blocks) = lookup key (blocks ! i)"
    if some: "find_last index key = Some e" "i < length index" "index ! i = e"
  proof -
    from findBlock_find_last [OF sorted, of key] some(1) obtain j where
      j: "findBlock index key = Some j" "index ! j = e" by (cases "findBlock index key") auto
    have "distinct index" using tab distinct_map by (auto simp: table_ok_def)
    with j some findBlock_less [OF j(1)] have "j = i" by (auto simp: nth_eq_iff_index_eq)
    with lookup_by_heads [OF srt l2 j(1)] show ?thesis by simp
  qed
qed

lemma validateEntry_same: "same_table p q \<Longrightarrow> validateEntry q e err = validateEntry p e err"
  by (simp add: validateEntry_def same_table_def)

lemma quiet_same_source: "pl_source q = pl_source p \<Longrightarrow> quiet q = quiet p"
  by (simp add: quiet_def)

lemma ReadBlock_ok:
  assumes ok: "pipe_ok dec p index blocks" and e: "e \<in> set index"
    and run: "dataNode_fetch dec ctx e p = (r, p')"
  shows "pipe_ok dec p' index blocks \<and> same_table p p' \<and> validateEntry p e ErrSSTableBadBlock = None \<and>
     (\<forall>i. i < length index \<longrightarrow> index ! i = e \<longrightarrow>
        (\<forall>blk hit. r = Inr (blk, hit) \<longrightarrow> block_holds blk (blocks ! i))) \<and>
     (ctx = None \<and> quiet p \<longrightarrow> quiet p' \<and> (\<exists>blk hit. r = Inr (blk, hit)))"
proof -
  have tab: "table_ok dec p index blocks" using ok by (rule pipe_ok_table)
  then obtain i where i: "i < length index" "index ! i = e" "data_ref dec p e (blocks ! i)"
    using e by (rule table_ref)
  then obtain blk where blk: "load_block dec (pl_data p) e = Inr blk" "block_holds blk (blocks ! i)"
    "in_file (pl_data p) e" "validateEntry p e ErrSSTableBadBlock = None"
    by (auto simp: data_ref_def)
  have fe: "fetched dec index blocks ctx p (Inr blk) (map_sum id fst r) p'"
    using dataNode_fetch_ok [OF ok e blk(3) run] blk(1) by simp
  have "distinct index" using tab distinct_map by (auto simp: table_ok_def)
  then have uniq: "j = i" if "j < length index" "index ! j = e" for j
    using that i by (auto simp: nth_eq_iff_index_eq)
  show ?thesis
  proof (cases r)
    case (Inl err)
    with fe blk(4) show ?thesis by (auto simp: fetched_def)
  next
    case (Inr bh)
    with fe have "fst bh = blk" by (simp add: fetched_def)
    with Inr obtain hit where r: "r = Inr (blk, hit)" by (cases bh) auto
    have "block_holds blk (blocks ! j)" if "j < length index" "index ! j = e" for j
      using blk(2) uniq [OF that] by simp
    with r fe blk(4) show ?thesis by (simp add: fetched_def)
  qed
qed

lemma Pipeline_Get_ok:
  assumes ok: "pipe_ok dec p index blocks" and run: "Pipeline_Get dec ctx key p = (r, p')"
  shows "fetched dec index blocks ctx p (Inr (lookup key (concat blocks))) r p'"
proof -
  let ?item = "\<lparr>fi_Key = key, fi_Index = zero_index_entry, fi_Block = None, fi_Entry = zero_entry,
              fi_Found = False, fi_Done = False\<rparr>"
  obtain rm p1 where mc: "filterNode_MayContain dec ctx key p = (rm, p1)"
    by (cases "filterNode_MayContain dec ctx key p")
  note f = filterNode_MayContain_ok [OF ok mc]
  show ?thesis
  proof (cases "rm = Inr True")
    case False
    have "r = (case rm of Inl e \<Rightarrow> Inl e | Inr _ \<Rightarrow> Inr None) \<and> p' = p1"
      using run mc False
      by (auto simp: Pipeline_Get_def flow_loop.simps [of dec ctx FilterNode] filterNode_Process_def
          node_results split: sum.splits)
    with f False show ?thesis by (cases rm) (auto simp: fetched_def)
  next
    case True
    obtain ri p2 where ix: "indexNode_Find dec ctx key p1 = (ri, p2)"
      by (cases "indexNode_Find dec ctx key p1")
    note i = indexNode_Find_ok [OF conjunct1 [OF f] ix]
    have step1: "flow_loop dec ctx FilterNode ?item p = flow_loop dec ctx IndexNode ?item p1"
      using mc True by (simp add: flow_loop.simps [of dec ctx FilterNode] filterNode_Process_def node_results)
    have f': "pipe_ok dec p1 index blocks" "same_table p p1" "ctx = None \<and> quiet p \<longrightarrow> quiet p1"
      using f by simp_all
    show ?thesis
    proof (cases "\<exists>e. ri = Inr (Some e)")
      case False
      then have "r = (case ri of Inl e \<Rightarrow> Inl e | Inr _ \<Rightarrow> Inr None) \<and> p' = p2"
        using run ix unfolding Pipeline_Get_def step1
        by (auto simp: flow_loop.simps [of dec ctx IndexNode] indexNode_Process_def node_results
            split: sum.splits option.splits)
      moreover have "ri = Inr None \<Longrightarrow> lookup key (concat blocks) = None"
        using i lookup_find_last(1) [OF pipe_ok_table [OF ok], of key] by (auto simp: fetched_def)
      ultimately show ?thesis using False i f' same_table_trans [of p p1 p2]
        by (cases ri) (auto simp: fetched_def)
    next
      case True
      then obtain e where e: "ri = Inr (Some e)" by blast
      with i have fl: "find_last index key = Some e" by (simp add: fetched_def)
      then have mem: "e \<in> set index" by (auto dest: find_last_SomeD)
      then obtain j where j: "j < length index" "index ! j = e" by (auto simp: in_set_conv_nth)
      have ok2: "pipe_ok dec p2 index blocks" "same_table p1 p2" "ctx = None \<and> quiet p1 \<longrightarrow> quiet p2"
        using i by (simp_all add: fetched_def)
      obtain rd p3 where rd: "dataNode_fetch dec ctx e p2 = (rd, p3)"
        by (cases "dataNode_fetch dec ctx e p2")
      note d = ReadBlock_ok [OF ok2(1) mem rd]
      have step2: "flow_loop dec ctx IndexNode ?item p1 = flow_loop dec ctx DataNode (?item\<lparr>fi_Index := e\<rparr>) p2"
        using ix e by (simp add: flow_loop.simps [of dec ctx IndexNode] indexNode_Process_def node_results)
      have same: "same_table p p3" using f'(2) ok2(2) d same_table_trans by blast
      have look: "lookup key (concat blocks) = lookup key (blocks ! j)"
        using lookup_find_last(2) [OF pipe_ok_table [OF ok] fl j] .
      show ?thesis
      proof (cases rd)
        case (Inl err)
        then have "r = Inl err" "p' = p3"
          using run rd d unfolding Pipeline_Get_def step1 step2
          by (auto simp: flow_loop.simps [of dec ctx DataNode] dataNode_Process_def node_results)
        with Inl d f' ok2 same show ?thesis by (auto simp: fetched_def)
      next
        case (Inr bh)
        obtain blk hit where bh: "bh = (blk, hit)" by (cases bh)
        then have holds: "block_holds blk (blocks ! j)" using d j Inr by blast
        then have fv: "FindView blk key = Inr (lookup key (blocks ! j))"
          by (simp add: block_holds_def Block_Find_def)
        have "r = Inr (lookup key (blocks ! j))" "p' = p3"
          using run rd d Inr bh fv unfolding Pipeline_Get_def step1 step2
          by (auto simp: flow_loop.simps [of dec ctx DataNode] flow_loop.simps [of dec ctx DecodeNode]
              dataNode_Process_def decodeNode_Process_def node_results split: option.splits)
        with look d f' ok2 same show ?thesis by (auto simp: fetched_def)
      qed
    qed
  qed
qed

section \<open>Prefetching is transparent\<close>

text \<open>What any operation on the pipeline may do: caches and registry stay coherent.\<close>

definition keeps ::
  "(bytes \<Rightarrow> bytes option) \<Rightarrow> IndexEntry list \<Rightarrow> entry list list \<Rightarrow> Pipeline \<Rightarrow> Pipeline \<Rightarrow> bool" where
  "keeps dec index blocks p p' \<longleftrightarrow>
     pipe_ok dec p' index blocks \<and> same_table p p' \<and> (quiet p \<longrightarrow> quiet p')"

lemma keeps_refl: "pipe_ok dec p index blocks \<Longrightarrow> keeps dec index blocks p p"
  by (simp add: keeps_def)

lemma keeps_trans: "keeps dec index blocks p q \<Longrightarrow> keeps dec index blocks q r \<Longrightarrow> keeps dec index blocks p r"
  using same_table_trans by (auto simp: keeps_def)

lemma fetched_keeps: "fetched dec index blocks None p want r p' \<Longrightarrow> keeps dec index blocks p p'"
  by (simp add: fetched_def keeps_def)

lemma keeps_queue:
  assumes "pipe_ok dec p index blocks" "set (queued (p\<lparr>pl_queue := q\<rparr>)) \<subseteq> set index"
  shows "keeps dec index blocks p (p\<lparr>pl_queue := q\<rparr>)"
proof -
  have "same_table p (p\<lparr>pl_queue := q\<rparr>)" by simp
  note table_ok_same [OF this]
  with assms show ?thesis by (simp add: keeps_def pipe_ok_def caches_ok_def quiet_def)
qed

lemma enqueue_keeps:
  assumes ok: "pipe_ok dec p index blocks" and e: "e \<in> set index"
  shows "keeps dec index blocks p (prefetch_enqueue e p)"
proof -
  have sub: "set (queued p) \<subseteq> set index" using ok by (simp add: pipe_ok_def caches_ok_def)
  have "keeps dec index blocks p (p\<lparr>pl_queue := Some (q @ [e])\<rparr>)" if "pl_queue p = Some q" for q
    by (rule keeps_queue [OF ok]) (use sub e that in \<open>simp add: queued_def\<close>)
  then show ?thesis using keeps_refl [OF ok] by (auto simp: prefetch_enqueue_def split: option.splits)
qed

lemma keeps_cache_get:
  assumes "pipe_ok dec p index blocks" "BlockCache_Get (pl_cache p) k = (r, c)"
  shows "keeps dec index blocks p (p\<lparr>pl_cache := c\<rparr>)"
proof -
  have "same_table p (p\<lparr>pl_cache := c\<rparr>)" by simp
  note same = table_ok_same [OF this]
  have "block_lru.holds (ref_holds (load_block dec (pl_data p)) index) (pl_cache p)"
    using assms(1) by (simp add: pipe_ok_def caches_ok_def)
  from block_lru.holds_get [OF this assms(2)] assms(1) same show ?thesis
    by (simp add: keeps_def pipe_ok_def caches_ok_def quiet_def)
qed

lemma in_file_index: "table_ok dec p index blocks \<Longrightarrow> e \<in> set index \<Longrightarrow> in_file (pl_data p) e"
  by (erule (1) table_ref) (simp add: data_ref_def)

lemma prefetchEntry_keeps:
  assumes ok: "pipe_ok dec p index blocks" and e: "e \<in> set index"
  shows "keeps dec index blocks p (prefetchEntry dec e p)"
proof (cases "ie_Length e = 0")
  case True
  with ok show ?thesis by (simp add: prefetchEntry_def keeps_refl)
next
  case False
  obtain r c where get: "BlockCache_Get (pl_cache p) (ie_Offset e) = (r, c)"
    by (cases "BlockCache_Get (pl_cache p) (ie_Offset e)")
  note k = keeps_cache_get [OF ok get]
  show ?thesis
  proof (cases r)
    case (Some v)
    with False get k show ?thesis by (simp add: prefetchEntry_def)
  next
    case None
    let ?p = "p\<lparr>pl_cache := c\<rparr>"
    have ok1: "pipe_ok dec ?p index blocks" using k by (simp add: keeps_def)
    obtain rf p2 where fetch: "dataNode_fetch dec None e ?p = (rf, p2)"
      by (cases "dataNode_fetch dec None e ?p")
    have "prefetchEntry dec e p = p2"
      using False get None fetch by (simp add: prefetchEntry_def dataNode_fetch_def split: prod.splits)
    with keeps_trans [OF k fetched_keeps [OF dataNode_fetch_ok [OF ok1 e in_file_index fetch]]]
      pipe_ok_table [OF ok1] e show ?thesis by simp
  qed
qed

lemma fold_keeps:
  assumes "\<And>e p. pipe_ok dec p index blocks \<Longrightarrow> e \<in> set es \<Longrightarrow> keeps dec index blocks p (f e p)"
    and "pipe_ok dec p index blocks"
  shows "keeps dec index blocks p (fold f es p)"
  using assms
proof (induction es arbitrary: p)
  case Nil
  then show ?case by (simp add: keeps_refl)
next
  case (Cons e es)
  have "keeps dec index blocks p (f e p)" using Cons.prems by simp
  moreover from this have "keeps dec index blocks (f e p) (fold f es (f e p))"
    using Cons.prems(1) by (intro Cons.IH) (auto simp: keeps_def)
  ultimately show ?case using keeps_trans by simp
qed

lemma targets_loop_keeps:
  assumes "pipe_ok dec p index blocks" "targets_loop b es out rem p = (out', p')"
  shows "keeps dec index blocks p p' \<and> set out' \<subseteq> set out \<union> set es"
  using assms
proof (induction b es out rem p rule: targets_loop.induct)
  case (1 b out rem p)
  then show ?case by (simp add: keeps_refl)
next
  case (2 b e es out rem p0)
  obtain ok p where cand: "prefetchEntryCandidate e p0 = (ok, p)" by (cases "prefetchEntryCandidate e p0")
  have k: "keeps dec index blocks p0 p"
    using cand keeps_refl [OF "2.prems"(1)] keeps_cache_get [OF "2.prems"(1)]
    by (auto simp: prefetchEntryCandidate_def split: if_splits prod.splits)
  then have okp: "pipe_ok dec p index blocks" by (simp add: keeps_def)
  note IH = "2.IH" [OF cand [symmetric]]
  have "keeps dec index blocks p p' \<and> set out' \<subseteq> set out \<union> set (e # es)"
    using "2.prems"(2) cand okp IH keeps_refl [OF okp]
    by (auto split: if_splits)
  with keeps_trans [OF k] show ?case by blast
qed

lemma Pipeline_Prefetch_keeps:
  assumes ok: "pipe_ok dec p index blocks" and es: "set es \<subseteq> set index"
  shows "keeps dec index blocks p (Pipeline_Prefetch dec es start budget p)"
proof (cases "\<not> pl_prefetcher p \<or> \<not> ps_UsePrefetch (pl_policy p) \<or> pl_cache p = None \<or> budget = None")
  case True
  have "fold g [] p = p" for g :: "IndexEntry \<Rightarrow> Pipeline \<Rightarrow> Pipeline" by simp
  with True ok show ?thesis
    by (auto simp: Pipeline_Prefetch_def Prefetch_def prefetchTargets_def keeps_refl)
next
  case False
  then obtain b where b: "budget = Some b" by auto
  obtain ts p1 where ts: "targets_loop b (drop (start + 1) es) [] (pb_bytes b) p = (ts, p1)"
    by (cases "targets_loop b (drop (start + 1) es) [] (pb_bytes b) p")
  have k: "keeps dec index blocks p p1" "set ts \<subseteq> set (drop (start + 1) es)"
    using targets_loop_keeps [OF ok ts] by auto
  then have ts_in: "set ts \<subseteq> set index" using es set_drop_subset by fastforce
  have ok1: "pipe_ok dec p1 index blocks" using k(1) by (simp add: keeps_def)
  have "keeps dec index blocks p1 (fold prefetch_enqueue ts p1)"
    using ts_in by (intro fold_keeps [OF _ ok1] enqueue_keeps) auto
  moreover have "keeps dec index blocks p1 (fold (prefetchEntry dec) ts p1)"
    using ts_in by (intro fold_keeps [OF _ ok1] prefetchEntry_keeps) auto
  ultimately show ?thesis
    using False b ts keeps_trans [OF k(1)]
    by (auto simp: Pipeline_Prefetch_def Prefetch_def prefetchTargets_def)
qed

text \<open>The worker that takes the oldest entry of the queue.\<close>

lemma prefetch_worker_keeps:
  assumes ok: "pipe_ok dec p index blocks"
  shows "keeps dec index blocks p (prefetch_worker dec p)"
proof (cases "queued p")
  case Nil
  then show ?thesis using keeps_refl [OF ok] by (auto simp: prefetch_worker_def queued_def split: option.splits)
next
  case (Cons e q)
  then have p: "pl_queue p = Some (e # q)" by (simp add: queued_def split: option.splits)
  have sub: "e \<in> set index" "set q \<subseteq> set index"
    using ok by (auto simp: pipe_ok_def caches_ok_def queued_def p)
  have k: "keeps dec index blocks p (p\<lparr>pl_queue := Some q\<rparr>)"
    by (rule keeps_queue [OF ok]) (simp add: sub)
  then have "pipe_ok dec (p\<lparr>pl_queue := Some q\<rparr>) index blocks" by (simp add: keeps_def)
  from keeps_trans [OF k prefetchEntry_keeps [OF this sub(1)]] show ?thesis by (simp add: prefetch_worker_def p)
qed

lemma prefetch_workers_keep:
  assumes "pipe_ok dec p index blocks"
  shows "keeps dec index blocks p ((prefetch_worker dec ^^ n) p)"
proof (induction n)
  case 0
  then show ?case using keeps_refl [OF assms] by simp
next
  case (Suc n)
  then have "pipe_ok dec ((prefetch_worker dec ^^ n) p) index blocks" by (simp add: keeps_def)
  from keeps_trans [OF Suc prefetch_worker_keeps [OF this]] show ?case by simp
qed

end
