(* ===== verification/Sst_Reader.thy ===== *)
theory Sst_Reader
  imports Sst_Get Go_Fs
begin

text \<open>
  The reader of a sorted table, \<^verbatim>\<open>internal/lsm/sstable/reader.go\<close>: opening a table file, point
  reads with and without error reporting, and the range iterator with its corruption policies.
  A nil reader or pipeline is \<open>None\<close>.  Closing a file has no effect on the model's state, and
  the errors it may add to another error are left out.
\<close>

section \<open>Opening a table\<close>

record Reader =
  rd_size :: nat
  rd_meta :: Meta
  rd_opts :: SstOptions
  rd_dropped :: bool
  rd_pipe :: "Pipeline option"

record SSTable =
  st_Path :: string
  st_Seq :: u64
  st_reader :: "Reader option"

record Info =
  in_MinKey :: bytes
  in_MaxKey :: bytes
  in_SeqMin :: u64
  in_SeqMax :: u64
  in_SizeBytes :: u64
  in_EntryCount :: u64

definition SSTable_Info :: "SSTable \<Rightarrow> Info" where
  "SSTable_Info s =
     (case st_reader s of
        None \<Rightarrow> \<lparr>in_MinKey = [], in_MaxKey = [], in_SeqMin = 0, in_SeqMax = st_Seq s, in_SizeBytes = 0,
                 in_EntryCount = 0\<rparr>
      | Some r \<Rightarrow>
          let m = rd_meta r
          in \<lparr>in_MinKey = mt_MinKey m, in_MaxKey = mt_MaxKey m, in_SeqMin = mt_SeqMin m,
              in_SeqMax = mt_SeqMax m, in_SizeBytes = word_of_nat (rd_size r),
              in_EntryCount = mt_EntryCount m\<rparr>)"

text \<open>A step that reads from the source, followed by the rest unless it failed.\<close>

definition src_bind ::
  "'a result \<times> BlockSource \<Rightarrow> ('a \<Rightarrow> BlockSource \<Rightarrow> 'b result) \<Rightarrow> 'b result" where
  "src_bind r f = (case r of (Inl e, s) \<Rightarrow> Inl e | (Inr x, s) \<Rightarrow> f x s)"

lemma src_bind_simps [simp]:
  "src_bind (Inl e, s) f = Inl e"
  "src_bind (Inr x, s) f = f x s"
  by (simp_all add: src_bind_def)

definition block_desc :: "BlockType \<Rightarrow> u64 \<Rightarrow> u32 \<Rightarrow> BlockDescriptor" where
  "block_desc typ off len =
     \<lparr>ds_ID = off, ds_Type = typ, ds_Offset = off, ds_Length = len, ds_Key = []\<rparr>"

text \<open>The filter of the table: none, one filter block, or the index of filter partitions.\<close>

definition open_filter ::
  "(bytes \<Rightarrow> bytes option) \<Rightarrow> Meta \<Rightarrow> bool \<Rightarrow> BlockSource \<Rightarrow>
     (BloomFilter option \<times> IndexEntry list) result \<times> BlockSource" where
  "open_filter dec m filterPartitioned s =
     (if 0 < mt_BloomLen m \<and> 0 < mt_BloomOffset m then
        (case ReadBlockPayload dec None (block_desc BlockTypeFilter (mt_BloomOffset m) (mt_BloomLen m))
                ErrSSTableBadMeta s of
           (Inl e, s') \<Rightarrow> (Inl e, s')
         | (Inr payload, s') \<Rightarrow>
             if filterPartitioned then
               (bind_result (DecodeIndex payload) (\<lambda>idx. Inr (None, idx)), s')
             else
               (case Filter_Decode payload of
                  None \<Rightarrow> (Inl ErrSSTableBadMeta, s')
                | Some f \<Rightarrow> (Inr (Some f, []), s')))
      else (Inr (None, []), s))"

definition openReader ::
  "(bytes \<Rightarrow> bytes option) \<Rightarrow> string \<Rightarrow> SstOptions \<Rightarrow> dir \<Rightarrow> lsm_error option list \<Rightarrow>
     (Reader \<times> u64) result" where
  "openReader dec path opts0 d faults =
     (let opts = Normalize opts0
      in case Validate opts of
        Some e \<Rightarrow> Inl e
      | None \<Rightarrow>
          (case map_of d path of
             None \<Rightarrow> Inl ErrIO
           | Some data \<Rightarrow>
               let sz = length data
               in if sz < FooterSizeBytes then Inl ErrSSTableBadFooter
                  else
                    let source = NewBlockSource data sz (so_UseMmap opts) faults
                    in src_bind (Source_Read None (block_desc BlockTypeMeta
                         (word_of_nat (sz - FooterSizeBytes)) (word_of_nat FooterSizeBytes)) source) (\<lambda>buf s.
                       bind_result (DecodeFooter buf) (\<lambda>ft.
                       src_bind (ReadBlockPayload dec None (block_desc BlockTypeMeta (ft_MetaOffset ft)
                         (ft_MetaLen ft)) ErrSSTableBadMeta s) (\<lambda>metaPayload s.
                       bind_result (DecodeMeta metaPayload) (\<lambda>m.
                       src_bind (ReadBlockPayload dec None (block_desc BlockTypeIndex (ft_IndexOffset ft)
                         (ft_IndexLen ft)) ErrSSTableBadIndex s) (\<lambda>indexPayload s.
                       bind_result (DecodeIndex indexPayload) (\<lambda>indexEntries.
                       let filterPartitioned = (ft_Flags ft AND FooterFlagFilterPartitioned \<noteq> 0)
                       in src_bind (open_filter dec m filterPartitioned s) (\<lambda>(flt, filterIndex) s.
                       let partitioned = (ft_Flags ft AND FooterFlagIndexPartitioned \<noteq> 0);
                           blockCache = NewBlockCache (so_BlockCacheBytes opts);
                           indexCache = (if partitioned then NewIndexCache (so_IndexCacheBytes opts) else None);
                           filterCache =
                             (if filterPartitioned then NewFilterCache (so_FilterCacheBytes opts) else None);
                           policy = SnapshotFromOptions opts partitioned filterPartitioned;
                           pipe = NewPipeline s blockCache indexCache filterCache indexEntries partitioned
                                    flt filterIndex filterPartitioned sz policy
                       in Inr (\<lparr>rd_size = sz, rd_meta = m, rd_opts = opts, rd_dropped = False,
                               rd_pipe = Some pipe\<rparr>, mt_SeqMax m))))))))))"

definition LoadSSTable ::
  "(bytes \<Rightarrow> bytes option) \<Rightarrow> string \<Rightarrow> SstOptions \<Rightarrow> dir \<Rightarrow> lsm_error option list \<Rightarrow> SSTable result" where
  "LoadSSTable dec path opts d faults =
     bind_result (openReader dec path opts d faults) (\<lambda>(reader, seq).
       Inr \<lparr>st_Path = path, st_Seq = seq, st_reader = Some reader\<rparr>)"

section \<open>Point reads\<close>

definition outside_keys :: "Reader \<Rightarrow> bytes \<Rightarrow> bool" where
  "outside_keys r key \<longleftrightarrow>
     (mt_MinKey (rd_meta r) \<noteq> [] \<and> key < mt_MinKey (rd_meta r)) \<or>
     (mt_MaxKey (rd_meta r) \<noteq> [] \<and> mt_MaxKey (rd_meta r) < key)"

definition Reader_GetView ::
  "(bytes \<Rightarrow> bytes option) \<Rightarrow> bytes \<Rightarrow> Reader \<Rightarrow> entry option \<times> Reader" where
  "Reader_GetView dec key r =
     (if rd_dropped r then (None, r)
      else if outside_keys r key then (None, r)
      else case rd_pipe r of
        None \<Rightarrow> (None, r)
      | Some pipe \<Rightarrow>
          (case Pipeline_Get dec None key pipe of
             (Inl e, pipe') \<Rightarrow>
               (None, r\<lparr>rd_pipe := Some pipe',
                        rd_dropped := rd_dropped r \<or> so_CorruptionPolicy (rd_opts r) = CorruptionDropTable\<rparr>)
           | (Inr v, pipe') \<Rightarrow> (v, r\<lparr>rd_pipe := Some pipe'\<rparr>)))"

definition Reader_Get :: "(bytes \<Rightarrow> bytes option) \<Rightarrow> bytes \<Rightarrow> Reader \<Rightarrow> entry option \<times> Reader" where
  "Reader_Get dec key r = Reader_GetView dec key r"

definition Reader_GetViewContext ::
  "(bytes \<Rightarrow> bytes option) \<Rightarrow> lsm_error option \<Rightarrow> bytes \<Rightarrow> Reader \<Rightarrow> entry option result \<times> Reader" where
  "Reader_GetViewContext dec ctx key r =
     (case ctx of
        Some e \<Rightarrow> (Inl e, r)
      | None \<Rightarrow>
          (case rd_pipe r of
             None \<Rightarrow> (Inl ErrClosed, r)
           | Some pipe \<Rightarrow>
               if outside_keys r key then (Inr None, r)
               else case Pipeline_Get dec ctx key pipe of
                 (v, pipe') \<Rightarrow> (v, r\<lparr>rd_pipe := Some pipe'\<rparr>)))"

definition SSTable_Get :: "(bytes \<Rightarrow> bytes option) \<Rightarrow> bytes \<Rightarrow> SSTable \<Rightarrow> entry option \<times> SSTable" where
  "SSTable_Get dec key s =
     (case st_reader s of
        None \<Rightarrow> (None, s)
      | Some r \<Rightarrow> (case Reader_Get dec key r of (v, r') \<Rightarrow> (v, s\<lparr>st_reader := Some r'\<rparr>)))"

definition SSTable_GetViewContext ::
  "(bytes \<Rightarrow> bytes option) \<Rightarrow> lsm_error option \<Rightarrow> bytes \<Rightarrow> SSTable \<Rightarrow> entry option result \<times> SSTable" where
  "SSTable_GetViewContext dec ctx key s =
     (case st_reader s of
        None \<Rightarrow> (Inl ErrClosed, s)
      | Some r \<Rightarrow>
          (case Reader_GetViewContext dec ctx key r of (v, r') \<Rightarrow> (v, s\<lparr>st_reader := Some r'\<rparr>)))"

section \<open>Range iteration\<close>

record RangeIterator =
  it_start :: bytes
  it_end :: bytes
  it_block :: "Block option"
  it_blockI :: nat
  it_partIndex :: "IndexEntry list option"
  it_plan :: IndexRangePlan
  it_cursor :: "Cursor option"
  it_pending :: entry
  it_hasPending :: bool
  it_startApplied :: bool
  it_curr :: entry
  it_err :: "lsm_error option"
  it_budget :: "PrefetchBudget option"

definition newRangeIterator :: "Reader \<Rightarrow> bytes \<Rightarrow> bytes \<Rightarrow> RangeIterator" where
  "newRangeIterator r start en =
     \<lparr>it_start = start, it_end = en, it_block = None, it_blockI = 0, it_partIndex = None,
      it_plan = (NewRange start)\<lparr>rp_node := rd_pipe r \<noteq> None\<rparr>, it_cursor = None,
      it_pending = zero_entry, it_hasPending = False, it_startApplied = False,
      it_curr = zero_entry, it_err = None,
      it_budget = (case rd_pipe r of None \<Rightarrow> None | Some p \<Rightarrow> NewPrefetchBudget (pl_policy p))\<rparr>"

text \<open>The handlers of a damaged block and of a damaged index partition: whether to go on.\<close>

definition handleCorruption :: "lsm_error \<Rightarrow> RangeIterator \<Rightarrow> Reader \<Rightarrow> bool \<times> RangeIterator \<times> Reader" where
  "handleCorruption e it r =
     (case so_CorruptionPolicy (rd_opts r) of
        CorruptionSkipBlock \<Rightarrow>
          (True, it\<lparr>it_block := None, it_cursor := None, it_hasPending := False,
                    it_blockI := Suc (it_blockI it)\<rparr>, r)
      | CorruptionDropTable \<Rightarrow> (False, it, r\<lparr>rd_dropped := True\<rparr>)
      | _ \<Rightarrow> (False, it\<lparr>it_err := Some e\<rparr>, r))"

definition handleIndexCorruption ::
  "lsm_error \<Rightarrow> RangeIterator \<Rightarrow> Reader \<Rightarrow> bool \<times> RangeIterator \<times> Reader" where
  "handleIndexCorruption e it r =
     (case so_CorruptionPolicy (rd_opts r) of
        CorruptionSkipBlock \<Rightarrow>
          (True, it\<lparr>it_partIndex := None, it_block := None, it_cursor := None, it_hasPending := False\<rparr>, r)
      | CorruptionDropTable \<Rightarrow> (False, it, r\<lparr>rd_dropped := True\<rparr>)
      | _ \<Rightarrow> (False, it\<lparr>it_err := Some e\<rparr>, r))"

partial_function (option) loadPartition ::
  "(bytes \<Rightarrow> bytes option) \<Rightarrow> RangeIterator \<Rightarrow> Pipeline \<Rightarrow> Reader \<Rightarrow>
     (bool \<times> RangeIterator \<times> Reader) option" where
  "loadPartition dec it pipe r =
     (case Plan_Next dec (it_plan it) pipe of
        (Inl e, plan, pipe') \<Rightarrow>
          if e = ErrEOF then Some (False, it\<lparr>it_plan := plan\<rparr>, r\<lparr>rd_pipe := Some pipe'\<rparr>)
          else
            (case handleIndexCorruption e (it\<lparr>it_plan := plan\<rparr>) (r\<lparr>rd_pipe := Some pipe'\<rparr>) of
               (goOn, it', r') \<Rightarrow>
                 if goOn then loadPartition dec it' pipe' r' else Some (False, it', r'))
      | (Inr part, plan, pipe') \<Rightarrow>
          Some (True,
            it\<lparr>it_plan := plan, it_partIndex := Some part,
               it_blockI := (if \<not> it_startApplied it \<and> it_start it \<noteq> []
                             then case findBlock part (it_start it) of None \<Rightarrow> 0 | Some i \<Rightarrow> i
                             else 0)\<rparr>,
            r\<lparr>rd_pipe := Some pipe'\<rparr>))"

text \<open>
  One round of the loop of \<^verbatim>\<open>Next\<close>, in two halves: \<open>range_block\<close> makes a block current and
  \<open>range_entry\<close> takes the next entry from it.  \<open>Inr\<close> is the value returned, \<open>Inl\<close> means that the
  loop goes round again.
\<close>

type_synonym range_round = "(RangeIterator \<times> Reader) + (bool \<times> RangeIterator \<times> Reader)"

definition after_corruption :: "bool \<times> RangeIterator \<times> Reader \<Rightarrow> range_round" where
  "after_corruption h = (case h of (goOn, it, r) \<Rightarrow> if goOn then Inl (it, r) else Inr (False, it, r))"

definition range_load ::
  "(bytes \<Rightarrow> bytes option) \<Rightarrow> RangeIterator \<Rightarrow> Pipeline \<Rightarrow> Reader \<Rightarrow> range_round + (RangeIterator \<times> Reader)" where
  "range_load dec it pipe r =
     (case it_partIndex it of
        None \<Rightarrow> Inl (Inr (False, it\<lparr>it_err := Some PanicBounds\<rparr>, r))
      | Some part \<Rightarrow>
          if length part \<le> it_blockI it then Inl (Inr (False, it\<lparr>it_err := Some PanicBounds\<rparr>, r))
          else
            (case ReadBlockEntry dec (part ! it_blockI it) pipe of
               (Inl e, pipe') \<Rightarrow>
                 Inl (after_corruption (handleCorruption e it (r\<lparr>rd_pipe := Some pipe'\<rparr>)))
             | (Inr blk, pipe') \<Rightarrow>
                 Inr (it\<lparr>it_block := Some blk, it_cursor := None, it_hasPending := False\<rparr>,
                      r\<lparr>rd_pipe := Some (Pipeline_Prefetch dec part (it_blockI it) (it_budget it) pipe')\<rparr>)))"

definition range_take :: "Block \<Rightarrow> RangeIterator \<Rightarrow> Reader \<Rightarrow> range_round" where
  "range_take blk it r =
     (if it_hasPending it then
        Inr (True, it\<lparr>it_hasPending := False, it_curr := it_pending it\<rparr>, r)
      else case it_cursor it of
        None \<Rightarrow> Inr (False, it\<lparr>it_err := Some PanicNil\<rparr>, r)
      | Some c \<Rightarrow>
          (case Cursor_Next (bk_data blk) c of
             Inl e \<Rightarrow> after_corruption (handleCorruption e it r)
           | Inr None \<Rightarrow>
               Inl (it\<lparr>it_block := None, it_blockI := Suc (it_blockI it), it_cursor := None\<rparr>, r)
           | Inr (Some (entry, c')) \<Rightarrow>
               let it = it\<lparr>it_cursor := Some c'\<rparr>
               in if it_end it \<noteq> [] \<and> it_end it \<le> Key entry then Inr (False, it, r)
                  else Inr (True, it\<lparr>it_curr := entry\<rparr>, r)))"

definition range_entry :: "Block \<Rightarrow> RangeIterator \<Rightarrow> Reader \<Rightarrow> range_round" where
  "range_entry blk it r =
     (if it_cursor it \<noteq> None then range_take blk it r
      else if \<not> it_startApplied it \<and> it_start it \<noteq> [] then
        let it = it\<lparr>it_startApplied := True\<rparr>
        in (case Block_Seek blk (it_start it) of
              Inl e \<Rightarrow> after_corruption (handleCorruption e it r)
            | Inr None \<Rightarrow> Inl (it\<lparr>it_block := None, it_blockI := Suc (it_blockI it)\<rparr>, r)
            | Inr (Some (c, entry)) \<Rightarrow>
                if it_end it \<noteq> [] \<and> it_end it \<le> Key entry then Inr (False, it, r)
                else range_take blk
                       (it\<lparr>it_cursor := Some c, it_pending := entry, it_hasPending := True\<rparr>) r)
      else
        range_take blk
          (it\<lparr>it_startApplied := True, it_cursor := Some (NewCursor blk 0 (length (bk_data blk)))\<rparr>) r)"

definition range_round ::
  "(bytes \<Rightarrow> bytes option) \<Rightarrow> RangeIterator \<Rightarrow> Reader \<Rightarrow> range_round option" where
  "range_round dec it r =
     (case it_block it of
        Some blk \<Rightarrow> Some (range_entry blk it r)
      | None \<Rightarrow>
          (case rd_pipe r of
             None \<Rightarrow> Some (Inr (False, it, r))
           | Some pipe \<Rightarrow>
               (case (if it_partIndex it = None \<or> length (the (it_partIndex it)) \<le> it_blockI it
                      then loadPartition dec it pipe r else Some (True, it, r)) of
                  None \<Rightarrow> None
                | Some (False, it, r) \<Rightarrow> Some (Inr (False, it, r))
                | Some (True, it, r) \<Rightarrow>
                    (case range_load dec it (the (rd_pipe r)) r of
                       Inl out \<Rightarrow> Some out
                     | Inr (it, r) \<Rightarrow> Some (range_entry (the (it_block it)) it r)))))"

partial_function (option) range_loop ::
  "(bytes \<Rightarrow> bytes option) \<Rightarrow> RangeIterator \<Rightarrow> Reader \<Rightarrow> (bool \<times> RangeIterator \<times> Reader) option" where
  "range_loop dec it r =
     (case range_round dec it r of
        None \<Rightarrow> None
      | Some (Inr out) \<Rightarrow> Some out
      | Some (Inl (it', r')) \<Rightarrow> range_loop dec it' r')"

definition Range_Next ::
  "(bytes \<Rightarrow> bytes option) \<Rightarrow> RangeIterator \<Rightarrow> Reader \<Rightarrow> (bool \<times> RangeIterator \<times> Reader) option" where
  "Range_Next dec it r =
     (if rd_dropped r \<or> rd_pipe r = None then Some (False, it, r) else range_loop dec it r)"

end
