(* ===== verification/Sst_Writer.thy ===== *)
theory Sst_Writer
  imports Sst_Reader
begin

text \<open>
  The writer of sorted tables, \<^verbatim>\<open>internal/lsm/sstable/writer.go\<close>: a flush sorts the entries,
  cuts them into data blocks, writes filters, index partitions, index, meta block and footer to
  a temporary file, syncs it, renames it and opens the result.  \<open>enc\<close> and \<open>dec\<close> are the snappy
  package, \<open>scale\<close> the float64 scaling of the adaptive restart interval.  An error leaves the
  temporary file as far as it was written.
\<close>

section \<open>The operations\<close>

definition sst_entry_less :: "entry \<Rightarrow> entry \<Rightarrow> bool" where
  "sst_entry_less a b =
     (if Key a \<noteq> Key b then Key a < Key b
      else if Seq a \<noteq> Seq b then Seq b < Seq a
      else if Tombstone a \<noteq> Tombstone b then Tombstone a
      else False)"

record wstate =
  ws_builder :: Builder
  ws_offset :: u64
  ws_index :: "IndexEntry list"
  ws_counts :: "nat list"
  ws_filter :: "BloomFilter option"
  ws_seqMin :: u64
  ws_seqMax :: u64
  ws_fs :: fs

definition sst_flushBlock ::
  "(bytes \<Rightarrow> bytes) \<Rightarrow> SstOptions \<Rightarrow> string \<Rightarrow> wstate \<Rightarrow> lsm_error option \<times> wstate" where
  "sst_flushBlock enc opts f w =
     (let b = ws_builder w;
          (compressed, uncompressedLen) = CompressPayload enc (Builder_Finish b) (so_Compression opts);
          block = EncodeBlock compressed BlockTypeData (so_Compression opts) uncompressedLen
      in (case fs_write f block (ws_fs w) of
            ((n, Some e), s) \<Rightarrow> (Some e, w\<lparr>ws_fs := s\<rparr>)
          | ((n, None), s) \<Rightarrow>
              (None,
               w\<lparr>ws_fs := s,
                  ws_index := (if bd_first b \<noteq> []
                               then ws_index w @ [\<lparr>ie_Key = bd_first b, ie_Offset = ws_offset w,
                                                   ie_Length = word_of_nat n\<rparr>]
                               else ws_index w),
                  ws_counts := ws_counts w @ [bd_entryCount b],
                  ws_offset := ws_offset w + word_of_nat n,
                  ws_builder := Builder_Reset b\<rparr>)))"

text \<open>The filter step and the three cases of an entry in the loop over the entries.\<close>

definition flush_seqs :: "entry \<Rightarrow> wstate \<Rightarrow> wstate" where
  "flush_seqs e w =
     w\<lparr>ws_seqMin := (if Seq e < ws_seqMin w then Seq e else ws_seqMin w),
        ws_seqMax := (if ws_seqMax w < Seq e then Seq e else ws_seqMax w)\<rparr>"

definition flush_cut ::
  "(bytes \<Rightarrow> bytes) \<Rightarrow> SstOptions \<Rightarrow> string \<Rightarrow> entry \<Rightarrow> wstate \<Rightarrow> lsm_error option \<times> wstate" where
  "flush_cut enc opts f e w =
     (if 0 < Builder_SizeBytes (ws_builder w) \<and>
         so_BlockTargetBytes opts < int (EstimatedSizeAfter (ws_builder w) e)
      then sst_flushBlock enc opts f w else (None, w))"

definition flush_add ::
  "(bytes \<Rightarrow> bytes) \<Rightarrow> (nat \<Rightarrow> nat \<Rightarrow> int \<Rightarrow> int) \<Rightarrow> SstOptions \<Rightarrow> string \<Rightarrow> entry \<Rightarrow> wstate \<Rightarrow>
     lsm_error option \<times> wstate" where
  "flush_add enc scale opts f e w =
     (let large = (Builder_SizeBytes (ws_builder w) = 0 \<and>
                   so_BlockMaxBytes opts < int (EstimatedSizeAfter (ws_builder w) e));
          w = w\<lparr>ws_builder := Builder_Add scale (ws_builder w) e\<rparr>
      in if large \<or> so_BlockMaxBytes opts \<le> int (Builder_SizeBytes (ws_builder w))
         then sst_flushBlock enc opts f w else (None, w))"

definition flush_entry ::
  "(bytes \<Rightarrow> bytes) \<Rightarrow> (nat \<Rightarrow> nat \<Rightarrow> int \<Rightarrow> int) \<Rightarrow> SstOptions \<Rightarrow> string \<Rightarrow> entry \<Rightarrow> wstate \<Rightarrow>
     lsm_error option \<times> wstate" where
  "flush_entry enc scale opts f e w0 =
     (let w = flush_seqs e w0
      in case Filter_Add (ws_filter w) (Key e) of
        Inl p \<Rightarrow> (Some p, w)
      | Inr flt \<Rightarrow>
          (case flush_cut enc opts f e (w\<lparr>ws_filter := flt\<rparr>) of
             (Some err, w) \<Rightarrow> (Some err, w)
           | (None, w) \<Rightarrow> flush_add enc scale opts f e w))"

fun flush_entries ::
  "(bytes \<Rightarrow> bytes) \<Rightarrow> (nat \<Rightarrow> nat \<Rightarrow> int \<Rightarrow> int) \<Rightarrow> SstOptions \<Rightarrow> string \<Rightarrow> entry list \<Rightarrow> wstate \<Rightarrow>
     lsm_error option \<times> wstate" where
  "flush_entries enc scale opts f [] w =
     (if 0 < Builder_SizeBytes (ws_builder w) then sst_flushBlock enc opts f w else (None, w))"
| "flush_entries enc scale opts f (e # es) w =
     (case flush_entry enc scale opts f e w of
        (Some err, w) \<Rightarrow> (Some err, w)
      | (None, w) \<Rightarrow> flush_entries enc scale opts f es w)"

text \<open>Index partitions: the top-level entries, the new offset and the file system.\<close>

definition index_block :: "IndexEntry list \<Rightarrow> bytes" where
  "index_block es =
     (let payload = EncodeIndex es
      in EncodeBlock payload BlockTypeIndex CompressionNone (word_of_nat (length payload)))"

function index_partitions ::
  "string \<Rightarrow> nat \<Rightarrow> IndexEntry list \<Rightarrow> IndexEntry list \<Rightarrow> u64 \<Rightarrow> fs \<Rightarrow>
     IndexEntry list result \<times> u64 \<times> fs" where
  "index_partitions f per idx acc offset s =
     (if idx \<noteq> [] \<and> 0 < per then
        (case fs_write f (index_block (take per idx)) s of
           ((n, Some e), s') \<Rightarrow> (Inl e, offset, s')
         | ((n, None), s') \<Rightarrow>
             index_partitions f per (drop per idx)
               (acc @ [\<lparr>ie_Key = ie_Key (hd idx), ie_Offset = offset, ie_Length = word_of_nat n\<rparr>])
               (offset + word_of_nat n) s')
      else (Inr acc, offset, s))"
  by pat_completeness auto
termination
  by (relation "measure (\<lambda>(f, per, idx, acc, offset, s). length idx)") auto

declare index_partitions.simps [simp del]

text \<open>The filter stage: nothing, one block, or partitions with their index entries.\<close>

definition flush_filters ::
  "SstOptions \<Rightarrow> string \<Rightarrow> entry list \<Rightarrow> bool \<Rightarrow> wstate \<Rightarrow>
     (u64 \<times> u32 \<times> IndexEntry list) result \<times> u64 \<times> fs" where
  "flush_filters opts f entries filterPartitioned w =
     (if ws_filter w = None then (Inr (0, 0, []), ws_offset w, ws_fs w)
      else if filterPartitioned then
        (case WritePartitionedBloomFilters f entries (ws_index w) (ws_counts w)
                (so_IndexPartitionEntries opts) (so_BloomBitsPerKey opts) (ws_offset w) (ws_fs w) of
           (Inl e, off, s) \<Rightarrow> (Inl e, off, s)
         | (Inr idx, off, s) \<Rightarrow> (Inr (0, 0, idx), off, s))
      else
        (case WriteBloomBlock f (ws_filter w) (ws_offset w) (ws_fs w) of
           (Inl e, off, s) \<Rightarrow> (Inl e, off, s)
         | (Inr (bo, bl), off, s) \<Rightarrow> (Inr (bo, bl, []), off, s)))"

definition flush_top ::
  "SstOptions \<Rightarrow> string \<Rightarrow> IndexEntry list \<Rightarrow> bool \<Rightarrow> u64 \<Rightarrow> fs \<Rightarrow> IndexEntry list result \<times> u64 \<times> fs" where
  "flush_top opts f idx partitioned offset s =
     (if partitioned then index_partitions f (nat (so_IndexPartitionEntries opts)) idx [] offset s
      else (Inr idx, offset, s))"

text \<open>A write whose error ends the flush.\<close>

definition put_block ::
  "string \<Rightarrow> bytes \<Rightarrow> u64 \<Rightarrow> fs \<Rightarrow> (u64 \<Rightarrow> u32 \<Rightarrow> fs \<Rightarrow> lsm_error option \<times> fs) \<Rightarrow> lsm_error option \<times> fs" where
  "put_block f b offset s k =
     (case fs_write f b s of
        ((n, Some e), s') \<Rightarrow> (Some e, s')
      | ((n, None), s') \<Rightarrow> k (offset + word_of_nat n) (word_of_nat n) s')"

definition flush_meta :: "SstOptions \<Rightarrow> entry list \<Rightarrow> wstate \<Rightarrow> u64 \<Rightarrow> u32 \<Rightarrow> Meta" where
  "flush_meta opts entries w bloomOffset bloomLen =
     \<lparr>mt_MinKey = Key (hd entries), mt_MaxKey = Key (last entries),
      mt_EntryCount = word_of_nat (length entries), mt_SeqMin = ws_seqMin w,
      mt_SeqMax = ws_seqMax w, mt_Compression = so_Compression opts,
      mt_BloomBits = word_of_int (so_BloomBitsPerKey opts), mt_BloomK = Filter_K (ws_filter w),
      mt_BloomOffset = bloomOffset, mt_BloomLen = bloomLen\<rparr>"

text \<open>From the end of the data blocks to the footer.\<close>

definition flush_tail ::
  "SstOptions \<Rightarrow> string \<Rightarrow> entry list \<Rightarrow> wstate \<Rightarrow> lsm_error option \<times> fs" where
  "flush_tail opts f entries w =
     (let partitioned = (0 < so_IndexPartitionEntries opts \<and>
                         so_IndexPartitionEntries opts < int (length (ws_index w)));
          filterPartitioned = (partitioned \<and> ws_filter w \<noteq> None \<and> so_FilterPartitioned opts)
      in (case flush_filters opts f entries filterPartitioned w of
            (Inl e, _, s) \<Rightarrow> (Some e, s)
          | (Inr (bloomOffset0, bloomLen0, filterIndex), off, s) \<Rightarrow>
              (case flush_top opts f (ws_index w) partitioned off s of
                 (Inl e, _, s) \<Rightarrow> (Some e, s)
               | (Inr topIndex, indexOffset, s) \<Rightarrow>
                   put_block f (index_block topIndex) indexOffset s (\<lambda>off indexLen s.
                   let finish = (\<lambda>bloomOffset bloomLen metaOffset s.
                         let metaPayload = EncodeMeta (flush_meta opts entries w bloomOffset bloomLen);
                             metaBlock = EncodeBlock metaPayload BlockTypeMeta CompressionNone
                                           (word_of_nat (length metaPayload))
                         in put_block f metaBlock metaOffset s (\<lambda>off metaLen s.
                            let flags = (if partitioned then FooterFlagIndexPartitioned else 0);
                                flags = (if filterPartitioned then flags OR FooterFlagFilterPartitioned
                                         else flags)
                            in put_block f (EncodeFooter \<lparr>ft_Flags = flags, ft_IndexOffset = indexOffset,
                                 ft_IndexLen = word_of_nat (length (index_block topIndex)),
                                 ft_MetaOffset = metaOffset,
                                 ft_MetaLen = word_of_nat (length metaBlock)\<rparr>) off s
                                 (\<lambda>_ _ s. (None, s))))
                   in if filterPartitioned \<and> filterIndex \<noteq> [] then
                        put_block f (filter_block (EncodeIndex filterIndex)) off s
                          (\<lambda>off' n s. finish off n off' s)
                      else finish bloomOffset0 bloomLen0 off s))))"

definition syncDir :: "fs \<Rightarrow> lsm_error option \<times> fs" where
  "syncDir s =
     (case fs_effect s of
        (Some e, s) \<Rightarrow> (Some e, s)
      | (None, s) \<Rightarrow>
          (case fs_effect s of
             (Some e, s) \<Rightarrow> (Some e, snd (fs_effect s))
           | (None, s) \<Rightarrow> fs_effect s))"

definition NewSSTableWriter :: "SstOptions \<Rightarrow> string \<Rightarrow> fs \<Rightarrow> SstOptions result \<times> fs" where
  "NewSSTableWriter opts0 dirp s =
     (let opts = Normalize opts0
      in case Validate opts of
        Some e \<Rightarrow> (Inl e, s)
      | None \<Rightarrow>
          if dirp = [] then (Inl (ErrMsg ''sstable dir required''), s)
          else (case fs_effect s of (Some e, s') \<Rightarrow> (Inl e, s') | (None, s') \<Rightarrow> (Inr opts, s')))"

definition sst_name :: "string \<Rightarrow> u64 \<Rightarrow> u64 \<Rightarrow> string" where
  "sst_name dirp seqMax now =
     dirp @ ''/sstable-'' @ show_nat (unat seqMax) @ ''-'' @ show_nat (unat now) @ ''.sst''"

text \<open>Closing after an error: the error stays the result.\<close>

definition close_after :: "lsm_error \<Rightarrow> fs \<Rightarrow> 'a result \<times> fs" where
  "close_after e s = (Inl e, snd (fs_effect s))"

definition flush_commit ::
  "(bytes \<Rightarrow> bytes option) \<Rightarrow> SstOptions \<Rightarrow> string \<Rightarrow> string \<Rightarrow> lsm_error option list \<Rightarrow> fs \<Rightarrow>
     SSTable result \<times> fs" where
  "flush_commit dec opts tempPath finalPath faults s =
     (case fs_effect s of
        (Some e, s) \<Rightarrow> close_after e s
      | (None, s) \<Rightarrow>
          (case fs_effect s of
             (Some e, s) \<Rightarrow> (Inl e, s)
           | (None, s) \<Rightarrow>
               (case fs_rename tempPath finalPath s of
                  (Some e, s) \<Rightarrow> (Inl e, s)
                | (None, s) \<Rightarrow>
                    (case syncDir s of
                       (Some e, s) \<Rightarrow> (Inl e, s)
                     | (None, s) \<Rightarrow> (LoadSSTable dec finalPath opts (fs_dir s) faults, s)))))"

definition Writer_Flush ::
  "(bytes \<Rightarrow> bytes) \<Rightarrow> (bytes \<Rightarrow> bytes option) \<Rightarrow> (nat \<Rightarrow> nat \<Rightarrow> int \<Rightarrow> int) \<Rightarrow> SstOptions \<Rightarrow> string \<Rightarrow>
     entry list \<Rightarrow> lsm_error option list \<Rightarrow> fs \<Rightarrow> SSTable result \<times> fs" where
  "Writer_Flush enc dec scale opts dirp entries0 faults s0 =
     (if entries0 = [] then (Inl (ErrMsg ''no entries to write''), s0)
      else
        let entries = sort_Slice sst_entry_less entries0;
            finalPath = sst_name dirp (Seq (last entries)) (fs_now s0);
            tempPath = finalPath @ ''.tmp''
        in (case fs_open True tempPath s0 of
              (Some e, s) \<Rightarrow> (Inl e, s)
            | (None, s) \<Rightarrow>
                (case flush_entries enc scale opts tempPath entries
                        \<lparr>ws_builder = NewBuilder (so_RestartInterval opts) (so_RestartIntervalAdaptive opts)
                                       (so_RestartIntervalMin opts) (so_RestartIntervalMax opts),
                         ws_offset = 0, ws_index = [], ws_counts = [],
                         ws_filter = NewFilter (int (length entries)) (so_BloomBitsPerKey opts),
                         ws_seqMin = Seq (hd entries), ws_seqMax = Seq (last entries), ws_fs = s\<rparr> of
                   (Some e, w) \<Rightarrow> close_after e (ws_fs w)
                 | (None, w) \<Rightarrow>
                     (case flush_tail opts tempPath entries w of
                        (Some e, s) \<Rightarrow> close_after e s
                      | (None, s) \<Rightarrow> flush_commit dec opts tempPath finalPath faults s))))"

section \<open>The sorted entries\<close>

interpretation entry_order: strict_weak sst_entry_less
  by unfold_locales (auto simp: sst_entry_less_def split: if_splits)

lemma sorted_entries:
  assumes "distinct (map Key es)"
  shows "entry_keys_sorted (sort_Slice sst_entry_less es)"
proof -
  let ?s = "sort_Slice sst_entry_less es"
  have d: "distinct (map Key ?s)" using assms by simp
  have "sorted_wrt (\<lambda>a b. \<not> sst_entry_less b a) ?s" by (rule entry_order.sorted_sort_Slice)
  then have "Key (?s ! i) < Key (?s ! j)" if "i < j" "j < length ?s" for i j
  proof -
    have "Key (?s ! i) \<noteq> Key (?s ! j)" using d that by (auto simp: distinct_conv_nth)
    moreover have "\<not> sst_entry_less (?s ! j) (?s ! i)"
      using \<open>sorted_wrt _ ?s\<close> that by (simp add: sorted_wrt_iff_nth_less)
    ultimately show ?thesis by (auto simp: sst_entry_less_def split: if_splits)
  qed
  then show ?thesis by (simp add: entry_keys_sorted_def sorted_wrt_iff_nth_less)
qed

end
