(* ===== verification/Sst_Flush.thy ===== *)
theory Sst_Flush
  imports Sst_Writer
begin

text \<open>
  What a flush leaves on disk, and that the opened table answers with the flushed entries.
\<close>

section \<open>Consecutive blocks of a file\<close>

text \<open>References with the bytes they stand for, laid out one after the other from an offset.\<close>

fun laid_out :: "nat \<Rightarrow> (IndexEntry \<times> bytes) list \<Rightarrow> bool" where
  "laid_out off [] = True"
| "laid_out off ((e, b) # rs) =
     (ie_Offset e = word_of_nat off \<and> ie_Length e = word_of_nat (length b) \<and> b \<noteq> [] \<and>
      laid_out (off + length b) rs)"

definition ref_data :: "(IndexEntry \<times> bytes) list \<Rightarrow> bytes" where
  "ref_data rs = concat (map snd rs)"

lemma ref_data_simps [simp]:
  "ref_data [] = []" "ref_data (r # rs) = snd r @ ref_data rs" "ref_data (xs @ ys) = ref_data xs @ ref_data ys"
  by (simp_all add: ref_data_def)

lemma laid_out_append:
  "laid_out off (xs @ ys) \<longleftrightarrow> laid_out off xs \<and> laid_out (off + length (ref_data xs)) ys"
  by (induction off xs rule: laid_out.induct) (auto simp: add.assoc)

lemma laid_out_ref:
  assumes "laid_out (length pre) rs" "data = pre @ ref_data rs @ suf" "length data < 2 ^ 32"
    and "(e, b) \<in> set rs"
  shows "in_file data e" "ref_bytes data e = b"
    "unat (ie_Offset e) + unat (ie_Length e) \<le> length pre + length (ref_data rs)"
    "length pre \<le> unat (ie_Offset e)" "unat (ie_Length e) = length b"
proof -
  obtain xs ys where rs: "rs = xs @ (e, b) # ys" using assms(4) by (meson split_list)
  let ?off = "length pre + length (ref_data xs)"
  have e: "ie_Offset e = word_of_nat ?off" "ie_Length e = word_of_nat (length b)" "b \<noteq> []"
    using assms(1) by (simp_all add: rs laid_out_append)
  have len: "?off + length b \<le> length data" using assms(2) by (simp add: rs)
  have off: "unat (ie_Offset e) = ?off"
    unfolding e(1) using len assms(3) by (intro unat_word_of_nat_u64) simp
  have bl: "unat (ie_Length e) = length b"
    unfolding e(2) using len assms(3) by (intro unat_word_of_nat_u32) simp
  show "unat (ie_Length e) = length b" by (rule bl)
  show "length pre \<le> unat (ie_Offset e)" by (simp add: off)
  show "unat (ie_Offset e) + unat (ie_Length e) \<le> length pre + length (ref_data rs)"
    by (simp add: off bl rs)
  have "ie_Length e \<noteq> 0" using bl e(3) by (metis length_0_conv unat_0)
  then show "in_file data e" using len by (simp add: in_file_def off bl)
  have "data = (pre @ ref_data xs) @ b @ ref_data ys @ suf" using assms(2) by (simp add: rs)
  then show "ref_bytes data e = b" by (simp add: ref_bytes_def off bl bslice_def)
qed

lemma laid_out_distinct:
  "laid_out off rs \<Longrightarrow> off + length (ref_data rs) < 2 ^ 32 \<Longrightarrow> distinct (map (ie_Offset \<circ> fst) rs)"
proof (induction off rs rule: laid_out.induct)
  case (2 off e b rs)
  have "ie_Offset e \<noteq> ie_Offset e'" if mem: "(e', b') \<in> set rs" for e' b'
  proof -
    have "off + length b \<le> unat (ie_Offset e')"
      using laid_out_ref(4) [of "replicate (off + length b) 0" rs _ "[]", OF _ refl _ mem] "2.prems"
      by simp
    moreover have "unat (ie_Offset e) = off" "b \<noteq> []"
      using "2.prems" by (auto intro: unat_word_of_nat_u64)
    ultimately show ?thesis by auto
  qed
  then have "\<forall>(e', b') \<in> set rs. ie_Offset e \<noteq> ie_Offset e'" by blast
  then have "ie_Offset e \<notin> (ie_Offset \<circ> fst) ` set rs" by auto
  with 2 show ?case by simp
qed simp

section \<open>Writing without input/output errors\<close>

text \<open>A file system that has no pending error and the given contents of the file.\<close>

definition holds_file :: "string \<Rightarrow> bytes \<Rightarrow> fs \<Rightarrow> bool" where
  "holds_file f data s \<longleftrightarrow> fs_faults s = [] \<and> map_of (fs_dir s) f = Some data"

definition other_files :: "string \<Rightarrow> fs \<Rightarrow> fs \<Rightarrow> bool" where
  "other_files f s s' \<longleftrightarrow> fs_now s' = fs_now s \<and> (\<forall>g. g \<noteq> f \<longrightarrow> map_of (fs_dir s') g = map_of (fs_dir s) g)"

lemma other_files_trans: "other_files f s s' \<Longrightarrow> other_files f s' s'' \<Longrightarrow> other_files f s s''"
  by (simp add: other_files_def)

lemma other_files_refl [simp]: "other_files f s s"
  by (simp add: other_files_def)

lemma fs_write_holds:
  assumes "holds_file f data s"
  obtains s' where "fs_write f b s = ((length b, None), s')" "holds_file f (data @ b) s'" "other_files f s s'"
  using assms by (auto simp: holds_file_def other_files_def)

section \<open>Data blocks\<close>

definition data_block :: "(bytes \<Rightarrow> bytes) \<Rightarrow> Compression \<Rightarrow> Builder \<Rightarrow> bytes" where
  "data_block enc c b =
     (let (p, n) = CompressPayload enc (Builder_Finish b) c in EncodeBlock p BlockTypeData c n)"

text \<open>The largest payload of a data block: the target size, or one entry alone.\<close>

definition block_bound :: "SstOptions \<Rightarrow> entry list \<Rightarrow> nat" where
  "block_bound opts es =
     foldr (\<lambda>e m. max (29 + length (Key e) + length (Value e)) m) es (nat (so_BlockTargetBytes opts))"

lemma block_bound_target: "nat (so_BlockTargetBytes opts) \<le> block_bound opts es"
  by (induction es) (auto simp: block_bound_def)

lemma block_bound_entry: "e \<in> set es \<Longrightarrow> 29 + length (Key e) + length (Value e) \<le> block_bound opts es"
  by (induction es) (auto simp: block_bound_def)

definition good_block ::
  "(bytes \<Rightarrow> bytes) \<Rightarrow> Compression \<Rightarrow> nat \<Rightarrow> IndexEntry \<times> bytes \<Rightarrow> entry list \<Rightarrow> bool" where
  "good_block enc c bound r es \<longleftrightarrow>
     es \<noteq> [] \<and> ie_Key (fst r) = Key (hd es) \<and>
     (\<exists>b xs rs. builder_inv b xs rs \<and> map snd xs = es \<and> snd r = data_block enc c b \<and>
        length (Builder_Finish b) \<le> bound)"

text \<open>
  The state of the loop over the entries: the file, the references written so far with their
  blocks of entries, and the entries in the builder.
\<close>

definition flushing ::
  "(bytes \<Rightarrow> bytes) \<Rightarrow> SstOptions \<Rightarrow> string \<Rightarrow> nat \<Rightarrow> fs \<Rightarrow> wstate \<Rightarrow> (IndexEntry \<times> bytes) list \<Rightarrow>
     entry list list \<Rightarrow> entry list \<Rightarrow> bool" where
  "flushing enc opts f bound s0 w refs blocks cur \<longleftrightarrow>
     holds_file f (ref_data refs) (ws_fs w) \<and> other_files f s0 (ws_fs w) \<and>
     laid_out 0 refs \<and> ws_offset w = word_of_nat (length (ref_data refs)) \<and>
     ws_index w = map fst refs \<and> ws_counts w = map length blocks \<and>
     list_all2 (good_block enc (so_Compression opts) bound) refs blocks \<and>
     bd_first (ws_builder w) = (if cur = [] then [] else Key (hd cur)) \<and>
     (\<exists>xs rs. builder_inv (ws_builder w) xs rs \<and> map snd xs = cur) \<and>
     (cur \<noteq> [] \<longrightarrow> length (Builder_Finish (ws_builder w)) \<le> bound)"

lemma data_block_not_Nil [simp]: "data_block enc c b \<noteq> []"
  by (simp add: data_block_def split: prod.splits) (metis EncodeBlock_parts(1) length_EncodeBlock list.size(3)
      add_is_0 zero_neq_numeral)

lemma sst_flushBlock_flushing:
  assumes fl: "flushing enc opts f bound s0 w refs blocks cur" and ne: "cur \<noteq> []" "Key (hd cur) \<noteq> []"
  obtains r w' where "sst_flushBlock enc opts f w = (None, w')"
    "flushing enc opts f bound s0 w' (refs @ [r]) (blocks @ [cur]) []"
    "ws_filter w' = ws_filter w" "ws_seqMin w' = ws_seqMin w" "ws_seqMax w' = ws_seqMax w"
    "ws_builder w' = Builder_Reset (ws_builder w)"
proof -
  let ?b = "ws_builder w"
  let ?B = "data_block enc (so_Compression opts) ?b"
  let ?e = "\<lparr>ie_Key = bd_first ?b, ie_Offset = ws_offset w, ie_Length = word_of_nat (length ?B)\<rparr>"
  have h: "holds_file f (ref_data refs) (ws_fs w)" using fl by (simp add: flushing_def)
  then obtain s' where s': "fs_write f ?B (ws_fs w) = ((length ?B, None), s')"
    "holds_file f (ref_data refs @ ?B) s'" "other_files f (ws_fs w) s'"
    by (rule fs_write_holds)
  obtain xs rs where inv: "builder_inv ?b xs rs" "map snd xs = cur" using fl by (auto simp: flushing_def)
  have bound: "length (Builder_Finish ?b) \<le> bound" using fl ne by (simp add: flushing_def)
  have first: "bd_first ?b = Key (hd cur)" using fl ne by (simp add: flushing_def)
  have cnt: "bd_entryCount ?b = length cur" using inv by (auto simp: builder_inv_def)
  let ?w = "w\<lparr>ws_fs := s', ws_index := ws_index w @ [?e], ws_counts := ws_counts w @ [bd_entryCount ?b],
      ws_offset := ws_offset w + word_of_nat (length ?B), ws_builder := Builder_Reset ?b\<rparr>"
  have run: "sst_flushBlock enc opts f w = (None, ?w)"
    using s'(1) first ne(2)
    by (simp add: sst_flushBlock_def Let_def data_block_def split: prod.splits)
  have "good_block enc (so_Compression opts) bound (?e, ?B) cur"
    unfolding good_block_def using ne first inv bound by auto
  moreover have "list_all2 (good_block enc (so_Compression opts) bound) refs blocks"
    using fl by (simp add: flushing_def)
  ultimately have "list_all2 (good_block enc (so_Compression opts) bound) (refs @ [(?e, ?B)]) (blocks @ [cur])"
    by (simp add: list_all2_appendI)
  moreover have "\<exists>xs rs. builder_inv (Builder_Reset ?b) xs rs \<and> map snd xs = []"
    using builder_inv_Reset by fastforce
  moreover have "other_files f s0 s'"
    using fl s'(3) other_files_trans by (auto simp: flushing_def)
  ultimately have "flushing enc opts f bound s0 ?w (refs @ [(?e, ?B)]) (blocks @ [cur]) []"
    using fl s'(2) cnt unfolding flushing_def
    by (simp add: laid_out_append Builder_Finish_def Builder_Reset_def)
  with run show ?thesis using that by simp
qed

lemma Builder_Add_first:
  "bd_first (Builder_Add scale b e) = (if bd_first b = [] then Key e else bd_first b)"
proof -
  obtain b1 sh un restart where nx: "nextEntrySizing b e = (b1, sh, un, restart)"
    by (cases "nextEntrySizing b e") auto
  have "bd_first b1 = bd_first b" using nx by (auto simp: nextEntrySizing_def Let_def split: if_splits)
  then show ?thesis by (simp add: Builder_Add_def nx Let_def)
qed

lemma EstimatedSizeAfter_empty:
  assumes "builder_inv b [] []"
  shows "EstimatedSizeAfter b e = 29 + length (Key e) + length (Value e)"
  using assms
  by (auto simp: EstimatedSizeAfter_def nextEntrySizing_def Let_def builder_inv_def entryEncodedSize_def
      block_sizes)

lemma builder_size:
  assumes "builder_inv b xs rs"
  shows "Builder_SizeBytes b = (if xs = [] then 0 else length (Builder_Finish b))"
  using assms
  by (auto simp: Builder_SizeBytes_def Builder_Finish_def builder_inv_def length_concat block_sizes
      comp_def sum_list_triv)

lemma flush_add_flushing:
  assumes fl: "flushing enc opts f bound s0 w refs blocks cur"
    and e: "Key e \<noteq> []" "29 + length (Key e) + length (Value e) \<le> bound"
    and cut: "cur \<noteq> [] \<Longrightarrow> Key (hd cur) \<noteq> [] \<and> EstimatedSizeAfter (ws_builder w) e \<le> bound"
  obtains refs' blocks' cur' w' where "flush_add enc scale opts f e w = (None, w')"
    "flushing enc opts f bound s0 w' refs' blocks' cur'"
    "concat blocks' @ cur' = concat blocks @ cur @ [e]"
    "cur' = [] \<or> Key (hd cur') \<noteq> []"
    "ws_filter w' = ws_filter w" "ws_seqMin w' = ws_seqMin w" "ws_seqMax w' = ws_seqMax w"
proof -
  let ?b = "Builder_Add scale (ws_builder w) e"
  let ?w = "w\<lparr>ws_builder := ?b\<rparr>"
  obtain xs rs where inv: "builder_inv (ws_builder w) xs rs" "map snd xs = cur"
    using fl by (auto simp: flushing_def)
  obtain xs' rs' where inv': "builder_inv ?b xs' rs'" "map snd xs' = cur @ [e]"
    using Builder_Add_inv [OF inv(1), of scale e] inv(2) by auto
  have size: "length (Builder_Finish ?b) = EstimatedSizeAfter (ws_builder w) e"
    using EstimatedSizeAfter_eq by metis
  have "EstimatedSizeAfter (ws_builder w) e \<le> bound"
  proof (cases "cur = []")
    case True
    with inv have "xs = []" by simp
    then have "builder_inv (ws_builder w) [] []"
      using inv(1) by (auto simp: builder_inv_def restarts_ok_def)
    from EstimatedSizeAfter_empty [OF this] e(2) show ?thesis by simp
  next
    case False
    with cut show ?thesis by simp
  qed
  moreover have "cur \<noteq> [] \<Longrightarrow> Key (hd cur) \<noteq> []" using cut by simp
  ultimately have fl': "flushing enc opts f bound s0 ?w refs blocks (cur @ [e])"
    using fl inv' size e
    unfolding flushing_def by (auto simp: Builder_Add_first hd_append split: if_splits)
  have hd: "Key (hd (cur @ [e])) \<noteq> []" using cut e(1) by (cases cur) auto
  show ?thesis
  proof (cases "(Builder_SizeBytes (ws_builder w) = 0 \<and>
                   so_BlockMaxBytes opts < int (EstimatedSizeAfter (ws_builder w) e)) \<or>
                so_BlockMaxBytes opts \<le> int (Builder_SizeBytes ?b)")
    case True
    then have run: "flush_add enc scale opts f e w = sst_flushBlock enc opts f ?w"
      by (simp add: flush_add_def Let_def)
    have ne: "cur @ [e] \<noteq> []" by simp
    obtain r w' where
      "sst_flushBlock enc opts f ?w = (None, w')"
      "flushing enc opts f bound s0 w' (refs @ [r]) (blocks @ [cur @ [e]]) []"
      "ws_filter w' = ws_filter ?w" "ws_seqMin w' = ws_seqMin ?w" "ws_seqMax w' = ws_seqMax ?w"
      "ws_builder w' = Builder_Reset (ws_builder ?w)"
      by (rule sst_flushBlock_flushing [OF fl' ne hd])
    with run that [of w' "refs @ [r]" "blocks @ [cur @ [e]]" "[]"] show ?thesis by simp
  next
    case False
    then have "flush_add enc scale opts f e w = (None, ?w)" by (auto simp: flush_add_def Let_def)
    with fl' hd that [of ?w refs blocks "cur @ [e]"] show ?thesis by simp
  qed
qed

lemma flush_cut_flushing:
  assumes fl: "flushing enc opts f bound s0 w refs blocks cur"
    and hd: "cur = [] \<or> Key (hd cur) \<noteq> []" and target: "nat (so_BlockTargetBytes opts) \<le> bound"
  obtains refs' blocks' cur' w' where "flush_cut enc opts f e w = (None, w')"
    "flushing enc opts f bound s0 w' refs' blocks' cur'"
    "concat blocks' @ cur' = concat blocks @ cur"
    "cur' = [] \<or> Key (hd cur') \<noteq> [] \<and> EstimatedSizeAfter (ws_builder w') e \<le> bound"
    "ws_filter w' = ws_filter w" "ws_seqMin w' = ws_seqMin w" "ws_seqMax w' = ws_seqMax w"
proof -
  obtain xs rs where inv: "builder_inv (ws_builder w) xs rs" "map snd xs = cur"
    using fl by (auto simp: flushing_def)
  have size: "0 < Builder_SizeBytes (ws_builder w) \<longleftrightarrow> cur \<noteq> []"
    using builder_size [OF inv(1)] inv(2) by (auto simp: Builder_Finish_def)
  show ?thesis
  proof (cases "cur \<noteq> [] \<and> so_BlockTargetBytes opts < int (EstimatedSizeAfter (ws_builder w) e)")
    case True
    then have ne: "cur \<noteq> []" "Key (hd cur) \<noteq> []" using hd by auto
    obtain r w' where w': "sst_flushBlock enc opts f w = (None, w')"
      "flushing enc opts f bound s0 w' (refs @ [r]) (blocks @ [cur]) []"
      "ws_filter w' = ws_filter w" "ws_seqMin w' = ws_seqMin w" "ws_seqMax w' = ws_seqMax w"
      "ws_builder w' = Builder_Reset (ws_builder w)"
      by (rule sst_flushBlock_flushing [OF fl ne])
    have "flush_cut enc opts f e w = sst_flushBlock enc opts f w"
      using True size by (simp add: flush_cut_def)
    with w' that [of w' "refs @ [r]" "blocks @ [cur]" "[]"] show ?thesis by simp
  next
    case False
    then have "flush_cut enc opts f e w = (None, w)" using size by (auto simp: flush_cut_def)
    moreover have "cur \<noteq> [] \<Longrightarrow> EstimatedSizeAfter (ws_builder w) e \<le> bound"
      using False target by auto
    ultimately show ?thesis using fl hd that [of w refs blocks cur] by auto
  qed
qed

lemma flush_entry_flushing:
  assumes fl: "flushing enc opts f bound s0 w refs blocks cur"
    and hd: "cur = [] \<or> Key (hd cur) \<noteq> []" and target: "nat (so_BlockTargetBytes opts) \<le> bound"
    and e: "Key e \<noteq> []" "29 + length (Key e) + length (Value e) \<le> bound"
    and flt: "Filter_Add (ws_filter w) (Key e) = Inr flt"
  obtains refs' blocks' cur' w' where "flush_entry enc scale opts f e w = (None, w')"
    "flushing enc opts f bound s0 w' refs' blocks' cur'"
    "concat blocks' @ cur' = concat blocks @ cur @ [e]"
    "cur' = [] \<or> Key (hd cur') \<noteq> []" "ws_filter w' = flt"
    "ws_seqMin w' = min (Seq e) (ws_seqMin w)" "ws_seqMax w' = max (Seq e) (ws_seqMax w)"
proof -
  let ?w = "(flush_seqs e w)\<lparr>ws_filter := flt\<rparr>"
  have fl1: "flushing enc opts f bound s0 ?w refs blocks cur"
    using fl by (simp add: flushing_def flush_seqs_def)
  obtain refs1 blocks1 cur1 w1 where w1: "flush_cut enc opts f e ?w = (None, w1)"
    "flushing enc opts f bound s0 w1 refs1 blocks1 cur1"
    "concat blocks1 @ cur1 = concat blocks @ cur"
    "cur1 = [] \<or> Key (hd cur1) \<noteq> [] \<and> EstimatedSizeAfter (ws_builder w1) e \<le> bound"
    "ws_filter w1 = ws_filter ?w" "ws_seqMin w1 = ws_seqMin ?w" "ws_seqMax w1 = ws_seqMax ?w"
    by (rule flush_cut_flushing [OF fl1 hd target, of e])
  have cut: "cur1 \<noteq> [] \<Longrightarrow> Key (hd cur1) \<noteq> [] \<and> EstimatedSizeAfter (ws_builder w1) e \<le> bound"
    using w1(4) by blast
  obtain refs2 blocks2 cur2 w2 where w2: "flush_add enc scale opts f e w1 = (None, w2)"
    "flushing enc opts f bound s0 w2 refs2 blocks2 cur2"
    "concat blocks2 @ cur2 = concat blocks1 @ cur1 @ [e]"
    "cur2 = [] \<or> Key (hd cur2) \<noteq> []"
    "ws_filter w2 = ws_filter w1" "ws_seqMin w2 = ws_seqMin w1" "ws_seqMax w2 = ws_seqMax w1"
    by (rule flush_add_flushing [OF w1(2) e cut, of scale])
  show ?thesis
  proof (rule that)
    show "flush_entry enc scale opts f e w = (None, w2)"
      using flt w1(1) w2(1) by (simp add: flush_entry_def Let_def flush_seqs_def)
    show "concat blocks2 @ cur2 = concat blocks @ cur @ [e]"
      using w2(3) w1(3) by (metis append.assoc)
  qed (use w1(5-7) w2(2,4-7) in \<open>auto simp: flush_seqs_def min_def max_def\<close>)
qed

lemma flush_entries_flushing:
  assumes "flushing enc opts f bound s0 w refs blocks cur"
    and "cur = [] \<or> Key (hd cur) \<noteq> []" and "nat (so_BlockTargetBytes opts) \<le> bound"
    and "\<forall>e \<in> set es. Key e \<noteq> [] \<and> 29 + length (Key e) + length (Value e) \<le> bound"
    and "add_keys (ws_filter w) (map Key es) = Inr flt"
  shows "\<exists>refs' blocks' w'. flush_entries enc scale opts f es w = (None, w') \<and>
    flushing enc opts f bound s0 w' refs' blocks' [] \<and> concat blocks' = concat blocks @ cur @ es \<and>
    ws_filter w' = flt \<and>
    ws_seqMin w' = fold (\<lambda>e. min (Seq e)) es (ws_seqMin w) \<and>
    ws_seqMax w' = fold (\<lambda>e. max (Seq e)) es (ws_seqMax w)"
  using assms
proof (induction es arbitrary: w refs blocks cur)
  case Nil
  obtain xs rs where inv: "builder_inv (ws_builder w) xs rs" "map snd xs = cur"
    using Nil.prems(1) by (auto simp: flushing_def)
  have size: "0 < Builder_SizeBytes (ws_builder w) \<longleftrightarrow> cur \<noteq> []"
    using builder_size [OF inv(1)] inv(2) by (auto simp: Builder_Finish_def)
  show ?case
  proof (cases "cur = []")
    case True
    with Nil.prems size show ?thesis by auto
  next
    case False
    then have hd: "Key (hd cur) \<noteq> []" using Nil.prems(2) by simp
    obtain r w' where w': "sst_flushBlock enc opts f w = (None, w')"
      "flushing enc opts f bound s0 w' (refs @ [r]) (blocks @ [cur]) []"
      "ws_filter w' = ws_filter w" "ws_seqMin w' = ws_seqMin w" "ws_seqMax w' = ws_seqMax w"
      "ws_builder w' = Builder_Reset (ws_builder w)"
      by (rule sst_flushBlock_flushing [OF Nil.prems(1) False hd])
    with Nil.prems size False show ?thesis
      by (intro exI [of _ "refs @ [r]"] exI [of _ "blocks @ [cur]"] exI [of _ w']) simp
  qed
next
  case (Cons e es)
  obtain flt1 where flt1: "Filter_Add (ws_filter w) (Key e) = Inr flt1" "add_keys flt1 (map Key es) = Inr flt"
    using Cons.prems(5) by (auto simp: bind_result_def split: sum.splits)
  have e: "Key e \<noteq> []" "29 + length (Key e) + length (Value e) \<le> bound" using Cons.prems(4) by auto
  obtain refs1 blocks1 cur1 w1 where w1: "flush_entry enc scale opts f e w = (None, w1)"
    "flushing enc opts f bound s0 w1 refs1 blocks1 cur1"
    "concat blocks1 @ cur1 = concat blocks @ cur @ [e]"
    "cur1 = [] \<or> Key (hd cur1) \<noteq> []" "ws_filter w1 = flt1"
    "ws_seqMin w1 = min (Seq e) (ws_seqMin w)" "ws_seqMax w1 = max (Seq e) (ws_seqMax w)"
    by (rule flush_entry_flushing [OF Cons.prems(1,2,3) e flt1(1), of scale])
  have "add_keys (ws_filter w1) (map Key es) = Inr flt" using flt1(2) w1(5) by simp
  moreover have "concat blocks1 @ cur1 @ es = concat blocks @ cur @ e # es"
    using w1(3) by (metis append.assoc append_Cons append_Nil)
  moreover obtain refs' blocks' w' where "flush_entries enc scale opts f es w1 = (None, w')"
    "flushing enc opts f bound s0 w' refs' blocks' []" "concat blocks' = concat blocks1 @ cur1 @ es"
    "ws_filter w' = flt" "ws_seqMin w' = fold (\<lambda>e. min (Seq e)) es (ws_seqMin w1)"
    "ws_seqMax w' = fold (\<lambda>e. max (Seq e)) es (ws_seqMax w1)"
    using Cons.IH [OF w1(2,4) Cons.prems(3) _ calculation(1)] Cons.prems(4) by auto
  ultimately show ?case using w1(1,6,7)
    by (intro exI [of _ refs'] exI [of _ blocks'] exI [of _ w']) simp
qed

end
