(* ===== verification/Sst_Tail.thy ===== *)
theory Sst_Tail
  imports Sst_Flush
begin

text \<open>
  The blocks after the data blocks, and the theorem of the flush: the table a flush opens holds
  exactly the flushed entries, in the order of their keys, and answers every point read with them.
\<close>

section \<open>Appending blocks\<close>

definition appended :: "string \<Rightarrow> (IndexEntry \<times> bytes) list \<Rightarrow> u64 \<Rightarrow> fs \<Rightarrow> bool" where
  "appended f refs off s \<longleftrightarrow>
     holds_file f (ref_data refs) s \<and> laid_out 0 refs \<and> off = word_of_nat (length (ref_data refs))"

abbreviation ref_at :: "bytes \<Rightarrow> u64 \<Rightarrow> bytes \<Rightarrow> IndexEntry \<times> bytes" where
  "ref_at k off b \<equiv> (\<lparr>ie_Key = k, ie_Offset = off, ie_Length = word_of_nat (length b)\<rparr>, b)"

lemma appended_write:
  assumes "appended f refs off s" "b \<noteq> []"
  obtains s' where "fs_write f b s = ((length b, None), s')" "other_files f s s'"
    "\<forall>k. appended f (refs @ [ref_at k off b]) (off + word_of_nat (length b)) s'"
proof -
  have "holds_file f (ref_data refs) s" using assms(1) by (simp add: appended_def)
  then obtain s' where "fs_write f b s = ((length b, None), s')" "holds_file f (ref_data refs @ b) s'"
    "other_files f s s'" by (rule fs_write_holds)
  with assms that show ?thesis by (simp add: appended_def laid_out_append)
qed

lemma appended_put_block:
  assumes "appended f refs off s" "b \<noteq> []"
  obtains s' where
    "\<forall>k. put_block f b off s k = k (off + word_of_nat (length b)) (word_of_nat (length b)) s'"
    "other_files f s s'" "\<forall>k. appended f (refs @ [ref_at k off b]) (off + word_of_nat (length b)) s'"
proof -
  obtain s' where s': "fs_write f b s = ((length b, None), s')" "other_files f s s'"
    "\<forall>k. appended f (refs @ [ref_at k off b]) (off + word_of_nat (length b)) s'"
    by (rule appended_write [OF assms])
  show ?thesis by (rule that [OF _ s'(2,3)]) (simp add: put_block_def s'(1))
qed

lemma filter_block_not_Nil [simp]: "filter_block p \<noteq> []"
  by (metis length_filter_block add_is_0 list.size(3) zero_neq_numeral)

lemma index_block_not_Nil [simp]: "index_block es \<noteq> []"
  unfolding index_block_def Let_def
  by (metis length_EncodeBlock add_is_0 list.size(3) zero_neq_numeral)

section \<open>Index partitions\<close>

definition index_part :: "IndexEntry \<times> bytes \<Rightarrow> IndexEntry list \<Rightarrow> bool" where
  "index_part r part \<longleftrightarrow> part \<noteq> [] \<and> ie_Key (fst r) = ie_Key (hd part) \<and> snd r = index_block part"

lemma index_partitions_ok:
  assumes "appended f refs off s" "0 < per"
  shows "\<exists>prs parts off' s'. index_partitions f per idx acc off s = (Inr (acc @ map fst prs), off', s') \<and>
     appended f (refs @ prs) off' s' \<and> other_files f s s' \<and> concat parts = idx \<and>
     list_all2 index_part prs parts"
  using assms
proof (induction f per idx acc off s arbitrary: refs rule: index_partitions.induct)
  case (1 f per idx acc off s)
  show ?case
  proof (cases "idx = []")
    case True
    with 1 show ?thesis
      by (intro exI [of _ "[]"] exI [of _ off] exI [of _ s]) (simp add: index_partitions.simps)
  next
    case False
    let ?b = "index_block (take per idx)"
    obtain s1 where s1: "fs_write f ?b s = ((length ?b, None), s1)" "other_files f s s1"
      "\<forall>k. appended f (refs @ [ref_at k off ?b]) (off + word_of_nat (length ?b)) s1"
      by (rule appended_write [OF "1.prems"(1) index_block_not_Nil])
    let ?r = "ref_at (ie_Key (hd idx)) off ?b"
    obtain prs parts off' s' where ih:
      "index_partitions f per (drop per idx) (acc @ [fst ?r]) (off + word_of_nat (length ?b)) s1 =
         (Inr (acc @ [fst ?r] @ map fst prs), off', s')"
      "appended f (refs @ [?r] @ prs) off' s'" "other_files f s1 s'" "concat parts = drop per idx"
      "list_all2 index_part prs parts"
      using "1.IH" [OF _ s1(1) [symmetric] refl refl s1(3) [rule_format, of "ie_Key (hd idx)"]] False "1.prems"(2) by auto
    have "index_part ?r (take per idx)" using False "1.prems"(2) by (simp add: index_part_def)
    moreover have "index_partitions f per idx acc off s = (Inr (acc @ map fst (?r # prs)), off', s')"
      using ih(1) s1(1) False "1.prems"(2) by (subst index_partitions.simps) simp
    ultimately show ?thesis
      using ih other_files_trans [OF s1(2) ih(3)]
      by (intro exI [of _ "?r # prs"] exI [of _ "take per idx # parts"] exI [of _ off'] exI [of _ s']) simp
  qed
qed

section \<open>Filter partitions\<close>

definition filter_part :: "IndexEntry \<times> bytes \<Rightarrow> entry list \<Rightarrow> bool" where
  "filter_part r es \<longleftrightarrow> es \<noteq> [] \<and> ie_Key (fst r) = Key (hd es) \<and>
     (\<exists>g. snd r = filter_block (Filter_Encode (Some g)) \<and> fl_bits g \<noteq> [] \<and> filter_for g es)"

text \<open>A filter for a number of keys, with the keys of a list of entries added.\<close>

lemma filter_for_keys:
  assumes "NewFilter n b = Some f" "n * b + 7 < 2 ^ 32"
  obtains g where "add_keys (Some f) (map Key es) = Inr (Some g)" "filter_for g es" "fl_bits g \<noteq> []"
    "fl_k g = fl_k f"
proof -
  have n: "bloom_n (fl_bits f) \<noteq> 0" by (rule NewFilter_bloom_n [OF assms])
  obtain g where g: "add_keys (Some f) (map Key es) = Inr (Some g)" "fl_k g = fl_k f"
    "length (fl_bits g) = length (fl_bits f)" "\<forall>k \<in> set (map Key es). MayContain (Some g) k = Inr True"
    using add_keys_contains [OF n, of "map Key es"] by blast
  have "bloom_n (fl_bits g) \<noteq> 0" using n g(3) by (simp add: bloom_n_def)
  then have "filter_for g es"
    using g(4) by (simp add: filter_for_def MayContain_probes del: MayContain.simps)
  moreover have "fl_bits g \<noteq> []" using g(3) NewFilter_wf(3) [OF assms(1)] by auto
  ultimately show ?thesis using g that by blast
qed

lemma NewFilter_Some: "0 < n \<Longrightarrow> 0 < b \<Longrightarrow> \<exists>f. NewFilter n b = Some f"
  by (simp add: NewFilter_def Let_def)

lemma length_concat_take: "sum_list (take i (map length xs)) = length (concat (take i xs))"
  by (simp add: length_concat take_map)

lemma partition_filter_ok:
  assumes es: "es = pre @ part @ post" and ne: "part \<noteq> []" and b: "0 < b"
    and bits: "int (length es) * b + 7 < 2 ^ 32" and counts: "sum_list counts = length part"
  obtains g where "partition_filter es counts b (length pre) = Inr (Some g, length pre + length part)"
    "filter_for g part" "fl_bits g \<noteq> []"
proof -
  obtain f where f: "NewFilter (int (length part)) b = Some f"
    using NewFilter_Some [of "int (length part)" b] ne b by auto
  have "int (length part) * b \<le> int (length es) * b" using b by (simp add: es)
  then have "int (length part) * b + 7 < 2 ^ 32" using bits by linarith
  from filter_for_keys [OF f this, of part] obtain g where
    g: "add_keys (Some f) (map Key part) = Inr (Some g)" "filter_for g part" "fl_bits g \<noteq> []" by blast
  have "bslice (length pre) (length pre + length part) es = part" by (simp add: es bslice_def)
  with g f that [of g] show ?thesis by (simp add: partition_filter_def Let_def counts es)
qed

lemma drop_bslice: "i \<le> n \<Longrightarrow> drop i xs = bslice i n xs @ drop n xs"
  using append_take_drop_id [of "n - i" "drop i xs"] by (simp add: bslice_def)

lemma take_bslice: "i \<le> n \<Longrightarrow> take n xs = take i xs @ bslice i n xs"
  using take_add [of i "n - i" xs] by (simp add: bslice_def)

lemma partition_loop_ok:
  assumes "i \<le> length blocks" "appended f refs off s" "0 < per" "0 < b"
    and "int (length (concat blocks)) * b + 7 < 2 ^ 32"
    and "list_all2 (\<lambda>e g. g \<noteq> [] \<and> ie_Key e = Key (hd g)) index blocks"
  shows "\<exists>frs parts off' s'.
     partition_loop f (concat blocks) index (map length blocks) per b i (length (concat (take i blocks)))
       acc off s = (Inr (acc @ map fst frs), off', s') \<and>
     appended f (refs @ frs) off' s' \<and> other_files f s s' \<and> concat parts = concat (drop i blocks) \<and>
     list_all2 filter_part frs parts"
  using assms
proof (induction "length blocks - i" arbitrary: i acc off s refs rule: less_induct)
  case less
  note prems = less.prems
  show ?case
  proof (cases "i < length blocks")
    case False
    then have "i = length blocks" using prems(1) by simp
    with prems(2) show ?thesis
      by (intro exI [of _ "[]"] exI [of _ off] exI [of _ s]) (simp add: partition_loop.simps)
  next
    case True
    define n where "n = min (i + per) (length blocks)"
    define part where "part = concat (bslice i n blocks)"
    have n: "i < n" "n \<le> length blocks" using True prems(3) by (simp_all add: n_def)
    have split: "drop i blocks = bslice i n blocks @ drop n blocks"
      using n by (intro drop_bslice) simp
    have tk: "take n blocks = take i blocks @ bslice i n blocks"
      using n by (intro take_bslice) simp
    have es: "concat blocks = concat (take i blocks) @ part @ concat (drop n blocks)"
      unfolding part_def by (metis append_take_drop_id concat_append split)
    have len: "length index = length blocks" using prems(6) by (rule list_all2_lengthD)
    have head: "blocks ! i \<noteq> []" "ie_Key (index ! i) = Key (hd (blocks ! i))"
      using list_all2_nthD [OF prems(6), of i] True len by simp_all
    have bs: "bslice i n blocks = blocks ! i # bslice (Suc i) n blocks"
      using n True by (simp add: bslice_def Cons_nth_drop_Suc [symmetric] take_Cons')
    have part: "part \<noteq> []" "hd part = hd (blocks ! i)" using head(1) by (simp_all add: part_def bs)
    have counts: "sum_list (bslice i n (map length blocks)) = length part"
      by (simp add: part_def bslice_def length_concat drop_map take_map)
    obtain g where g: "partition_filter (concat blocks) (bslice i n (map length blocks)) b
        (length (concat (take i blocks))) = Inr (Some g, length (concat (take i blocks)) + length part)"
      "filter_for g part" "fl_bits g \<noteq> []"
      by (rule partition_filter_ok [OF es part(1) prems(4,5) counts])
    let ?b = "filter_block (Filter_Encode (Some g))"
    obtain s1 where s1: "fs_write f ?b s = ((length ?b, None), s1)" "other_files f s s1"
      "\<forall>k. appended f (refs @ [ref_at k off ?b]) (off + word_of_nat (length ?b)) s1"
      by (rule appended_write [OF prems(2) filter_block_not_Nil])
    let ?r = "ref_at (ie_Key (index ! i)) off ?b"
    have nx: "length (concat (take n blocks)) = length (concat (take i blocks)) + length part"
      by (simp add: tk part_def)
    have "length blocks - n < length blocks - i" using n by simp
    from less.hyps [OF this n(2) s1(3) [rule_format, of "ie_Key (index ! i)"] prems(3-6), of "acc @ [fst ?r]"]
    obtain frs parts off' s' where ih:
      "partition_loop f (concat blocks) index (map length blocks) per b n
         (length (concat (take n blocks))) (acc @ [fst ?r]) (off + word_of_nat (length ?b)) s1 =
         (Inr ((acc @ [fst ?r]) @ map fst frs), off', s')"
      "appended f ((refs @ [?r]) @ frs) off' s'" "other_files f s1 s'"
      "concat parts = concat (drop n blocks)" "list_all2 filter_part frs parts"
      by blast
    have run: "partition_loop f (concat blocks) index (map length blocks) per b i
        (length (concat (take i blocks))) acc off s = (Inr (acc @ map fst (?r # frs)), off', s')"
      using ih(1) s1(1) g(1) True prems(3) len
      by (subst partition_loop.simps) (simp add: Let_def n_def [symmetric] nx del: Filter_Encode.simps)
    have "filter_part ?r part"
      unfolding filter_part_def using part head(2) g by auto
    with run ih(2-5) other_files_trans [OF s1(2) ih(3)] show ?thesis
      by (intro exI [of _ "?r # frs"] exI [of _ "part # parts"] exI [of _ off'] exI [of _ s'])
         (simp add: split part_def)
  qed
qed

section \<open>From the data blocks to the footer\<close>

definition filter_stage ::
  "bool \<Rightarrow> BloomFilter option \<Rightarrow> entry list \<Rightarrow> (IndexEntry \<times> bytes) list \<Rightarrow> u64 \<Rightarrow> u32 \<Rightarrow> IndexEntry list \<Rightarrow> bool" where
  "filter_stage fp flt es frs bo bl fidx \<longleftrightarrow>
     (case flt of
        None \<Rightarrow> frs = [] \<and> bo = 0 \<and> bl = 0 \<and> fidx = []
      | Some g \<Rightarrow>
          if fp then bo = 0 \<and> bl = 0 \<and> fidx = map fst frs \<and>
            (\<exists>parts. concat parts = es \<and> list_all2 filter_part frs parts)
          else fidx = [] \<and>
            (\<exists>k. frs = [(k, filter_block (Filter_Encode (Some g)))] \<and> bo = ie_Offset k \<and> bl = ie_Length k))"

definition top_stage ::
  "bool \<Rightarrow> IndexEntry list \<Rightarrow> (IndexEntry \<times> bytes) list \<Rightarrow> IndexEntry list \<Rightarrow> bool" where
  "top_stage partitioned idx prs top' \<longleftrightarrow>
     (if partitioned then top' = map fst prs \<and> (\<exists>parts. concat parts = idx \<and> list_all2 index_part prs parts)
      else prs = [] \<and> top' = idx)"

lemma flushing_appended:
  "flushing enc opts f bound s0 w refs blocks cur \<Longrightarrow> appended f refs (ws_offset w) (ws_fs w)"
  by (simp add: flushing_def appended_def)

lemma flushing_heads:
  assumes "flushing enc opts f bound s0 w refs blocks cur"
  shows "list_all2 (\<lambda>e g. g \<noteq> [] \<and> ie_Key e = Key (hd g)) (ws_index w) blocks"
proof -
  have "list_all2 (good_block enc (so_Compression opts) bound) refs blocks" "ws_index w = map fst refs"
    using assms by (simp_all add: flushing_def)
  then show ?thesis by (auto simp: list_all2_map1 good_block_def elim: list_all2_mono)
qed

lemma flush_filters_ok:
  assumes fl: "flushing enc opts f bound s0 w refs blocks []"
    and bits: "ws_filter w \<noteq> None \<Longrightarrow> 0 < so_BloomBitsPerKey opts"
      "int (length (concat blocks)) * so_BloomBitsPerKey opts + 7 < 2 ^ 32"
    and fp: "fp \<Longrightarrow> blocks \<noteq> [] \<and> 0 < so_IndexPartitionEntries opts"
  obtains frs bo bl fidx off s where
    "flush_filters opts f (concat blocks) fp w = (Inr (bo, bl, fidx), off, s)"
    "appended f (refs @ frs) off s" "other_files f (ws_fs w) s"
    "filter_stage fp (ws_filter w) (concat blocks) frs bo bl fidx"
proof (cases "ws_filter w")
  case None
  with flushing_appended [OF fl] show ?thesis
    by (intro that [of 0 0 "[]" "ws_offset w" "ws_fs w" "[]"]) (simp_all add: flush_filters_def filter_stage_def)
next
  case (Some g)
  show ?thesis
  proof (cases fp)
    case True
    have counts: "ws_counts w = map length blocks" using fl by (simp add: flushing_def)
    have ne: "blocks \<noteq> []" "ws_index w \<noteq> []" "0 < nat (so_IndexPartitionEntries opts)" "0 < so_BloomBitsPerKey opts"
      using fp [OF True] flushing_heads [OF fl] bits(1) Some by auto
    obtain frs parts off' s' where frs:
      "partition_loop f (concat blocks) (ws_index w) (map length blocks) (nat (so_IndexPartitionEntries opts))
         (so_BloomBitsPerKey opts) 0 (length (concat (take 0 blocks))) [] (ws_offset w) (ws_fs w) =
         (Inr ([] @ map fst frs), off', s')"
      "appended f (refs @ frs) off' s'" "other_files f (ws_fs w) s'" "concat parts = concat (drop 0 blocks)"
      "list_all2 filter_part frs parts"
      using partition_loop_ok [OF _ flushing_appended [OF fl] ne(3,4) bits(2) flushing_heads [OF fl], of 0 "[]"]
      by blast
    show ?thesis
    proof (rule that)
      show "flush_filters opts f (concat blocks) fp w = (Inr (0, 0, map fst frs), off', s')"
        using frs(1) ne True Some
        by (simp add: flush_filters_def WritePartitionedBloomFilters_def counts)
    qed (use frs True Some in \<open>auto simp: filter_stage_def\<close>)
  next
    case False
    let ?b = "filter_block (Filter_Encode (Some g))"
    obtain s1 where s1: "fs_write f ?b (ws_fs w) = ((length ?b, None), s1)" "other_files f (ws_fs w) s1"
      "\<forall>k. appended f (refs @ [ref_at k (ws_offset w) ?b]) (ws_offset w + word_of_nat (length ?b)) s1"
      by (rule appended_write [OF flushing_appended [OF fl] filter_block_not_Nil])
    show ?thesis
    proof (rule that)
      show "flush_filters opts f (concat blocks) fp w =
        (Inr (ws_offset w, word_of_nat (length ?b), []), ws_offset w + word_of_nat (length ?b), s1)"
        using False Some s1(1) by (simp add: flush_filters_def WriteBloomBlock_def)
      show "appended f (refs @ [ref_at [] (ws_offset w) ?b]) (ws_offset w + word_of_nat (length ?b)) s1"
        using s1(3) by blast
    qed (use s1 False Some in \<open>auto simp: filter_stage_def\<close>)
  qed
qed

lemma flush_top_ok:
  assumes ap: "appended f refs off s" and per: "partitioned \<Longrightarrow> 0 < so_IndexPartitionEntries opts"
  obtains prs top' off' s' where "flush_top opts f idx partitioned off s = (Inr top', off', s')"
    "appended f (refs @ prs) off' s'" "other_files f s s'" "top_stage partitioned idx prs top'"
proof (cases partitioned)
  case True
  then have "0 < nat (so_IndexPartitionEntries opts)" using per by simp
  from index_partitions_ok [OF ap this, of idx "[]"] True that show ?thesis
    by (fastforce simp: flush_top_def top_stage_def)
next
  case False
  with ap that [of idx off s "[]"] show ?thesis by (simp add: flush_top_def top_stage_def)
qed

definition meta_block :: "Meta \<Rightarrow> bytes" where
  "meta_block m =
     EncodeBlock (EncodeMeta m) BlockTypeMeta CompressionNone (word_of_nat (length (EncodeMeta m)))"

lemma meta_block_not_Nil [simp]: "meta_block m \<noteq> []"
  unfolding meta_block_def by (metis length_EncodeBlock add_is_0 list.size(3) zero_neq_numeral)

definition index_split :: "SstOptions \<Rightarrow> wstate \<Rightarrow> bool" where
  "index_split opts w \<longleftrightarrow>
     0 < so_IndexPartitionEntries opts \<and> so_IndexPartitionEntries opts < int (length (ws_index w))"

definition filter_split :: "SstOptions \<Rightarrow> wstate \<Rightarrow> bool" where
  "filter_split opts w \<longleftrightarrow> index_split opts w \<and> ws_filter w \<noteq> None \<and> so_FilterPartitioned opts"

definition footer_flags :: "bool \<Rightarrow> bool \<Rightarrow> byte" where
  "footer_flags partitioned fp =
     (let flags = (if partitioned then FooterFlagIndexPartitioned else 0)
      in if fp then flags OR FooterFlagFilterPartitioned else flags)"

text \<open>The blocks of a complete table file and what the footer says about them.\<close>

definition table_image ::
  "SstOptions \<Rightarrow> entry list \<Rightarrow> wstate \<Rightarrow> (IndexEntry \<times> bytes) list \<Rightarrow> (IndexEntry \<times> bytes) list \<Rightarrow>
     (IndexEntry \<times> bytes) list \<Rightarrow> IndexEntry list \<Rightarrow> IndexEntry \<Rightarrow> (IndexEntry \<times> bytes) list \<Rightarrow> IndexEntry list \<Rightarrow>
     IndexEntry \<Rightarrow> Meta \<Rightarrow> Footer \<Rightarrow> bytes \<Rightarrow> bool" where
  "table_image opts es w refs frs prs topi ir fir fidx mr m ft data \<longleftrightarrow>
     data = ref_data (refs @ frs @ prs @ [(ir, index_block topi)] @ fir @ [(mr, meta_block m)]) @ EncodeFooter ft \<and>
     laid_out 0 (refs @ frs @ prs @ [(ir, index_block topi)] @ fir @ [(mr, meta_block m)]) \<and>
     top_stage (index_split opts w) (ws_index w) prs topi \<and>
     ft = \<lparr>ft_Flags = footer_flags (index_split opts w) (filter_split opts w),
           ft_IndexOffset = ie_Offset ir, ft_IndexLen = ie_Length ir,
           ft_MetaOffset = ie_Offset mr, ft_MetaLen = ie_Length mr\<rparr> \<and>
     (\<exists>bo bl. filter_stage (filter_split opts w) (ws_filter w) es frs bo bl fidx \<and>
        (if filter_split opts w
         then \<exists>k. fir = [(k, filter_block (EncodeIndex fidx))] \<and>
                m = flush_meta opts es w (ie_Offset k) (ie_Length k)
         else fir = [] \<and> m = flush_meta opts es w bo bl))"

lemma flush_finish:
  assumes ap: "appended f refs off s"
    and mt: "ft_MetaOffset ft = off" "ft_MetaLen ft = word_of_nat (length (meta_block m))"
  obtains s' mr where
    "put_block f (meta_block m) off s (\<lambda>off' n s. put_block f (EncodeFooter ft) off' s (\<lambda>_ _ s. (None, s))) = (None, s')"
    "holds_file f (ref_data (refs @ [(mr, meta_block m)]) @ EncodeFooter ft) s'" "other_files f s s'"
    "laid_out 0 (refs @ [(mr, meta_block m)])" "ft_MetaOffset ft = ie_Offset mr" "ft_MetaLen ft = ie_Length mr"
proof -
  obtain s1 where s1:
    "\<forall>k. put_block f (meta_block m) off s k =
       k (off + word_of_nat (length (meta_block m))) (word_of_nat (length (meta_block m))) s1"
    "other_files f s s1"
    "\<forall>k. appended f (refs @ [ref_at k off (meta_block m)]) (off + word_of_nat (length (meta_block m))) s1"
    by (rule appended_put_block [OF ap meta_block_not_Nil])
  let ?mr = "\<lparr>ie_Key = [], ie_Offset = off, ie_Length = word_of_nat (length (meta_block m))\<rparr>"
  have h: "holds_file f (ref_data (refs @ [(?mr, meta_block m)])) s1" "laid_out 0 (refs @ [(?mr, meta_block m)])"
    using s1(3) unfolding appended_def by blast+
  obtain s2 where s2: "fs_write f (EncodeFooter ft) s1 = ((length (EncodeFooter ft), None), s2)"
    "holds_file f (ref_data (refs @ [(?mr, meta_block m)]) @ EncodeFooter ft) s2" "other_files f s1 s2"
    by (rule fs_write_holds [OF h(1)])
  show ?thesis
  proof (rule that [of s2 ?mr])
    show "put_block f (meta_block m) off s (\<lambda>off' n s. put_block f (EncodeFooter ft) off' s (\<lambda>_ _ s. (None, s))) = (None, s2)"
      unfolding s1(1) [rule_format] using s2(1) by (simp add: put_block_def)
    show "other_files f s s2" by (rule other_files_trans [OF s1(2) s2(3)])
  qed (use h s2 mt in simp_all)
qed

lemma flush_tail_ok:
  assumes fl: "flushing enc opts f bound s0 w refs blocks []" and ne: "blocks \<noteq> []"
    and bits: "ws_filter w \<noteq> None \<Longrightarrow> 0 < so_BloomBitsPerKey opts"
      "int (length (concat blocks)) * so_BloomBitsPerKey opts + 7 < 2 ^ 32"
  obtains frs prs topi ir fir fidx mr m ft data s where
    "flush_tail opts f (concat blocks) w = (None, s)" "holds_file f data s" "other_files f s0 s"
    "table_image opts (concat blocks) w refs frs prs topi ir fir fidx mr m ft data"
proof -
  let ?ip = "index_split opts w" and ?fp = "filter_split opts w"
  obtain frs bo bl fidx off1 s1 where s1:
    "flush_filters opts f (concat blocks) ?fp w = (Inr (bo, bl, fidx), off1, s1)"
    "appended f (refs @ frs) off1 s1" "other_files f (ws_fs w) s1"
    "filter_stage ?fp (ws_filter w) (concat blocks) frs bo bl fidx"
    by (rule flush_filters_ok [OF fl bits, where fp = ?fp]) (use ne in \<open>auto simp: filter_split_def index_split_def\<close>)
  obtain prs topi off2 s2 where s2: "flush_top opts f (ws_index w) ?ip off1 s1 = (Inr topi, off2, s2)"
    "appended f ((refs @ frs) @ prs) off2 s2" "other_files f s1 s2" "top_stage ?ip (ws_index w) prs topi"
    by (rule flush_top_ok [OF s1(2), where partitioned = ?ip]) (auto simp: index_split_def)
  obtain s3 where s3: "\<forall>k. put_block f (index_block topi) off2 s2 k =
       k (off2 + word_of_nat (length (index_block topi))) (word_of_nat (length (index_block topi))) s3"
    "other_files f s2 s3"
    "\<forall>k. appended f (((refs @ frs) @ prs) @ [ref_at k off2 (index_block topi)])
       (off2 + word_of_nat (length (index_block topi))) s3"
    by (rule appended_put_block [OF s2(2) index_block_not_Nil])
  define off3 where "off3 = off2 + word_of_nat (length (index_block topi))"
  define ir where "ir = \<lparr>ie_Key = [], ie_Offset = off2, ie_Length = word_of_nat (length (index_block topi))\<rparr>"
  have ap3: "appended f (((refs @ frs) @ prs) @ [(ir, index_block topi)]) off3 s3"
    using s3(3) unfolding ir_def off3_def by blast
  have o3: "other_files f s0 s3"
    using fl s1(3) s2(3) s3(2) other_files_trans unfolding flushing_def by blast
  have fidx: "?fp \<Longrightarrow> fidx \<noteq> []"
  proof -
    assume "?fp"
    moreover have "concat blocks \<noteq> []"
      using flushing_heads [OF fl] ne by (cases blocks) (auto simp: list_all2_Cons2)
    ultimately show ?thesis using s1(4) by (auto simp: filter_stage_def filter_split_def split: option.splits)
  qed
  let ?ft = "\<lambda>mo m. \<lparr>ft_Flags = footer_flags ?ip ?fp, ft_IndexOffset = off2,
    ft_IndexLen = word_of_nat (length (index_block topi)), ft_MetaOffset = mo,
    ft_MetaLen = word_of_nat (length (meta_block m))\<rparr>"
  let ?fin = "\<lambda>m off s. put_block f (meta_block m) off s
    (\<lambda>off' n s. put_block f (EncodeFooter (?ft off m)) off' s (\<lambda>_ _ s. (None, s)))"
  have run: "flush_tail opts f (concat blocks) w =
    (if ?fp then put_block f (filter_block (EncodeIndex fidx)) off3 s3
                   (\<lambda>off' n s. ?fin (flush_meta opts (concat blocks) w off3 n) off' s)
     else ?fin (flush_meta opts (concat blocks) w bo bl) off3 s3)"
    using s1(1) s2(1) fidx
    unfolding flush_tail_def Let_def index_split_def [symmetric] filter_split_def [symmetric]
    by (cases ?fp) (simp_all add: s3(1) footer_flags_def Let_def meta_block_def off3_def)
  show ?thesis
  proof (cases ?fp)
    case True
    let ?b = "filter_block (EncodeIndex fidx)"
    obtain s4 where s4:
      "\<forall>k. put_block f ?b off3 s3 k = k (off3 + word_of_nat (length ?b)) (word_of_nat (length ?b)) s4"
      "other_files f s3 s4"
      "\<forall>k. appended f ((((refs @ frs) @ prs) @ [(ir, index_block topi)]) @ [ref_at k off3 ?b])
         (off3 + word_of_nat (length ?b)) s4"
      by (rule appended_put_block [OF ap3 filter_block_not_Nil])
    let ?k = "\<lparr>ie_Key = [], ie_Offset = off3, ie_Length = word_of_nat (length ?b)\<rparr>"
    let ?m = "flush_meta opts (concat blocks) w off3 (word_of_nat (length ?b))"
    let ?o = "off3 + word_of_nat (length ?b)"
    obtain s5 mr where s5: "?fin ?m ?o s4 = (None, s5)"
      "holds_file f (ref_data (((((refs @ frs) @ prs) @ [(ir, index_block topi)]) @ [(?k, ?b)]) @
         [(mr, meta_block ?m)]) @ EncodeFooter (?ft ?o ?m)) s5" "other_files f s4 s5"
      "laid_out 0 (((((refs @ frs) @ prs) @ [(ir, index_block topi)]) @ [(?k, ?b)]) @ [(mr, meta_block ?m)])"
      "ft_MetaOffset (?ft ?o ?m) = ie_Offset mr" "ft_MetaLen (?ft ?o ?m) = ie_Length mr"
      by (rule flush_finish [OF s4(3) [rule_format, of "[]"], where ft = "?ft ?o ?m" and m = ?m]) simp_all
    have "table_image opts (concat blocks) w refs frs prs topi ir [(?k, ?b)] fidx mr ?m (?ft ?o ?m)
      (ref_data (refs @ frs @ prs @ [(ir, index_block topi)] @ [(?k, ?b)] @ [(mr, meta_block ?m)]) @
       EncodeFooter (?ft ?o ?m))"
      unfolding table_image_def using s5(4-6) s2(4) s1(4) True by (auto simp: ir_def)
    moreover have "flush_tail opts f (concat blocks) w = (None, s5)"
      unfolding run using True s4(1) s5(1) by simp
    moreover have "other_files f s0 s5" using o3 s4(2) s5(3) other_files_trans by blast
    ultimately show ?thesis using s5(2) that by simp
  next
    case False
    let ?m = "flush_meta opts (concat blocks) w bo bl"
    obtain s5 mr where s5: "?fin ?m off3 s3 = (None, s5)"
      "holds_file f (ref_data ((((refs @ frs) @ prs) @ [(ir, index_block topi)]) @
         [(mr, meta_block ?m)]) @ EncodeFooter (?ft off3 ?m)) s5" "other_files f s3 s5"
      "laid_out 0 ((((refs @ frs) @ prs) @ [(ir, index_block topi)]) @ [(mr, meta_block ?m)])"
      "ft_MetaOffset (?ft off3 ?m) = ie_Offset mr" "ft_MetaLen (?ft off3 ?m) = ie_Length mr"
      by (rule flush_finish [OF ap3, where ft = "?ft off3 ?m" and m = ?m]) simp_all
    have "table_image opts (concat blocks) w refs frs prs topi ir [] fidx mr ?m (?ft off3 ?m)
      (ref_data (refs @ frs @ prs @ [(ir, index_block topi)] @ [] @ [(mr, meta_block ?m)]) @
       EncodeFooter (?ft off3 ?m))"
      unfolding table_image_def using s5(4-6) s2(4) s1(4) False by (auto simp: ir_def)
    moreover have "flush_tail opts f (concat blocks) w = (None, s5)"
      unfolding run using False s5(1) by simp
    moreover have "other_files f s0 s5" using o3 s5(3) other_files_trans by blast
    ultimately show ?thesis using s5(2) that by simp
  qed
qed

end
