(* ===== verification/Sst_Open.thy ===== *)
theory Sst_Open
  imports Sst_Tail
begin

text \<open>
  Opening the file a flush wrote: the reader finds every block, and its pipeline is well formed for
  the flushed blocks of entries.  With the point reads of a well-formed pipeline this gives the
  behaviour of a table from the flush on.
\<close>

section \<open>Reading listed blocks\<close>

definition table_source :: "bytes \<Rightarrow> BlockSource \<Rightarrow> bool" where
  "table_source data s \<longleftrightarrow>
     sc_file s \<and> sc_data s = data \<and> sc_size s = length data \<and> calm (sc_faults s)"

lemma Source_Read_keeps:
  "Source_Read ctx d s = (r, s') \<Longrightarrow> sc_file s' = sc_file s \<and> sc_data s' = sc_data s \<and> sc_size s' = sc_size s"
  by (auto simp: Source_Read_def ReadAt_def Let_def split: if_splits option.splits list.splits)

lemma source_read:
  assumes "table_source data s" "in_file data e"
  obtains s' where "Source_Read None (block_desc t (ie_Offset e) (ie_Length e)) s = (Inr (ref_bytes data e), s')"
    "table_source data s'"
proof -
  obtain r s' where run: "Source_Read None (block_desc t (ie_Offset e) (ie_Length e)) s = (r, s')"
    by (cases "Source_Read None (block_desc t (ie_Offset e) (ie_Length e)) s")
  have "r = Inr (ref_bytes (sc_data s) e) \<and> calm (sc_faults s')"
    by (rule Source_Read_ok(2) [OF _ _ _ _ _ run]) (use assms in \<open>simp_all add: table_source_def block_desc_def\<close>)
  with run Source_Read_keeps [OF run] assms that show ?thesis by (simp add: table_source_def)
qed

lemma source_payload:
  assumes "table_source data s" "in_file data e" "ref_bytes data e = b"
    and "DecodeBlockPayload dec b t (Some err) = Inr p"
  obtains s' where "ReadBlockPayload dec None (block_desc t (ie_Offset e) (ie_Length e)) err s = (Inr p, s')"
    "table_source data s'"
proof -
  obtain s' where "Source_Read None (block_desc t (ie_Offset e) (ie_Length e)) s = (Inr (ref_bytes data e), s')"
    "table_source data s'" by (rule source_read [OF assms(1,2)])
  with assms(3,4) that show ?thesis by (simp add: ReadBlockPayload_def block_desc_def)
qed

lemma index_block_payload: "DecodeBlockPayload dec (index_block es) BlockTypeIndex err = Inr (EncodeIndex es)"
  by (simp add: index_block_def Let_def DecodeBlockPayload_EncodeBlock)

lemma meta_block_payload: "DecodeBlockPayload dec (meta_block m) BlockTypeMeta err = Inr (EncodeMeta m)"
  by (simp add: meta_block_def DecodeBlockPayload_EncodeBlock)

lemma index_block_decodes:
  assumes "length (index_block es) < 2 ^ 32"
  shows "DecodeIndex (EncodeIndex es) = Inr es"
proof (rule DecodeIndex_EncodeIndex, rule ballI)
  fix e assume "e \<in> set es"
  then have "16 + length (ie_Key e) \<le> length (EncodeIndex es)"
    by (induction es) (auto simp: EncodeIndex_concat)
  then show "length (ie_Key e) < 2 ^ 32" using assms by (simp add: index_block_def Let_def)
qed

lemma filter_index_decodes: "length (filter_block (EncodeIndex es)) < 2 ^ 32 \<Longrightarrow> DecodeIndex (EncodeIndex es) = Inr es"
  by (rule index_block_decodes) (simp add: index_block_def Let_def)

lemma meta_block_decodes:
  assumes "length (meta_block m) < 2 ^ 32" "mt_Compression m = CompressionNone \<or> mt_Compression m = CompressionSnappy"
  shows "DecodeMeta (EncodeMeta m) = Inr m"
  using assms by (intro DecodeMeta_EncodeMeta) (auto simp: meta_block_def EncodeMeta_def)

lemma sint_small: "unat (w :: u64) < 2 ^ 63 \<Longrightarrow> sint w = int (unat w)"
proof -
  assume "unat w < 2 ^ 63"
  then have "int (unat w) < int (2 ^ 63)" by (simp only: of_nat_less_iff)
  then have "uint w < 2 ^ 63" by simp
  moreover have "- (2 ^ 63) \<le> uint w" by (rule order_trans [of _ 0]) simp_all
  ultimately show ?thesis by (simp add: sint_uint signed_take_bit_int_eq_self)
qed

lemma validateEntry_ok:
  assumes "in_file data e" "length data < 2 ^ 32" "pl_size p = length data"
    and "int (unat (ie_Length e)) \<le> ps_ReadBlockMaxBytes (pl_policy p)"
  shows "validateEntry p e err = None"
proof -
  have le: "unat (ie_Offset e) + unat (ie_Length e) < 2 ^ 32"
    "unat (ie_Offset e) + unat (ie_Length e) \<le> length data" using assms(1,2) by (auto simp: in_file_def)
  have "unat (ucast (ie_Length e) :: u64) = unat (ie_Length e)"
    using unat_u32_less [of "ie_Length e"] by (simp add: unsigned_ucast_eq take_bit_nat_eq_self)
  then have sum: "unat (ie_Offset e + ucast (ie_Length e)) = unat (ie_Offset e) + unat (ie_Length e)"
    using le(1) by (simp add: unat_word_ariths)
  then have "sint (ie_Offset e + ucast (ie_Length e)) = int (unat (ie_Offset e) + unat (ie_Length e))"
    using le(1) by (subst sint_small) simp_all
  moreover have "int (unat (ie_Offset e) + unat (ie_Length e)) \<le> int (length data)"
    using le(2) by (simp only: of_nat_le_iff)
  ultimately show ?thesis using assms by (simp add: validateEntry_def in_file_def)
qed

section \<open>The opened table\<close>

definition image_refs ::
  "(IndexEntry \<times> bytes) list \<Rightarrow> (IndexEntry \<times> bytes) list \<Rightarrow> (IndexEntry \<times> bytes) list \<Rightarrow> IndexEntry list \<Rightarrow>
     IndexEntry \<Rightarrow> (IndexEntry \<times> bytes) list \<Rightarrow> IndexEntry \<Rightarrow> Meta \<Rightarrow> (IndexEntry \<times> bytes) list" where
  "image_refs refs frs prs topi ir fir mr m =
     refs @ frs @ prs @ [(ir, index_block topi)] @ fir @ [(mr, meta_block m)]"

text \<open>Every listed block can be found in a complete file.\<close>

lemma image_ref:
  assumes im: "table_image opts es w refs frs prs topi ir fir fidx mr m ft data" and len: "length data < 2 ^ 32"
    and mem: "(e, b) \<in> set (image_refs refs frs prs topi ir fir mr m)"
  shows "in_file data e" "ref_bytes data e = b" "unat (ie_Length e) = length b" "length b < 2 ^ 32"
proof -
  have l: "laid_out (length []) (image_refs refs frs prs topi ir fir mr m)"
    and d: "data = [] @ ref_data (image_refs refs frs prs topi ir fir mr m) @ EncodeFooter ft"
    using im by (simp_all add: table_image_def image_refs_def)
  show i: "in_file data e" and "ref_bytes data e = b" and u: "unat (ie_Length e) = length b"
    using laid_out_ref [OF l d len mem] by auto
  show "length b < 2 ^ 32" using unat_u32_less [of "ie_Length e"] u by simp
qed

lemma image_offsets:
  assumes "table_image opts es w refs frs prs topi ir fir fidx mr m ft data" "length data < 2 ^ 32"
  shows "distinct (map ie_Offset (map fst refs))" "distinct (map ie_Offset (map fst frs))"
    "distinct (map ie_Offset (map fst prs))"
proof -
  have "laid_out 0 (image_refs refs frs prs topi ir fir mr m)"
    "0 + length (ref_data (image_refs refs frs prs topi ir fir mr m)) < 2 ^ 32"
    using assms by (simp_all add: table_image_def image_refs_def)
  note d = laid_out_distinct [OF this]
  then show "distinct (map ie_Offset (map fst refs))" "distinct (map ie_Offset (map fst frs))"
    "distinct (map ie_Offset (map fst prs))"
    by (simp_all add: image_refs_def comp_def)
qed

lemma good_block_length:
  assumes "good_block enc c bound r es" "\<And>x. length (enc x) \<le> 32 + length x + length x div 6"
  shows "length (snd r) \<le> 46 + bound + bound div 6"
proof -
  obtain bd where bd: "snd r = data_block enc c bd" "length (Builder_Finish bd) \<le> bound"
    using assms(1) by (auto simp: good_block_def)
  then show ?thesis
    using assms(2) [of "Builder_Finish bd"] div_le_mono [OF bd(2), of 6]
    by (cases c) (simp_all add: data_block_def CompressPayload_def)
qed

lemma good_block_data_ref:
  assumes good: "good_block enc c bound (e, b) es"
    and snappy: "\<And>x. dec (enc x) = Some x" "\<And>x. length (enc x) \<le> 32 + length x + length x div 6"
    and found: "in_file (pl_data p) e" "ref_bytes (pl_data p) e = b" "unat (ie_Length e) = length b"
    and size: "length (pl_data p) < 2 ^ 32" "pl_size p = length (pl_data p)"
    and limit: "int (46 + bound + bound div 6) \<le> ps_ReadBlockMaxBytes (pl_policy p)" "bound < 2 ^ 32"
    and sorted: "entry_keys_sorted es"
  shows "data_ref dec p e es"
proof -
  obtain bd xs rs where bd: "builder_inv bd xs rs" "map snd xs = es" "b = data_block enc c bd"
    "length (Builder_Finish bd) \<le> bound" "es \<noteq> []" "ie_Key e = Key (hd es)"
    using good by (auto simp: good_block_def)
  have dec: "DecodeBlockPayload dec b BlockTypeData err = Inr (Builder_Finish bd)" for err
    using DecodeBlockPayload_CompressPayload [of dec enc "Builder_Finish bd" c BlockTypeData err] snappy(1) bd(3)
    by (simp add: data_block_def split: prod.splits)
  have "length (bd_buf bd) < 2 ^ 32" using bd(4) limit(2) by (simp add: Builder_Finish_def)
  from Block_Decode_holds [OF bd(1) this] sorted bd(2) obtain blk where
    "Block_Decode (Builder_Finish bd) = Inr blk" "block_holds blk es" by auto
  moreover have "length b \<le> 46 + bound + bound div 6"
    using good_block_length [OF good snappy(2)] by simp
  then have "validateEntry p e ErrSSTableBadBlock = None"
    using limit found by (intro validateEntry_ok [OF found(1) size]) simp
  ultimately show ?thesis
    using bd(5,6) found dec by (simp add: data_ref_def load_block_def)
qed

lemma index_part_ref:
  assumes "index_part (e, b) part" "in_file (pl_data p) e" "ref_bytes (pl_data p) e = b" "length b < 2 ^ 32"
  shows "index_ref dec p e part"
  using assms index_block_decodes [of part]
  by (simp add: index_part_def index_ref_def load_index_def index_block_payload)

lemma filter_part_ref:
  assumes "filter_part (e, b) es" "in_file (pl_data p) e" "ref_bytes (pl_data p) e = b"
  shows "filter_ref dec p e es"
proof -
  obtain g where "b = filter_block (Filter_Encode (Some g))" "fl_bits g \<noteq> []" "filter_for g es"
    "es \<noteq> []" "ie_Key e = Key (hd es)" using assms(1) by (auto simp: filter_part_def)
  with assms(2,3) show ?thesis
    by (simp add: filter_ref_def load_filter_def filter_block_decodes Filter_Decode_Encode
        del: Filter_Encode.simps)
qed

lemma list_all2_refs:
  assumes "list_all2 P rs ys" "\<And>e b y. (e, b) \<in> set rs \<Longrightarrow> y \<in> set ys \<Longrightarrow> P (e, b) y \<Longrightarrow> Q e y"
  shows "list_all2 Q (map fst rs) ys"
  unfolding list_all2_map1
  using assms(1) by (rule list.rel_mono_strong) (use assms(2) in auto)

text \<open>The filter stage as the reader sees it.\<close>

lemma open_filter_ok:
  assumes im: "table_image opts es w refs frs prs topi ir fir fidx mr m ft data" and len: "length data < 2 ^ 32"
    and refs: "refs \<noteq> []" and src: "table_source data s"
    and flt: "\<And>g. ws_filter w = Some g \<Longrightarrow> fl_bits g \<noteq> []"
  obtains s' where "open_filter dec m (filter_split opts w) s =
      (Inr (if filter_split opts w then None else ws_filter w, if filter_split opts w then map fst frs else []), s')"
    "table_source data s'"
proof -
  note found = image_ref [OF im len]
  have pos: "0 < ie_Offset e" "0 < ie_Length e"
    if "(e, b) \<in> set (frs @ fir)" for e b
  proof -
    have mem: "(e, b) \<in> set (image_refs refs frs prs topi ir fir mr m)" using that by (auto simp: image_refs_def)
    show "0 < ie_Length e" using found(1) [OF mem] by (simp add: in_file_def word_gt_0)
    have lo: "laid_out (length (ref_data refs)) (frs @ prs @ [(ir, index_block topi)] @ fir @ [(mr, meta_block m)])"
      and d: "data = ref_data refs @ ref_data (frs @ prs @ [(ir, index_block topi)] @ fir @ [(mr, meta_block m)]) @ EncodeFooter ft"
      and l0: "laid_out 0 refs"
      using im by (simp_all add: table_image_def laid_out_append)
    have "length (ref_data refs) \<le> unat (ie_Offset e)"
      by (rule laid_out_ref(4) [OF lo d len]) (use that in auto)
    moreover have "ref_data refs \<noteq> []" using refs l0 by (cases refs) auto
    ultimately have "unat (ie_Offset e) \<noteq> 0" by (metis le_zero_eq length_0_conv)
    then show "0 < ie_Offset e" by (metis unat_0 word_gt_0)
  qed
  obtain bo bl where st: "filter_stage (filter_split opts w) (ws_filter w) es frs bo bl fidx"
    and fi: "if filter_split opts w
         then \<exists>k. fir = [(k, filter_block (EncodeIndex fidx))] \<and>
                m = flush_meta opts es w (ie_Offset k) (ie_Length k)
         else fir = [] \<and> m = flush_meta opts es w bo bl"
    using im by (auto simp: table_image_def)
  show ?thesis
  proof (cases "filter_split opts w")
    case True
    then obtain k where k: "fir = [(k, filter_block (EncodeIndex fidx))]"
      "m = flush_meta opts es w (ie_Offset k) (ie_Length k)" using fi by auto
    have mem: "(k, filter_block (EncodeIndex fidx)) \<in> set (image_refs refs frs prs topi ir fir mr m)"
      by (simp add: image_refs_def k(1))
    note f = found [OF mem]
    obtain s' where s': "ReadBlockPayload dec None (block_desc BlockTypeFilter (ie_Offset k) (ie_Length k))
      ErrSSTableBadMeta s = (Inr (EncodeIndex fidx), s')" "table_source data s'"
      by (rule source_payload [OF src f(1,2) filter_block_decodes])
    have "fidx = map fst frs" using st True by (auto simp: filter_stage_def filter_split_def split: option.splits)
    moreover have bloom: "mt_BloomOffset m = ie_Offset k" "mt_BloomLen m = ie_Length k"
      by (simp_all add: k(2) flush_meta_def)
    ultimately have "open_filter dec m True s = (Inr (None, map fst frs), s')"
      using s'(1) pos [of k "filter_block (EncodeIndex fidx)"] k(1) filter_index_decodes [OF f(4)] by (simp add: open_filter_def bloom)
    with s'(2) True that [of s'] show ?thesis by simp
  next
    case False
    show ?thesis
    proof (cases "ws_filter w")
      case None
      with st False fi src that [of s] show ?thesis
        by (simp add: filter_stage_def open_filter_def flush_meta_def)
    next
      case (Some g)
      then obtain k where k: "frs = [(k, filter_block (Filter_Encode (Some g)))]" "bo = ie_Offset k" "bl = ie_Length k"
        using st False by (auto simp: filter_stage_def)
      have mem: "(k, filter_block (Filter_Encode (Some g))) \<in> set (image_refs refs frs prs topi ir fir mr m)"
        by (simp add: image_refs_def k(1))
      note f = found [OF mem]
      obtain s' where s': "ReadBlockPayload dec None (block_desc BlockTypeFilter (ie_Offset k) (ie_Length k))
        ErrSSTableBadMeta s = (Inr (Filter_Encode (Some g)), s')" "table_source data s'"
        by (rule source_payload [OF src f(1,2) filter_block_decodes])
      have m: "mt_BloomOffset m = ie_Offset k" "mt_BloomLen m = ie_Length k"
        using fi False k by (simp_all add: flush_meta_def)
      have "open_filter dec m False s = (Inr (Some g, []), s')"
        using s'(1) pos [of k "filter_block (Filter_Encode (Some g))"] k(1) Filter_Decode_Encode [OF flt [OF Some]]
        by (simp add: open_filter_def m del: Filter_Encode.simps)
      with s'(2) False Some that [of s'] show ?thesis by simp
    qed
  qed
qed

lemma footer_read:
  assumes "data = body @ EncodeFooter ft" "length data < 2 ^ 32" "table_source data s"
  obtains s' where "Source_Read None (block_desc BlockTypeMeta (word_of_nat (length data - FooterSizeBytes))
      (word_of_nat FooterSizeBytes)) s = (Inr (EncodeFooter ft), s')" "table_source data s'"
proof -
  let ?e = "\<lparr>ie_Key = [], ie_Offset = word_of_nat (length data - FooterSizeBytes),
    ie_Length = word_of_nat FooterSizeBytes\<rparr>"
  have off: "unat (ie_Offset ?e) = length body"
    using assms(1,2) by (simp add: unat_word_of_nat_u64 sst_sizes)
  have len: "unat (ie_Length ?e) = 36" by (simp add: sst_sizes)
  have "in_file data ?e" unfolding in_file_def off len using assms(1) by (simp add: sst_sizes)
  moreover have "ref_bytes data ?e = EncodeFooter ft"
    unfolding ref_bytes_def off len using assms(1) by (simp add: bslice_def)
  ultimately show ?thesis using source_read [OF assms(3), of ?e BlockTypeMeta] that by auto
qed

lemma footer_flags_bits:
  "footer_flags a b AND FooterFlagIndexPartitioned \<noteq> 0 \<longleftrightarrow> a"
  "footer_flags a b AND FooterFlagFilterPartitioned \<noteq> 0 \<longleftrightarrow> b"
  by (cases a; cases b; simp add: footer_flags_def FooterFlagIndexPartitioned_def FooterFlagFilterPartitioned_def)+

lemma options_ok_Normalize:
  assumes "options_ok opts"
  shows "so_ReadBlockMaxBytes (Normalize opts) = so_ReadBlockMaxBytes opts"
    "so_PolicyOverride (Normalize opts) = so_PolicyOverride opts"
    "Validate (Normalize opts) = Validate opts" "so_UseMmap (Normalize opts) = so_UseMmap opts"
proof -
  have blocks: "normalize_blocks opts = opts"
    using assms by (auto simp: options_ok_def normalize_blocks_def Let_def)
  show "so_ReadBlockMaxBytes (Normalize opts) = so_ReadBlockMaxBytes opts"
    using assms unfolding Normalize_def Let_def
    by (simp add: blocks normalize_reads_def Let_def options_ok_def)
  show "so_PolicyOverride (Normalize opts) = so_PolicyOverride opts" "so_UseMmap (Normalize opts) = so_UseMmap opts"
    by (simp_all add: Normalize_def Let_def)
  have reads: "so_Compression (normalize_reads rd o') = so_Compression o'"
    "so_Checksum (normalize_reads rd o') = so_Checksum o'"
    if "so_Compression o' \<noteq> CompressionOther []" "so_Checksum o' \<noteq> ChecksumOther []" for o' rd
    using that by (simp_all add: normalize_reads_def Let_def)
  have prefetch: "so_CorruptionPolicy (normalize_prefetch o') = so_CorruptionPolicy o'"
    if "so_CorruptionPolicy o' \<noteq> CorruptionOther []" for o'
    using that by (simp add: normalize_prefetch_def Let_def)
  have "so_Compression (Normalize opts) = so_Compression opts"
    "so_Checksum (Normalize opts) = so_Checksum opts"
    "so_CorruptionPolicy (Normalize opts) = so_CorruptionPolicy opts"
    using assms unfolding Normalize_def Let_def
    by (simp_all add: reads prefetch blocks options_ok_def)
  then show "Validate (Normalize opts) = Validate opts"
    by (simp add: Validate_def split: Compression.split ChecksumName.split)
qed

text \<open>The reader of a complete file, and its pipeline.\<close>

lemma openReader_ok:
  assumes im: "table_image opts es w refs frs prs topi ir fir fidx mr m ft data" and len: "length data < 2 ^ 32"
    and refs: "refs \<noteq> []" and flt: "\<And>g. ws_filter w = Some g \<Longrightarrow> fl_bits g \<noteq> []"
    and val: "Validate opts = None" "Validate (Normalize opts) = None"
    and fl: "map_of d path = Some data" and calm: "calm faults"
  obtains s where
    "openReader dec path opts d faults =
       Inr (\<lparr>rd_size = length data, rd_meta = m, rd_opts = Normalize opts, rd_dropped = False,
             rd_pipe = Some (NewPipeline s (NewBlockCache (so_BlockCacheBytes (Normalize opts)))
               (if index_split opts w then NewIndexCache (so_IndexCacheBytes (Normalize opts)) else None)
               (if filter_split opts w then NewFilterCache (so_FilterCacheBytes (Normalize opts)) else None)
               topi (index_split opts w) (if filter_split opts w then None else ws_filter w)
               (if filter_split opts w then map fst frs else []) (filter_split opts w) (length data)
               (SnapshotFromOptions (Normalize opts) (index_split opts w) (filter_split opts w)))\<rparr>,
            mt_SeqMax m)"
    "table_source data s"
proof -
  note found = image_ref [OF im len]
  have data: "data = ref_data (image_refs refs frs prs topi ir fir mr m) @ EncodeFooter ft"
    and ft: "ft = \<lparr>ft_Flags = footer_flags (index_split opts w) (filter_split opts w),
           ft_IndexOffset = ie_Offset ir, ft_IndexLen = ie_Length ir,
           ft_MetaOffset = ie_Offset mr, ft_MetaLen = ie_Length mr\<rparr>"
    using im by (simp_all add: table_image_def image_refs_def)
  have src: "table_source data (NewBlockSource data (length data) (so_UseMmap (Normalize opts)) faults)"
    using calm by (simp add: table_source_def NewBlockSource_def)
  obtain s1 where s1: "Source_Read None (block_desc BlockTypeMeta (word_of_nat (length data - FooterSizeBytes))
      (word_of_nat FooterSizeBytes)) (NewBlockSource data (length data) (so_UseMmap (Normalize opts)) faults) =
      (Inr (EncodeFooter ft), s1)" "table_source data s1"
    by (rule footer_read [OF data len src])
  have mem: "(mr, meta_block m) \<in> set (image_refs refs frs prs topi ir fir mr m)"
    "(ir, index_block topi) \<in> set (image_refs refs frs prs topi ir fir mr m)"
    by (simp_all add: image_refs_def)
  note fm = found [OF mem(1)] and fi = found [OF mem(2)]
  obtain s2 where s2: "ReadBlockPayload dec None (block_desc BlockTypeMeta (ie_Offset mr) (ie_Length mr))
      ErrSSTableBadMeta s1 = (Inr (EncodeMeta m), s2)" "table_source data s2"
    by (rule source_payload [OF s1(2) fm(1,2) meta_block_payload])
  have "mt_Compression m = so_Compression opts"
    using im by (auto simp: table_image_def flush_meta_def split: if_splits)
  then have meta: "DecodeMeta (EncodeMeta m) = Inr m"
    using val(1) by (intro meta_block_decodes [OF fm(4)]) (auto simp: Validate_def split: Compression.splits)
  obtain s3 where s3: "ReadBlockPayload dec None (block_desc BlockTypeIndex (ie_Offset ir) (ie_Length ir))
      ErrSSTableBadIndex s2 = (Inr (EncodeIndex topi), s3)" "table_source data s3"
    by (rule source_payload [OF s2(2) fi(1,2) index_block_payload])
  note index = index_block_decodes [OF fi(4)]
  obtain s4 where s4: "open_filter dec m (filter_split opts w) s3 =
      (Inr (if filter_split opts w then None else ws_filter w, if filter_split opts w then map fst frs else []), s4)"
    "table_source data s4"
    by (rule open_filter_ok [OF im len refs s3(2) flt])
  have long: "\<not> length data < FooterSizeBytes" by (simp add: data sst_sizes)
  show ?thesis
    by (rule that [OF _ s4(2)])
       (simp add: openReader_def Let_def val(2) fl long s1(1) DecodeFooter_EncodeFooter ft s2(1) meta s3(1) index
          footer_flags_bits s4(1) del: of_nat_diff split del: if_split)
qed

section \<open>The pipeline of a flushed table\<close>

lemma NewPipeline_fields [simp]:
  "pl_source (NewPipeline s c ic fc top' ip flt fi fp sz pol) = s"
  "pl_nodes (NewPipeline s c ic fc top' ip flt fi fp sz pol) = newNodeRegistry"
  "pl_cache (NewPipeline s c ic fc top' ip flt fi fp sz pol) = c"
  "pl_indexCache (NewPipeline s c ic fc top' ip flt fi fp sz pol) = ic"
  "pl_filterCache (NewPipeline s c ic fc top' ip flt fi fp sz pol) = fc"
  "pl_top (NewPipeline s c ic fc top' ip flt fi fp sz pol) = top'"
  "pl_indexPartitioned (NewPipeline s c ic fc top' ip flt fi fp sz pol) = ip"
  "pl_filter (NewPipeline s c ic fc top' ip flt fi fp sz pol) = flt"
  "pl_filterIndex (NewPipeline s c ic fc top' ip flt fi fp sz pol) = fi"
  "pl_filterPartitioned (NewPipeline s c ic fc top' ip flt fi fp sz pol) = fp"
  "pl_size (NewPipeline s c ic fc top' ip flt fi fp sz pol) = sz"
  "pl_policy (NewPipeline s c ic fc top' ip flt fi fp sz pol) = pol"
  by (simp_all add: NewPipeline_def Let_def Prefetch_Start_def)

lemma fresh_caches:
  "block_lru.holds P (NewBlockCache n)" "index_lru.holds Q (NewIndexCache n)" "index_lru.holds Q None"
  "filter_lru.holds R (NewFilterCache n)" "filter_lru.holds R None"
  by (simp_all add: block_lru.holds_def index_lru.holds_def filter_lru.holds_def NewBlockCache_def
      NewIndexCache_def NewFilterCache_def lru_inv_def [of None] lru_contents_def [of None])

text \<open>The pipeline over a complete file, whatever the caches' sizes and the prefetch policy.\<close>

lemma flushed_pipe_ok:
  assumes im: "table_image opts (concat blocks) w refs frs prs topi ir fir fidx mr m ft data"
    and len: "length data < 2 ^ 32"
    and good: "list_all2 (good_block enc (so_Compression opts) bound) refs blocks" "ws_index w = map fst refs"
    and snappy: "\<And>x. dec (enc x) = Some x" "\<And>x. length (enc x) \<le> 32 + length x + length x div 6"
    and limit: "int (46 + bound + bound div 6) \<le> ps_ReadBlockMaxBytes pol" "bound < 2 ^ 32"
    and sorted: "entry_keys_sorted (concat blocks)"
    and flt: "\<And>g. ws_filter w = Some g \<Longrightarrow> filter_for g (concat blocks)"
    and src: "table_source data s"
    and caches: "index_lru.holds (ref_holds (load_index dec data) topi) ic"
      "filter_lru.holds (ref_holds (load_filter dec data) fi) fc"
      "block_lru.holds (ref_holds (load_block dec data) (map fst refs)) c"
    and fi: "fi = (if filter_split opts w then map fst frs else [])"
    and p: "p = NewPipeline s c ic fc topi (index_split opts w) (if filter_split opts w then None else ws_filter w)
             fi (filter_split opts w) (length data) pol"
  shows "pipe_ok dec p (map fst refs) blocks \<and> quiet p"
proof -
  have s: "sc_file s" "sc_data s = data" "sc_size s = length data" "calm (sc_faults s)"
    using src by (simp_all add: table_source_def)
  have mem: "(e, b) \<in> set (image_refs refs frs prs topi ir fir mr m)" if "(e, b) \<in> set (refs @ frs @ prs)" for e b
    using that by (auto simp: image_refs_def)
  note found = image_ref [OF im len mem] and offs = image_offsets [OF im len]
  have pd: "pl_data p = data" "pl_size p = length data" "pl_policy p = pol" by (simp_all add: p s)
  have "list_all2 (data_ref dec p) (map fst refs) blocks"
    using good(1)
  proof (rule list_all2_refs)
    fix e b es assume e: "(e, b) \<in> set refs" "es \<in> set blocks" "good_block enc (so_Compression opts) bound (e, b) es"
    have "entry_keys_sorted es"
      using sorted e(2) sorted_group [of Key blocks es] by (simp add: entry_keys_sorted_def)
    with found [of e b] e(1) show "data_ref dec p e es"
      by (intro good_block_data_ref [OF e(3) snappy]) (use limit len in \<open>simp_all add: pd\<close>)
  qed
  moreover have "index_ok dec p (map fst refs)"
  proof (cases "index_split opts w")
    case True
    then obtain parts where parts: "topi = map fst prs" "concat parts = map fst refs" "list_all2 index_part prs parts"
      using im good(2) by (auto simp: table_image_def top_stage_def)
    have "list_all2 (index_ref dec p) (map fst prs) parts"
      using parts(3)
    proof (rule list_all2_refs)
      fix e b part assume e: "(e, b) \<in> set prs" "index_part (e, b) part"
      with found [of e b] show "index_ref dec p e part" by (intro index_part_ref [OF e(2)]) (simp_all add: pd)
    qed
    with parts True offs(3) show ?thesis by (auto simp: index_ok_def p)
  next
    case False
    then show ?thesis using im good(2) by (simp add: table_image_def top_stage_def index_ok_def p)
  qed
  moreover have "filter_ok dec p (concat blocks)"
  proof (cases "filter_split opts w")
    case True
    then obtain parts where parts: "concat parts = concat blocks" "list_all2 filter_part frs parts"
      using im by (auto simp: table_image_def filter_stage_def filter_split_def split: option.splits)
    have "list_all2 (filter_ref dec p) (map fst frs) parts"
      using parts(2)
    proof (rule list_all2_refs)
      fix e b es assume e: "(e, b) \<in> set frs" "filter_part (e, b) es"
      with found [of e b] show "filter_ref dec p e es" by (intro filter_part_ref [OF e(2)]) (simp_all add: pd)
    qed
    with parts True offs(2) show ?thesis by (auto simp: filter_ok_def p fi)
  next
    case False
    then show ?thesis using flt by (simp add: filter_ok_def p)
  qed
  ultimately have "table_ok dec p (map fst refs) blocks"
    using s sorted offs(1) by (simp add: table_ok_def p)
  moreover have "queued p = []" by (simp add: p queued_def NewPipeline_def Prefetch_Start_def Let_def)
  then have "caches_ok dec p (map fst refs)"
    using caches by (simp add: caches_ok_def p s newNodeRegistry_def offsets_ok_def)
  ultimately show ?thesis using s by (simp add: pipe_ok_def quiet_def p)
qed

section \<open>The flush\<close>

definition flush_start :: "SstOptions \<Rightarrow> entry list \<Rightarrow> fs \<Rightarrow> wstate" where
  "flush_start opts es s =
     \<lparr>ws_builder = NewBuilder (so_RestartInterval opts) (so_RestartIntervalAdaptive opts)
                    (so_RestartIntervalMin opts) (so_RestartIntervalMax opts),
      ws_offset = 0, ws_index = [], ws_counts = [],
      ws_filter = NewFilter (int (length es)) (so_BloomBitsPerKey opts),
      ws_seqMin = Seq (hd es), ws_seqMax = Seq (last es), ws_fs = s\<rparr>"

lemma flushing_start:
  "holds_file f [] s \<Longrightarrow> flushing enc opts f bound s (flush_start opts es s) [] [] []"
proof -
  assume h: "holds_file f [] s"
  let ?b = "NewBuilder (so_RestartInterval opts) (so_RestartIntervalAdaptive opts)
    (so_RestartIntervalMin opts) (so_RestartIntervalMax opts)"
  have "\<exists>xs rs. builder_inv ?b xs rs \<and> map snd xs = []"
    by (intro exI [of _ "[]"]) (simp add: builder_inv_NewBuilder)
  moreover have "bd_first ?b = []" by (simp add: NewBuilder_def Let_def)
  ultimately show ?thesis using h by (simp add: flushing_def flush_start_def)
qed

text \<open>The filter of the flush: none without bits, otherwise one for all the keys.\<close>

lemma start_filter:
  assumes "int (length es) * so_BloomBitsPerKey opts + 7 < 2 ^ 32"
  obtains flt where "add_keys (ws_filter (flush_start opts es s)) (map Key es) = Inr flt"
    "\<And>g. flt = Some g \<Longrightarrow> filter_for g es \<and> fl_bits g \<noteq> [] \<and> 0 < so_BloomBitsPerKey opts"
proof (cases "NewFilter (int (length es)) (so_BloomBitsPerKey opts)")
  case None
  then show ?thesis using that [of None] by (simp add: flush_start_def)
next
  case (Some f)
  from filter_for_keys [OF Some assms, of es] obtain g where
    "add_keys (Some f) (map Key es) = Inr (Some g)" "filter_for g es" "fl_bits g \<noteq> []" by blast
  moreover have "0 < so_BloomBitsPerKey opts" using Some by (auto simp: NewFilter_def split: if_splits)
  ultimately show ?thesis using that [of "Some g"] Some by (simp add: flush_start_def)
qed

lemma flush_commit_ok:
  assumes "holds_file tmp data s" "tmp \<noteq> final"
  shows "flush_commit dec opts tmp final faults s =
    (LoadSSTable dec final opts (put_file final data (del_file tmp (fs_dir s))) faults,
     s\<lparr>fs_dir := put_file final data (del_file tmp (fs_dir s))\<rparr>)"
  using assms by (simp add: flush_commit_def holds_file_def syncDir_def)

text \<open>A table that answers for a list of entries, with the facts its meta block states.\<close>

definition table_holds :: "(bytes \<Rightarrow> bytes option) \<Rightarrow> SSTable \<Rightarrow> entry list \<Rightarrow> bool" where
  "table_holds dec t es \<longleftrightarrow>
     (\<exists>r p index blocks. st_reader t = Some r \<and> \<not> rd_dropped r \<and> rd_pipe r = Some p \<and>
        pipe_ok dec p index blocks \<and> quiet p \<and> concat blocks = es \<and> es \<noteq> [] \<and>
        mt_MinKey (rd_meta r) = Key (hd es) \<and> mt_MaxKey (rd_meta r) = Key (last es))"

lemma outside_lookup:
  assumes "entry_keys_sorted es" "es \<noteq> []" "key < Key (hd es) \<or> Key (last es) < key"
  shows "lookup key es = None"
proof -
  have "Key e \<noteq> key" if "e \<in> set es" for e
  proof -
    from that obtain i where i: "i < length es" "e = es ! i" by (auto simp: in_set_conv_nth)
    have "sorted_wrt (<) (map Key es)" using assms(1) by (simp add: entry_keys_sorted_def)
    then have lt: "Key (es ! a) < Key (es ! b)" if "a < b" "b < length es" for a b
      using that by (simp add: sorted_wrt_iff_nth_less)
    have "Key (hd es) \<le> Key e" using lt [of 0 i] i assms(2) by (cases "i = 0") (auto simp: hd_conv_nth)
    moreover have "Key e \<le> Key (last es)"
    proof (cases "i = length es - 1")
      case False
      then have "i < length es - 1" using i(1) by simp
      with lt [of i "length es - 1"] i assms(2) show ?thesis by (simp add: last_conv_nth)
    qed (use i assms(2) in \<open>simp add: last_conv_nth\<close>)
    ultimately show ?thesis using assms(3) by auto
  qed
  then show ?thesis by (simp add: lookup_None_iff)
qed

lemma table_holds_get:
  assumes th: "table_holds dec t es"
  shows "\<exists>t'. SSTable_GetViewContext dec None key t = (Inr (lookup key es), t') \<and> table_holds dec t' es"
    and "\<exists>t'. SSTable_Get dec key t = (lookup key es, t') \<and> table_holds dec t' es"
proof -
  obtain r p index blocks where t: "st_reader t = Some r" "\<not> rd_dropped r" "rd_pipe r = Some p"
    "pipe_ok dec p index blocks" "quiet p" "concat blocks = es" "es \<noteq> []"
    "mt_MinKey (rd_meta r) = Key (hd es)" "mt_MaxKey (rd_meta r) = Key (last es)"
    using th by (auto simp: table_holds_def)
  have sorted: "entry_keys_sorted es" using pipe_ok_table [OF t(4)] t(6) by (simp add: table_ok_def)
  obtain v p' where run: "Pipeline_Get dec None key p = (v, p')" by (cases "Pipeline_Get dec None key p")
  have v: "v = Inr (lookup key es)" "pipe_ok dec p' index blocks" "quiet p'"
    using Pipeline_Get_ok [OF t(4) run, unfolded fetched_def] t(5,6) by blast+
  let ?t = "t\<lparr>st_reader := Some (r\<lparr>rd_pipe := Some p'\<rparr>)\<rparr>"
  have th': "table_holds dec ?t es" unfolding table_holds_def using t v by auto
  have out: "lookup key es = None" if "outside_keys r key"
    using that t(7-9) outside_lookup [OF sorted] by (auto simp: outside_keys_def)
  show "\<exists>t'. SSTable_GetViewContext dec None key t = (Inr (lookup key es), t') \<and> table_holds dec t' es"
  proof (cases "outside_keys r key")
    case True
    with t(1,3) th out show ?thesis
      by (intro exI [of _ "t\<lparr>st_reader := Some r\<rparr>"])
         (simp add: SSTable_GetViewContext_def Reader_GetViewContext_def table_holds_def)
  next
    case False
    with t(1,3) th' v(1) run show ?thesis
      by (intro exI [of _ ?t]) (simp add: SSTable_GetViewContext_def Reader_GetViewContext_def)
  qed
  show "\<exists>t'. SSTable_Get dec key t = (lookup key es, t') \<and> table_holds dec t' es"
  proof (cases "outside_keys r key")
    case True
    with t(1-3) th out show ?thesis
      by (intro exI [of _ "t\<lparr>st_reader := Some r\<rparr>"])
         (simp add: SSTable_Get_def Reader_Get_def Reader_GetView_def table_holds_def)
  next
    case False
    with t(1-3) th' v(1) run show ?thesis
      by (intro exI [of _ ?t]) (simp add: SSTable_Get_def Reader_Get_def Reader_GetView_def)
  qed
qed

lemma flush_min_max:
  assumes "es \<noteq> []"
  shows "fold (\<lambda>e. min (Seq e)) es (Seq (hd es)) = Min (Seq ` set es)"
    and "fold (\<lambda>e. max (Seq e)) es (Seq (last es)) = Max (Seq ` set es)"
proof -
  have "fold (\<lambda>e. min (Seq e)) es (Seq (hd es)) = Min (set (Seq (hd es) # map Seq es))"
    by (simp only: Min.set_eq_fold fold_map comp_def)
  also have "set (Seq (hd es) # map Seq es) = Seq ` set es" using assms by auto
  finally show "fold (\<lambda>e. min (Seq e)) es (Seq (hd es)) = Min (Seq ` set es)" .
  have "fold (\<lambda>e. max (Seq e)) es (Seq (last es)) = Max (set (Seq (last es) # map Seq es))"
    by (simp only: Max.set_eq_fold fold_map comp_def)
  also have "set (Seq (last es) # map Seq es) = Seq ` set es" using assms by auto
  finally show "fold (\<lambda>e. max (Seq e)) es (Seq (last es)) = Max (Seq ` set es)" .
qed

text \<open>Everything up to the rename: the file that will become the table.\<close>

lemma flush_writes:
  fixes es :: "entry list"
  assumes h: "holds_file f [] s" and es: "es \<noteq> []" "\<forall>e \<in> set es. Key e \<noteq> []"
    and bound: "nat (so_BlockTargetBytes opts) \<le> bound"
      "\<forall>e \<in> set es. 29 + length (Key e) + length (Value e) \<le> bound"
    and bits: "int (length es) * so_BloomBitsPerKey opts + 7 < 2 ^ 32"
  obtains w refs blocks frs prs topi ir fir fidx mr m ft data s' where
    "flush_entries enc scale opts f es (flush_start opts es s) = (None, w)"
    "flush_tail opts f es w = (None, s')" "holds_file f data s'" "other_files f s s'"
    "table_image opts es w refs frs prs topi ir fir fidx mr m ft data" "concat blocks = es"
    "list_all2 (good_block enc (so_Compression opts) bound) refs blocks" "ws_index w = map fst refs"
    "\<forall>g. ws_filter w = Some g \<longrightarrow> filter_for g es \<and> fl_bits g \<noteq> []"
    "ws_seqMin w = Min (Seq ` set es)" "ws_seqMax w = Max (Seq ` set es)" "refs \<noteq> []"
    "add_keys (NewFilter (int (length es)) (so_BloomBitsPerKey opts)) (map Key es) = Inr (ws_filter w)"
proof -
  obtain flt where flt: "add_keys (ws_filter (flush_start opts es s)) (map Key es) = Inr flt"
    "\<And>g. flt = Some g \<Longrightarrow> filter_for g es \<and> fl_bits g \<noteq> [] \<and> 0 < so_BloomBitsPerKey opts"
    using start_filter [OF bits, of s] by blast
  obtain refs blocks w where w: "flush_entries enc scale opts f es (flush_start opts es s) = (None, w)"
    "flushing enc opts f bound s w refs blocks []" "concat blocks = es" "ws_filter w = flt"
    "ws_seqMin w = Min (Seq ` set es)" "ws_seqMax w = Max (Seq ` set es)"
    using flush_entries_flushing [OF flushing_start [OF h] _ bound(1) _ flt(1), of enc scale] es bound(2)
      flush_min_max [OF es(1)]
    by (auto simp: flush_start_def)
  have ne: "blocks \<noteq> []" using w(3) es(1) by auto
  have bits': "ws_filter w \<noteq> None \<Longrightarrow> 0 < so_BloomBitsPerKey opts"
    "int (length (concat blocks)) * so_BloomBitsPerKey opts + 7 < 2 ^ 32"
    using flt(2) w(3,4) bits by auto
  obtain frs prs topi ir fir fidx mr m ft data s' where t:
    "flush_tail opts f (concat blocks) w = (None, s')" "holds_file f data s'" "other_files f s s'"
    "table_image opts (concat blocks) w refs frs prs topi ir fir fidx mr m ft data"
    by (rule flush_tail_ok [OF w(2) ne bits'])
  have gb: "list_all2 (good_block enc (so_Compression opts) bound) refs blocks" "ws_index w = map fst refs"
    using w(2) by (simp_all add: flushing_def)
  show ?thesis
    by (rule that [OF w(1) t(1) [unfolded w(3)] t(2,3) t(4) [unfolded w(3)] w(3) gb _ w(5,6)])
       (use flt w(4) gb(1) ne in \<open>auto simp: flush_start_def\<close>)
qed

text \<open>Loading a complete file gives a table for its entries.\<close>

lemma load_flushed:
  assumes im: "table_image opts S w refs frs prs topi ir fir fidx mr m ft data" "length data < 2 ^ 32"
    and blocks: "concat blocks = S" "list_all2 (good_block enc (so_Compression opts) bound) refs blocks"
      "ws_index w = map fst refs" "refs \<noteq> []"
    and flt: "\<forall>g. ws_filter w = Some g \<longrightarrow> filter_for g S \<and> fl_bits g \<noteq> []"
    and S: "S \<noteq> []" "entry_keys_sorted S"
    and opts: "options_ok opts" "Validate opts = None" "so_PolicyOverride opts = None"
    and snappy: "\<And>x. dec (enc x) = Some x" "\<And>x. length (enc x) \<le> 32 + length x + length x div 6"
    and limit: "int (46 + bound + bound div 6) \<le> so_ReadBlockMaxBytes opts" "bound < 2 ^ 32"
    and io: "map_of d path = Some data" "calm faults"
  obtains t where "LoadSSTable dec path opts d faults = Inr t" "table_holds dec t S" "st_Path t = path"
    "in_SeqMin (SSTable_Info t) = ws_seqMin w" "in_SeqMax (SSTable_Info t) = ws_seqMax w"
    "in_EntryCount (SSTable_Info t) = word_of_nat (length S)"
proof -
  note norm = options_ok_Normalize [OF opts(1)]
  have val: "Validate (Normalize opts) = None" using opts(2) norm(3) by simp
  have fb: "\<And>g. ws_filter w = Some g \<Longrightarrow> fl_bits g \<noteq> []" using flt by blast
  define pol where "pol = SnapshotFromOptions (Normalize opts) (index_split opts w) (filter_split opts w)"
  have pol: "ps_ReadBlockMaxBytes pol = so_ReadBlockMaxBytes opts"
    using norm(1,2) opts(3) by (simp add: pol_def SnapshotFromOptions_def Let_def)
  define pipe where "pipe = (\<lambda>src. NewPipeline src (NewBlockCache (so_BlockCacheBytes (Normalize opts)))
               (if index_split opts w then NewIndexCache (so_IndexCacheBytes (Normalize opts)) else None)
               (if filter_split opts w then NewFilterCache (so_FilterCacheBytes (Normalize opts)) else None)
               topi (index_split opts w) (if filter_split opts w then None else ws_filter w)
               (if filter_split opts w then map fst frs else []) (filter_split opts w) (length data) pol)"
  obtain src where rd: "openReader dec path opts d faults =
       Inr (\<lparr>rd_size = length data, rd_meta = m, rd_opts = Normalize opts, rd_dropped = False,
             rd_pipe = Some (pipe src)\<rparr>, mt_SeqMax m)" "table_source data src"
    unfolding pipe_def pol_def by (rule openReader_ok [OF im blocks(4) fb opts(2) val io])
  have pipe: "pipe_ok dec (pipe src) (map fst refs) blocks \<and> quiet (pipe src)"
    by (rule flushed_pipe_ok [OF im(1) [folded blocks(1)] im(2) blocks(2,3) snappy _ limit(2) _ _ rd(2)
            _ _ _ refl pipe_def [THEN fun_cong]])
       (use limit(1) flt S(2) in \<open>simp_all add: pol blocks(1) fresh_caches\<close>)
  have m: "mt_MinKey m = Key (hd S)" "mt_MaxKey m = Key (last S)" "mt_SeqMin m = ws_seqMin w"
    "mt_SeqMax m = ws_seqMax w" "mt_EntryCount m = word_of_nat (length S)"
    using im(1) by (auto simp: table_image_def flush_meta_def split: if_splits)
  define t where "t = \<lparr>st_Path = path, st_Seq = mt_SeqMax m, st_reader =
    Some \<lparr>rd_size = length data, rd_meta = m, rd_opts = Normalize opts, rd_dropped = False,
           rd_pipe = Some (pipe src)\<rparr>\<rparr>"
  have "table_holds dec t S" unfolding table_holds_def t_def using pipe m blocks(1) S(1) by auto
  moreover have "LoadSSTable dec path opts d faults = Inr t" by (simp add: LoadSSTable_def rd(1) t_def)
  ultimately show ?thesis by (intro that [of t]) (simp_all add: t_def SSTable_Info_def m)
qed

text \<open>The name of the table a flush makes, from its entries and the clock.\<close>

definition flush_path :: "string \<Rightarrow> entry list \<Rightarrow> fs \<Rightarrow> string" where
  "flush_path dirp es s = sst_name dirp (Seq (last (sort_Slice sst_entry_less es))) (fs_now s)"

lemma Writer_Flush_run:
  assumes io: "fs_faults s = []" and es: "es \<noteq> []"
    and S: "S = sort_Slice sst_entry_less es" and final: "final = flush_path dirp es s"
    and s1: "s1 = s\<lparr>fs_dir := put_file (final @ ''.tmp'') [] (fs_dir s)\<rparr>"
    and w: "flush_entries enc scale opts (final @ ''.tmp'') S (flush_start opts S s1) = (None, w)"
    "flush_tail opts (final @ ''.tmp'') S w = (None, s2)" "holds_file (final @ ''.tmp'') data s2"
  shows "Writer_Flush enc dec scale opts dirp es faults s =
    (LoadSSTable dec final opts (put_file final data (del_file (final @ ''.tmp'') (fs_dir s2))) faults,
     s2\<lparr>fs_dir := put_file final data (del_file (final @ ''.tmp'') (fs_dir s2))\<rparr>)"
proof -
  have "final @ ''.tmp'' \<noteq> final" by simp
  note commit = flush_commit_ok [OF w(3) this, of dec opts faults]
  have name: "sst_name dirp (Seq (last S)) (fs_now s) = final" by (simp add: final flush_path_def S)
  have opened: "fs_open True (final @ ''.tmp'') s = (None, s1)" using io by (simp add: s1)
  show ?thesis
    unfolding Writer_Flush_def Let_def S [symmetric] name opened flush_start_def [symmetric] prod.case
      option.case w(1,2) commit
    using es by simp
qed

lemma Writer_Flush_ok:
  assumes io: "fs_faults s = []" "calm faults"
    and opts: "options_ok opts" "Validate opts = None" "so_PolicyOverride opts = None"
    and es: "es \<noteq> []" "distinct (map Key es)" "\<forall>e \<in> set es. Key e \<noteq> []"
    and snappy: "\<And>x. dec (enc x) = Some x" "\<And>x. length (enc x) \<le> 32 + length x + length x div 6"
    and limit: "int (46 + block_bound opts es + block_bound opts es div 6) \<le> so_ReadBlockMaxBytes opts"
      "block_bound opts es < 2 ^ 32"
    and bits: "int (length es) * so_BloomBitsPerKey opts + 7 < 2 ^ 32"
    and size: "file_size (flush_path dirp es s) (snd (Writer_Flush enc dec scale opts dirp es faults s)) < 2 ^ 32"
  obtains t s' where "Writer_Flush enc dec scale opts dirp es faults s = (Inr t, s')"
    "table_holds dec t (sort_Slice sst_entry_less es)" "st_Path t = flush_path dirp es s"
    "in_SeqMin (SSTable_Info t) = Min (Seq ` set es)" "in_SeqMax (SSTable_Info t) = Max (Seq ` set es)"
    "in_EntryCount (SSTable_Info t) = word_of_nat (length es)"
    "map_of (fs_dir s') (flush_path dirp es s @ ''.tmp'') = None"
    "\<And>g. g \<noteq> flush_path dirp es s \<Longrightarrow> g \<noteq> flush_path dirp es s @ ''.tmp'' \<Longrightarrow>
       map_of (fs_dir s') g = map_of (fs_dir s) g"
proof -
  define S where "S = sort_Slice sst_entry_less es"
  define final where "final = flush_path dirp es s"
  define s1 where "s1 = s\<lparr>fs_dir := put_file (final @ ''.tmp'') [] (fs_dir s)\<rparr>"
  have S: "set S = set es" "length S = length es" "S \<noteq> []" "entry_keys_sorted S"
  proof -
    show "set S = set es" "length S = length es" by (simp_all add: S_def)
    then show "S \<noteq> []" using es(1) by auto
    show "entry_keys_sorted S" unfolding S_def by (rule sorted_entries [OF es(2)])
  qed
  have h: "holds_file (final @ ''.tmp'') [] s1" using io(1) by (simp add: holds_file_def s1_def)
  have bound: "nat (so_BlockTargetBytes opts) \<le> block_bound opts es"
    "\<forall>e \<in> set S. 29 + length (Key e) + length (Value e) \<le> block_bound opts es"
    using block_bound_target block_bound_entry by (simp_all add: S(1))
  have keys: "\<forall>e \<in> set S. Key e \<noteq> []" and bits': "int (length S) * so_BloomBitsPerKey opts + 7 < 2 ^ 32"
    using es(3) bits by (simp_all add: S)
  obtain w refs blocks frs prs topi ir fir fidx mr m ft data s2 where w:
    "flush_entries enc scale opts (final @ ''.tmp'') S (flush_start opts S s1) = (None, w)"
    "flush_tail opts (final @ ''.tmp'') S w = (None, s2)" "holds_file (final @ ''.tmp'') data s2"
    "other_files (final @ ''.tmp'') s1 s2"
    "table_image opts S w refs frs prs topi ir fir fidx mr m ft data" "concat blocks = S"
    "list_all2 (good_block enc (so_Compression opts) (block_bound opts es)) refs blocks" "ws_index w = map fst refs"
    "\<forall>g. ws_filter w = Some g \<longrightarrow> filter_for g S \<and> fl_bits g \<noteq> []"
    "ws_seqMin w = Min (Seq ` set S)" "ws_seqMax w = Max (Seq ` set S)" "refs \<noteq> []"
    "add_keys (NewFilter (int (length S)) (so_BloomBitsPerKey opts)) (map Key S) = Inr (ws_filter w)"
    by (rule flush_writes [OF h S(3) keys bound bits'])
  define d where "d = put_file final data (del_file (final @ ''.tmp'') (fs_dir s2))"
  have run: "Writer_Flush enc dec scale opts dirp es faults s = (LoadSSTable dec final opts d faults, s2\<lparr>fs_dir := d\<rparr>)"
    unfolding d_def by (rule Writer_Flush_run [OF io(1) es(1) S_def final_def s1_def w(1-3)])
  have fl: "map_of d final = Some data" by (simp add: d_def)
  have len: "length data < 2 ^ 32"
    using size fl by (simp add: run file_size_def final_def [symmetric])
  obtain t where t: "LoadSSTable dec final opts d faults = Inr t" "table_holds dec t S" "st_Path t = final"
    "in_SeqMin (SSTable_Info t) = ws_seqMin w" "in_SeqMax (SSTable_Info t) = ws_seqMax w"
    "in_EntryCount (SSTable_Info t) = word_of_nat (length S)"
    by (rule load_flushed [OF w(5) len w(6,7,8,12,9) S(3,4) opts snappy limit fl io(2)])
  show ?thesis
  proof (rule that [of t "s2\<lparr>fs_dir := d\<rparr>"])
    fix g assume "g \<noteq> flush_path dirp es s" "g \<noteq> flush_path dirp es s @ ''.tmp''"
    then show "map_of (fs_dir (s2\<lparr>fs_dir := d\<rparr>)) g = map_of (fs_dir s) g"
      using w(4) by (simp add: other_files_def d_def s1_def final_def)
  qed (use run t w(10,11) S(1,2) in \<open>simp_all add: S_def [symmetric] final_def d_def\<close>)
qed

lemma good_refs_length:
  assumes "list_all2 (good_block enc c bound) refs blocks" "\<And>x. length (enc x) \<le> 32 + length x + length x div 6"
  shows "length (ref_data refs) \<le> length blocks * (46 + bound + bound div 6)"
  using assms(1)
proof (induction rule: list_all2_induct)
  case (Cons r refs es blocks)
  then show ?case using good_block_length [OF Cons.hyps(1) assms(2)] by simp
qed simp

lemma good_refs_count:
  "list_all2 (good_block enc c bound) refs blocks \<Longrightarrow> length refs \<le> length (concat blocks)"
proof (induction rule: list_all2_induct)
  case (Cons r refs es blocks)
  then have "es \<noteq> []" by (simp add: good_block_def)
  with Cons show ?case by (cases es) auto
qed simp

lemma good_refs_index:
  assumes "list_all2 (good_block enc c bound) refs blocks" "\<forall>e \<in> set (concat blocks). length (Key e) \<le> n"
  shows "length (EncodeIndex (map fst refs)) \<le> length refs * (16 + n)"
  using assms
proof (induction rule: list_all2_induct)
  case (Cons r refs es blocks)
  then have "hd es \<in> set es" "ie_Key (fst r) = Key (hd es)" by (auto simp: good_block_def)
  with Cons have "length (ie_Key (fst r)) \<le> n" by auto
  with Cons show ?case by (simp add: EncodeIndex_concat)
qed (simp add: EncodeIndex_def)

text \<open>A bound on the file of a flush without filter and with an unpartitioned index.\<close>

lemma plain_image_size:
  assumes im: "table_image opts (concat blocks) w refs frs prs topi ir fir fidx mr m ft data"
    and plain: "ws_filter w = None" "int (length (concat blocks)) \<le> so_IndexPartitionEntries opts"
    and good: "list_all2 (good_block enc (so_Compression opts) bound) refs blocks" "ws_index w = map fst refs"
    and snappy: "\<And>x. length (enc x) \<le> 32 + length x + length x div 6"
    and keys: "\<forall>e \<in> set (concat blocks). length (Key e) \<le> n" "concat blocks \<noteq> []"
  shows "length data \<le> length (concat blocks) * (62 + n + bound + bound div 6) + 112 + 2 * n"
proof -
  let ?k = "length (concat blocks)"
  note cnt = good_refs_count [OF good(1)] and index = good_refs_index [OF good(1) keys(1)]
  have len: "length refs = length blocks" using good(1) by (rule list_all2_lengthD)
  have no: "\<not> index_split opts w" "\<not> filter_split opts w"
    using plain cnt by (auto simp: index_split_def filter_split_def good(2))
  then have shape: "frs = []" "prs = []" "fir = []" "topi = map fst refs"
    using im plain(1) good(2) by (auto simp: table_image_def filter_stage_def top_stage_def)
  have m: "mt_MinKey m = Key (hd (concat blocks))" "mt_MaxKey m = Key (last (concat blocks))"
    using im no by (auto simp: table_image_def flush_meta_def)
  have "length (ref_data refs) \<le> ?k * (46 + bound + bound div 6)"
    using good_refs_length [OF good(1) snappy] cnt len mult_le_mono1 [of "length blocks" ?k] order_trans by metis
  moreover have "length (EncodeIndex (map fst refs)) \<le> ?k * (16 + n)"
    using index cnt mult_le_mono1 [of "length refs" ?k] order_trans by metis
  moreover have "length (EncodeMeta m) \<le> 48 + 2 * n"
    using bspec [OF keys(1) hd_in_set [OF keys(2)]] bspec [OF keys(1) last_in_set [OF keys(2)]]
    by (simp add: EncodeMeta_def m)
  moreover have "length data = length (ref_data refs) + (length (EncodeIndex (map fst refs)) + 14) +
      (length (EncodeMeta m) + 14) + 36"
    using im by (simp add: table_image_def shape index_block_def Let_def meta_block_def)
  ultimately show ?thesis by (simp add: algebra_simps)
qed

text \<open>A sequence of point reads on a table, each with the state the previous one left.\<close>

fun table_reads ::
  "(bytes \<Rightarrow> bytes option) \<Rightarrow> bytes list \<Rightarrow> SSTable \<Rightarrow> entry option result list" where
  "table_reads dec [] t = []"
| "table_reads dec (k # ks) t =
     (case SSTable_GetViewContext dec None k t of (v, t') \<Rightarrow> v # table_reads dec ks t')"

lemma table_holds_reads:
  "table_holds dec t es \<Longrightarrow> table_reads dec ks t = map (\<lambda>k. Inr (lookup k es)) ks"
proof (induction ks arbitrary: t)
  case (Cons k ks)
  obtain t' where "SSTable_GetViewContext dec None k t = (Inr (lookup k es), t')" "table_holds dec t' es"
    using table_holds_get(1) [OF Cons.prems] by blast
  with Cons.IH show ?case by simp
qed simp

section \<open>Properties\<close>

text \<open>
  C1: a flush is a table of its entries, under the following conditions.  The writer accepts the options and they
  carry no policy override; no input/output operation fails, neither of the flush nor of the reads; there are
  entries, their keys are distinct and none is empty; the decompressor inverts the compressor, which keeps its
  documented bound on expansion; the largest block of these entries fits under the read limit, which accepted
  options do not guarantee; and the block, the filter and the file stay below \<open>2 ^ 32\<close>.  Then, for all block sizes,
  restarts, filters, partitions and compressions, the flush succeeds, the opened table answers every sequence of
  point reads with the entry of the key or none, its description has the range of sequence numbers and the count,
  no temporary file remains and no other file changed.
\<close>

theorem flush_then_read:
  assumes "NewSSTableWriter opts0 dirp s0 = (Inr opts, s)" "fs_faults s0 = []"
    and "so_PolicyOverride opts0 = None" "\<forall>f \<in> set faults. f = None"
    and "es \<noteq> []" "distinct (map Key es)" "\<forall>e \<in> set es. Key e \<noteq> []"
    and "\<And>x. dec (enc x) = Some x" "\<And>x. length (enc x) \<le> 32 + length x + length x div 6"
    and "int (46 + block_bound opts es + block_bound opts es div 6) \<le> so_ReadBlockMaxBytes opts"
      "block_bound opts es < 2 ^ 32"
    and "int (length es) * so_BloomBitsPerKey opts + 7 < 2 ^ 32"
    and "file_size (flush_path dirp es s) (snd (Writer_Flush enc dec scale opts dirp es faults s)) < 2 ^ 32"
  shows "\<exists>t s'. Writer_Flush enc dec scale opts dirp es faults s = (Inr t, s') \<and>
     (\<forall>keys. table_reads dec keys t = map (\<lambda>k. Inr (lookup k es)) keys) \<and>
     in_SeqMin (SSTable_Info t) = Min (Seq ` set es) \<and> in_SeqMax (SSTable_Info t) = Max (Seq ` set es) \<and>
     in_EntryCount (SSTable_Info t) = word_of_nat (length es) \<and>
     map_of (fs_dir s') (flush_path dirp es s @ ''.tmp'') = None \<and>
     (\<forall>g. g \<noteq> flush_path dirp es s \<and> g \<noteq> flush_path dirp es s @ ''.tmp'' \<longrightarrow>
        map_of (fs_dir s') g = map_of (fs_dir s) g)"
proof -
  have opts: "opts = Normalize opts0" "Validate opts = None" "s = s0"
    using assms(1,2) by (auto simp: NewSSTableWriter_def Let_def split: option.splits if_splits)
  have ok: "options_ok opts" using assms(10) unfolding opts(1) by (intro Normalize_options_ok) simp
  have override: "so_PolicyOverride opts = None" using assms(3) by (simp add: opts(1) Normalize_def Let_def)
  have io: "fs_faults s = []" "calm faults" using assms(2,4) by (simp_all add: opts(3) calm_def)
  show ?thesis
    by (rule Writer_Flush_ok [OF io ok opts(2) override assms(5-13)])
       (use table_holds_reads lookup_sort_Slice [OF assms(6)] in auto)
qed

text \<open>A flush of two entries with the default options, without filter.\<close>

definition demo_opts :: SstOptions where
  "demo_opts = DefaultOptions\<lparr>so_BloomBitsPerKey := 0\<rparr>"

definition demo_fs :: fs where
  "demo_fs = \<lparr>fs_dir = [], fs_now = 9, fs_faults = []\<rparr>"

definition demo_flush :: "entry list" where
  "demo_flush = [\<lparr>Key = [2], Value = [7], Tombstone = False, Seq = 4\<rparr>,
                 \<lparr>Key = [1], Value = [], Tombstone = True, Seq = 5\<rparr>]"

lemma demo_normal:
  "so_BlockTargetBytes (Normalize demo_opts) = 65536" "so_BlockMaxBytes (Normalize demo_opts) = 262144"
  "so_ReadBlockMaxBytes (Normalize demo_opts) = 1048576" "so_BloomBitsPerKey (Normalize demo_opts) = 0"
  "so_IndexPartitionEntries (Normalize demo_opts) = 256" "so_RestartInterval (Normalize demo_opts) = 16"
  "so_RestartIntervalAdaptive (Normalize demo_opts) = False" "so_RestartIntervalMin (Normalize demo_opts) = 16"
  "so_RestartIntervalMax (Normalize demo_opts) = 16" "so_Compression (Normalize demo_opts) = CompressionSnappy"
  "Validate (Normalize demo_opts) = None"
  by code_simp+

lemma demo_sorted: "sort_Slice sst_entry_less demo_flush = rev demo_flush"
  by code_simp

lemma demo_bound: "block_bound (Normalize demo_opts) demo_flush = 65536"
  by (simp add: block_bound_def demo_normal demo_flush_def)

lemma demo_start: "ws_filter (flush_start (Normalize demo_opts) es s) = None"
  by (simp add: flush_start_def NewFilter_def demo_normal)

lemma demo_entries_run:
  assumes "holds_file f [] s"
  shows "\<exists>w s'. flush_entries (\<lambda>x. x) (\<lambda>_ _ _. 0) (Normalize demo_opts) f (rev demo_flush)
      (flush_start (Normalize demo_opts) (rev demo_flush) s) = (None, w) \<and>
    flush_tail (Normalize demo_opts) f (rev demo_flush) w = (None, s') \<and>
    (\<exists>data. holds_file f data s' \<and> length data < 2 ^ 32)"
proof -
  let ?o = "Normalize demo_opts"
  obtain w refs blocks frs prs topi ir fir fidx mr m ft data s' where w:
    "flush_entries (\<lambda>x. x) (\<lambda>_ _ _. 0) ?o f (rev demo_flush) (flush_start ?o (rev demo_flush) s) = (None, w)"
    "flush_tail ?o f (rev demo_flush) w = (None, s')" "holds_file f data s'" "other_files f s s'"
    "table_image ?o (rev demo_flush) w refs frs prs topi ir fir fidx mr m ft data" "concat blocks = rev demo_flush"
    "list_all2 (good_block (\<lambda>x. x) (so_Compression ?o) 65536) refs blocks" "ws_index w = map fst refs"
    "\<forall>g. ws_filter w = Some g \<longrightarrow> filter_for g (rev demo_flush) \<and> fl_bits g \<noteq> []"
    "ws_seqMin w = Min (Seq ` set (rev demo_flush))" "ws_seqMax w = Max (Seq ` set (rev demo_flush))" "refs \<noteq> []"
    "add_keys (NewFilter (int (length (rev demo_flush))) (so_BloomBitsPerKey ?o)) (map Key (rev demo_flush)) =
       Inr (ws_filter w)"
    by (rule flush_writes [OF assms, of "rev demo_flush" ?o 65536 "\<lambda>x. x" "\<lambda>_ _ _. 0"])
       (simp_all add: demo_normal demo_flush_def)
  have "ws_filter w = None" using w(13) by (simp add: NewFilter_def demo_normal)
  from plain_image_size [OF w(5) [folded w(6)] this _ w(7,8), of 1]
  have "length data < 2 ^ 32" unfolding w(6) by (simp add: demo_normal demo_flush_def)
  with w(1-3) show ?thesis by blast
qed

lemma demo_size:
  "file_size (flush_path ''d'' demo_flush demo_fs)
     (snd (Writer_Flush (\<lambda>x. x) Some (\<lambda>_ _ _. 0) (Normalize demo_opts) ''d'' demo_flush [] demo_fs)) < 2 ^ 32"
proof -
  let ?p = "flush_path ''d'' demo_flush demo_fs"
  let ?s1 = "demo_fs\<lparr>fs_dir := put_file (?p @ ''.tmp'') [] (fs_dir demo_fs)\<rparr>"
  have io: "fs_faults demo_fs = []" "demo_flush \<noteq> []" by (simp_all add: demo_fs_def demo_flush_def)
  have "holds_file (?p @ ''.tmp'') [] ?s1" by (simp add: holds_file_def io)
  from demo_entries_run [OF this] obtain w s' data where
    "flush_entries (\<lambda>x. x) (\<lambda>_ _ _. 0) (Normalize demo_opts) (?p @ ''.tmp'') (rev demo_flush)
      (flush_start (Normalize demo_opts) (rev demo_flush) ?s1) = (None, w)"
    "flush_tail (Normalize demo_opts) (?p @ ''.tmp'') (rev demo_flush) w = (None, s')"
    "holds_file (?p @ ''.tmp'') data s'" and len: "length data < 2 ^ 32" by blast
  note run = Writer_Flush_run [OF io demo_sorted [symmetric] refl refl this(1-3), of Some "[]"]
  show ?thesis unfolding run using len by (simp add: file_size_def)
qed

theorem flush_then_read_witness:
  "\<exists>t s'. Writer_Flush (\<lambda>x. x) Some (\<lambda>_ _ _. 0) (Normalize demo_opts) ''d'' demo_flush [] demo_fs = (Inr t, s') \<and>
     table_reads Some [[2], [3]] t =
       [Inr (Some \<lparr>Key = [2], Value = [7], Tombstone = False, Seq = 4\<rparr>), Inr None]"
proof -
  have wr: "NewSSTableWriter demo_opts ''d'' demo_fs = (Inr (Normalize demo_opts), demo_fs)"
    by (simp add: NewSSTableWriter_def Let_def demo_normal demo_fs_def)
  have "\<exists>t s'. Writer_Flush (\<lambda>x. x) Some (\<lambda>_ _ _. 0) (Normalize demo_opts) ''d'' demo_flush [] demo_fs = (Inr t, s') \<and>
     (\<forall>keys. table_reads Some keys t = map (\<lambda>k. Inr (lookup k demo_flush)) keys)"
    using flush_then_read [OF wr _ _ _ _ _ _ _ _ _ _ _ demo_size]
    by (auto simp: demo_bound demo_normal) (auto simp: demo_fs_def demo_opts_def DefaultOptions_def demo_flush_def)
  moreover have "map (\<lambda>k. Inr (lookup k demo_flush)) [[2], [3]] =
      [Inr (Some \<lparr>Key = [2], Value = [7], Tombstone = False, Seq = 4\<rparr>), Inr None]"
    by (simp add: demo_flush_def)
  ultimately show ?thesis by metis
qed

end
