(* ===== verification/Sst_Range.thy ===== *)
theory Sst_Range
  imports Sst_Open
begin

text \<open>
  Range scans of a table: the iterator of \<^verbatim>\<open>internal/lsm/sstable/reader.go\<close> over a well-formed table yields
  the entries of the range in key order and ends, whatever the blocks, index partitions and caches are.
\<close>

section \<open>A scan\<close>

text \<open>
  What a caller of \<^verbatim>\<open>Range\<close> does: \<^verbatim>\<open>Next\<close> until it answers false, then \<^verbatim>\<open>Err\<close>.  Meanwhile the workers of
  asynchronous prefetching take entries from their queue: before the \<open>i\<close>-th call of \<^verbatim>\<open>Next\<close> they take \<open>sched i\<close> of
  them.
\<close>

definition run_workers :: "(bytes \<Rightarrow> bytes option) \<Rightarrow> nat \<Rightarrow> Reader \<Rightarrow> Reader" where
  "run_workers dec n r = r\<lparr>rd_pipe := map_option (prefetch_worker dec ^^ n) (rd_pipe r)\<rparr>"

partial_function (option) range_scan ::
  "(bytes \<Rightarrow> bytes option) \<Rightarrow> (nat \<Rightarrow> nat) \<Rightarrow> nat \<Rightarrow> RangeIterator \<Rightarrow> Reader \<Rightarrow>
     (entry list \<times> lsm_error option \<times> Reader) option" where
  "range_scan dec sched i it r =
     (case Range_Next dec it (run_workers dec (sched i) r) of
        None \<Rightarrow> None
      | Some (again, it', r') \<Rightarrow>
          if again then
            Option.bind (range_scan dec sched (Suc i) it' r') (\<lambda>(es, err, r''). Some (it_curr it' # es, err, r''))
          else Some ([], it_err it', r'))"

definition SSTable_scan ::
  "(bytes \<Rightarrow> bytes option) \<Rightarrow> (nat \<Rightarrow> nat) \<Rightarrow> bytes \<Rightarrow> bytes \<Rightarrow> SSTable \<Rightarrow>
     (entry list \<times> lsm_error option \<times> SSTable) option" where
  "SSTable_scan dec sched start en t =
     (case st_reader t of
        None \<Rightarrow> Some ([], None, t)
      | Some r \<Rightarrow>
          (case range_scan dec sched 0 (newRangeIterator r start en) r of
             None \<Rightarrow> None
           | Some (es, err, r') \<Rightarrow> Some (es, err, t\<lparr>st_reader := Some r'\<rparr>)))"

section \<open>Reading blocks and partitions\<close>

lemma same_table_facts:
  assumes "same_table p q"
  shows "pl_data q = pl_data p" "pl_top q = pl_top p" "pl_indexPartitioned q = pl_indexPartitioned p"
  using assms by (simp_all add: same_table_def)

lemma data_ref_same: "same_table p q \<Longrightarrow> data_ref dec q = data_ref dec p"
  by (intro ext) (simp only: data_ref_def validateEntry_same same_table_facts(1))

lemma index_ref_same: "same_table p q \<Longrightarrow> index_ref dec q = index_ref dec p"
  by (intro ext) (simp only: index_ref_def same_table_facts(1))

lemma ReadBlockEntry_ok:
  assumes ok: "pipe_ok dec p index blocks" "quiet p" and e: "e \<in> set index" "data_ref dec p e es"
  obtains blk p' where "ReadBlockEntry dec e p = (Inr blk, p')" "block_holds blk es" "keeps dec index blocks p p'"
proof -
  obtain blk where blk: "load_block dec (pl_data p) e = Inr blk" "block_holds blk es" "in_file (pl_data p) e"
    "validateEntry p e ErrSSTableBadBlock = None" using e(2) by (auto simp: data_ref_def)
  obtain r p' where run: "dataNode_fetch dec None e p = (r, p')" by (cases "dataNode_fetch dec None e p")
  have fe: "fetched dec index blocks None p (Inr blk) (map_sum id fst r) p'"
    using dataNode_fetch_ok [OF ok(1) e(1) blk(3) run] blk(1) by simp
  then have "map_sum id fst r = Inr blk" using ok(2) unfolding fetched_def by blast
  then obtain hit where "r = Inr (blk, hit)" by (cases r) auto
  with run blk(4) have "ReadBlockEntry dec e p = (Inr blk, p')" by (simp add: ReadBlockEntry_def)
  with blk(2) fetched_keeps [OF fe] that show ?thesis by blast
qed

text \<open>The references a started plan still has to deliver.\<close>

definition plan_left ::
  "(bytes \<Rightarrow> bytes option) \<Rightarrow> Pipeline \<Rightarrow> IndexEntry list \<Rightarrow> IndexRangePlan \<Rightarrow> IndexEntry list \<Rightarrow> bool" where
  "plan_left dec p index plan later \<longleftrightarrow>
     rp_node plan \<and> rp_started plan \<and>
     (if pl_indexPartitioned p
      then \<exists>parts. concat parts = index \<and> list_all2 (index_ref dec p) (pl_top p) parts \<and>
             distinct (map ie_Offset (pl_top p)) \<and> later = concat (drop (rp_topIndexI plan) parts) \<and>
             (rp_done plan \<longrightarrow> later = [])
      else rp_done plan \<and> later = [])"

lemma plan_left_same: "same_table p q \<Longrightarrow> plan_left dec q index plan later = plan_left dec p index plan later"
  unfolding plan_left_def by (simp only: index_ref_same same_table_facts(2,3))

lemma plan_loop_next:
  assumes ok: "pipe_ok dec p index blocks" "quiet p" and parts: "list_all2 (index_ref dec p) (pl_top p) parts"
    "distinct (map ie_Offset (pl_top p))" and i: "rp_topIndexI plan < length (pl_top p)"
  obtains p' where "plan_loop dec plan p = (Inr (parts ! rp_topIndexI plan), plan\<lparr>rp_topIndexI := Suc (rp_topIndexI plan)\<rparr>, p')"
    "keeps dec index blocks p p'" "parts ! rp_topIndexI plan \<noteq> []"
proof -
  let ?i = "rp_topIndexI plan"
  have ref: "index_ref dec p (pl_top p ! ?i) (parts ! ?i)" by (rule list_all2_nthD [OF parts(1) i])
  obtain r p' where run: "readPartition dec None (pl_top p ! ?i) p = (r, p')" by (cases "readPartition dec None (pl_top p ! ?i) p")
  have fe: "fetched dec index blocks None p (Inr (parts ! ?i)) r p'"
    using readPartition_ok [OF ok(1) _ parts(2) _ run] ref i by (simp add: index_ref_def)
  then have "r = Inr (parts ! ?i)" using ok(2) unfolding fetched_def by blast
  moreover have "parts ! ?i \<noteq> []" using ref by (simp add: index_ref_def)
  ultimately show ?thesis
    using that [of p'] run i fetched_keeps [OF fe] by (simp add: plan_loop.simps [of dec plan p])
qed

lemma Plan_Next_going:
  assumes ok: "pipe_ok dec p index blocks" "quiet p" and left: "plan_left dec p index plan later"
  obtains plan' where "Plan_Next dec plan p = (Inl ErrEOF, plan', p)" "later = []" "plan_left dec p index plan' []"
  | part later' plan' p' where "Plan_Next dec plan p = (Inr part, plan', p')" "part \<noteq> []" "later = part @ later'"
      "plan_left dec p index plan' later'" "keeps dec index blocks p p'"
proof (cases "pl_indexPartitioned p \<and> \<not> rp_done plan")
  case False
  then have "Plan_Next dec plan p = (Inl ErrEOF, plan, p)" "later = []"
    using left by (auto simp: plan_left_def Plan_Next_def split: if_splits)
  then show ?thesis using left by (intro that(1)) simp_all
next
  case True
  then obtain parts where parts: "concat parts = index" "list_all2 (index_ref dec p) (pl_top p) parts"
    "distinct (map ie_Offset (pl_top p))" "later = concat (drop (rp_topIndexI plan) parts)"
    using left by (auto simp: plan_left_def)
  have run: "Plan_Next dec plan p = plan_loop dec plan p" using left True by (simp add: Plan_Next_def plan_left_def)
  have len: "length parts = length (pl_top p)" using parts(2) by (simp add: list_all2_lengthD)
  show ?thesis
  proof (cases "rp_topIndexI plan < length (pl_top p)")
    case i: True
    obtain p' where p': "plan_loop dec plan p = (Inr (parts ! rp_topIndexI plan), plan\<lparr>rp_topIndexI := Suc (rp_topIndexI plan)\<rparr>, p')"
      "keeps dec index blocks p p'" "parts ! rp_topIndexI plan \<noteq> []"
      by (rule plan_loop_next [OF ok parts(2,3) i])
    have "later = parts ! rp_topIndexI plan @ concat (drop (Suc (rp_topIndexI plan)) parts)"
      using i len parts(4) by (simp add: Cons_nth_drop_Suc [symmetric])
    moreover have "plan_left dec p index (plan\<lparr>rp_topIndexI := Suc (rp_topIndexI plan)\<rparr>) (concat (drop (Suc (rp_topIndexI plan)) parts))"
      using left True parts by (auto simp: plan_left_def)
    ultimately show ?thesis using p' by (intro that(2)) (simp_all add: run)
  next
    case i: False
    then have "later = []" using parts(4) len by simp
    moreover have "plan_loop dec plan p = (Inl ErrEOF, plan\<lparr>rp_done := True\<rparr>, p)" using i by (simp add: plan_loop.simps [of dec plan p])
    moreover have "plan_left dec p index (plan\<lparr>rp_done := True\<rparr>) []"
      using left True i len parts by (auto simp: plan_left_def intro!: exI [of _ parts])
    ultimately show ?thesis by (intro that(1)) (simp_all add: run)
  qed
qed

section \<open>One round of the iterator\<close>

definition reader_at ::
  "(bytes \<Rightarrow> bytes option) \<Rightarrow> IndexEntry list \<Rightarrow> entry list list \<Rightarrow> Reader \<Rightarrow> Reader \<Rightarrow> Pipeline \<Rightarrow> bool" where
  "reader_at dec index blocks r0 r p \<longleftrightarrow>
     r = r0\<lparr>rd_pipe := Some p\<rparr> \<and> \<not> rd_dropped r0 \<and> pipe_ok dec p index blocks \<and> quiet p"

lemma reader_at_keeps:
  "reader_at dec index blocks r0 r p \<Longrightarrow> keeps dec index blocks p p' \<Longrightarrow>
     reader_at dec index blocks r0 (r\<lparr>rd_pipe := Some p'\<rparr>) p' \<and> same_table p p'"
  by (auto simp: reader_at_def keeps_def)

text \<open>The references of blocks that follow the iterator, with the entries of these blocks.\<close>

definition follows ::
  "(bytes \<Rightarrow> bytes option) \<Rightarrow> IndexEntry list \<Rightarrow> Pipeline \<Rightarrow> RangeIterator \<Rightarrow> IndexEntry list \<Rightarrow> entry list list \<Rightarrow> bool" where
  "follows dec index p it refs D \<longleftrightarrow>
     (\<exists>later. plan_left dec p index (it_plan it) later \<and> list_all2 (data_ref dec p) (refs @ later) D \<and>
        set refs \<subseteq> set index \<and> set later \<subseteq> set index) \<and>
     (\<forall>part. it_partIndex it = Some part \<longrightarrow> set part \<subseteq> set index)"

lemma follows_same: "same_table p q \<Longrightarrow> follows dec index q it refs D = follows dec index p it refs D"
  by (simp only: follows_def plan_left_same data_ref_same)

lemma follows_upd [simp]:
  "follows dec index p (it\<lparr>it_block := b\<rparr>) refs D = follows dec index p it refs D"
  "follows dec index p (it\<lparr>it_blockI := i\<rparr>) refs D = follows dec index p it refs D"
  "follows dec index p (it\<lparr>it_cursor := c\<rparr>) refs D = follows dec index p it refs D"
  "follows dec index p (it\<lparr>it_curr := e\<rparr>) refs D = follows dec index p it refs D"
  "follows dec index p (it\<lparr>it_pending := e\<rparr>) refs D = follows dec index p it refs D"
  "follows dec index p (it\<lparr>it_hasPending := h\<rparr>) refs D = follows dec index p it refs D"
  "follows dec index p (it\<lparr>it_startApplied := a\<rparr>) refs D = follows dec index p it refs D"
  by (simp_all add: follows_def)

definition current_refs :: "RangeIterator \<Rightarrow> IndexEntry list" where
  "current_refs it = (case it_partIndex it of None \<Rightarrow> [] | Some part \<Rightarrow> drop (it_blockI it) part)"

definition inside :: "RangeIterator \<Rightarrow> Block \<Rightarrow> bool" where
  "inside it blk \<longleftrightarrow> it_block it = Some blk \<and> it_partIndex it \<noteq> None \<and> it_blockI it < length (the (it_partIndex it))"

text \<open>
  The iterator will yield \<open>ents\<close>: it stands between blocks or inside one, and \<open>n\<close> blocks are not finished.
\<close>

definition going ::
  "(bytes \<Rightarrow> bytes option) \<Rightarrow> IndexEntry list \<Rightarrow> entry list list \<Rightarrow> Reader \<Rightarrow> bytes \<Rightarrow> RangeIterator \<Rightarrow> Reader \<Rightarrow>
     entry list \<Rightarrow> nat \<Rightarrow> bool" where
  "going dec index blocks r0 en it r ents n \<longleftrightarrow>
     it_err it = None \<and> \<not> it_hasPending it \<and> it_startApplied it \<and> it_end it = en \<and>
     (\<exists>p D. reader_at dec index blocks r0 r p \<and>
        (case it_block it of
           None \<Rightarrow> follows dec index p it (current_refs it) D \<and> ents = concat D \<and> n = length D
         | Some blk \<Rightarrow> inside it blk \<and> follows dec index p it (tl (current_refs it)) D \<and> n = Suc (length D) \<and>
             (\<exists>c es. it_cursor it = Some c \<and> cursor_all (bk_data blk) c = Inr es \<and> ents = es @ concat D)))"

definition stepped ::
  "(bytes \<Rightarrow> bytes option) \<Rightarrow> IndexEntry list \<Rightarrow> entry list list \<Rightarrow> Reader \<Rightarrow> bytes \<Rightarrow> entry list \<Rightarrow> nat \<Rightarrow> range_round \<Rightarrow> bool" where
  "stepped dec index blocks r0 en ents n res \<longleftrightarrow>
     (case res of
        Inl (it, r) \<Rightarrow> \<exists>m < n. going dec index blocks r0 en it r ents m
      | Inr (b, it, r) \<Rightarrow>
          it_err it = None \<and> (\<exists>p. reader_at dec index blocks r0 r p) \<and>
          (case ents of
             [] \<Rightarrow> \<not> b
           | e # es \<Rightarrow>
               if en \<noteq> [] \<and> en \<le> Key e then \<not> b
               else b \<and> it_curr it = e \<and> (\<exists>m. going dec index blocks r0 en it r es m)))"

lemma reader_at_workers:
  assumes "reader_at dec index blocks r0 r p"
  obtains q where "reader_at dec index blocks r0 (run_workers dec k r) q" "same_table p q"
proof -
  have p: "rd_pipe r = Some p" "pipe_ok dec p index blocks" using assms by (simp_all add: reader_at_def)
  have "run_workers dec k r = r\<lparr>rd_pipe := Some ((prefetch_worker dec ^^ k) p)\<rparr>" by (simp add: run_workers_def p)
  then show ?thesis using that reader_at_keeps [OF assms prefetch_workers_keep [OF p(2)]] by metis
qed

lemma going_workers:
  assumes "going dec index blocks r0 en it r ents n"
  shows "going dec index blocks r0 en it (run_workers dec k r) ents n"
proof -
  obtain p D where p: "reader_at dec index blocks r0 r p"
    "case it_block it of
       None \<Rightarrow> follows dec index p it (current_refs it) D \<and> ents = concat D \<and> n = length D
     | Some blk \<Rightarrow> inside it blk \<and> follows dec index p it (tl (current_refs it)) D \<and> n = Suc (length D) \<and>
         (\<exists>c es. it_cursor it = Some c \<and> cursor_all (bk_data blk) c = Inr es \<and> ents = es @ concat D)"
    using assms unfolding going_def by blast
  obtain q where "reader_at dec index blocks r0 (run_workers dec k r) q" "same_table p q"
    by (rule reader_at_workers [OF p(1)])
  with p(2) assms show ?thesis unfolding going_def follows_same [OF \<open>same_table p q\<close>, symmetric] by blast
qed

lemma going_between:
  assumes "it_err it = None" "\<not> it_hasPending it" "it_startApplied it" "it_end it = en" "it_block it = None"
    "reader_at dec index blocks r0 r p" "follows dec index p it (current_refs it) D"
  shows "going dec index blocks r0 en it r (concat D) (length D)"
  using assms by (auto simp: going_def)

lemma tl_current_refs:
  "inside it blk \<Longrightarrow> tl (current_refs it) = current_refs (it\<lparr>it_blockI := Suc (it_blockI it)\<rparr>)"
  by (auto simp: inside_def current_refs_def tl_drop drop_Suc)

lemma take_step:
  assumes g: "it_err it = None" "\<not> it_hasPending it" "it_startApplied it" "it_end it = en" "inside it blk"
    and r: "reader_at dec index blocks r0 r p" and f: "follows dec index p it (tl (current_refs it)) D"
    and c: "it_cursor it = Some c" "cursor_all (bk_data blk) c = Inr es"
  shows "stepped dec index blocks r0 en (es @ concat D) (Suc (length D)) (range_take blk it r)"
proof (cases es)
  case Nil
  have "Cursor_Next (bk_data blk) c = Inr None"
    using c(2) Nil by (subst (asm) cursor_all.simps) (auto simp: bind_result_Inr_iff split: sum.splits option.splits prod.splits)
  then have take: "range_take blk it r = Inl (it\<lparr>it_block := None, it_blockI := Suc (it_blockI it), it_cursor := None\<rparr>, r)"
    using g c by (simp add: range_take_def)
  have "current_refs (it\<lparr>it_block := None, it_blockI := Suc (it_blockI it), it_cursor := None\<rparr>) = tl (current_refs it)"
    unfolding tl_current_refs [OF g(5)] by (simp add: current_refs_def split: option.split)
  then have "going dec index blocks r0 en (it\<lparr>it_block := None, it_blockI := Suc (it_blockI it), it_cursor := None\<rparr>) r (concat D) (length D)"
    using g r f by (intro going_between) simp_all
  then show ?thesis unfolding take stepped_def using Nil by auto
next
  case (Cons e rest)
  obtain c' where c': "Cursor_Next (bk_data blk) c = Inr (Some (e, c'))" "cursor_all (bk_data blk) c' = Inr rest"
    using c(2) Cons by (subst (asm) cursor_all.simps) (auto simp: bind_result_Inr_iff split: sum.splits option.splits prod.splits)
  let ?it = "it\<lparr>it_cursor := Some c', it_curr := e\<rparr>"
  have "inside ?it blk" "current_refs ?it = current_refs it" using g(5) by (simp_all add: inside_def current_refs_def split: option.split)
  then have "going dec index blocks r0 en ?it r (rest @ concat D) (Suc (length D))"
    using g r f c'(2) by (auto simp: going_def inside_def)
  then show ?thesis using g r c(1) c'(1) Cons by (auto simp: range_take_def stepped_def Let_def)
qed

text \<open>A block that has just been read, with the seek to the start of the range when it is the first.\<close>

definition from_start :: "RangeIterator \<Rightarrow> entry list \<Rightarrow> entry list" where
  "from_start it es = (if \<not> it_startApplied it \<and> it_start it \<noteq> [] then dropWhile (\<lambda>e. Key e < it_start it) es else es)"

lemma entry_step:
  assumes g: "it_err it = None" "\<not> it_hasPending it" "it_end it = en" "inside it blk" "it_cursor it = None"
    and r: "reader_at dec index blocks r0 r p" and f: "follows dec index p it (tl (current_refs it)) D"
    and b: "block_holds blk es"
  shows "stepped dec index blocks r0 en (from_start it es @ concat D) (Suc (length D)) (range_entry blk it r)"
proof (cases "\<not> it_startApplied it \<and> it_start it \<noteq> []")
  case False
  let ?it = "it\<lparr>it_startApplied := True, it_cursor := Some (NewCursor blk 0 (length (bk_data blk)))\<rparr>"
  have run: "range_entry blk it r = range_take blk ?it r" using False g(5) by (auto simp: range_entry_def)
  have in': "inside ?it blk" "current_refs ?it = current_refs it"
    using g(4) by (simp_all add: inside_def current_refs_def split: option.split)
  have all: "cursor_all (bk_data blk) (NewCursor blk 0 (length (bk_data blk))) = Inr es" using b by (simp add: block_holds_def)
  have "stepped dec index blocks r0 en (es @ concat D) (Suc (length D)) (range_take blk ?it r)"
    by (rule take_step [OF _ _ _ _ in'(1) r _ _ all]) (use g f in' in simp_all)
  then show ?thesis using False run by (auto simp: from_start_def)
next
  case True
  let ?it = "it\<lparr>it_startApplied := True\<rparr>"
  have fs: "from_start it es = dropWhile (\<lambda>e. Key e < it_start it) es" using True by (simp add: from_start_def)
  have seek: "case from_start it es of [] \<Rightarrow> Block_Seek blk (it_start it) = Inr None
      | e # rest \<Rightarrow> \<exists>c. Block_Seek blk (it_start it) = Inr (Some (c, e)) \<and> cursor_all (bk_data blk) c = Inr rest"
    using b unfolding fs block_holds_def by blast
  show ?thesis
  proof (cases "from_start it es")
    case Nil
    let ?jt = "it\<lparr>it_startApplied := True, it_block := None, it_blockI := Suc (it_blockI it)\<rparr>"
    have "range_entry blk it r = Inl (?jt, r)" using seek Nil True g(5) by (simp add: range_entry_def Let_def)
    moreover have "current_refs ?jt = tl (current_refs it)"
      unfolding tl_current_refs [OF g(4)] by (simp add: current_refs_def split: option.split)
    then have "going dec index blocks r0 en ?jt r (concat D) (length D)"
      using g r f by (intro going_between) simp_all
    ultimately show ?thesis using Nil by (auto simp: stepped_def)
  next
    case (Cons e rest)
    then obtain c where c: "Block_Seek blk (it_start it) = Inr (Some (c, e))" "cursor_all (bk_data blk) c = Inr rest"
      using seek by auto
    show ?thesis
    proof (cases "en \<noteq> [] \<and> en \<le> Key e")
      case past: True
      then have "range_entry blk it r = Inr (False, ?it, r)" using c True g by (simp add: range_entry_def Let_def)
      then show ?thesis using Cons past g r by (auto simp: stepped_def)
    next
      case False
      let ?jt = "it\<lparr>it_startApplied := True, it_cursor := Some c, it_pending := e, it_hasPending := False, it_curr := e\<rparr>"
      have run: "range_entry blk it r = Inr (True, ?jt, r)"
        using c True g False by (simp add: range_entry_def range_take_def Let_def)
      have "inside ?jt blk" "current_refs ?jt = current_refs it"
        using g(4) by (simp_all add: inside_def current_refs_def split: option.split)
      then have "going dec index blocks r0 en ?jt r (rest @ concat D) (Suc (length D))"
        using g r f c(2) by (auto simp: going_def inside_def)
      then show ?thesis unfolding run using Cons False g r by (auto simp: stepped_def)
    qed
  qed
qed

text \<open>Reading the next block and taking its first entry.\<close>

lemma load_step:
  assumes g: "it_err it = None" "it_end it = en" "it_partIndex it = Some part" "it_blockI it < length part"
    and r: "reader_at dec index blocks r0 r p" and f: "follows dec index p it (current_refs it) (es # D)"
  obtains it' r' blk where "range_load dec it p r = Inr (it', r')" "it_block it' = Some blk"
    "stepped dec index blocks r0 en (from_start it es @ concat D) (Suc (length D)) (range_entry blk it' r')"
proof -
  let ?e = "part ! it_blockI it"
  have refs: "current_refs it = ?e # drop (Suc (it_blockI it)) part"
    using g(3,4) by (simp add: current_refs_def Cons_nth_drop_Suc)
  obtain later where l: "plan_left dec p index (it_plan it) later" "list_all2 (data_ref dec p) (current_refs it @ later) (es # D)"
    "set (current_refs it) \<subseteq> set index" "set later \<subseteq> set index" using f by (auto simp: follows_def)
  have e: "data_ref dec p ?e es" "?e \<in> set index" using l(2,3) by (simp_all add: refs)
  have part: "set part \<subseteq> set index" using f g(3) by (simp add: follows_def)
  obtain blk p1 where rb: "ReadBlockEntry dec ?e p = (Inr blk, p1)" "block_holds blk es" "keeps dec index blocks p p1"
    using ReadBlockEntry_ok [of dec p index blocks ?e es] r e by (auto simp: reader_at_def)
  have ok1: "pipe_ok dec p1 index blocks" using rb(3) by (simp add: keeps_def)
  let ?p = "Pipeline_Prefetch dec part (it_blockI it) (it_budget it) p1"
  let ?it = "it\<lparr>it_block := Some blk, it_cursor := None, it_hasPending := False\<rparr>"
  have k: "keeps dec index blocks p ?p" using keeps_trans [OF rb(3) Pipeline_Prefetch_keeps [OF ok1 part]] .
  note r' = reader_at_keeps [OF r k]
  have run: "range_load dec it p r = Inr (?it, r\<lparr>rd_pipe := Some ?p\<rparr>)"
    using g rb(1) by (simp add: range_load_def)
  have refs': "tl (current_refs ?it) = drop (Suc (it_blockI it)) part" using g(3,4) by (simp add: current_refs_def tl_drop drop_Suc)
  have "follows dec index p ?it (tl (current_refs ?it)) D"
    using l part unfolding refs' by (auto simp: follows_def refs g(3))
  then have f': "follows dec index ?p ?it (tl (current_refs ?it)) D" using follows_same [OF conjunct2 [OF r']] by blast
  have "inside ?it blk" using g(3,4) by (simp add: inside_def)
  then have "stepped dec index blocks r0 en (from_start ?it es @ concat D) (Suc (length D)) (range_entry blk ?it (r\<lparr>rd_pipe := Some ?p\<rparr>))"
    using entry_step [OF _ _ _ _ _ conjunct1 [OF r'] f' rb(2)] g by simp
  moreover have "from_start ?it es = from_start it es" by (simp add: from_start_def)
  ultimately show ?thesis using that [OF run] by simp
qed

lemma ErrEOF_step:
  assumes "it_err it = None" "reader_at dec index blocks r0 r p"
  shows "stepped dec index blocks r0 en [] n (Inr (False, it, r))"
  using assms by (auto simp: stepped_def)

lemma list_all2_data_nonempty: "list_all2 (data_ref dec p) refs D \<Longrightarrow> [] \<notin> set D \<and> length refs = length D"
  by (induction refs D rule: list_all2_induct) (auto simp: data_ref_def)

text \<open>A round that starts between blocks, from any iterator that has or can load a partition.\<close>

lemma block_round:
  assumes g: "it_err it = None" "it_end it = en" "it_block it = None" "it_partIndex it = Some part" "it_blockI it < length part"
    and r: "reader_at dec index blocks r0 r p" and f: "follows dec index p it (current_refs it) (es # D)"
  shows "\<exists>res. range_round dec it r = Some res \<and> stepped dec index blocks r0 en (from_start it es @ concat D) (Suc (length D)) res"
proof -
  obtain it' r' blk where l: "range_load dec it p r = Inr (it', r')" "it_block it' = Some blk"
    "stepped dec index blocks r0 en (from_start it es @ concat D) (Suc (length D)) (range_entry blk it' r')"
    by (rule load_step [OF g(1,2,4,5) r f])
  have "rd_pipe r = Some p" using r by (simp add: reader_at_def)
  then have "range_round dec it r = Some (range_entry blk it' r')"
    using g l by (simp add: range_round_def)
  with l(3) show ?thesis by blast
qed

lemma partition_round:
  assumes g: "it_block it = None" "it_partIndex it = None \<or> length (the (it_partIndex it)) \<le> it_blockI it"
    and r: "reader_at dec index blocks r0 r p"
    and ld: "loadPartition dec it p r = Some (True, it1, r1)" "it_block it1 = None" "it_partIndex it1 = Some part"
      "it_blockI it1 < length part" "rd_pipe r1 \<noteq> None"
  shows "range_round dec it r = range_round dec it1 r1"
proof -
  have "rd_pipe r = Some p" using r by (simp add: reader_at_def)
  with g ld show ?thesis by (auto simp: range_round_def)
qed

lemma round_going:
  assumes "going dec index blocks r0 en it r ents n"
  shows "\<exists>res. range_round dec it r = Some res \<and> stepped dec index blocks r0 en ents n res"
proof (cases "it_block it")
  case (Some blk)
  with assms obtain p D c es where g: "it_err it = None" "\<not> it_hasPending it" "it_startApplied it" "it_end it = en"
    "reader_at dec index blocks r0 r p" "inside it blk" "follows dec index p it (tl (current_refs it)) D"
    "n = Suc (length D)" "it_cursor it = Some c" "cursor_all (bk_data blk) c = Inr es" "ents = es @ concat D"
    by (auto simp: going_def)
  have "range_round dec it r = Some (range_take blk it r)" using Some g(9) by (simp add: range_round_def range_entry_def)
  with take_step [OF g(1-4,6,5,7,9,10)] g(8,11) show ?thesis by simp
next
  case None
  with assms obtain p D where g: "it_err it = None" "\<not> it_hasPending it" "it_startApplied it" "it_end it = en"
    "reader_at dec index blocks r0 r p" "follows dec index p it (current_refs it) D" "n = length D" "ents = concat D"
    by (auto simp: going_def)
  have fs: "from_start jt es = es" if "it_startApplied jt" for jt es using that by (simp add: from_start_def)
  have pipe: "rd_pipe r = Some p" "pipe_ok dec p index blocks" "quiet p" using g(5) by (simp_all add: reader_at_def)
  show ?thesis
  proof (cases "it_partIndex it = None \<or> length (the (it_partIndex it)) \<le> it_blockI it")
    case False
    then obtain part where part: "it_partIndex it = Some part" "it_blockI it < length part" by auto
    then have "current_refs it \<noteq> []" by (simp add: current_refs_def)
    then obtain es D' where D: "D = es # D'" using g(6) by (cases D) (auto simp: follows_def)
    from block_round [OF g(1,4) None part g(5) g(6) [unfolded D]] show ?thesis using g(7,8) D fs [OF g(3)] by simp
  next
    case True
    then have refs: "current_refs it = []" by (auto simp: current_refs_def split: option.splits)
    then obtain later where l: "plan_left dec p index (it_plan it) later" "list_all2 (data_ref dec p) later D" "set later \<subseteq> set index"
      using g(6) by (auto simp: follows_def)
    show ?thesis
    proof (rule Plan_Next_going [OF pipe(2,3) l(1)])
      fix plan' assume "Plan_Next dec (it_plan it) p = (Inl ErrEOF, plan', p)" "later = []"
      then have "loadPartition dec it p r = Some (False, it\<lparr>it_plan := plan'\<rparr>, r)" "D = []"
        using l(2) pipe(1) by (simp_all add: loadPartition.simps)
      then have "range_round dec it r = Some (Inr (False, it\<lparr>it_plan := plan'\<rparr>, r))" "ents = []"
        using None True pipe(1) g(8) by (simp_all add: range_round_def)
      then show ?thesis using ErrEOF_step [of "it\<lparr>it_plan := plan'\<rparr>", OF _ g(5)] g(1) by simp
    next
      fix part later' plan' p' assume n: "Plan_Next dec (it_plan it) p = (Inr part, plan', p')" "part \<noteq> []" "later = part @ later'"
        "plan_left dec p index plan' later'" "keeps dec index blocks p p'"
      let ?it = "it\<lparr>it_plan := plan', it_partIndex := Some part, it_blockI := 0\<rparr>" and ?r = "r\<lparr>rd_pipe := Some p'\<rparr>"
      have ld: "loadPartition dec it p r = Some (True, ?it, ?r)" using n(1) g(3) by (simp add: loadPartition.simps)
      note r' = reader_at_keeps [OF g(5) n(5)]
      have refs': "current_refs ?it = part" by (simp add: current_refs_def)
      have "follows dec index p ?it (current_refs ?it) D"
        unfolding refs' using l n(3,4) by (auto simp: follows_def)
      then have f': "follows dec index p' ?it (current_refs ?it) D" using follows_same [OF conjunct2 [OF r']] by blast
      obtain es D' where D: "D = es # D'" using l(2) n(2,3) by (cases D) auto
      have eq: "range_round dec it r = range_round dec ?it ?r"
        by (rule partition_round [OF None True g(5) ld]) (use None n(2) in simp_all)
      have "\<exists>res. range_round dec ?it ?r = Some res \<and> stepped dec index blocks r0 en (from_start ?it es @ concat D') (Suc (length D')) res"
        by (rule block_round [OF _ _ _ _ _ conjunct1 [OF r'] f' [unfolded D], of _ part]) (use g None n(2) in simp_all)
      then show ?thesis unfolding eq using g(3,7,8) D fs [of ?it] by simp
    qed
  qed
qed

section \<open>The first round\<close>

text \<open>
  Where a scan starts: the partition and the block that \<^verbatim>\<open>findBlock\<close> gives, or the first ones.  The blocks before
  it lie below the start, and when the start is not below all of the block, the blocks after it do not.
\<close>

definition start_at :: "IndexEntry list \<Rightarrow> bytes \<Rightarrow> nat" where
  "start_at es start = (if start = [] then 0 else case findBlock es start of None \<Rightarrow> 0 | Some i \<Rightarrow> i)"

lemma start_at_less: "es \<noteq> [] \<Longrightarrow> start_at es start < length es"
  by (auto simp: start_at_def findBlock_less split: option.split)

definition starts_block :: "IndexEntry list \<Rightarrow> bytes \<Rightarrow> IndexEntry list \<Rightarrow> IndexEntry \<Rightarrow> IndexEntry list \<Rightarrow> bool" where
  "starts_block index start pre e suf \<longleftrightarrow>
     index = pre @ e # suf \<and>
     (if start = [] then pre = []
      else (pre \<noteq> [] \<longrightarrow> ie_Key e \<le> start) \<and> (\<forall>x \<in> set suf. start < ie_Key x))"

lemma starts_block_flat:
  assumes s: "index_sorted es" and ne: "es \<noteq> []"
  shows "starts_block es start (take (start_at es start) es) (es ! start_at es start) (drop (Suc (start_at es start)) es)"
proof (cases "start = []")
  case True
  with ne show ?thesis by (cases es) (simp_all add: starts_block_def start_at_def)
next
  case False
  have split: "es = take (start_at es start) es @ es ! start_at es start # drop (Suc (start_at es start)) es"
    using start_at_less [OF ne] by (simp add: id_take_nth_drop [symmetric])
  show ?thesis
  proof (cases "start < ie_Key (hd es)")
    case True
    then have "start_at es start = 0" using findBlock_None [OF ne True] by (simp add: start_at_def)
    moreover have "start < ie_Key x" if "x \<in> set (tl es)" for x
      using True s that ne by (cases es) (auto intro: less_trans)
    ultimately show ?thesis using False split ne by (cases es) (auto simp: starts_block_def)
  next
    case ge: False
    then obtain i where i: "findBlock es start = Some i" "i < length es" "\<And>j. j \<le> i \<Longrightarrow> ie_Key (es ! j) \<le> start"
      "\<And>j. i < j \<Longrightarrow> j < length es \<Longrightarrow> start < ie_Key (es ! j)"
      using findBlock_Some [OF ne _ s, of start] by (metis not_less)
    then have "start_at es start = i" using False by (simp add: start_at_def)
    with i split False show ?thesis by (auto simp: starts_block_def in_set_conv_nth)
  qed
qed

lemma starts_block_part:
  assumes s: "index_sorted (concat parts)" and refs: "list_all2 (\<lambda>e part. part \<noteq> [] \<and> ie_Key e = ie_Key (hd part)) tops parts"
    and ne: "tops \<noteq> []" and i: "i = start_at tops start" and part: "part = parts ! i" and j: "j = start_at part start"
  shows "starts_block (concat parts) start (concat (take i parts) @ take j part) (part ! j) (drop (Suc j) part @ concat (drop (Suc i) parts))"
    "part \<noteq> []" "i < length parts"
proof -
  have len: "length parts = length tops" using refs by (simp add: list_all2_lengthD)
  have il: "i < length tops" unfolding i by (rule start_at_less [OF ne])
  then show il': "i < length parts" using len by simp
  have pk: "part \<noteq> []" "ie_Key (tops ! i) = ie_Key (hd part)"
    using list_all2_nthD [OF refs il] part by simp_all
  then show "part \<noteq> []" by simp
  have heads: "map ie_Key tops = map (\<lambda>g. ie_Key (hd g)) parts" "[] \<notin> set parts" using heads_of_list_all2 [OF refs] by simp_all
  then have ts: "index_sorted tops" using heads_sorted [OF s heads(2)] by simp
  have ps: "index_sorted part" using sorted_group [OF s] il' part by simp
  have split: "concat parts = concat (take i parts) @ part @ concat (drop (Suc i) parts)"
    unfolding part using id_take_nth_drop [OF il'] by (metis append.assoc concat.simps(2) concat_append)
  have split': "part = take j part @ part ! j # drop (Suc j) part"
    unfolding j using start_at_less [OF pk(1)] by (simp add: id_take_nth_drop [symmetric])
  note top = starts_block_flat [OF ts ne, of start, folded i] and in_part = starts_block_flat [OF ps pk(1), of start, folded j]
  show "starts_block (concat parts) start (concat (take i parts) @ take j part) (part ! j) (drop (Suc j) part @ concat (drop (Suc i) parts))"
  proof (cases "start = []")
    case True
    then have "i = 0" "j = 0" using i j by (simp_all add: start_at_def)
    with True split split' show ?thesis by (simp add: starts_block_def)
  next
    case False
    have "start < ie_Key x" if x: "x \<in> set (concat (drop (Suc i) parts))" for x
    proof (rule groups_above [OF _ _ x])
      show "index_sorted (concat (drop (Suc i) parts))" using s unfolding split by (simp add: sorted_wrt_append)
      have "\<forall>x \<in> set (map ie_Key (drop (Suc i) tops)). start < x" using top False by (auto simp: starts_block_def)
      then show "\<forall>g \<in> set (drop (Suc i) parts). start < ie_Key (hd g)"
        unfolding drop_map [symmetric] heads(1) by (simp add: drop_map)
    qed
    moreover have "ie_Key (part ! j) \<le> start" if pre: "concat (take i parts) @ take j part \<noteq> []"
    proof (cases "take j part = []")
      case True
      then have "j = 0" using pk(1) by simp
      have "i \<noteq> 0" using True pre by (cases i) auto
      then have "ie_Key (tops ! i) \<le> start" using top False ne by (simp add: starts_block_def)
      with \<open>j = 0\<close> pk show ?thesis by (simp add: hd_conv_nth)
    qed (use in_part False in \<open>simp add: starts_block_def\<close>)
    ultimately show ?thesis using in_part False split split' by (auto simp: starts_block_def)
  qed
qed

lemma start_entries:
  assumes refs: "list_all2 (data_ref dec p) (pre @ e # suf) (Dp @ D1 # D2)" "length Dp = length pre"
    and st: "starts_block index start pre e suf" and srt: "entry_keys_sorted (concat (Dp @ D1 # D2))"
  shows "dropWhile (\<lambda>x. Key x < start) (concat (Dp @ D1 # D2)) = (if start = [] then D1 else dropWhile (\<lambda>x. Key x < start) D1) @ concat D2"
proof (cases "start = []")
  case True
  then have "Dp = []" using st refs(2) by (simp add: starts_block_def)
  moreover have "dropWhile (\<lambda>x. Key x < []) xs = xs" for xs by (cases xs) auto
  ultimately show ?thesis using True by simp
next
  case False
  have parts: "list_all2 (data_ref dec p) pre Dp" "data_ref dec p e D1" "list_all2 (data_ref dec p) suf D2"
    using refs by (auto simp: list_all2_append)
  have hd1: "ie_Key e = Key (hd D1)" "D1 \<noteq> []" using parts(2) by (simp_all add: data_ref_def)
  have "Key x < start" if "x \<in> set (concat Dp)" for x
  proof -
    have "pre \<noteq> []" using that refs(2) by auto
    then have "ie_Key e \<le> start" using st False by (simp add: starts_block_def)
    moreover have "Key x < Key (hd D1)" using srt that hd1(2) by (auto simp: entry_keys_sorted_append)
    ultimately show ?thesis using hd1(1) by simp
  qed
  then have "dropWhile (\<lambda>x. Key x < start) (concat (Dp @ D1 # D2)) = dropWhile (\<lambda>x. Key x < start) (D1 @ concat D2)"
    using dropWhile_append2 [of "concat Dp" "\<lambda>x. Key x < start" "D1 @ concat D2"] by simp
  also have "\<dots> = dropWhile (\<lambda>x. Key x < start) D1 @ concat D2"
  proof (cases "\<forall>x \<in> set D1. Key x < start")
    case True
    have "list_all2 (\<lambda>e g. g \<noteq> [] \<and> ie_Key e = Key (hd g)) suf D2"
      using parts(3) by (auto simp: data_ref_def elim: list_all2_mono)
    note h = heads_of_list_all2 [OF this]
    have "\<forall>x \<in> set (map ie_Key suf). start < x" using st False by (auto simp: starts_block_def)
    then have "\<forall>g \<in> set D2. start < Key (hd g)" unfolding conjunct1 [OF h] by simp
    moreover have "sorted_wrt (<) (map Key (concat D2))" using srt by (simp add: entry_keys_sorted_def sorted_wrt_append)
    ultimately have "\<forall>x \<in> set (concat D2). start < Key x" using groups_above [of Key D2 start] by blast
    then have "concat D2 = [] \<or> \<not> Key (hd (concat D2)) < start" using hd_in_set [of "concat D2"] by (metis less_asym)
    then have "dropWhile (\<lambda>x. Key x < start) (concat D2) = concat D2" by (simp only: dropWhile_eq_self_iff)
    with True show ?thesis by (simp add: dropWhile_append2)
  next
    case False
    then show ?thesis by (auto simp: dropWhile_append1)
  qed
  finally show ?thesis using False by simp
qed

text \<open>The first partition of a plan.\<close>

lemma Plan_Next_first:
  assumes ok: "pipe_ok dec p index blocks" "quiet p" and ne: "index \<noteq> []"
  obtains part plan' p' later pre where "Plan_Next dec (NewRange start) p = (Inr part, plan', p')" "part \<noteq> []"
    "keeps dec index blocks p p'" "plan_left dec p index plan' later" "index = pre @ part @ later"
    "starts_block index start (pre @ take (start_at part start) part) (part ! start_at part start) (drop (Suc (start_at part start)) part @ later)"
proof (cases "pl_indexPartitioned p")
  case False
  then have top: "pl_top p = index" using pipe_ok_table [OF ok(1)] by (simp add: table_ok_def index_ok_def)
  show ?thesis
    by (rule that [of index "(NewRange start)\<lparr>rp_started := True, rp_done := True\<rparr>" p "[]" "[]"])
       (use False top ne keeps_refl [OF ok(1)] starts_block_flat [OF table_index_sorted [OF pipe_ok_table [OF ok(1)]] ne]
        in \<open>simp_all add: Plan_Next_def NewRange_def plan_left_def\<close>)
next
  case True
  then obtain parts where parts: "concat parts = index" "list_all2 (index_ref dec p) (pl_top p) parts"
    "distinct (map ie_Offset (pl_top p))"
    using pipe_ok_table [OF ok(1)] by (auto simp: table_ok_def index_ok_def)
  have l2: "list_all2 (\<lambda>e part. part \<noteq> [] \<and> ie_Key e = ie_Key (hd part)) (pl_top p) parts"
    using parts(2) by (auto simp: index_ref_def elim: list_all2_mono)
  have tne: "pl_top p \<noteq> []" using parts(1,2) ne by auto
  let ?i = "start_at (pl_top p) start"
  let ?plan = "(NewRange start)\<lparr>rp_started := True, rp_topIndexI := ?i\<rparr>"
  note srt = table_index_sorted [OF pipe_ok_table [OF ok(1)], folded parts(1)]
  note sb = starts_block_part [OF srt l2 tne refl refl refl, of start]
  have run: "Plan_Next dec (NewRange start) p = plan_loop dec ?plan p"
    using True by (simp add: Plan_Next_def NewRange_def start_at_def)
  have "?i < length (pl_top p)" by (rule start_at_less [OF tne])
  then obtain p' where p': "plan_loop dec ?plan p = (Inr (parts ! ?i), ?plan\<lparr>rp_topIndexI := Suc ?i\<rparr>, p')" "keeps dec index blocks p p'"
    using plan_loop_next [OF ok parts(2,3), of ?plan] by auto
  have split: "index = concat (take ?i parts) @ parts ! ?i @ concat (drop (Suc ?i) parts)"
    using id_take_nth_drop [OF sb(3)] parts(1) by (metis append.assoc concat.simps(2) concat_append)
  have pl: "plan_left dec p index (?plan\<lparr>rp_topIndexI := Suc ?i\<rparr>) (concat (drop (Suc ?i) parts))"
    using True parts by (auto simp: plan_left_def NewRange_def)
  show ?thesis
    by (rule that [OF run [unfolded p'(1)] sb(2) p'(2) pl split sb(1) [unfolded parts(1)]])
qed

lemma first_round:
  assumes r: "reader_at dec index blocks r0 r p" and ne: "concat blocks \<noteq> []"
  shows "\<exists>res n. range_round dec (newRangeIterator r start en) r = Some res \<and>
    stepped dec index blocks r0 en (dropWhile (\<lambda>x. Key x < start) (concat blocks)) n res"
proof -
  let ?it = "newRangeIterator r start en"
  have pipe: "rd_pipe r = Some p" "pipe_ok dec p index blocks" "quiet p" using r by (simp_all add: reader_at_def)
  have tab: "list_all2 (data_ref dec p) index blocks" "entry_keys_sorted (concat blocks)"
    using pipe_ok_table [OF pipe(2)] by (simp_all add: table_ok_def)
  have "index \<noteq> []" using tab(1) ne by auto
  from Plan_Next_first [OF pipe(2,3) this] obtain part plan' p' later pre where
    n: "Plan_Next dec (NewRange start) p = (Inr part, plan', p')" "part \<noteq> []" "keeps dec index blocks p p'"
      "plan_left dec p index plan' later" "index = pre @ part @ later" and
    st: "starts_block index start (pre @ take (start_at part start) part) (part ! start_at part start)
           (drop (Suc (start_at part start)) part @ later)" by blast
  let ?j = "start_at part start"
  have j: "?j < length part" by (rule start_at_less [OF n(2)])
  let ?jt = "?it\<lparr>it_plan := plan', it_partIndex := Some part, it_blockI := ?j\<rparr>" and ?r = "r\<lparr>rd_pipe := Some p'\<rparr>"
  have it: "it_plan ?it = NewRange start" "it_block ?it = None" "it_partIndex ?it = None" "\<not> it_startApplied ?it" "it_start ?it = start"
    "it_err ?it = None" "it_end ?it = en"
    using pipe(1) by (simp_all add: newRangeIterator_def NewRange_def)
  have ld: "loadPartition dec ?it p r = Some (True, ?jt, ?r)"
    using n(1) it by (simp add: loadPartition.simps start_at_def)
  note r' = reader_at_keeps [OF r n(3)]
  have idx: "index = (pre @ take ?j part) @ part ! ?j # (drop (Suc ?j) part @ later)" using st by (simp add: starts_block_def)
  then have "list_all2 (data_ref dec p) ((pre @ take ?j part) @ part ! ?j # (drop (Suc ?j) part @ later)) blocks"
    using tab(1) by (simp only:)
  then obtain Dp D1 D2 where D: "blocks = Dp @ D1 # D2" "length Dp = length (pre @ take ?j part)"
    "list_all2 (data_ref dec p) (part ! ?j # drop (Suc ?j) part @ later) (D1 # D2)"
    unfolding list_all2_append1 [of _ "pre @ take ?j part"] list_all2_Cons1 by auto
  have refs0: "list_all2 (data_ref dec p) ((pre @ take ?j part) @ part ! ?j # (drop (Suc ?j) part @ later)) (Dp @ D1 # D2)"
    using tab(1) idx D(1) by (simp only:)
  have refs: "current_refs ?jt = part ! ?j # drop (Suc ?j) part" using j by (simp add: current_refs_def Cons_nth_drop_Suc)
  have "follows dec index p ?jt (current_refs ?jt) (D1 # D2)"
    unfolding refs follows_def using n(4,5) D(3) j by (auto dest: in_set_dropD)
  then have f': "follows dec index p' ?jt (current_refs ?jt) (D1 # D2)" using follows_same [OF conjunct2 [OF r']] by blast
  have eq: "range_round dec ?it r = range_round dec ?jt ?r"
    by (rule partition_round [OF it(2) _ r ld]) (use it j in simp_all)
  have "\<exists>res. range_round dec ?jt ?r = Some res \<and> stepped dec index blocks r0 en (from_start ?jt D1 @ concat D2) (Suc (length D2)) res"
    by (rule block_round [OF _ _ _ _ _ conjunct1 [OF r'] f', of _ part]) (use it j in simp_all)
  moreover have "from_start ?jt D1 @ concat D2 = dropWhile (\<lambda>x. Key x < start) (concat blocks)"
    using start_entries [OF refs0 D(2) st] tab(2) D(1) it by (simp add: from_start_def)
  ultimately show ?thesis unfolding eq by metis
qed

section \<open>The whole scan\<close>

lemma range_loop_stepped:
  assumes "range_round dec it r = Some res" "stepped dec index blocks r0 en ents n res"
  shows "\<exists>out. range_loop dec it r = Some out \<and> stepped dec index blocks r0 en ents n (Inr out)"
  using assms
proof (induction n arbitrary: it r res rule: less_induct)
  case (less n)
  show ?case
  proof (cases res)
    case (Inl x)
    obtain it' r' where x: "x = (it', r')" by (cases x)
    then obtain m where m: "m < n" "going dec index blocks r0 en it' r' ents m"
      using less.prems(2) Inl by (auto simp: stepped_def)
    obtain res' where res': "range_round dec it' r' = Some res'" "stepped dec index blocks r0 en ents m res'"
      using round_going [OF m(2)] by blast
    from less.IH [OF m(1) res'] obtain out where out: "range_loop dec it' r' = Some out" "stepped dec index blocks r0 en ents m (Inr out)"
      by blast
    have "range_loop dec it r = Some out" using less.prems(1) Inl x out(1) by (simp add: range_loop.simps [of dec it r])
    moreover have "stepped dec index blocks r0 en ents n (Inr out)" using out(2) by (simp add: stepped_def)
    ultimately show ?thesis by blast
  next
    case (Inr out)
    then show ?thesis using less.prems by (auto simp: range_loop.simps [of dec it r])
  qed
qed

lemma Range_Next_ok:
  assumes "range_round dec it r = Some res" "stepped dec index blocks r0 en ents n res" "reader_at dec index blocks r0 r p"
  obtains b it' r' where "Range_Next dec it r = Some (b, it', r')" "stepped dec index blocks r0 en ents n (Inr (b, it', r'))"
proof -
  obtain out where "range_loop dec it r = Some out" "stepped dec index blocks r0 en ents n (Inr out)"
    using range_loop_stepped [OF assms(1,2)] by blast
  moreover have "\<not> rd_dropped r" "rd_pipe r \<noteq> None" using assms(3) by (simp_all add: reader_at_def)
  ultimately show ?thesis by (cases out) (auto simp: Range_Next_def intro: that)
qed

lemma range_scan_ok:
  assumes "\<And>k. \<exists>res n. range_round dec it (run_workers dec k r) = Some res \<and> stepped dec index blocks r0 en ents n res"
    and "reader_at dec index blocks r0 r p"
  shows "\<exists>r' p'. range_scan dec sched i it r = Some (takeWhile (\<lambda>e. \<not> (en \<noteq> [] \<and> en \<le> Key e)) ents, None, r') \<and>
    reader_at dec index blocks r0 r' p'"
  using assms
proof (induction ents arbitrary: it r i p)
  case Nil
  obtain q where q: "reader_at dec index blocks r0 (run_workers dec (sched i) r) q" by (rule reader_at_workers [OF Nil.prems(2)])
  obtain res n where "range_round dec it (run_workers dec (sched i) r) = Some res" "stepped dec index blocks r0 en [] n res"
    using Nil.prems(1) by blast
  from Range_Next_ok [OF this q] obtain b it' r' where
    "Range_Next dec it (run_workers dec (sched i) r) = Some (b, it', r')" "stepped dec index blocks r0 en [] n (Inr (b, it', r'))" .
  then show ?case by (auto simp: stepped_def range_scan.simps [of dec sched i it r])
next
  case (Cons e ents)
  obtain q where q: "reader_at dec index blocks r0 (run_workers dec (sched i) r) q" by (rule reader_at_workers [OF Cons.prems(2)])
  obtain res n where "range_round dec it (run_workers dec (sched i) r) = Some res" "stepped dec index blocks r0 en (e # ents) n res"
    using Cons.prems(1) by blast
  from Range_Next_ok [OF this q] obtain b it' r' where
    n: "Range_Next dec it (run_workers dec (sched i) r) = Some (b, it', r')" "stepped dec index blocks r0 en (e # ents) n (Inr (b, it', r'))" .
  show ?case
  proof (cases "en \<noteq> [] \<and> en \<le> Key e")
    case True
    with n show ?thesis by (auto simp: stepped_def range_scan.simps [of dec sched i it r])
  next
    case False
    then obtain m p' where m: "b" "it_curr it' = e" "going dec index blocks r0 en it' r' ents m" "reader_at dec index blocks r0 r' p'"
      using n(2) by (auto simp: stepped_def)
    have "\<exists>res n. range_round dec it' (run_workers dec k r') = Some res \<and> stepped dec index blocks r0 en ents n res" for k
      using round_going [OF going_workers [OF m(3)]] by blast
    from Cons.IH [OF this m(4)] obtain r'' p'' where
      "range_scan dec sched (Suc i) it' r' = Some (takeWhile (\<lambda>e. \<not> (en \<noteq> [] \<and> en \<le> Key e)) ents, None, r'')"
      "reader_at dec index blocks r0 r'' p''" by blast
    then show ?thesis using n(1) m(1,2) False by (auto simp: range_scan.simps [of dec sched i it r])
  qed
qed

lemma takeWhile_dropWhile_range:
  assumes "entry_keys_sorted es"
  shows "takeWhile (\<lambda>e. \<not> (en \<noteq> [] \<and> en \<le> Key e)) (dropWhile (\<lambda>x. Key x < start) es) = range_entries start en es"
  using assms
proof (induction es)
  case (Cons e es)
  have above: "\<forall>x \<in> set es. Key e < Key x" using Cons.prems by simp
  show ?case
  proof (cases "Key e < start")
    case True
    with Cons show ?thesis by (simp add: range_entries_def in_range_def not_le [symmetric])
  next
    case False
    then have "\<forall>x \<in> set (e # es). start \<le> Key x" using above by auto
    moreover have "takeWhile (\<lambda>e. en = [] \<or> Key e < en) xs = filter (\<lambda>e. en = [] \<or> Key e < en) xs"
      if "entry_keys_sorted xs" for xs
      using takeWhile_less_sorted [OF that, of en] by (cases "en = []") simp_all
    note this [OF Cons.prems]
    ultimately have "range_entries start en (e # es) = takeWhile (\<lambda>e. \<not> (en \<noteq> [] \<and> en \<le> Key e)) (e # es)"
      by (simp only: range_entries_def in_range_def not_le de_Morgan_conj not_not)
         (auto simp: imp_conv_disj intro!: filter_cong)
    with False show ?thesis by simp
  qed
qed (simp add: range_entries_def)

text \<open>The scan of a table that answers for a list of entries.\<close>

lemma newRangeIterator_workers:
  assumes "reader_at dec index blocks r0 r p"
  shows "newRangeIterator (run_workers dec k r) start en = newRangeIterator r start en"
proof -
  obtain q where "reader_at dec index blocks r0 (run_workers dec k r) q" "same_table p q"
    by (rule reader_at_workers [OF assms])
  then show ?thesis using assms by (simp add: newRangeIterator_def reader_at_def same_table_def)
qed

lemma table_holds_scan:
  assumes "table_holds dec t es"
  shows "\<exists>t'. SSTable_scan dec sched start en t = Some (range_entries start en es, None, t') \<and> table_holds dec t' es"
proof -
  obtain r p index blocks where t: "st_reader t = Some r" "\<not> rd_dropped r" "rd_pipe r = Some p"
    "pipe_ok dec p index blocks" "quiet p" "concat blocks = es" "es \<noteq> []"
    "mt_MinKey (rd_meta r) = Key (hd es)" "mt_MaxKey (rd_meta r) = Key (last es)"
    using assms by (auto simp: table_holds_def)
  have at: "reader_at dec index blocks r r p" using t by (simp add: reader_at_def)
  have srt: "entry_keys_sorted es" using pipe_ok_table [OF t(4)] t(6) by (simp add: table_ok_def)
  have f: "\<exists>res n. range_round dec (newRangeIterator r start en) (run_workers dec k r) = Some res \<and>
      stepped dec index blocks r en (dropWhile (\<lambda>x. Key x < start) es) n res" for k
  proof -
    obtain q where "reader_at dec index blocks r (run_workers dec k r) q" by (rule reader_at_workers [OF at])
    from first_round [OF this] t(6,7) show ?thesis unfolding newRangeIterator_workers [OF at] by blast
  qed
  obtain r' p' where s: "range_scan dec sched 0 (newRangeIterator r start en) r = Some (range_entries start en es, None, r')"
    "reader_at dec index blocks r r' p'"
    using range_scan_ok [OF f at, of sched 0] unfolding takeWhile_dropWhile_range [OF srt] by blast
  have "table_holds dec (t\<lparr>st_reader := Some r'\<rparr>) es"
    unfolding table_holds_def using t s(2) by (auto simp: reader_at_def)
  with t(1) s(1) show ?thesis by (simp add: SSTable_scan_def)
qed

text \<open>Scans of a table one after the other, each on the reader the one before left, with a schedule of its own.\<close>

fun table_scans ::
  "(bytes \<Rightarrow> bytes option) \<Rightarrow> (bytes \<times> bytes \<times> (nat \<Rightarrow> nat)) list \<Rightarrow> SSTable \<Rightarrow>
     (entry list \<times> lsm_error option) option list" where
  "table_scans dec [] t = []"
| "table_scans dec ((start, en, sched) # rs) t =
     (case SSTable_scan dec sched start en t of
        None \<Rightarrow> [None]
      | Some (es, err, t') \<Rightarrow> Some (es, err) # table_scans dec rs t')"

lemma table_holds_scans:
  "table_holds dec t es \<Longrightarrow>
     table_scans dec rs t = map (\<lambda>(start, en, sched). Some (range_entries start en es, None)) rs"
proof (induction rs arbitrary: t)
  case (Cons r rs)
  obtain start en sched where r: "r = (start, en, sched)" by (cases r)
  from table_holds_scan [OF Cons.prems, of sched start en] obtain t' where
    "SSTable_scan dec sched start en t = Some (range_entries start en es, None, t')" "table_holds dec t' es" by blast
  with Cons.IH r show ?case by simp
qed simp

section \<open>Properties\<close>

text \<open>
  C3: a flushed table can be scanned, under the following conditions.  The writer accepts the options and they carry
  no policy override; no input/output operation fails, neither of the flush nor of the scans; there are entries, their
  keys are distinct and none is empty; the decompressor inverts the compressor, which keeps its documented bound on
  expansion; the largest block of these entries fits under the read limit, which accepted options do not guarantee;
  and the block, the filter and the file stay below \<open>2 ^ 32\<close>.  Then every sequence of range scans of the table ends
  without an error, and each scan yields exactly the entries whose key is in its range, from the start on and below the
  end unless the end is empty, in key order, across data blocks, index partitions and caches.  Prefetching may be
  synchronous or asynchronous: the workers may take any number of queued entries between two steps of an iterator.
\<close>

theorem flush_then_scan:
  assumes "NewSSTableWriter opts0 dirp s0 = (Inr opts, s)" "fs_faults s0 = []"
    and "so_PolicyOverride opts0 = None" "\<forall>f \<in> set faults. f = None"
    and "es \<noteq> []" "distinct (map Key es)" "\<forall>e \<in> set es. Key e \<noteq> []"
    and "\<And>x. dec (enc x) = Some x" "\<And>x. length (enc x) \<le> 32 + length x + length x div 6"
    and "int (46 + block_bound opts es + block_bound opts es div 6) \<le> so_ReadBlockMaxBytes opts"
      "block_bound opts es < 2 ^ 32"
    and "int (length es) * so_BloomBitsPerKey opts + 7 < 2 ^ 32"
    and "file_size (flush_path dirp es s) (snd (Writer_Flush enc dec scale opts dirp es faults s)) < 2 ^ 32"
  shows "\<exists>t s' S. Writer_Flush enc dec scale opts dirp es faults s = (Inr t, s') \<and> set S = set es \<and> entry_keys_sorted S \<and>
     (\<forall>ranges. table_scans dec ranges t =
        map (\<lambda>(start, en, sched). Some (filter (\<lambda>e. start \<le> Key e \<and> (en = [] \<or> Key e < en)) S, None)) ranges)"
proof -
  have opts: "opts = Normalize opts0" "Validate opts = None" "s = s0"
    using assms(1,2) by (auto simp: NewSSTableWriter_def Let_def split: option.splits if_splits)
  have ok: "options_ok opts" using assms(10) unfolding opts(1) by (intro Normalize_options_ok) simp
  have override: "so_PolicyOverride opts = None" using assms(3) by (simp add: opts(1) Normalize_def Let_def)
  have io: "fs_faults s = []" "calm faults" using assms(2,4) by (simp_all add: opts(3) calm_def)
  have rng: "range_entries start en S = filter (\<lambda>e. start \<le> Key e \<and> (en = [] \<or> Key e < en)) S" for start en S
    unfolding range_entries_def in_range_def by (rule filter_cong [OF refl]) blast
  obtain t s' where "Writer_Flush enc dec scale opts dirp es faults s = (Inr t, s')" and
    t: "table_holds dec t (sort_Slice sst_entry_less es)"
    by (rule Writer_Flush_ok [OF io ok opts(2) override assms(5-13)])
  moreover have "set (sort_Slice sst_entry_less es) = set es" "entry_keys_sorted (sort_Slice sst_entry_less es)"
    using sorted_entries [OF assms(6)] by simp_all
  ultimately show ?thesis using table_holds_scans [OF t, unfolded rng] by blast
qed

theorem flush_then_scan_witness:
  "\<exists>t s'. Writer_Flush (\<lambda>x. x) Some (\<lambda>_ _ _. 0) (Normalize demo_opts) ''d'' demo_flush [] demo_fs = (Inr t, s') \<and>
     table_scans Some [([], [], \<lambda>_. 0), ([2], [], \<lambda>i. i)] t = [Some (rev demo_flush, None), Some ([hd demo_flush], None)]"
proof -
  have wr: "NewSSTableWriter demo_opts ''d'' demo_fs = (Inr (Normalize demo_opts), demo_fs)"
    by (simp add: NewSSTableWriter_def Let_def demo_normal demo_fs_def)
  obtain t s' S where t: "Writer_Flush (\<lambda>x. x) Some (\<lambda>_ _ _. 0) (Normalize demo_opts) ''d'' demo_flush [] demo_fs = (Inr t, s')"
    "set S = set demo_flush" "entry_keys_sorted S"
    "\<And>ranges. table_scans Some ranges t =
        map (\<lambda>(start, en, sched). Some (filter (\<lambda>e. start \<le> Key e \<and> (en = [] \<or> Key e < en)) S, None)) ranges"
    using flush_then_scan [OF wr _ _ _ _ _ _ _ _ _ _ _ demo_size]
    by (auto simp: demo_bound demo_normal) (auto simp: demo_fs_def demo_opts_def DefaultOptions_def demo_flush_def)
  have S: "S = rev demo_flush"
    by (rule sorted_entries_setI [OF t(3)]) (simp_all add: t(2), simp add: demo_flush_def)
  have "table_scans Some [([], [], \<lambda>_. 0), ([2], [], \<lambda>i. i)] t = [Some (rev demo_flush, None), Some ([hd demo_flush], None)]"
    unfolding t(4) S by (simp add: demo_flush_def)
  with t(1) show ?thesis by blast
qed

end
