(* ===== verification/Arena.thy ===== *)
theory Arena
  imports Go_Std
begin

text \<open>
  The bump allocator of the memtables (\<open>internal/lsm/memory/arena/arena.go\<close>) and the copy rules of
  \<open>internal/lsm/memory/builder.go\<close>.  Byte arrays live in a memory \<open>mem\<close>: the list of all arrays made so
  far, an address being a position in it.  A slice \<open>bref\<close> is an address, an offset and a length, so
  that a write through one slice is seen by every slice that overlaps it.
\<close>

type_synonym mem = "bytes list"

record bref =
  br_addr :: nat
  br_off :: nat
  br_len :: nat

definition mem_make :: "nat \<Rightarrow> mem \<Rightarrow> nat \<times> mem" where
  "mem_make n mem = (length mem, mem @ [replicate n 0])"

definition mem_read :: "mem \<Rightarrow> bref \<Rightarrow> bytes" where
  "mem_read mem r = take (br_len r) (drop (br_off r) (mem ! br_addr r))"

definition mem_copy :: "bref \<Rightarrow> bytes \<Rightarrow> mem \<Rightarrow> mem" where
  "mem_copy r src mem =
     (let b = mem ! br_addr r; n = min (br_len r) (length src)
      in mem[br_addr r := take (br_off r) b @ take n src @ drop (br_off r + n) b])"

record arena_options =
  BlockSize :: int
  SoftLimitBytes :: int
  HardLimitBytes :: int

record Arena =
  ar_opt :: arena_options
  ar_blocks :: "nat list"
  ar_cur :: "nat option"
  ar_off :: nat
  ar_usedBytes :: int
  ar_reservedBytes :: int
  ar_hardDenied :: int

record arena_stats =
  as_BlockSize :: int
  as_Blocks :: nat
  as_UsedBytes :: int
  as_ReservedBytes :: int
  as_SoftLimitBytes :: int
  as_HardLimitBytes :: int
  as_HardDeniedAllocs :: int

definition DefaultArenaBlockSize :: int where "DefaultArenaBlockSize = 256 * 1024"

definition NewArenaWithOptions :: "arena_options \<Rightarrow> Arena" where
  "NewArenaWithOptions opt =
     (let opt = (if BlockSize opt \<le> 0 then opt\<lparr>BlockSize := DefaultArenaBlockSize\<rparr> else opt)
      in \<lparr>ar_opt = opt, ar_blocks = [], ar_cur = None, ar_off = 0, ar_usedBytes = 0, ar_reservedBytes = 0,
          ar_hardDenied = 0\<rparr>)"

definition NewArena :: "int \<Rightarrow> Arena" where
  "NewArena blockSize = NewArenaWithOptions \<lparr>BlockSize = blockSize, SoftLimitBytes = 0, HardLimitBytes = 0\<rparr>"

text \<open>The current block, replaced by a new one when there is none or it has too little room.\<close>

definition arena_grow :: "Arena \<Rightarrow> mem \<Rightarrow> nat \<times> Arena \<times> mem" where
  "arena_grow a mem =
     (let (c, mem) = mem_make (nat (BlockSize (ar_opt a))) mem
      in (c, a\<lparr>ar_cur := Some c, ar_blocks := ar_blocks a @ [c], ar_off := 0,
              ar_reservedBytes := ar_reservedBytes a + int (length (mem ! c))\<rparr>, mem))"

definition arena_current :: "nat \<Rightarrow> Arena \<Rightarrow> mem \<Rightarrow> nat \<times> Arena \<times> mem" where
  "arena_current n a mem =
     (case ar_cur a of
        None \<Rightarrow> arena_grow a mem
      | Some c \<Rightarrow> if length (mem ! c) < ar_off a + n then arena_grow a mem else (c, a, mem))"

definition Arena_Alloc :: "nat \<Rightarrow> Arena \<Rightarrow> mem \<Rightarrow> bref option \<times> Arena \<times> mem" where
  "Arena_Alloc n a mem =
     (if n = 0 then (None, a, mem)
      else if 0 < HardLimitBytes (ar_opt a) \<and> HardLimitBytes (ar_opt a) < ar_usedBytes a + int n
      then (None, a\<lparr>ar_hardDenied := ar_hardDenied a + 1\<rparr>, mem)
      else if BlockSize (ar_opt a) < int n
      then let (p, mem) = mem_make n mem
           in (Some \<lparr>br_addr = p, br_off = 0, br_len = n\<rparr>,
               a\<lparr>ar_blocks := ar_blocks a @ [p], ar_usedBytes := ar_usedBytes a + int n,
                 ar_reservedBytes := ar_reservedBytes a + int n\<rparr>, mem)
      else let (c, a, mem) = arena_current n a mem
           in (Some \<lparr>br_addr = c, br_off = ar_off a, br_len = n\<rparr>,
               a\<lparr>ar_off := ar_off a + n, ar_usedBytes := ar_usedBytes a + int n\<rparr>, mem))"

definition AllocCopy :: "bytes \<Rightarrow> Arena \<Rightarrow> mem \<Rightarrow> bref option \<times> Arena \<times> mem" where
  "AllocCopy src a mem =
     (if src = [] then (None, a, mem)
      else case Arena_Alloc (length src) a mem of
          (None, a, mem) \<Rightarrow> (None, a, mem)
        | (Some dst, a, mem) \<Rightarrow> (Some dst, a, mem_copy dst src mem))"

definition SoftLimitExceeded :: "Arena \<Rightarrow> bool" where
  "SoftLimitExceeded a \<longleftrightarrow> 0 < SoftLimitBytes (ar_opt a) \<and> SoftLimitBytes (ar_opt a) \<le> ar_usedBytes a"

definition Arena_Stats :: "Arena \<Rightarrow> arena_stats" where
  "Arena_Stats a =
     \<lparr>as_BlockSize = BlockSize (ar_opt a), as_Blocks = length (ar_blocks a), as_UsedBytes = ar_usedBytes a,
      as_ReservedBytes = ar_reservedBytes a, as_SoftLimitBytes = SoftLimitBytes (ar_opt a),
      as_HardLimitBytes = HardLimitBytes (ar_opt a), as_HardDeniedAllocs = ar_hardDenied a\<rparr>"

definition Arena_Reset :: "Arena \<Rightarrow> mem \<Rightarrow> Arena" where
  "Arena_Reset a mem =
     (let a = (case List.find (\<lambda>p. int (length (mem ! p)) = BlockSize (ar_opt a)) (ar_blocks a) of
                 Some keep \<Rightarrow> a\<lparr>ar_blocks := [keep], ar_cur := Some keep,
                                 ar_reservedBytes := int (length (mem ! keep))\<rparr>
               | None \<Rightarrow> a\<lparr>ar_blocks := [], ar_cur := None, ar_reservedBytes := 0\<rparr>)
      in a\<lparr>ar_off := 0, ar_usedBytes := 0, ar_hardDenied := 0\<rparr>)"

section \<open>Copying entries\<close>

text \<open>An arena with the memory of its blocks; no slice but its own reaches that memory.\<close>

type_synonym arena_state = "Arena \<times> mem"

datatype copied = InArena bref | OnHeap bytes

definition CopyBytes :: "bytes \<Rightarrow> arena_state \<Rightarrow> copied \<times> arena_state" where
  "CopyBytes src st =
     (if src = [] then (OnHeap [], st)
      else case AllocCopy src (fst st) (snd st) of
          (Some dst, a, mem) \<Rightarrow> (InArena dst, a, mem)
        | (None, a, mem) \<Rightarrow> (OnHeap src, a, mem))"

fun copied_bytes :: "mem \<Rightarrow> copied \<Rightarrow> bytes" where
  "copied_bytes mem (InArena r) = mem_read mem r"
| "copied_bytes mem (OnHeap b) = b"

definition CopyEntry :: "entry \<Rightarrow> arena_state \<Rightarrow> entry \<times> arena_state" where
  "CopyEntry e st =
     (let (k, st) = CopyBytes (Key e) st; (v, st) = CopyBytes (Value e) st
      in (e\<lparr>Key := copied_bytes (snd st) k, Value := copied_bytes (snd st) v\<rparr>, st))"

section \<open>Handed-out slices\<close>

definition refs_disjoint :: "bref \<Rightarrow> bref \<Rightarrow> bool" where
  "refs_disjoint r r' \<longleftrightarrow> br_addr r \<noteq> br_addr r' \<or> br_off r + br_len r \<le> br_off r' \<or>
     br_off r' + br_len r' \<le> br_off r"

definition cur_ok :: "Arena \<Rightarrow> mem \<Rightarrow> bool" where
  "cur_ok a mem \<longleftrightarrow> (\<forall>c. ar_cur a = Some c \<longrightarrow>
     c \<in> set (ar_blocks a) \<and> int (length (mem ! c)) = BlockSize (ar_opt a) \<and> ar_off a \<le> length (mem ! c))"

definition ref_ok :: "Arena \<Rightarrow> mem \<Rightarrow> bref \<Rightarrow> bool" where
  "ref_ok a mem r \<longleftrightarrow> br_addr r \<in> set (ar_blocks a) \<and> br_off r + br_len r \<le> length (mem ! br_addr r) \<and>
     (ar_cur a = Some (br_addr r) \<longrightarrow> br_off r + br_len r \<le> ar_off a)"

text \<open>\<open>rs\<close> are the slices handed out since the arena was made or reset.\<close>

definition arena_inv :: "Arena \<Rightarrow> mem \<Rightarrow> bref list \<Rightarrow> bool" where
  "arena_inv a mem rs \<longleftrightarrow>
     0 < BlockSize (ar_opt a) \<and> distinct (ar_blocks a) \<and> (\<forall>p \<in> set (ar_blocks a). p < length mem) \<and>
     cur_ok a mem \<and> (\<forall>r \<in> set rs. ref_ok a mem r) \<and> sorted_wrt refs_disjoint rs \<and>
     ar_usedBytes a = int (sum_list (map br_len rs)) \<and>
     ar_reservedBytes a = int (sum_list (map (\<lambda>p. length (mem ! p)) (ar_blocks a))) \<and>
     (0 < HardLimitBytes (ar_opt a) \<longrightarrow> ar_usedBytes a \<le> HardLimitBytes (ar_opt a))"

lemma arena_inv_New: "arena_inv (NewArenaWithOptions opt) mem []"
  by (simp add: arena_inv_def NewArenaWithOptions_def cur_ok_def DefaultArenaBlockSize_def)

lemma arena_inv_Reset: "arena_inv a mem rs \<Longrightarrow> arena_inv (Arena_Reset a mem) mem []"
  by (auto simp: arena_inv_def Arena_Reset_def cur_ok_def find_Some_iff split: option.splits)

lemma length_mem_copy [simp]: "length (mem_copy r src mem) = length mem"
  by (simp add: mem_copy_def Let_def)

lemma length_nth_mem_copy:
  "br_off r + br_len r \<le> length (mem ! br_addr r) \<Longrightarrow> length (mem_copy r src mem ! p) = length (mem ! p)"
  by (cases "br_addr r < length mem") (auto simp: mem_copy_def Let_def nth_list_update list_update_beyond not_less)

lemma mem_read_copy:
  assumes "br_addr r < length mem" "br_off r + br_len r \<le> length (mem ! br_addr r)" "br_len r = length src"
  shows "mem_read (mem_copy r src mem) r = src"
  using assms by (simp add: mem_read_def mem_copy_def Let_def)

lemma mem_read_copy_disjoint:
  assumes "br_addr r < length mem" "br_off r + br_len r \<le> length (mem ! br_addr r)" "br_len r = length src"
    and "refs_disjoint r r'"
  shows "mem_read (mem_copy r src mem) r' = mem_read mem r'"
proof (cases "br_addr r = br_addr r'")
  case True
  let ?b = "mem ! br_addr r"
  have b: "mem_copy r src mem ! br_addr r' = take (br_off r) ?b @ src @ drop (br_off r + length src) ?b"
    using assms True by (simp add: mem_copy_def Let_def)
  consider "br_off r + br_len r \<le> br_off r'" | "br_off r' + br_len r' \<le> br_off r"
    using assms(4) True by (auto simp: refs_disjoint_def)
  then show ?thesis
  proof cases
    case 1
    then show ?thesis using assms True by (simp add: mem_read_def b)
  next
    case 2
    then show ?thesis using assms True by (simp add: mem_read_def b drop_take)
  qed
qed (simp add: mem_read_def mem_copy_def Let_def)

lemma mem_read_append: "br_addr r < length mem \<Longrightarrow> mem_read (mem @ xs) r = mem_read mem r"
  by (simp add: mem_read_def nth_append)

section \<open>Allocation\<close>

lemma arena_invD:
  assumes "arena_inv a mem rs"
  shows "0 < BlockSize (ar_opt a)" "distinct (ar_blocks a)" "\<And>p. p \<in> set (ar_blocks a) \<Longrightarrow> p < length mem"
    "cur_ok a mem" "\<And>r. r \<in> set rs \<Longrightarrow> ref_ok a mem r" "sorted_wrt refs_disjoint rs"
    "ar_usedBytes a = int (sum_list (map br_len rs))"
    "ar_reservedBytes a = int (sum_list (map (\<lambda>p. length (mem ! p)) (ar_blocks a)))"
    "0 < HardLimitBytes (ar_opt a) \<Longrightarrow> ar_usedBytes a \<le> HardLimitBytes (ar_opt a)"
  using assms unfolding arena_inv_def by blast+

lemma arena_grow_ok:
  assumes inv: "arena_inv a mem rs" and eq: "arena_grow a mem = (c, a', mem')"
  shows "arena_inv a' mem' rs" "ar_cur a' = Some c" "ar_off a' = 0" "int (length (mem' ! c)) = BlockSize (ar_opt a)"
    "\<exists>b. mem' = mem @ [b]" "ar_opt a' = ar_opt a" "ar_usedBytes a' = ar_usedBytes a"
proof -
  note d = arena_invD [OF inv]
  let ?b = "replicate (nat (BlockSize (ar_opt a))) (0 :: byte)"
  have e: "c = length mem" "mem' = mem @ [?b]"
    "a' = a\<lparr>ar_cur := Some c, ar_blocks := ar_blocks a @ [c], ar_off := 0,
              ar_reservedBytes := ar_reservedBytes a + int (length (mem' ! c))\<rparr>"
    using eq by (auto simp: arena_grow_def mem_make_def Let_def)
  have old: "mem' ! p = mem ! p" if "p \<in> set (ar_blocks a)" for p using d(3) [OF that] by (simp add: e nth_append)
  have new: "length mem \<notin> set (ar_blocks a)" using d(3) by blast
  have refs: "ref_ok a' mem' r" if "r \<in> set rs" for r
    using d(5) [OF that] old [of "br_addr r"] d(3) [of "br_addr r"] by (auto simp: ref_ok_def e)
  have "(\<Sum>p\<leftarrow>ar_blocks a. length (mem' ! p)) = (\<Sum>p\<leftarrow>ar_blocks a. length (mem ! p))"
    using old by (intro arg_cong [where f = sum_list] map_cong) auto
  then have res: "ar_reservedBytes a' = int (sum_list (map (\<lambda>p. length (mem' ! p)) (ar_blocks a')))"
    unfolding e(3) by (simp add: d(8))
  have "\<forall>p \<in> set (ar_blocks a'). p < length mem'" "cur_ok a' mem'" "distinct (ar_blocks a')"
    using d(1,2,3) new by (auto simp: e cur_ok_def less_Suc_eq)
  then show "arena_inv a' mem' rs"
    unfolding arena_inv_def using d(1,6,7,9) refs res by (simp add: e(3))
  show "ar_cur a' = Some c" "ar_off a' = 0" "int (length (mem' ! c)) = BlockSize (ar_opt a)"
    "\<exists>b. mem' = mem @ [b]" "ar_opt a' = ar_opt a" "ar_usedBytes a' = ar_usedBytes a" using d(1) by (simp_all add: e)
qed

lemma arena_current_ok:
  assumes inv: "arena_inv a mem rs" and eq: "arena_current n a mem = (c, a', mem')"
    and n: "int n \<le> BlockSize (ar_opt a)"
  shows "arena_inv a' mem' rs" "ar_cur a' = Some c" "ar_off a' + n \<le> length (mem' ! c)"
    "\<exists>xs. mem' = mem @ xs" "ar_opt a' = ar_opt a" "ar_usedBytes a' = ar_usedBytes a"
proof -
  have "arena_inv a' mem' rs \<and> ar_cur a' = Some c \<and> ar_off a' + n \<le> length (mem' ! c) \<and>
    (\<exists>xs. mem' = mem @ xs) \<and> ar_opt a' = ar_opt a \<and> ar_usedBytes a' = ar_usedBytes a"
  proof (cases "arena_grow a mem = (c, a', mem')")
    case True
    have "n \<le> length (mem' ! c)" using arena_grow_ok(4) [OF inv True] n by linarith
    with arena_grow_ok [OF inv True] show ?thesis by auto
  next
    case False
    with eq inv show ?thesis by (auto simp: arena_current_def split: option.splits if_splits)
  qed
  then show "arena_inv a' mem' rs" "ar_cur a' = Some c" "ar_off a' + n \<le> length (mem' ! c)"
    "\<exists>xs. mem' = mem @ xs" "ar_opt a' = ar_opt a" "ar_usedBytes a' = ar_usedBytes a" by blast+
qed

lemma arena_bump_ok:
  assumes inv: "arena_inv a mem rs" and c: "ar_cur a = Some c" and room: "ar_off a + n \<le> length (mem ! c)"
    and hard: "0 < HardLimitBytes (ar_opt a) \<Longrightarrow> ar_usedBytes a + int n \<le> HardLimitBytes (ar_opt a)"
  shows "arena_inv (a\<lparr>ar_off := ar_off a + n, ar_usedBytes := ar_usedBytes a + int n\<rparr>) mem
    (\<lparr>br_addr = c, br_off = ar_off a, br_len = n\<rparr> # rs)"
proof -
  note d = arena_invD [OF inv]
  have "refs_disjoint \<lparr>br_addr = c, br_off = ar_off a, br_len = n\<rparr> r" if "r \<in> set rs" for r
    using d(5) [OF that] c by (auto simp: ref_ok_def refs_disjoint_def)
  moreover have "c \<in> set (ar_blocks a)" using d(4) c by (simp add: cur_ok_def)
  moreover have "ref_ok (a\<lparr>ar_off := ar_off a + n, ar_usedBytes := ar_usedBytes a + int n\<rparr>) mem r"
    if "r \<in> set rs" for r using d(5) [OF that] by (auto simp: ref_ok_def)
  ultimately show ?thesis
    unfolding arena_inv_def using d room hard c by (auto simp: ref_ok_def cur_ok_def)
qed

lemma arena_large_ok:
  assumes inv: "arena_inv a mem rs"
    and hard: "0 < HardLimitBytes (ar_opt a) \<Longrightarrow> ar_usedBytes a + int n \<le> HardLimitBytes (ar_opt a)"
  shows "arena_inv (a\<lparr>ar_blocks := ar_blocks a @ [length mem], ar_usedBytes := ar_usedBytes a + int n,
        ar_reservedBytes := ar_reservedBytes a + int n\<rparr>) (mem @ [replicate n 0])
    (\<lparr>br_addr = length mem, br_off = 0, br_len = n\<rparr> # rs)" (is "arena_inv ?a ?mem (?r # rs)")
proof -
  note d = arena_invD [OF inv]
  have old: "?mem ! p = mem ! p" if "p \<in> set (ar_blocks a)" for p using d(3) [OF that] by (simp add: nth_append)
  have new: "length mem \<notin> set (ar_blocks a)" using d(3) by blast
  have "(\<Sum>p\<leftarrow>ar_blocks a. length (?mem ! p)) = (\<Sum>p\<leftarrow>ar_blocks a. length (mem ! p))"
    using old by (intro arg_cong [where f = sum_list] map_cong) auto
  then have res: "ar_reservedBytes ?a = int (sum_list (map (\<lambda>p. length (?mem ! p)) (ar_blocks ?a)))"
    by (simp add: d(8))
  have blocks: "\<forall>p \<in> set (ar_blocks ?a). p < length ?mem" "distinct (ar_blocks ?a)"
    using d(2,3) new by (auto simp: less_Suc_eq)
  have cur: "cur_ok ?a ?mem" using d(4) old by (auto simp: cur_ok_def)
  have "ref_ok ?a ?mem ?r" using d(4) new by (auto simp: ref_ok_def cur_ok_def)
  moreover have "ref_ok ?a ?mem r" "refs_disjoint ?r r" if "r \<in> set rs" for r
    using d(5) [OF that] old [of "br_addr r"] new by (auto simp: ref_ok_def refs_disjoint_def)
  ultimately have "\<forall>r \<in> set (?r # rs). ref_ok ?a ?mem r" "sorted_wrt refs_disjoint (?r # rs)" using d(6) by auto
  then show ?thesis
    unfolding arena_inv_def using d(1,7) blocks res cur hard by simp
qed

lemma Arena_Alloc_ok:
  assumes inv: "arena_inv a mem rs" and eq: "Arena_Alloc n a mem = (r, a', mem')"
  shows "\<exists>xs. mem' = mem @ xs" "ar_opt a' = ar_opt a"
    "r = None \<Longrightarrow> arena_inv a' mem' rs \<and> (n = 0 \<or> 0 < HardLimitBytes (ar_opt a))"
    "r = Some r' \<Longrightarrow> arena_inv a' mem' (r' # rs) \<and> br_len r' = n"
proof -
  have "(\<exists>xs. mem' = mem @ xs) \<and> ar_opt a' = ar_opt a \<and>
    (case r of None \<Rightarrow> arena_inv a' mem' rs \<and> (n = 0 \<or> 0 < HardLimitBytes (ar_opt a))
     | Some r' \<Rightarrow> arena_inv a' mem' (r' # rs) \<and> br_len r' = n)"
  proof (cases "n = 0 \<or> 0 < HardLimitBytes (ar_opt a) \<and> HardLimitBytes (ar_opt a) < ar_usedBytes a + int n")
    case True
    have "arena_inv (a\<lparr>ar_hardDenied := k\<rparr>) mem rs" for k
      using inv by (auto simp: arena_inv_def cur_ok_def ref_ok_def)
    with True eq inv show ?thesis by (auto simp: Arena_Alloc_def split: if_splits)
  next
    case False
    then have hard: "0 < HardLimitBytes (ar_opt a) \<Longrightarrow> ar_usedBytes a + int n \<le> HardLimitBytes (ar_opt a)" and n: "n \<noteq> 0"
      by auto
    show ?thesis
    proof (cases "BlockSize (ar_opt a) < int n")
      case True
      then show ?thesis using False eq arena_large_ok [OF inv hard] by (auto simp: Arena_Alloc_def mem_make_def Let_def)
    next
      case small: False
      obtain c a1 m1 where e: "arena_current n a mem = (c, a1, m1)" by (cases "arena_current n a mem")
      note o = arena_current_ok [OF inv e]
      have "Arena_Alloc n a mem = (Some \<lparr>br_addr = c, br_off = ar_off a1, br_len = n\<rparr>,
          a1\<lparr>ar_off := ar_off a1 + n, ar_usedBytes := ar_usedBytes a1 + int n\<rparr>, m1)"
        unfolding Arena_Alloc_def using False small by (simp add: e)
      then show ?thesis using eq o small arena_bump_ok [OF o(1,2,3)] hard by auto
    qed
  qed
  then show "\<exists>xs. mem' = mem @ xs" "ar_opt a' = ar_opt a"
    "r = None \<Longrightarrow> arena_inv a' mem' rs \<and> (n = 0 \<or> 0 < HardLimitBytes (ar_opt a))"
    "r = Some r' \<Longrightarrow> arena_inv a' mem' (r' # rs) \<and> br_len r' = n" by auto
qed

lemma AllocCopy_ok:
  assumes inv: "arena_inv a mem rs" and eq: "AllocCopy src a mem = (r, a', mem')"
  shows "ar_opt a' = ar_opt a" "\<And>x. x \<in> set rs \<Longrightarrow> mem_read mem' x = mem_read mem x"
    "r = None \<Longrightarrow> arena_inv a' mem' rs \<and> (src = [] \<or> 0 < HardLimitBytes (ar_opt a))"
    "r = Some r' \<Longrightarrow> arena_inv a' mem' (r' # rs) \<and> mem_read mem' r' = src"
proof -
  have "ar_opt a' = ar_opt a \<and> (\<forall>x \<in> set rs. mem_read mem' x = mem_read mem x) \<and>
    (case r of None \<Rightarrow> arena_inv a' mem' rs \<and> (src = [] \<or> 0 < HardLimitBytes (ar_opt a))
     | Some r' \<Rightarrow> arena_inv a' mem' (r' # rs) \<and> mem_read mem' r' = src)"
  proof (cases "src = []")
    case False
    obtain r0 a0 m0 where e: "Arena_Alloc (length src) a mem = (r0, a0, m0)" by (cases "Arena_Alloc (length src) a mem")
    note o = Arena_Alloc_ok [OF inv e]
    have ext: "mem_read m0 x = mem_read mem x" if "x \<in> set rs" for x
      using o(1) arena_invD(3,5) [OF inv] that by (auto simp: ref_ok_def mem_read_append)
    show ?thesis
    proof (cases r0)
      case None
      with eq e False o(2,3) ext show ?thesis by (auto simp: AllocCopy_def)
    next
      case (Some dst)
      then have i: "arena_inv a0 m0 (dst # rs)" and len: "br_len dst = length src" using o(4) by auto
      note d = arena_invD [OF i]
      have dst: "br_addr dst < length m0" "br_off dst + br_len dst \<le> length (m0 ! br_addr dst)"
        using d(3,5) by (auto simp: ref_ok_def)
      have res: "r = Some dst" "a' = a0" "mem' = mem_copy dst src m0" using eq e False Some by (auto simp: AllocCopy_def)
      have "arena_inv a' mem' (dst # rs)"
        using i unfolding arena_inv_def res cur_ok_def ref_ok_def length_nth_mem_copy [OF dst(2)] length_mem_copy by blast
      moreover have "mem_read mem' x = mem_read m0 x" if "x \<in> set rs" for x
        unfolding res using d(6) that by (intro mem_read_copy_disjoint dst len) auto
      moreover have "mem_read mem' dst = src" unfolding res by (intro mem_read_copy dst len)
      ultimately show ?thesis using o(2) ext by (simp add: res(1,2))
    qed
  qed (use eq inv in \<open>auto simp: AllocCopy_def\<close>)
  then show "ar_opt a' = ar_opt a" "\<And>x. x \<in> set rs \<Longrightarrow> mem_read mem' x = mem_read mem x"
    "r = None \<Longrightarrow> arena_inv a' mem' rs \<and> (src = [] \<or> 0 < HardLimitBytes (ar_opt a))"
    "r = Some r' \<Longrightarrow> arena_inv a' mem' (r' # rs) \<and> mem_read mem' r' = src" by auto
qed

definition arena_ok :: "arena_state \<Rightarrow> bool" where
  "arena_ok st \<longleftrightarrow> (\<exists>rs. arena_inv (fst st) (snd st) rs)"

lemma arena_ok_New: "arena_ok (NewArena n, mem)"
  using arena_inv_New by (auto simp: arena_ok_def NewArena_def)

lemma arena_ok_Reset: "arena_ok (a, mem) \<Longrightarrow> arena_ok (Arena_Reset a mem, mem)"
  using arena_inv_Reset by (auto simp: arena_ok_def)

lemma CopyBytes_ok:
  assumes "arena_inv a mem rs" "CopyBytes src (a, mem) = (c, a', mem')"
  shows "\<exists>rs'. arena_inv a' mem' rs' \<and> set rs \<subseteq> set rs' \<and> (\<forall>r. c = InArena r \<longrightarrow> r \<in> set rs') \<and>
    copied_bytes mem' c = src \<and> (\<forall>r \<in> set rs. mem_read mem' r = mem_read mem r)"
proof (cases "src = []")
  case False
  obtain r a1 m1 where e: "AllocCopy src a mem = (r, a1, m1)" by (cases "AllocCopy src a mem")
  note o = AllocCopy_ok [OF assms(1) e]
  show ?thesis
  proof (cases r)
    case None
    with assms(2) e False o(2,3) show ?thesis by (intro exI [of _ rs]) (auto simp: CopyBytes_def)
  next
    case (Some x)
    with assms(2) e False o(2,4) show ?thesis by (intro exI [of _ "x # rs"]) (auto simp: CopyBytes_def)
  qed
qed (use assms in \<open>auto simp: CopyBytes_def\<close>)

text \<open>The copy of an entry in an arena has the entry's bytes.\<close>

lemma CopyEntry_ok:
  assumes "arena_ok st"
  shows "fst (CopyEntry e st) = e" "arena_ok (snd (CopyEntry e st))"
proof -
  obtain a mem where st: "st = (a, mem)" by (cases st)
  with assms obtain rs where inv: "arena_inv a mem rs" by (auto simp: arena_ok_def)
  obtain k a1 m1 where k: "CopyBytes (Key e) (a, mem) = (k, a1, m1)" by (cases "CopyBytes (Key e) (a, mem)")
  obtain v a2 m2 where v: "CopyBytes (Value e) (a1, m1) = (v, a2, m2)" by (cases "CopyBytes (Value e) (a1, m1)")
  obtain rs1 where 1: "arena_inv a1 m1 rs1" "\<forall>r. k = InArena r \<longrightarrow> r \<in> set rs1" "copied_bytes m1 k = Key e"
    using CopyBytes_ok [OF inv k] by blast
  obtain rs2 where 2: "arena_inv a2 m2 rs2" "copied_bytes m2 v = Value e"
    "\<forall>r \<in> set rs1. mem_read m2 r = mem_read m1 r"
    using CopyBytes_ok [OF 1(1) v] by blast
  have "copied_bytes m2 k = Key e" using 1(2,3) 2(3) by (cases k) auto
  with 2 show "fst (CopyEntry e st) = e" "arena_ok (snd (CopyEntry e st))"
    by (auto simp: CopyEntry_def st k v arena_ok_def)
qed

fun alloc_copies :: "bytes list \<Rightarrow> Arena \<Rightarrow> mem \<Rightarrow> bref option list \<times> Arena \<times> mem" where
  "alloc_copies [] a mem = ([], a, mem)"
| "alloc_copies (src # srcs) a mem =
     (let (r, a, mem) = AllocCopy src a mem; (rs, a, mem) = alloc_copies srcs a mem in (r # rs, a, mem))"

definition copy_kept :: "arena_options \<Rightarrow> mem \<Rightarrow> bytes \<Rightarrow> bref option \<Rightarrow> bool" where
  "copy_kept opt mem src r = (case r of Some r \<Rightarrow> mem_read mem r = src | None \<Rightarrow> src = [] \<or> 0 < HardLimitBytes opt)"

lemma alloc_copies_ok:
  assumes "arena_inv a mem rs" "alloc_copies srcs a mem = (out, a', mem')"
  shows "arena_inv a' mem' (rev (List.map_filter (\<lambda>r. r) out) @ rs) \<and> list_all2 (copy_kept (ar_opt a) mem') srcs out \<and>
    ar_opt a' = ar_opt a \<and> (\<forall>r \<in> set rs. mem_read mem' r = mem_read mem r)"
  using assms
proof (induction srcs arbitrary: a mem rs out)
  case (Cons src srcs)
  obtain r a1 m1 where e: "AllocCopy src a mem = (r, a1, m1)" by (cases "AllocCopy src a mem")
  obtain out1 where o1: "alloc_copies srcs a1 m1 = (out1, a', mem')" "out = r # out1"
    using Cons.prems(2) by (auto simp: e split: prod.splits)
  note o = AllocCopy_ok [OF Cons.prems(1) e]
  show ?case
  proof (cases r)
    case None
    with Cons.IH [OF _ o1(1), of rs] o o1(2) show ?thesis by (auto simp: map_filter_simps copy_kept_def)
  next
    case (Some x)
    with Cons.IH [OF _ o1(1), of "x # rs"] o o1(2) show ?thesis by (auto simp: map_filter_simps copy_kept_def)
  qed
qed (auto simp: map_filter_simps)

lemma refs_disjoint_rev: "sorted_wrt refs_disjoint (rev rs) \<Longrightarrow> sorted_wrt refs_disjoint rs"
  by (induction rs) (auto simp: sorted_wrt_append refs_disjoint_def)

text \<open>
  C11: every copy an arena makes keeps its bytes through all later copies: the slices handed out are
  pairwise disjoint and read as what was copied into them.  A copy is refused only for no bytes or
  under a hard limit; the used bytes are the sum of the slices and never exceed the hard limit.
\<close>

theorem arena_keeps_copies:
  "case alloc_copies srcs (NewArenaWithOptions opt) mem of (out, a, mem') \<Rightarrow>
     list_all2 (copy_kept opt mem') srcs out \<and> sorted_wrt refs_disjoint (List.map_filter (\<lambda>r. r) out) \<and>
     ar_usedBytes a = int (sum_list (map br_len (List.map_filter (\<lambda>r. r) out))) \<and>
     \<not> (0 < HardLimitBytes opt \<and> HardLimitBytes opt < ar_usedBytes a)"
proof -
  let ?a = "NewArenaWithOptions opt"
  obtain out a mem' where e: "alloc_copies srcs ?a mem = (out, a, mem')"
    by (cases "alloc_copies srcs ?a mem")
  have h: "HardLimitBytes (ar_opt ?a) = HardLimitBytes opt" by (simp add: NewArenaWithOptions_def Let_def)
  note o = alloc_copies_ok [OF arena_inv_New e]
  note d = arena_invD [OF conjunct1 [OF o]]
  have "copy_kept (ar_opt ?a) = copy_kept opt" by (simp add: fun_eq_iff copy_kept_def h split: option.split)
  then have "list_all2 (copy_kept opt mem') srcs out" using o by simp
  moreover have "sorted_wrt refs_disjoint (List.map_filter (\<lambda>r. r) out)"
    using d(6) by (simp add: refs_disjoint_rev del: sorted_wrt_rev)
  moreover have "ar_usedBytes a = int (sum_list (map br_len (List.map_filter (\<lambda>r. r) out)))"
    using d(7) by (simp add: rev_map [symmetric])
  moreover have "\<not> (0 < HardLimitBytes opt \<and> HardLimitBytes opt < ar_usedBytes a)" using d(9) o h by auto
  ultimately show ?thesis by (simp add: e)
qed

end
