(* ===== verification/Skiplist.thy ===== *)
theory Skiplist
  imports Entry_Maps
begin

text \<open>
  The skip list of the memtables, \<^verbatim>\<open>internal/lsm/memtable/skiplist/skiplist.go\<close>, over an explicit
  store: a node is an address, \<^verbatim>\<open>next\<close> a list of addresses, and the head is the node at \<open>0\<close>.
  The walks follow pointers and may run forever on a broken store, so they are partial functions
  whose value \<open>None\<close> means that they do not return; an index out of range or a nil dereference
  is a panic.  The comparator is \<^verbatim>\<open>DefaultCompare\<close>, the order on byte strings.
\<close>

section \<open>The structure\<close>

definition skiplistMaxLevel :: nat where "skiplistMaxLevel = 18"

record skiplistNode =
  sn_key :: bytes
  sn_entry :: entry
  sn_next :: "nat option list"

record SkipList =
  sl_nodes :: "nat \<rightharpoonup> skiplistNode"
  sl_fresh :: nat
  sl_level :: nat
  sl_length :: nat
  sl_rng :: u64

definition newSkiplistRNG :: "u64 \<Rightarrow> u64" where
  "newSkiplistRNG seed = (if seed = 0 then 1 else seed)"

definition rng_next :: "u64 \<Rightarrow> u64" where
  "rng_next state =
     (let x = state; x = x XOR push_bit 13 x; x = x XOR drop_bit 7 x; x = x XOR push_bit 17 x in x)"

definition NewSkipList :: SkipList where
  "NewSkipList =
     \<lparr>sl_nodes = [0 \<mapsto> \<lparr>sn_key = [], sn_entry = zero_entry, sn_next = replicate skiplistMaxLevel None\<rparr>],
      sl_fresh = 1, sl_level = 1, sl_length = 0, sl_rng = newSkiplistRNG 0xdecafbad\<rparr>"

text \<open>Reading and writing through a pointer.\<close>

definition sl_node :: "SkipList \<Rightarrow> nat \<Rightarrow> skiplistNode result" where
  "sl_node s x = (case sl_nodes s x of None \<Rightarrow> Inl PanicNil | Some n \<Rightarrow> Inr n)"

definition sl_next :: "SkipList \<Rightarrow> nat \<Rightarrow> nat \<Rightarrow> nat option result" where
  "sl_next s x i =
     bind_result (sl_node s x) (\<lambda>n. if i < length (sn_next n) then Inr (sn_next n ! i) else Inl PanicBounds)"

definition set_next :: "nat \<Rightarrow> nat \<Rightarrow> nat option \<Rightarrow> SkipList \<Rightarrow> SkipList" where
  "set_next x i v s =
     s\<lparr>sl_nodes := (sl_nodes s)(x := map_option (\<lambda>n. n\<lparr>sn_next := (sn_next n)[i := v]\<rparr>) (sl_nodes s x))\<rparr>"

text \<open>The inner loop of \<^verbatim>\<open>findPrev\<close> at one level, and the loop over the levels.\<close>

partial_function (option) sl_walk :: "SkipList \<Rightarrow> bytes \<Rightarrow> nat \<Rightarrow> nat \<Rightarrow> nat result option" where
  "sl_walk s key i x =
     (case sl_next s x i of
        Inl e \<Rightarrow> Some (Inl e)
      | Inr None \<Rightarrow> Some (Inr x)
      | Inr (Some y) \<Rightarrow>
          (case sl_node s y of
             Inl e \<Rightarrow> Some (Inl e)
           | Inr n \<Rightarrow> if sn_key n < key then sl_walk s key i y else Some (Inr x)))"

fun sl_find ::
  "SkipList \<Rightarrow> bytes \<Rightarrow> nat \<Rightarrow> nat \<Rightarrow> nat option list \<Rightarrow> (nat \<times> nat option list) result option" where
  "sl_find s key 0 x update = Some (Inr (x, update))"
| "sl_find s key (Suc i) x update =
     (case sl_walk s key i x of
        None \<Rightarrow> None
      | Some (Inl e) \<Rightarrow> Some (Inl e)
      | Some (Inr y) \<Rightarrow> sl_find s key i y (update[i := Some y]))"

definition findPrev :: "SkipList \<Rightarrow> bytes \<Rightarrow> (nat \<times> nat option list) result option" where
  "findPrev s key = sl_find s key (sl_level s) 0 (replicate skiplistMaxLevel None)"

text \<open>The node after the found one, when its key is the searched one.\<close>

definition sl_match :: "SkipList \<Rightarrow> bytes \<Rightarrow> nat \<Rightarrow> (nat \<times> skiplistNode) option result" where
  "sl_match s key x =
     bind_result (sl_next s x 0) (\<lambda>y. case y of
        None \<Rightarrow> Inr None
      | Some y \<Rightarrow> bind_result (sl_node s y) (\<lambda>n. Inr (if sn_key n = key then Some (y, n) else None)))"

definition SkipList_Get :: "SkipList \<Rightarrow> bytes \<Rightarrow> entry option result option" where
  "SkipList_Get s key =
     (case findPrev s key of
        None \<Rightarrow> None
      | Some (Inl e) \<Rightarrow> Some (Inl e)
      | Some (Inr (x, _)) \<Rightarrow>
          Some (bind_result (sl_match s key x) (\<lambda>m. Inr (map_option (\<lambda>(y, n). sn_entry n) m))))"

function randomLevel :: "nat \<Rightarrow> u64 \<Rightarrow> nat \<times> u64" where
  "randomLevel level rng =
     (if level < skiplistMaxLevel then
        let rng' = rng_next rng
        in if rng' AND 1 = 1 then randomLevel (Suc level) rng' else (level, rng')
      else (level, rng))"
  by pat_completeness auto
termination by (relation "measure (\<lambda>(level, rng). skiplistMaxLevel - level)") auto

declare randomLevel.simps [simp del]

fun sl_link :: "nat \<Rightarrow> nat option list \<Rightarrow> nat list \<Rightarrow> SkipList \<Rightarrow> SkipList result" where
  "sl_link z update [] s = Inr s"
| "sl_link z update (i # is) s =
     (case update ! i of
        None \<Rightarrow> Inl PanicNil
      | Some u \<Rightarrow>
          bind_result (sl_next s u i) (\<lambda>y. sl_link z update is (set_next u i (Some z) (set_next z i y s))))"

text \<open>A new node: the levels it gets, the update positions above the old level, the links.\<close>

definition sl_insert :: "entry \<Rightarrow> nat option list \<Rightarrow> SkipList \<Rightarrow> SkipList result" where
  "sl_insert entry update s =
     (let (lvl, rng) = randomLevel 1 (sl_rng s);
          update = (if sl_level s < lvl
                    then fold (\<lambda>i u. u[i := Some 0]) [sl_level s..<lvl] update else update);
          z = sl_fresh s;
          node = \<lparr>sn_key = Key entry, sn_entry = entry, sn_next = replicate lvl None\<rparr>
      in sl_link z update [0..<lvl]
           (s\<lparr>sl_rng := rng, sl_level := max (sl_level s) lvl, sl_nodes := (sl_nodes s)(z \<mapsto> node),
              sl_fresh := Suc z, sl_length := Suc (sl_length s)\<rparr>))"

definition Upsert :: "entry \<Rightarrow> SkipList \<Rightarrow> ((bool \<times> entry \<times> bool) \<times> SkipList) result option" where
  "Upsert entry s =
     (case findPrev s (Key entry) of
        None \<Rightarrow> None
      | Some (Inl e) \<Rightarrow> Some (Inl e)
      | Some (Inr (x, update)) \<Rightarrow>
          Some (bind_result (sl_match s (Key entry) x) (\<lambda>m. case m of
             Some (y, n) \<Rightarrow>
               Inr ((False, sn_entry n, True), s\<lparr>sl_nodes := (sl_nodes s)(y \<mapsto> n\<lparr>sn_entry := entry\<rparr>)\<rparr>)
           | None \<Rightarrow>
               bind_result (sl_insert entry update s) (\<lambda>s'. Inr ((True, zero_entry, False), s')))))"

text \<open>
  Iterators are node addresses.  \<open>sl_collect\<close> is the loop of the callers that gather entries up
  to an end key.
\<close>

definition SkipList_Iter :: "SkipList \<Rightarrow> nat" where
  "SkipList_Iter s = 0"

definition IterFrom :: "SkipList \<Rightarrow> bytes \<Rightarrow> nat result option" where
  "IterFrom s start =
     (case findPrev s start of
        None \<Rightarrow> None
      | Some r \<Rightarrow> Some (bind_result r (\<lambda>(x, _). Inr x)))"

definition Iter_Next :: "SkipList \<Rightarrow> nat \<Rightarrow> nat option result" where
  "Iter_Next s x = sl_next s x 0"

definition Iter_Entry :: "SkipList \<Rightarrow> nat \<Rightarrow> entry result" where
  "Iter_Entry s x = bind_result (sl_node s x) (\<lambda>n. Inr (sn_entry n))"

partial_function (option) sl_collect ::
  "SkipList \<Rightarrow> bytes \<Rightarrow> nat \<Rightarrow> entry list \<Rightarrow> entry list result option" where
  "sl_collect s en x entries =
     (case Iter_Next s x of
        Inl e \<Rightarrow> Some (Inl e)
      | Inr None \<Rightarrow> Some (Inr entries)
      | Inr (Some y) \<Rightarrow>
          (case Iter_Entry s y of
             Inl e \<Rightarrow> Some (Inl e)
           | Inr entry \<Rightarrow>
               if en \<noteq> [] \<and> en \<le> Key entry then Some (Inr entries)
               else sl_collect s en y (entries @ [entry])))"

section \<open>Levels as paths\<close>

abbreviation sl_key :: "SkipList \<Rightarrow> nat \<Rightarrow> bytes" where
  "sl_key s x \<equiv> sn_key (the (sl_nodes s x))"

abbreviation sl_height :: "SkipList \<Rightarrow> nat \<Rightarrow> nat" where
  "sl_height s x \<equiv> length (sn_next (the (sl_nodes s x)))"

fun sl_path :: "SkipList \<Rightarrow> nat \<Rightarrow> nat \<Rightarrow> nat list \<Rightarrow> bool" where
  "sl_path s i x [] \<longleftrightarrow> sl_next s x i = Inr None"
| "sl_path s i x (y # ys) \<longleftrightarrow> sl_next s x i = Inr (Some y) \<and> sl_path s i y ys"

lemma sl_path_drop: "sl_path s i x (xs @ y # ys) \<Longrightarrow> sl_path s i y ys"
  by (induction xs arbitrary: x) auto

lemma sl_path_cong:
  "(\<And>y. y \<in> set (x # xs) \<Longrightarrow> sl_next s' y i = sl_next s y i) \<Longrightarrow> sl_path s' i x xs = sl_path s i x xs"
  by (induction xs arbitrary: x) auto

text \<open>Inserting a node after \<open>A\<close>: the last node of \<open>A\<close> points to it and it to the rest.\<close>

lemma sl_path_insert:
  assumes "sl_path s i x (A @ B)" "distinct (x # A @ B)" "z \<notin> set (x # A @ B)"
    and "sl_next s' z i = sl_next s (last (x # A)) i" "sl_next s' (last (x # A)) i = Inr (Some z)"
    and "\<And>y. y \<in> set (x # A @ B) \<Longrightarrow> y \<noteq> last (x # A) \<Longrightarrow> sl_next s' y i = sl_next s y i"
  shows "sl_path s' i x (A @ z # B)"
  using assms
proof (induction A arbitrary: x)
  case Nil
  have "sl_path s' i z B"
  proof (cases B)
    case (Cons b bs)
    have "sl_path s' i b bs = sl_path s i b bs"
      by (rule sl_path_cong) (use Nil Cons in auto)
    with Nil Cons show ?thesis by simp
  qed (use Nil in simp)
  with Nil show ?case by simp
next
  case (Cons a A)
  have "last (x # a # A) = last (a # A)" by simp
  moreover have "x \<noteq> last (a # A)" using Cons.prems(2) last_in_set [of "a # A"] by auto
  ultimately show ?case
    using Cons.prems Cons.IH [of a] Cons.prems(6) [of x] by auto
qed

lemma sl_walk_path:
  assumes "sl_path s i x xs" "\<forall>y \<in> set xs. sl_nodes s y \<noteq> None"
  shows "sl_walk s key i x = Some (Inr (last (x # takeWhile (\<lambda>y. sl_key s y < key) xs)))"
  using assms
proof (induction xs arbitrary: x)
  case Nil
  then show ?case by (simp add: sl_walk.simps)
next
  case (Cons y ys)
  then show ?case by (subst sl_walk.simps) (auto simp: sl_node_def)
qed

lemma sl_collect_path:
  assumes "sl_path s 0 x xs" "\<forall>y \<in> set xs. sl_nodes s y \<noteq> None"
  shows "sl_collect s en x acc =
    Some (Inr (acc @ takeWhile (\<lambda>e. \<not> (en \<noteq> [] \<and> en \<le> Key e)) (map (\<lambda>y. sn_entry (the (sl_nodes s y))) xs)))"
  using assms
proof (induction xs arbitrary: x acc)
  case Nil
  then show ?case by (simp add: sl_collect.simps Iter_Next_def)
next
  case (Cons y ys)
  then show ?case by (subst sl_collect.simps) (auto simp: sl_node_def Iter_Next_def Iter_Entry_def)
qed

section \<open>The invariant\<close>

text \<open>
  \<open>ns\<close> lists the nodes in the order of their keys.  Every level links, from the head, exactly the
  nodes that reach it.
\<close>

definition sl_inv :: "SkipList \<Rightarrow> nat list \<Rightarrow> bool" where
  "sl_inv s ns \<longleftrightarrow>
     distinct (0 # ns) \<and> (\<forall>x \<in> set (0 # ns). x < sl_fresh s \<and> sl_nodes s x \<noteq> None) \<and>
     sl_height s 0 = skiplistMaxLevel \<and>
     (\<forall>x \<in> set ns. 0 < sl_height s x \<and> sl_height s x \<le> sl_level s \<and>
        sl_key s x = Key (sn_entry (the (sl_nodes s x)))) \<and>
     0 < sl_level s \<and> sl_level s \<le> skiplistMaxLevel \<and> sl_length s = length ns \<and>
     sorted_wrt (<) (map (sl_key s) ns) \<and>
     (\<forall>i < skiplistMaxLevel. sl_path s i 0 (filter (\<lambda>x. i < sl_height s x) ns))"

definition sl_holds :: "SkipList \<Rightarrow> entry list \<Rightarrow> bool" where
  "sl_holds s es \<longleftrightarrow> (\<exists>ns. sl_inv s ns \<and> es = map (\<lambda>y. sn_entry (the (sl_nodes s y))) ns)"

lemma sl_holds_New: "sl_holds NewSkipList []"
  unfolding sl_holds_def
  by (intro exI [of _ "[]"]) (simp add: sl_inv_def NewSkipList_def skiplistMaxLevel_def sl_next_def sl_node_def)

lemma takeWhile_filter_sorted:
  fixes f :: "'a \<Rightarrow> bytes"
  assumes "sorted_wrt (<) (map f xs)"
  shows "takeWhile (\<lambda>x. f x < c) (filter q xs) = filter q (takeWhile (\<lambda>x. f x < c) xs)"
  using assms
proof (induction xs)
  case (Cons x xs)
  show ?case
  proof (cases "f x < c")
    case False
    then have "\<forall>y \<in> set xs. \<not> f y < c" using Cons.prems by auto
    then have "\<forall>y \<in> set (filter q xs). \<not> f y < c" by simp
    then have "takeWhile (\<lambda>x. f x < c) (filter q xs) = []" by (cases "filter q xs") simp_all
    with False show ?thesis by simp
  qed (use Cons in simp)
qed simp

lemma sl_invD:
  assumes "sl_inv s ns"
  shows "distinct ns" "0 \<notin> set ns" "\<And>x. x \<in> set ns \<Longrightarrow> sl_nodes s x \<noteq> None" "sl_nodes s 0 \<noteq> None"
    "\<And>x. x \<in> set ns \<Longrightarrow> 0 < sl_height s x" "\<And>x. x \<in> set ns \<Longrightarrow> sl_height s x \<le> sl_level s"
    "\<And>x. x \<in> set ns \<Longrightarrow> sl_key s x = Key (sn_entry (the (sl_nodes s x)))"
    "sorted_wrt (<) (map (sl_key s) ns)" "0 < sl_level s" "sl_level s \<le> skiplistMaxLevel"
    "\<And>i. i < skiplistMaxLevel \<Longrightarrow> sl_path s i 0 (filter (\<lambda>x. i < sl_height s x) ns)"
    "sl_height s 0 = skiplistMaxLevel" "sl_length s = length ns"
    "\<And>x. x \<in> set (0 # ns) \<Longrightarrow> x < sl_fresh s"
  using assms by (auto simp: sl_inv_def)

abbreviation sl_before :: "SkipList \<Rightarrow> bytes \<Rightarrow> nat list \<Rightarrow> nat list" where
  "sl_before s key ns \<equiv> takeWhile (\<lambda>x. sl_key s x < key) ns"

text \<open>At every level the walk stops at the last node of that level with a smaller key.\<close>

lemma sl_walk_level:
  assumes inv: "sl_inv s ns" and j: "j < skiplistMaxLevel"
  shows "sl_walk s key j (last (0 # filter (\<lambda>x. Suc j < sl_height s x) (sl_before s key ns))) =
    Some (Inr (last (0 # filter (\<lambda>x. j < sl_height s x) (sl_before s key ns))))"
proof -
  let ?L = "filter (\<lambda>x. j < sl_height s x) ns" and ?P = "sl_before s key ns"
  note d = sl_invD [OF inv]
  have path: "sl_path s j 0 ?L" by (rule d(11) [OF j])
  have tw: "takeWhile (\<lambda>x. sl_key s x < key) ?L = filter (\<lambda>x. j < sl_height s x) ?P"
    by (rule takeWhile_filter_sorted [OF d(8)])
  show ?thesis
  proof (cases "filter (\<lambda>x. Suc j < sl_height s x) ?P = []")
    case True
    with sl_walk_path [OF path, of key] d(3) tw show ?thesis by simp
  next
    case False
    define x where "x = last (filter (\<lambda>x. Suc j < sl_height s x) ?P)"
    have "x \<in> set (filter (\<lambda>x. Suc j < sl_height s x) ?P)" unfolding x_def by (rule last_in_set [OF False])
    then have x: "x \<in> set ?L" "sl_key s x < key" by (auto dest: set_takeWhileD)
    obtain A B where L: "?L = A @ x # B" using x(1) by (meson split_list)
    have "sorted_wrt (<) (map (sl_key s) ?L)"
      using d(8) by (simp add: sorted_wrt_map sorted_wrt_filter)
    then have "\<forall>a \<in> set A. sl_key s a < sl_key s x" unfolding L by (auto simp: sorted_wrt_append)
    then have A: "\<forall>a \<in> set A. sl_key s a < key" using x(2) by fastforce
    have "takeWhile (\<lambda>x. sl_key s x < key) ?L = A @ x # takeWhile (\<lambda>x. sl_key s x < key) B"
      unfolding L using A x(2) by (simp add: takeWhile_append2)
    moreover have "set B \<subseteq> set ns" using L by (metis Un_iff filter_is_subset insert_iff list.simps(15)
        set_append subset_iff)
    then have "sl_walk s key j x = Some (Inr (last (x # takeWhile (\<lambda>y. sl_key s y < key) B)))"
      using d(3) path unfolding L by (intro sl_walk_path) (auto dest: sl_path_drop)
    ultimately show ?thesis using False tw by (simp add: x_def)
  qed
qed

lemma sl_find_ok:
  assumes inv: "sl_inv s ns" and "i \<le> skiplistMaxLevel" "length upd = skiplistMaxLevel"
  shows "\<exists>upd'. sl_find s key i (last (0 # filter (\<lambda>x. i < sl_height s x) (sl_before s key ns))) upd =
      Some (Inr (last (0 # sl_before s key ns), upd')) \<and> length upd' = skiplistMaxLevel \<and>
    (\<forall>j < i. upd' ! j = Some (last (0 # filter (\<lambda>x. j < sl_height s x) (sl_before s key ns)))) \<and>
    (\<forall>j. i \<le> j \<longrightarrow> upd' ! j = upd ! j)"
  using assms(2,3)
proof (induction i arbitrary: upd)
  case 0
  have "filter (\<lambda>x. 0 < sl_height s x) (sl_before s key ns) = sl_before s key ns"
    using sl_invD(5) [OF inv] by (auto simp: filter_id_conv dest: set_takeWhileD)
  with 0 show ?case by simp
next
  case (Suc i)
  let ?u = "last (0 # filter (\<lambda>x. i < sl_height s x) (sl_before s key ns))"
  have "length (upd[i := Some ?u]) = skiplistMaxLevel" using Suc.prems(2) by simp
  from Suc.IH [OF _ this] Suc.prems obtain upd' where u:
    "sl_find s key i ?u (upd[i := Some ?u]) = Some (Inr (last (0 # sl_before s key ns), upd'))"
    "length upd' = skiplistMaxLevel"
    "\<forall>j < i. upd' ! j = Some (last (0 # filter (\<lambda>x. j < sl_height s x) (sl_before s key ns)))"
    "\<forall>j. i \<le> j \<longrightarrow> upd' ! j = upd[i := Some ?u] ! j" by auto
  have "sl_walk s key i (last (0 # filter (\<lambda>x. Suc i < sl_height s x) (sl_before s key ns))) = Some (Inr ?u)"
    by (rule sl_walk_level [OF inv]) (use Suc.prems in simp)
  with u Suc.prems show ?case
    by (intro exI [of _ upd']) (auto simp: less_Suc_eq nth_list_update)
qed

lemma findPrev_ok:
  assumes inv: "sl_inv s ns"
  obtains upd where "findPrev s key = Some (Inr (last (0 # sl_before s key ns), upd))"
    "length upd = skiplistMaxLevel"
    "\<And>j. j < sl_level s \<Longrightarrow>
       upd ! j = Some (last (0 # filter (\<lambda>x. j < sl_height s x) (sl_before s key ns)))"
proof -
  have "filter (\<lambda>x. sl_level s < sl_height s x) (sl_before s key ns) = []"
    using sl_invD(6) [OF inv] by (fastforce simp: filter_empty_conv dest: set_takeWhileD)
  with sl_find_ok [OF inv sl_invD(10) [OF inv], of "replicate skiplistMaxLevel None" key] that show ?thesis
    by (auto simp: findPrev_def)
qed

section \<open>Lookup\<close>

lemma sl_path_next:
  "sl_path s i x (A @ B) \<Longrightarrow> sl_next s (last (x # A)) i = Inr (case B of [] \<Rightarrow> None | b # _ \<Rightarrow> Some b)"
  by (induction A arbitrary: x) (auto split: list.splits)

abbreviation sl_after :: "SkipList \<Rightarrow> bytes \<Rightarrow> nat list \<Rightarrow> nat list" where
  "sl_after s key ns \<equiv> dropWhile (\<lambda>x. sl_key s x < key) ns"

abbreviation sl_entry :: "SkipList \<Rightarrow> nat \<Rightarrow> entry" where
  "sl_entry s x \<equiv> sn_entry (the (sl_nodes s x))"

lemma sl_path_bottom: "sl_inv s ns \<Longrightarrow> sl_path s 0 0 ns"
proof -
  assume inv: "sl_inv s ns"
  have "filter (\<lambda>x. 0 < sl_height s x) ns = ns" using sl_invD(5) [OF inv] by (simp add: filter_id_conv)
  with sl_invD(11) [OF inv, of 0] show ?thesis by (simp add: skiplistMaxLevel_def)
qed

lemma sl_match_ok:
  assumes inv: "sl_inv s ns"
  shows "sl_match s key (last (0 # sl_before s key ns)) =
    Inr (case sl_after s key ns of [] \<Rightarrow> None
         | y # _ \<Rightarrow> if sl_key s y = key then Some (y, the (sl_nodes s y)) else None)"
proof -
  have "sl_path s 0 0 (sl_before s key ns @ sl_after s key ns)" using sl_path_bottom [OF inv] by simp
  note nx = sl_path_next [OF this]
  show ?thesis
  proof (cases "sl_after s key ns")
    case Nil
    then show ?thesis unfolding sl_match_def nx by (simp del: dropWhile_eq_Nil_conv)
  next
    case (Cons y ys)
    then have "sl_nodes s y \<noteq> None"
      using sl_invD(3) [OF inv] set_dropWhileD [of y "\<lambda>x. sl_key s x < key" ns] by auto
    with Cons show ?thesis unfolding sl_match_def nx by (auto simp: sl_node_def)
  qed
qed

lemma sl_entries_sorted:
  assumes "sl_inv s ns"
  shows "entry_keys_sorted (map (sl_entry s) ns)"
proof -
  have "map (Key \<circ> sl_entry s) ns = map (sl_key s) ns" using sl_invD(7) [OF assms] by auto
  then show ?thesis using sl_invD(8) [OF assms] unfolding entry_keys_sorted_def map_map by (simp only:)
qed

lemma sl_holds_sorted: "sl_holds s es \<Longrightarrow> entry_keys_sorted es"
  using sl_entries_sorted by (auto simp: sl_holds_def)

text \<open>The entries before and from a key, as the nodes before and after it.\<close>

lemma map_before:
  assumes inv: "sl_inv s ns"
  shows "takeWhile (\<lambda>e. Key e < key) (map (sl_entry s) ns) = map (sl_entry s) (sl_before s key ns)"
    and "dropWhile (\<lambda>e. Key e < key) (map (sl_entry s) ns) = map (sl_entry s) (sl_after s key ns)"
proof -
  have "takeWhile (\<lambda>x. Key (sl_entry s x) < key) ns = sl_before s key ns"
    "dropWhile (\<lambda>x. Key (sl_entry s x) < key) ns = sl_after s key ns"
    using sl_invD(7) [OF inv] by (simp_all cong: takeWhile_cong dropWhile_cong)
  then show "takeWhile (\<lambda>e. Key e < key) (map (sl_entry s) ns) = map (sl_entry s) (sl_before s key ns)"
    "dropWhile (\<lambda>e. Key e < key) (map (sl_entry s) ns) = map (sl_entry s) (sl_after s key ns)"
    by (simp_all add: takeWhile_map dropWhile_map comp_def)
qed

lemma lookup_dropWhile:
  assumes "entry_keys_sorted es"
  shows "lookup k es = (case dropWhile (\<lambda>e. Key e < k) es of [] \<Rightarrow> None
     | e # _ \<Rightarrow> if Key e = k then Some e else None)"
  using assms
proof (induction es)
  case (Cons e es)
  show ?case
  proof (cases "Key e < k")
    case False
    then have "lookup k es = None" if "Key e \<noteq> k" using that Cons.prems by (auto simp: lookup_None_iff)
    with False show ?thesis by simp
  qed (use Cons in auto)
qed simp

lemma sl_lookup:
  assumes inv: "sl_inv s ns"
  shows "lookup key (map (sl_entry s) ns) =
    (case sl_after s key ns of [] \<Rightarrow> None | y # _ \<Rightarrow> if sl_key s y = key then Some (sl_entry s y) else None)"
proof -
  have "sl_key s y = Key (sl_entry s y)" if "sl_after s key ns = y # ys" for y ys
    using that sl_invD(7) [OF inv] set_dropWhileD [of y "\<lambda>x. sl_key s x < key" ns] by auto
  then show ?thesis
    unfolding lookup_dropWhile [OF sl_entries_sorted [OF inv]] map_before(2) [OF inv]
    by (cases "sl_after s key ns") (auto simp del: dropWhile_eq_Nil_conv)
qed

lemma SkipList_Get_ok:
  assumes "sl_holds s es"
  shows "SkipList_Get s key = Some (Inr (lookup key es))"
proof -
  obtain ns where inv: "sl_inv s ns" and es: "es = map (sl_entry s) ns" using assms by (auto simp: sl_holds_def)
  obtain upd where "findPrev s key = Some (Inr (last (0 # sl_before s key ns), upd))"
    by (rule findPrev_ok [OF inv])
  then show ?thesis
    unfolding SkipList_Get_def es sl_lookup [OF inv]
    by (simp only: option.case sum.case prod.case sl_match_ok [OF inv] bind_result_simps)
       (simp split: list.split del: dropWhile_eq_Nil_conv)
qed

lemma sl_range_ok:
  assumes "sl_holds s es"
  shows "\<exists>x. IterFrom s start = Some (Inr x) \<and>
    sl_collect s en x [] = Some (Inr (range_entries start en es))"
proof -
  obtain ns where inv: "sl_inv s ns" and es: "es = map (sl_entry s) ns" using assms by (auto simp: sl_holds_def)
  let ?x = "last (0 # sl_before s start ns)"
  obtain upd where f: "findPrev s start = Some (Inr (?x, upd))" by (rule findPrev_ok [OF inv])
  have path: "sl_path s 0 0 (sl_before s start ns @ sl_after s start ns)" using sl_path_bottom [OF inv] by simp
  have "sl_path s 0 ?x (sl_after s start ns)"
  proof (cases "sl_before s start ns" rule: rev_cases)
    case (snoc xs x)
    with path sl_path_drop [of s 0 0 xs x] show ?thesis by simp
  qed (use path in simp)
  moreover have "\<forall>y \<in> set (sl_after s start ns). sl_nodes s y \<noteq> None"
    using sl_invD(3) [OF inv] by (auto dest: set_dropWhileD)
  ultimately have "sl_collect s en ?x [] = Some (Inr (takeWhile (\<lambda>e. \<not> (en \<noteq> [] \<and> en \<le> Key e))
      (dropWhile (\<lambda>e. Key e < start) es)))"
    by (simp add: sl_collect_path es map_before(2) [OF inv])
  also have "takeWhile (\<lambda>e. \<not> (en \<noteq> [] \<and> en \<le> Key e)) (dropWhile (\<lambda>e. Key e < start) es) = range_entries start en es"
    using sl_holds_sorted [OF assms] entry_keys_sorted_filter [of es "\<lambda>e. start \<le> Key e"]
    by (cases "en = []")
       (simp_all add: dropWhile_less_sorted range_entries_def in_range_def not_le takeWhile_less_sorted conj_commute)
  finally show ?thesis using f by (simp add: IterFrom_def)
qed

section \<open>Insertion\<close>

definition node_view :: "SkipList \<Rightarrow> nat \<Rightarrow> (bytes \<times> entry \<times> nat) option" where
  "node_view s x = map_option (\<lambda>n. (sn_key n, sn_entry n, length (sn_next n))) (sl_nodes s x)"

definition same_shape :: "SkipList \<Rightarrow> SkipList \<Rightarrow> bool" where
  "same_shape s s' \<longleftrightarrow> (\<forall>x. node_view s' x = node_view s x) \<and> sl_fresh s' = sl_fresh s \<and>
     sl_level s' = sl_level s \<and> sl_length s' = sl_length s"

lemma same_shape_refl: "same_shape s s"
  by (simp add: same_shape_def)

lemma same_shape_trans: "same_shape s s' \<Longrightarrow> same_shape s' s'' \<Longrightarrow> same_shape s s''"
  by (simp add: same_shape_def)

lemma node_view_SomeD:
  assumes "node_view s' x = node_view s x" "sl_nodes s x \<noteq> None"
  shows "sl_nodes s' x \<noteq> None" "sl_key s' x = sl_key s x" "sl_entry s' x = sl_entry s x"
    "sl_height s' x = sl_height s x"
proof -
  from assms(2) obtain n where n: "sl_nodes s x = Some n" by blast
  with assms(1) obtain n' where "sl_nodes s' x = Some n'" "sn_key n' = sn_key n" "sn_entry n' = sn_entry n"
    "length (sn_next n') = length (sn_next n)"
    by (cases "sl_nodes s' x") (simp_all add: node_view_def)
  with n show "sl_nodes s' x \<noteq> None" "sl_key s' x = sl_key s x" "sl_entry s' x = sl_entry s x"
    "sl_height s' x = sl_height s x" by simp_all
qed

lemma same_shapeD:
  assumes "same_shape s s'"
  shows "sl_nodes s x \<noteq> None \<Longrightarrow> sl_nodes s' x \<noteq> None" "sl_nodes s x \<noteq> None \<Longrightarrow> sl_key s' x = sl_key s x"
    "sl_nodes s x \<noteq> None \<Longrightarrow> sl_entry s' x = sl_entry s x" "sl_nodes s x \<noteq> None \<Longrightarrow> sl_height s' x = sl_height s x"
    "sl_fresh s' = sl_fresh s" "sl_level s' = sl_level s" "sl_length s' = sl_length s"
  using assms node_view_SomeD [of s' x s] unfolding same_shape_def by blast+

lemma same_shape_set_next: "same_shape s (set_next x i v s)"
proof -
  have "node_view (set_next x i v s) y = node_view s y" for y
    by (cases "sl_nodes s y") (auto simp: node_view_def set_next_def)
  then show ?thesis by (simp add: same_shape_def set_next_def)
qed

lemma sl_next_set_next:
  assumes "sl_nodes s x \<noteq> None" "i < sl_height s x"
  shows "sl_next (set_next x i v s) y j = (if y = x \<and> j = i then Inr v else sl_next s y j)"
  using assms by (auto simp: sl_next_def sl_node_def set_next_def nth_list_update)

lemma sl_link_ok:
  assumes "sl_nodes s z \<noteq> None" "\<forall>i \<in> set is. i < sl_height s z" "distinct is"
    and "\<forall>i \<in> set is. upd ! i = Some (u i) \<and> u i \<noteq> z \<and> sl_nodes s (u i) \<noteq> None \<and> i < sl_height s (u i)"
  shows "\<exists>s'. sl_link z upd is s = Inr s' \<and> same_shape s s' \<and>
    (\<forall>x i. sl_next s' x i =
       (if i \<in> set is \<and> x = z then sl_next s (u i) i
        else if i \<in> set is \<and> x = u i then Inr (Some z) else sl_next s x i))"
  using assms
proof (induction "is" arbitrary: s)
  case (Cons i js)
  have i: "upd ! i = Some (u i)" "u i \<noteq> z" "sl_nodes s (u i) \<noteq> None" "i < sl_height s (u i)"
    "i < sl_height s z" "i \<notin> set js" using Cons.prems by auto
  obtain y where y: "sl_next s (u i) i = Inr y" using i by (auto simp: sl_next_def sl_node_def)
  let ?s0 = "set_next z i y s"
  let ?s1 = "set_next (u i) i (Some z) ?s0"
  have shape: "same_shape s ?s1" by (rule same_shape_trans [OF same_shape_set_next same_shape_set_next])
  note sh = same_shapeD [OF shape]
  have h0: "sl_nodes ?s0 (u i) \<noteq> None" "i < sl_height ?s0 (u i)"
    using same_shapeD(1,4) [OF same_shape_set_next, where x = "u i"] i by auto
  have nx: "sl_next ?s1 x j = (if j = i then if x = u i then Inr (Some z) else if x = z then Inr y
      else sl_next s x j else sl_next s x j)" for x j
    using sl_next_set_next [OF h0, of "Some z" x j] sl_next_set_next [OF Cons.prems(1) i(5), of y x j] by auto
  have "\<exists>s'. sl_link z upd js ?s1 = Inr s' \<and> same_shape ?s1 s' \<and>
    (\<forall>x k. sl_next s' x k =
       (if k \<in> set js \<and> x = z then sl_next ?s1 (u k) k
        else if k \<in> set js \<and> x = u k then Inr (Some z) else sl_next ?s1 x k))"
  proof (rule Cons.IH)
    show "sl_nodes ?s1 z \<noteq> None" using sh(1) Cons.prems(1) by simp
    show "\<forall>k \<in> set js. k < sl_height ?s1 z" using sh(4) [OF Cons.prems(1)] Cons.prems(2) by simp
    show "distinct js" using Cons.prems(3) by simp
    show "\<forall>k \<in> set js. upd ! k = Some (u k) \<and> u k \<noteq> z \<and> sl_nodes ?s1 (u k) \<noteq> None \<and> k < sl_height ?s1 (u k)"
      using Cons.prems(4) sh(1,4) by (metis list.set_intros(2))
  qed
  then obtain s' where s': "sl_link z upd js ?s1 = Inr s'" "same_shape ?s1 s'"
    "\<And>x k. sl_next s' x k =
       (if k \<in> set js \<and> x = z then sl_next ?s1 (u k) k
        else if k \<in> set js \<and> x = u k then Inr (Some z) else sl_next ?s1 x k)"
    by blast
  have "sl_link z upd (i # js) s = Inr s'" using s'(1) i(1) y by simp
  moreover have "sl_next s' x k =
       (if k \<in> set (i # js) \<and> x = z then sl_next s (u k) k
        else if k \<in> set (i # js) \<and> x = u k then Inr (Some z) else sl_next s x k)" for x k
    unfolding s'(3) nx using i(2,6) y by auto
  ultimately show ?case using same_shape_trans [OF shape s'(2)] by blast
qed (simp add: same_shape_refl)

lemma randomLevel_bounds: "0 < l \<Longrightarrow> l \<le> skiplistMaxLevel \<Longrightarrow>
    l \<le> fst (randomLevel l rng) \<and> fst (randomLevel l rng) \<le> skiplistMaxLevel"
proof (induction l rng rule: randomLevel.induct)
  case (1 l rng)
  then show ?case by (subst (1 2) randomLevel.simps) (auto simp: Let_def)
qed

lemma fold_set_head:
  "j < length upd \<Longrightarrow> fold (\<lambda>i u. u[i := Some 0]) [a..<b] upd ! j = (if a \<le> j \<and> j < b then Some (0 :: nat) else upd ! j)"
proof (induction b)
  case (Suc b)
  have "length (fold (\<lambda>i u. u[i := Some 0]) is upd) = length upd" for "is"
    by (induction "is" arbitrary: upd) auto
  note len = this [of "[a..<b]"]
  show ?case
  proof (cases "a \<le> b")
    case True
    with Suc len show ?thesis by (cases "j = b") auto
  qed (use Suc in auto)
qed simp

text \<open>The state after a new node: it stands between the smaller and the larger keys at each of its levels.\<close>

lemma sl_inv_insert:
  assumes inv: "sl_inv s (P @ Q)" and lvl: "0 < lvl" "lvl \<le> skiplistMaxLevel" and z: "z = sl_fresh s"
    and keys: "\<forall>x \<in> set P. sl_key s x < Key e" "\<forall>x \<in> set Q. Key e < sl_key s x"
    and s0: "s0 = s\<lparr>sl_rng := rng, sl_level := max (sl_level s) lvl,
        sl_nodes := (sl_nodes s)(z \<mapsto> \<lparr>sn_key = Key e, sn_entry = e, sn_next = replicate lvl None\<rparr>),
        sl_fresh := Suc z, sl_length := Suc (sl_length s)\<rparr>"
    and u: "\<And>i. i < lvl \<Longrightarrow> u i = last (0 # filter (\<lambda>x. i < sl_height s x) P)"
    and shape: "same_shape s0 s'"
    and nx: "\<And>x i. sl_next s' x i =
       (if i < lvl \<and> x = z then sl_next s0 (u i) i
        else if i < lvl \<and> x = u i then Inr (Some z) else sl_next s0 x i)"
  shows "sl_inv s' (P @ z # Q)" "map (sl_entry s') (P @ z # Q) = map (sl_entry s) P @ e # map (sl_entry s) Q"
proof -
  note d = sl_invD [OF inv]
  have new: "z \<notin> set (0 # P @ Q)" using d(14) z by blast
  have old: "sl_nodes s' x \<noteq> None" "sl_key s' x = sl_key s x" "sl_entry s' x = sl_entry s x"
    "sl_height s' x = sl_height s x" "sl_next s0 x i = sl_next s x i" "x < sl_fresh s'" if "x \<in> set (0 # P @ Q)" for x i
  proof -
    have "x \<noteq> z" using that new by blast
    moreover have "sl_nodes s x \<noteq> None" using that d(3,4) by (cases "x = 0") auto
    ultimately have s0x: "sl_nodes s0 x = sl_nodes s x" "sl_nodes s0 x \<noteq> None" by (simp_all add: s0)
    show "sl_nodes s' x \<noteq> None" "sl_key s' x = sl_key s x" "sl_entry s' x = sl_entry s x"
      "sl_height s' x = sl_height s x"
      using same_shapeD(1-4) [OF shape s0x(2)] s0x(1) by simp_all
    show "sl_next s0 x i = sl_next s x i" by (simp add: sl_next_def sl_node_def s0x(1))
    show "x < sl_fresh s'" using same_shapeD(5) [OF shape] d(14) [OF that] z by (simp add: s0)
  qed
  have zz: "sl_nodes s0 z = Some \<lparr>sn_key = Key e, sn_entry = e, sn_next = replicate lvl None\<rparr>"
    by (simp add: s0)
  have newz: "sl_nodes s' z \<noteq> None" "sl_key s' z = Key e" "sl_entry s' z = e" "sl_height s' z = lvl"
    using same_shapeD(1-4) [OF shape, of z] zz by simp_all
  have rest: "sl_fresh s' = Suc z" "sl_level s' = max (sl_level s) lvl" "sl_length s' = Suc (length (P @ Q))"
    using same_shapeD(5-7) [OF shape] d(13) by (simp_all add: s0)
  have filt: "filter (\<lambda>x. i < sl_height s' x) xs = filter (\<lambda>x. i < sl_height s x) xs" if "set xs \<subseteq> set (P @ Q)" for i xs
    using that old(4) by (intro filter_cong) auto
  have path: "sl_path s' i 0 (filter (\<lambda>x. i < sl_height s' x) (P @ z # Q))" if i: "i < skiplistMaxLevel" for i
  proof -
    let ?A = "filter (\<lambda>x. i < sl_height s x) P" and ?B = "filter (\<lambda>x. i < sl_height s x) Q"
    have p: "sl_path s i 0 (?A @ ?B)" using d(11) [OF i] by simp
    have sub: "set (0 # ?A @ ?B) \<subseteq> set (0 # P @ Q)" by auto
    have dist: "distinct (0 # ?A @ ?B)" using d(1,2) by auto
    have nz: "z \<notin> set (0 # ?A @ ?B)" using new sub by blast
    show ?thesis
    proof (cases "i < lvl")
      case True
      have mem: "last (0 # ?A) \<in> set (0 # ?A @ ?B)" using last_in_set [of "0 # ?A"] by auto
      have "sl_path s' i 0 (?A @ z # ?B)"
        by (rule sl_path_insert [OF p dist nz])
           (use nx u [OF True] True mem sub nz old(5) in \<open>auto simp del: last.simps\<close>)
      with True show ?thesis using newz(4) filt [of P i] filt [of Q i] by simp
    next
      case False
      have "sl_path s' i 0 (?A @ ?B) = sl_path s i 0 (?A @ ?B)"
        by (rule sl_path_cong) (use nx False sub old(5) in auto)
      with False p show ?thesis using newz(4) filt [of P i] filt [of Q i] by simp
    qed
  qed
  show "map (sl_entry s') (P @ z # Q) = map (sl_entry s) P @ e # map (sl_entry s) Q"
    using old(3) newz(3) by simp
  have "sorted_wrt (<) (map (sl_key s') (P @ z # Q))"
  proof -
    have eq: "map (sl_key s') (P @ z # Q) = map (sl_key s) P @ Key e # map (sl_key s) Q"
      using old(2) newz(2) by simp
    show ?thesis unfolding eq using d(8) keys by (auto simp: sorted_wrt_append)
  qed
  moreover have "0 < sl_height s' x \<and> sl_height s' x \<le> sl_level s' \<and> sl_key s' x = Key (sl_entry s' x)"
    if "x \<in> set (P @ z # Q)" for x
  proof (cases "x = z")
    case False
    then have x: "x \<in> set (0 # P @ Q)" "x \<in> set (P @ Q)" using that by auto
    show ?thesis
      unfolding old(2-4) [OF x(1)] rest(2) using d(5-7) [OF x(2)] by (simp add: le_max_iff_disj)
  qed (use newz rest(2) lvl in simp)
  moreover have "x < sl_fresh s' \<and> sl_nodes s' x \<noteq> None" if "x \<in> set (0 # P @ z # Q)" for x
    using that old(1,6) [of x] newz(1) rest(1) by (cases "x = z") auto
  moreover have "distinct (0 # P @ z # Q)" using d(1,2) new by auto
  moreover have "sl_height s' 0 = skiplistMaxLevel" using old(4) [of 0] d(12) by simp
  ultimately show "sl_inv s' (P @ z # Q)"
    unfolding sl_inv_def using path d(9,10) rest(2,3) lvl by simp
qed

lemma sl_inv_replace:
  assumes inv: "sl_inv s ns" and y: "y \<in> set ns" "sl_key s y = Key e"
    and s': "s' = s\<lparr>sl_nodes := (sl_nodes s)(y \<mapsto> (the (sl_nodes s y))\<lparr>sn_entry := e\<rparr>)\<rparr>"
  shows "sl_inv s' ns" "map (sl_entry s') ns = map (\<lambda>x. if x = y then e else sl_entry s x) ns"
proof -
  note d = sl_invD [OF inv]
  have nx: "sl_next s' x i = sl_next s x i" for x i
    using d(3) [OF y(1)] by (auto simp: sl_next_def sl_node_def s')
  have path: "sl_path s' i x xs = sl_path s i x xs" for i x xs by (rule sl_path_cong) (rule nx)
  have eq: "sl_height s' x = sl_height s x" "sl_key s' x = sl_key s x" for x by (simp_all add: s')
  have ent: "sl_entry s' x = (if x = y then e else sl_entry s x)" for x by (simp add: s')
  have nodes: "sl_nodes s' x \<noteq> None \<longleftrightarrow> sl_nodes s x \<noteq> None" for x using d(3) [OF y(1)] by (simp add: s')
  show "sl_inv s' ns"
    using inv unfolding sl_inv_def path eq nodes ent using y(2) by (auto simp: s')
  show "map (sl_entry s') ns = map (\<lambda>x. if x = y then e else sl_entry s x) ns" by (simp add: ent)
qed

lemma sl_insert_ok:
  assumes inv: "sl_inv s (P @ Q)" and lenu: "length upd = skiplistMaxLevel"
    and upd: "\<And>j. j < sl_level s \<Longrightarrow> upd ! j = Some (last (0 # filter (\<lambda>x. j < sl_height s x) P))"
    and keys: "\<forall>x \<in> set P. sl_key s x < Key e" "\<forall>x \<in> set Q. Key e < sl_key s x"
  shows "\<exists>s' z. sl_insert e upd s = Inr s' \<and> sl_inv s' (P @ z # Q) \<and>
    map (sl_entry s') (P @ z # Q) = map (sl_entry s) P @ e # map (sl_entry s) Q"
proof -
  note d = sl_invD [OF inv]
  obtain lvl rng where r: "randomLevel 1 (sl_rng s) = (lvl, rng)" by (cases "randomLevel 1 (sl_rng s)")
  have lvl: "0 < lvl" "lvl \<le> skiplistMaxLevel"
    using randomLevel_bounds [of 1 "sl_rng s"] r by (simp_all add: skiplistMaxLevel_def)
  define u where "u = (\<lambda>i. last (0 # filter (\<lambda>x. i < sl_height s x) P))"
  define upd' where "upd' = (if sl_level s < lvl then fold (\<lambda>i u. u[i := Some 0]) [sl_level s..<lvl] upd else upd)"
  define z where "z = sl_fresh s"
  define s0 where "s0 = s\<lparr>sl_rng := rng, sl_level := max (sl_level s) lvl,
        sl_nodes := (sl_nodes s)(z \<mapsto> \<lparr>sn_key = Key e, sn_entry = e, sn_next = replicate lvl None\<rparr>),
        sl_fresh := Suc z, sl_length := Suc (sl_length s)\<rparr>"
  have mem: "u i \<in> set (0 # P @ Q)" for i
    using last_in_set [of "0 # filter (\<lambda>x. i < sl_height s x) P"] unfolding u_def by auto
  have high: "i < sl_height s (u i)" if "i < skiplistMaxLevel" for i
    using last_in_set [of "filter (\<lambda>x. i < sl_height s x) P"] that d(12)
    by (cases "filter (\<lambda>x. i < sl_height s x) P = []") (auto simp: u_def)
  have up: "upd' ! i = Some (u i)" if "i < lvl" for i
  proof (cases "i < sl_level s")
    case False
    have "x \<in> set P \<Longrightarrow> \<not> i < sl_height s x" for x using d(6) [of x] False by simp
    then have "filter (\<lambda>x. i < sl_height s x) P = []" by (simp add: filter_empty_conv)
    with False that lvl lenu show ?thesis by (simp add: upd'_def u_def fold_set_head)
  qed (use that lvl lenu upd in \<open>simp add: upd'_def u_def fold_set_head\<close>)
  have "\<forall>i \<in> set [0..<lvl]. upd' ! i = Some (u i) \<and> u i \<noteq> z \<and> sl_nodes s0 (u i) \<noteq> None \<and> i < sl_height s0 (u i)"
  proof
    fix i assume "i \<in> set [0..<lvl]"
    then have i: "i < lvl" by simp
    have "u i \<noteq> z" using mem [of i] d(14) [of "u i"] by (auto simp: z_def)
    moreover have "sl_nodes s (u i) \<noteq> None" using mem [of i] d(3,4) by (cases "u i = 0") auto
    ultimately show "upd' ! i = Some (u i) \<and> u i \<noteq> z \<and> sl_nodes s0 (u i) \<noteq> None \<and> i < sl_height s0 (u i)"
      using up [OF i] high [of i] i lvl by (simp add: s0_def)
  qed
  from sl_link_ok [OF _ _ _ this] obtain s' where s': "sl_link z upd' [0..<lvl] s0 = Inr s'" "same_shape s0 s'"
    "\<And>x i. sl_next s' x i =
       (if i < lvl \<and> x = z then sl_next s0 (u i) i
        else if i < lvl \<and> x = u i then Inr (Some z) else sl_next s0 x i)"
    by (auto simp: s0_def)
  have "sl_insert e upd s = Inr s'"
    using s'(1) r by (simp add: sl_insert_def Let_def upd'_def s0_def z_def)
  moreover note sl_inv_insert [OF inv lvl z_def keys s0_def _ s'(2,3)]
  ultimately show ?thesis unfolding u_def by blast
qed

lemma Upsert_ok:
  assumes "sl_holds s es"
  shows "\<exists>s'. Upsert e s =
      Some (Inr (case lookup (Key e) es of None \<Rightarrow> ((True, zero_entry, False), s')
                 | Some prev \<Rightarrow> ((False, prev, True), s'))) \<and>
    sl_holds s' (upsert e es)"
proof -
  obtain ns where inv: "sl_inv s ns" and es: "es = map (sl_entry s) ns" using assms by (auto simp: sl_holds_def)
  note d = sl_invD [OF inv]
  define P where "P = sl_before s (Key e) ns"
  define Q where "Q = sl_after s (Key e) ns"
  have ns: "ns = P @ Q" by (simp add: P_def Q_def)
  have P: "\<forall>x \<in> set P. sl_key s x < Key e" by (auto simp: P_def dest: set_takeWhileD)
  obtain upd where f: "findPrev s (Key e) = Some (Inr (last (0 # P), upd))" "length upd = skiplistMaxLevel"
    "\<And>j. j < sl_level s \<Longrightarrow> upd ! j = Some (last (0 # filter (\<lambda>x. j < sl_height s x) P))"
    using findPrev_ok [OF inv, of "Key e"] unfolding P_def by blast
  note m = sl_match_ok [OF inv, of "Key e", folded P_def Q_def]
  note l = sl_lookup [OF inv, of "Key e", folded Q_def es]
  have keyE: "Key (sl_entry s x) = sl_key s x" if "x \<in> set ns" for x using d(7) [OF that] by simp
  have sortQ: "sorted_wrt (<) (map (sl_key s) Q)" using d(8) by (simp add: ns sorted_wrt_append)
  show ?thesis
  proof (cases "\<exists>y ys. Q = y # ys \<and> sl_key s y = Key e")
    case True
    then obtain y ys where y: "Q = y # ys" "sl_key s y = Key e" by blast
    define s' where "s' = s\<lparr>sl_nodes := (sl_nodes s)(y \<mapsto> (the (sl_nodes s y))\<lparr>sn_entry := e\<rparr>)\<rparr>"
    have mem: "y \<in> set ns" by (simp add: ns y)
    note r = sl_inv_replace [OF inv mem y(2) s'_def]
    have "map (\<lambda>x. if x = y then e else sl_entry s x) ns = map (sl_entry s) P @ e # map (sl_entry s) ys"
      using d(1) by (auto simp: ns y)
    also have "\<dots> = upsert e es"
      unfolding es ns y(1) map_append list.map
      using P sortQ y keyE by (intro upsert_split(2) [symmetric]) (auto simp: ns)
    finally have "sl_holds s' (upsert e es)" using r by (auto simp: sl_holds_def)
    moreover have "Upsert e s = Some (Inr ((False, sl_entry s y, True), s'))"
      unfolding Upsert_def f(1) by (simp add: m y s'_def del: last.simps)
    ultimately show ?thesis using l y by auto
  next
    case False
    have Q: "\<forall>x \<in> set Q. Key e < sl_key s x"
    proof (cases Q)
      case (Cons y ys)
      then have "\<not> sl_key s y < Key e" using hd_dropWhile [of "\<lambda>x. sl_key s x < Key e" ns] by (simp add: Q_def)
      with False Cons sortQ show ?thesis by force
    qed simp
    obtain s' z where s': "sl_insert e upd s = Inr s'" "sl_inv s' (P @ z # Q)"
      "map (sl_entry s') (P @ z # Q) = map (sl_entry s) P @ e # map (sl_entry s) Q"
      using sl_insert_ok [OF inv [unfolded ns] f(2,3) P Q] by blast
    have "upsert e es = map (sl_entry s) P @ e # map (sl_entry s) Q"
      unfolding es ns map_append using P Q keyE by (intro upsert_split(1)) (auto simp: ns)
    with s'(2,3) have "sl_holds s' (upsert e es)" unfolding sl_holds_def by metis
    moreover have none: "(case Q of [] \<Rightarrow> None
         | y # _ \<Rightarrow> if sl_key s y = Key e then Some (y, the (sl_nodes s y)) else None) = None" "lookup (Key e) es = None"
      using False l by (auto split: list.splits)
    have "Upsert e s = Some (Inr ((True, zero_entry, False), s'))"
      unfolding Upsert_def f(1) by (simp add: m none s'(1) del: last.simps)
    ultimately show ?thesis using none(2) by auto
  qed
qed

lemma sl_holds_length: "sl_holds s es \<Longrightarrow> sl_length s = length es"
  using sl_invD(13) by (auto simp: sl_holds_def)

text \<open>A sequence of upserts with what each returns, and what the sorted map says it has to return.\<close>

fun sl_upserts :: "entry list \<Rightarrow> SkipList \<Rightarrow> ((bool \<times> entry \<times> bool) list \<times> SkipList) result option" where
  "sl_upserts [] s = Some (Inr ([], s))"
| "sl_upserts (e # es) s =
     bind_outcome (Upsert e s) (\<lambda>(r, s').
       bind_outcome (sl_upserts es s') (\<lambda>(rs, s''). Some (Inr (r # rs, s''))))"

definition upsert_answer :: "entry \<Rightarrow> entry list \<Rightarrow> bool \<times> entry \<times> bool" where
  "upsert_answer e m = (case lookup (Key e) m of None \<Rightarrow> (True, zero_entry, False) | Some prev \<Rightarrow> (False, prev, True))"

fun upsert_answers :: "entry list \<Rightarrow> entry list \<Rightarrow> (bool \<times> entry \<times> bool) list" where
  "upsert_answers [] m = []"
| "upsert_answers (e # es) m = upsert_answer e m # upsert_answers es (upsert e m)"

lemma sl_upserts_ok:
  "sl_holds s m \<Longrightarrow> \<exists>s'. sl_upserts es s = Some (Inr (upsert_answers es m, s')) \<and> sl_holds s' (fold upsert es m)"
proof (induction es arbitrary: s m)
  case (Cons e es)
  from Upsert_ok [OF Cons.prems, of e] obtain s' where
    "Upsert e s = Some (Inr (upsert_answer e m, s'))" "sl_holds s' (upsert e m)"
    by (cases "lookup (Key e) m") (auto simp: upsert_answer_def)
  with Cons.IH [of s' "upsert e m"] show ?case by auto
qed simp

text \<open>
  C10: on a skip list built by any sequence of upserts no loop runs for ever and no pointer is nil or
  out of range: every upsert, lookup and range walk returns, with the answer of the sorted map that
  keeps the last entry of each key, whatever levels the random generator picks.  An upsert says whether it
  inserted or replaced, and which entry it replaced.
\<close>

theorem skiplist_always_returns:
  "\<exists>s. sl_upserts es NewSkipList = Some (Inr (upsert_answers es [], s)) \<and>
     sl_length s = length (fold upsert es []) \<and>
     (\<forall>k. SkipList_Get s k = Some (Inr (lookup k (fold upsert es [])))) \<and>
     (\<forall>start en. \<exists>x. IterFrom s start = Some (Inr x) \<and>
        sl_collect s en x [] = Some (Inr (range_entries start en (fold upsert es []))))"
proof -
  obtain s where s: "sl_upserts es NewSkipList = Some (Inr (upsert_answers es [], s))" "sl_holds s (fold upsert es [])"
    using sl_upserts_ok [OF sl_holds_New] by blast
  have "\<forall>start en. \<exists>x. IterFrom s start = Some (Inr x) \<and>
        sl_collect s en x [] = Some (Inr (range_entries start en (fold upsert es [])))"
    using sl_range_ok [OF s(2)] by blast
  then show ?thesis using s SkipList_Get_ok [OF s(2)] sl_holds_length [OF s(2)] by blast
qed

end
