(* ===== verification/Memtable.thy ===== *)
theory Memtable
  imports Arena Skiplist "HOL-Library.AList"
begin

text \<open>
  What every memtable promises (\<open>internal/lsm/memtable/core.go\<close>) and what the implementations share
  (\<open>internal/lsm/memtable/table\<close>): entry sizes, the key hash, the slice iterator, the writer count.
  The contents of a table are a list of entries in increasing key order; the locale \<open>memtable\<close> says
  how each method of the interface acts on it.
\<close>

definition entrySize :: "entry \<Rightarrow> int" where
  "entrySize e = int (length (Key e)) + int (length (Value e))"

definition hashKey :: "bytes \<Rightarrow> u64" where
  "hashKey key = fnv64a key"

record shard_stats =
  ss_Entries :: int
  ss_Bytes :: int

record table_stats =
  ts_Entries :: int
  ts_Bytes :: int
  ts_ArenaBytes :: int
  ts_ArenaBlocks :: nat
  ts_Shards :: "shard_stats list"

section \<open>Slice iterators\<close>

record sliceIterator =
  it_entries :: "entry list"
  it_idx :: nat
  it_curr :: entry

definition newSliceIterator :: "entry list \<Rightarrow> sliceIterator" where
  "newSliceIterator es = \<lparr>it_entries = es, it_idx = 0, it_curr = zero_entry\<rparr>"

definition sliceIterator_Next :: "sliceIterator \<Rightarrow> bool \<times> sliceIterator" where
  "sliceIterator_Next it =
     (if length (it_entries it) \<le> it_idx it then (False, it)
      else (True, it\<lparr>it_curr := it_entries it ! it_idx it, it_idx := Suc (it_idx it)\<rparr>))"

text \<open>The loop of the callers: \<open>for it.Next()\<close> with \<open>it.Entry()\<close> appended.\<close>

function entriesFromIter :: "sliceIterator \<Rightarrow> entry list \<Rightarrow> entry list" where
  "entriesFromIter it entries =
     (case sliceIterator_Next it of
        (False, _) \<Rightarrow> entries
      | (True, it') \<Rightarrow> entriesFromIter it' (entries @ [it_curr it']))"
  by pat_completeness auto
termination
  by (relation "measure (\<lambda>(it, _). length (it_entries it) - it_idx it)")
     (auto simp: sliceIterator_Next_def split: if_splits)

declare entriesFromIter.simps [simp del]

lemma entriesFromIter_drop:
  "entriesFromIter it acc = acc @ drop (it_idx it) (it_entries it)"
proof (induction it acc rule: entriesFromIter.induct)
  case (1 it acc)
  show ?case
  proof (cases "length (it_entries it) \<le> it_idx it")
    case True
    then show ?thesis by (subst entriesFromIter.simps) (simp add: sliceIterator_Next_def)
  next
    case False
    then have "sliceIterator_Next it =
        (True, it\<lparr>it_curr := it_entries it ! it_idx it, it_idx := Suc (it_idx it)\<rparr>)"
      by (simp add: sliceIterator_Next_def)
    with 1 [OF this [symmetric]] False show ?thesis
      by (subst entriesFromIter.simps) (simp add: Cons_nth_drop_Suc)
  qed
qed

lemma entriesFromIter_new [simp]: "entriesFromIter (newSliceIterator es) [] = es"
  by (simp add: entriesFromIter_drop newSliceIterator_def)

section \<open>Sorted keys\<close>

interpretation key_order: strict_weak "(<) :: bytes \<Rightarrow> bytes \<Rightarrow> bool"
  by unfold_locales auto

lemma sort_keys_of_entries:
  assumes "entry_keys_sorted es" "distinct keys" "set keys = Key ` set es"
  shows "sort_Slice (<) keys = map Key es"
proof (rule sorted_distinct_set_unique)
  show "sorted (sort_Slice (<) keys)" using key_order.sorted_sort_Slice [of keys] by (simp add: not_less)
  show "distinct (sort_Slice (<) keys)" using distinct_map_sort_Slice [of "\<lambda>k. k" "(<)" keys] assms(2) by simp
  show "sorted (map Key es)"
    using assms(1) unfolding entry_keys_sorted_def by (rule sorted_wrt_mono_rel [rotated]) simp
  show "distinct (map Key es)" by (rule entry_keys_sorted_distinct [OF assms(1)])
  show "set (sort_Slice (<) keys) = set (map Key es)" using assms(3) by simp
qed

section \<open>Writers\<close>

text \<open>
  The \<open>sync.WaitGroup\<close> of a table as its counter.  \<open>WaitWriters\<close> gives the results the wait can have
  now, for a context that is done with an error or still open; with none the wait goes on.
\<close>

definition wg_Add1 :: "nat \<Rightarrow> nat" where
  "wg_Add1 n = Suc n"

definition wg_Done :: "nat \<Rightarrow> nat result" where
  "wg_Done n = (if n = 0 then Inl (PanicMsg ''sync: negative WaitGroup counter'') else Inr (n - 1))"

definition WaitWriters :: "nat \<Rightarrow> lsm_error option \<Rightarrow> (unit result) list" where
  "WaitWriters n ctx =
     (if n = 0 then [Inr ()] else []) @ (case ctx of None \<Rightarrow> [] | Some err \<Rightarrow> [Inl err])"

section \<open>The interface\<close>

text \<open>
  \<open>holds t es\<close> reads: the contents of the table \<open>t\<close> are the sorted entries \<open>es\<close>.  Every operation
  returns, and acts on the contents as written.
\<close>

locale memtable =
  fixes holds :: "'t \<Rightarrow> entry list \<Rightarrow> bool"
    and get :: "'t \<Rightarrow> bytes \<Rightarrow> entry option result option"
    and applyOwned :: "entry \<Rightarrow> 't \<Rightarrow> 't result option"
    and applyBatch :: "entry list \<Rightarrow> 't \<Rightarrow> 't result option"
    and tsize :: "'t \<Rightarrow> int"
    and drain :: "'t \<Rightarrow> (entry list \<times> 't) result option"
    and trange :: "'t \<Rightarrow> bytes \<Rightarrow> bytes \<Rightarrow> sliceIterator result option"
    and copyEntry :: "entry \<Rightarrow> 't \<Rightarrow> (entry \<times> 't) result option"
    and reset :: "'t \<Rightarrow> 't"
  assumes holds_sorted: "holds t es \<Longrightarrow> entry_keys_sorted es"
    and get_law: "holds t es \<Longrightarrow> get t k = Some (Inr (lookup k es))"
    and apply_law: "holds t es \<Longrightarrow> \<exists>t'. applyOwned e t = Some (Inr t') \<and> holds t' (upsert e es)"
    and batch_law: "holds t es \<Longrightarrow> \<exists>t'. applyBatch new t = Some (Inr t') \<and> holds t' (fold upsert new es)"
    and size_law: "holds t es \<Longrightarrow> tsize t = sum_list (map entrySize es)"
    and drain_law: "holds t es \<Longrightarrow> \<exists>t'. drain t = Some (Inr (es, t')) \<and> holds t' []"
    and range_law: "holds t es \<Longrightarrow> trange t start en = Some (Inr (newSliceIterator (range_entries start en es)))"
    and copy_law: "holds t es \<Longrightarrow> \<exists>t'. copyEntry e t = Some (Inr (e, t')) \<and> holds t' es"
    and reset_law: "holds t es \<Longrightarrow> holds (reset t) []"
begin

text \<open>The whole of a table in key order, as the flush reads it.\<close>

lemma iter_all:
  assumes "holds t es"
  shows "trange t [] [] = Some (Inr (newSliceIterator es))"
proof -
  have "range_entries [] [] es = es" by (simp add: range_entries_def in_range_def)
  with range_law [OF assms, of "[]" "[]"] show ?thesis by simp
qed

lemma get_after_apply:
  assumes "holds t es"
  obtains t' where "applyOwned e t = Some (Inr t')" "get t' (Key e) = Some (Inr (Some e))"
    "\<forall>k. k \<noteq> Key e \<longrightarrow> get t' k = get t k"
proof -
  obtain t' where t': "applyOwned e t = Some (Inr t')" "holds t' (upsert e es)" using apply_law [OF assms] by blast
  have "get t' k = Some (Inr (if k = Key e then Some e else lookup k es))" for k
    using get_law [OF t'(2)] lookup_upsert [OF holds_sorted [OF assms]] by simp
  with t'(1) get_law [OF assms] that show thesis by simp
qed

end

section \<open>Scripts of calls\<close>

text \<open>A caller of the interface: the calls it makes and the answers it sees.\<close>

datatype table_call =
    CallApply entry
  | CallBatch "entry list"
  | CallGet bytes
  | CallRange bytes bytes
  | CallSize
  | CallDrain
  | CallReset

datatype table_answer =
    AnsUnit
  | AnsEntry "entry option"
  | AnsEntries "entry list"
  | AnsSize int

fun spec_call :: "table_call \<Rightarrow> entry list \<Rightarrow> table_answer \<times> entry list" where
  "spec_call (CallApply e) es = (AnsUnit, upsert e es)"
| "spec_call (CallBatch new) es = (AnsUnit, fold upsert new es)"
| "spec_call (CallGet k) es = (AnsEntry (lookup k es), es)"
| "spec_call (CallRange start en) es = (AnsEntries (range_entries start en es), es)"
| "spec_call CallSize es = (AnsSize (sum_list (map entrySize es)), es)"
| "spec_call CallDrain es = (AnsEntries es, [])"
| "spec_call CallReset es = (AnsUnit, [])"

fun spec_calls :: "table_call list \<Rightarrow> entry list \<Rightarrow> table_answer list" where
  "spec_calls [] es = []"
| "spec_calls (c # cs) es = (let (a, es') = spec_call c es in a # spec_calls cs es')"

end
