(* ===== verification/Map_Table.thy ===== *)
theory Map_Table
  imports Memtable
begin

text \<open>
  The map memtable (\<open>internal/lsm/memtable/table/map_table.go\<close>): buckets of entries by key hash and
  the keys in the order they came.  The Go map is an association list.
\<close>

record MapTable =
  mt_entries :: "(u64 \<times> entry list) list"
  mt_keys :: "bytes list"
  mt_seq :: u64
  mt_sizeBytes :: int
  mt_arena :: arena_state
  mt_wg :: nat

definition newMapTable :: "int \<Rightarrow> MapTable" where
  "newMapTable blockSize =
     \<lparr>mt_entries = [], mt_keys = [], mt_seq = 0, mt_sizeBytes = 0, mt_arena = (NewArena blockSize, []), mt_wg = 0\<rparr>"

definition bucket_of :: "MapTable \<Rightarrow> bytes \<Rightarrow> entry list" where
  "bucket_of m key = (case map_of (mt_entries m) (hashKey key) of None \<Rightarrow> [] | Some b \<Rightarrow> b)"

definition getByKey :: "MapTable \<Rightarrow> bytes \<Rightarrow> entry option" where
  "getByKey m key = List.find (\<lambda>e. Key e = key) (bucket_of m key)"

text \<open>The bucket with the entry of the same key replaced, and that entry.\<close>

fun bucket_set :: "entry \<Rightarrow> entry list \<Rightarrow> (entry \<times> entry list) option" where
  "bucket_set e [] = None"
| "bucket_set e (x # xs) =
     (if Key x = Key e then Some (x, e # xs)
      else map_option (\<lambda>(prev, xs'). (prev, x # xs')) (bucket_set e xs))"

definition setEntry :: "entry \<Rightarrow> MapTable \<Rightarrow> (entry \<times> bool) \<times> MapTable" where
  "setEntry e m =
     (let hash = hashKey (Key e); bucket = bucket_of m (Key e)
      in case bucket_set e bucket of
           Some (prev, bucket') \<Rightarrow> ((prev, True), m\<lparr>mt_entries := AList.update hash bucket' (mt_entries m)\<rparr>)
         | None \<Rightarrow> ((zero_entry, False),
             m\<lparr>mt_entries := AList.update hash (bucket @ [e]) (mt_entries m), mt_keys := mt_keys m @ [Key e]\<rparr>))"

definition updateEntry :: "entry \<Rightarrow> MapTable \<Rightarrow> MapTable" where
  "updateEntry e m =
     (let ((prev, existed), m) = setEntry e m
      in m\<lparr>mt_sizeBytes := mt_sizeBytes m + (if existed then entrySize e - entrySize prev else entrySize e)\<rparr>)"

definition Map_ApplyOwned :: "entry \<Rightarrow> MapTable \<Rightarrow> MapTable" where
  "Map_ApplyOwned e m = updateEntry e (if mt_seq m < Seq e then m\<lparr>mt_seq := Seq e\<rparr> else m)"

definition Map_ApplyBatchOwned :: "entry list \<Rightarrow> MapTable \<Rightarrow> MapTable" where
  "Map_ApplyBatchOwned entries m =
     fold (\<lambda>e m. updateEntry e (if mt_seq m < Seq e then m\<lparr>mt_seq := Seq e\<rparr> else m)) entries m"

definition Map_CopyEntry :: "entry \<Rightarrow> MapTable \<Rightarrow> entry \<times> MapTable" where
  "Map_CopyEntry e m = (let (e', st) = CopyEntry e (mt_arena m) in (e', m\<lparr>mt_arena := st\<rparr>))"

definition Map_Get :: "MapTable \<Rightarrow> bytes \<Rightarrow> entry option" where
  "Map_Get m key = getByKey m key"

definition Map_Size :: "MapTable \<Rightarrow> int" where
  "Map_Size m = mt_sizeBytes m"

definition Map_Stats :: "MapTable \<Rightarrow> table_stats" where
  "Map_Stats m =
     (let a = Arena_Stats (fst (mt_arena m))
      in \<lparr>ts_Entries = int (length (mt_keys m)), ts_Bytes = mt_sizeBytes m, ts_ArenaBytes = as_UsedBytes a,
          ts_ArenaBlocks = as_Blocks a, ts_Shards = []\<rparr>)"

definition Map_Drain :: "MapTable \<Rightarrow> entry list \<times> MapTable" where
  "Map_Drain m =
     (if mt_entries m = [] then ([], m)
      else let keys = sort_Slice (<) (mt_keys m)
           in (List.map_filter (getByKey m) keys, m\<lparr>mt_entries := [], mt_keys := [], mt_sizeBytes := 0\<rparr>))"

text \<open>The loop of \<open>Range\<close> over the sorted keys: skip before the start, stop at the end.\<close>

fun map_range :: "MapTable \<Rightarrow> bytes \<Rightarrow> bytes \<Rightarrow> bytes list \<Rightarrow> entry list" where
  "map_range m start en [] = []"
| "map_range m start en (key # keys) =
     (if start \<noteq> [] \<and> key < start then map_range m start en keys
      else if en \<noteq> [] \<and> en \<le> key then []
      else (case getByKey m key of None \<Rightarrow> [] | Some e \<Rightarrow> [e]) @ map_range m start en keys)"

definition Map_Range :: "MapTable \<Rightarrow> bytes \<Rightarrow> bytes \<Rightarrow> sliceIterator" where
  "Map_Range m start en =
     (if start \<noteq> [] \<and> en \<noteq> [] \<and> en \<le> start then newSliceIterator []
      else if mt_keys m = [] then newSliceIterator []
      else let keys = (if 1 < length (mt_keys m) then sort_Slice (<) (mt_keys m) else mt_keys m)
           in newSliceIterator (map_range m start en keys))"

definition Map_Reset :: "MapTable \<Rightarrow> MapTable" where
  "Map_Reset m =
     m\<lparr>mt_entries := [], mt_keys := [], mt_seq := 0, mt_sizeBytes := 0,
       mt_arena := (Arena_Reset (fst (mt_arena m)) (snd (mt_arena m)), snd (mt_arena m))\<rparr>"

section \<open>Contents\<close>

text \<open>
  The buckets answer every lookup as the sorted entries do, the keys are the keys of the entries, each
  once, and the byte count is exact.
\<close>

definition map_holds :: "MapTable \<Rightarrow> entry list \<Rightarrow> bool" where
  "map_holds m es \<longleftrightarrow>
     entry_keys_sorted es \<and> distinct (mt_keys m) \<and> set (mt_keys m) = Key ` set es \<and>
     (\<forall>k. getByKey m k = lookup k es) \<and> (mt_entries m = [] \<longrightarrow> es = []) \<and>
     mt_sizeBytes m = sum_list (map entrySize es) \<and> arena_ok (mt_arena m)"

lemma map_holds_new: "map_holds (newMapTable n) []"
  by (simp add: map_holds_def newMapTable_def getByKey_def bucket_of_def arena_ok_New)

lemma bucket_set_None: "bucket_set e b = None \<longleftrightarrow> lookup (Key e) b = None"
  by (induction b) auto

lemma bucket_set_Some:
  "bucket_set e b = Some (prev, b') \<Longrightarrow>
     lookup (Key e) b = Some prev \<and> (\<forall>k. lookup k b' = (if k = Key e then Some e else lookup k b))"
  by (induction b arbitrary: b') (auto split: if_splits)

lemma getByKey_lookup: "getByKey m key = lookup key (bucket_of m key)"
  by (simp add: getByKey_def lookup_def)

lemma getByKey_update:
  assumes "\<And>k. lookup k b = (if k = Key e then Some e else lookup k (bucket_of m (Key e)))"
    and "mt_entries m' = AList.update (hashKey (Key e)) b (mt_entries m)"
  shows "getByKey m' k = (if k = Key e then Some e else getByKey m k)"
proof (cases "hashKey k = hashKey (Key e)")
  case True
  then have "bucket_of m' k = b" "bucket_of m k = bucket_of m (Key e)"
    by (simp_all add: bucket_of_def assms(2) update_conv')
  with assms(1) show ?thesis by (simp add: getByKey_lookup)
next
  case False
  then have "bucket_of m' k = bucket_of m k" "k \<noteq> Key e"
    by (auto simp: bucket_of_def assms(2) update_conv')
  then show ?thesis by (simp add: getByKey_lookup)
qed

lemma updateEntry_ok:
  assumes h: "map_holds m es"
  shows "map_holds (updateEntry e m) (upsert e es)"
proof -
  have s: "entry_keys_sorted es" and g: "\<And>k. getByKey m k = lookup k es" using h by (auto simp: map_holds_def)
  let ?b = "bucket_of m (Key e)"
  have prev: "lookup (Key e) ?b = lookup (Key e) es" using g [of "Key e"] by (simp add: getByKey_lookup)
  have keys: "Key ` set (upsert e es) = insert (Key e) (Key ` set es)"
    unfolding upsert_def takeWhile_less_sorted [OF s] dropWhile_le_sorted [OF s] by (auto simp: image_iff)
  show ?thesis
  proof (cases "bucket_set e ?b")
    case None
    then have new: "lookup (Key e) es = None" using bucket_set_None [of e ?b] prev by simp
    have "lookup k (?b @ [e]) = (if k = Key e then Some e else lookup k ?b)" for k
      using None bucket_set_None [of e ?b] by (auto simp: lookup_append split: option.split)
    then have "getByKey (updateEntry e m) k = (if k = Key e then Some e else getByKey m k)" for k
      by (intro getByKey_update [where b = "?b @ [e]"]) (simp_all add: updateEntry_def setEntry_def None Let_def)
    moreover have "Key e \<notin> Key ` set es" using new by (auto simp: lookup_None_iff)
    moreover have "mt_entries (updateEntry e m) \<noteq> []"
      by (auto simp: updateEntry_def setEntry_def None Let_def dest: arg_cong [where f = map_of])
    ultimately show ?thesis
      using h keys new sum_upsert [OF s, of entrySize e] upsert_sorted [OF s] lookup_upsert [OF s]
      by (auto simp: map_holds_def updateEntry_def setEntry_def None Let_def)
  next
    case (Some pb)
    obtain p b where pb: "pb = (p, b)" by (cases pb)
    note bs = bucket_set_Some [OF Some [unfolded pb]]
    then have old: "lookup (Key e) es = Some p" using prev by simp
    have "getByKey (updateEntry e m) k = (if k = Key e then Some e else getByKey m k)" for k
      using bs by (intro getByKey_update [where b = b]) (simp_all add: updateEntry_def setEntry_def Some pb Let_def)
    moreover have "Key e \<in> Key ` set es" using lookup_SomeD [OF old] by (intro image_eqI [of _ _ p]) auto
    moreover have "mt_entries (updateEntry e m) \<noteq> []"
      by (auto simp: updateEntry_def setEntry_def Some pb Let_def dest: arg_cong [where f = map_of])
    ultimately show ?thesis
      using h keys old sum_upsert [OF s, of entrySize e] upsert_sorted [OF s] lookup_upsert [OF s]
      by (auto simp: map_holds_def updateEntry_def setEntry_def Some pb Let_def)
  qed
qed

lemma map_holds_seq: "map_holds (m\<lparr>mt_seq := q\<rparr>) es = map_holds m es"
  by (simp add: map_holds_def getByKey_def bucket_of_def)

lemma Map_ApplyBatchOwned_ok: "map_holds m es \<Longrightarrow> map_holds (Map_ApplyBatchOwned new m) (fold upsert new es)"
proof (induction new arbitrary: m es)
  case (Cons e new)
  have "map_holds (updateEntry e (if mt_seq m < Seq e then m\<lparr>mt_seq := Seq e\<rparr> else m)) (upsert e es)"
    using Cons.prems by (intro updateEntry_ok) (simp add: map_holds_seq)
  from Cons.IH [OF this] show ?case by (simp add: Map_ApplyBatchOwned_def)
qed (simp add: Map_ApplyBatchOwned_def)

lemma Map_ApplyOwned_ok: "map_holds m es \<Longrightarrow> map_holds (Map_ApplyOwned e m) (upsert e es)"
  unfolding Map_ApplyOwned_def by (intro updateEntry_ok) (simp add: map_holds_seq)

lemma map_filter_lookup:
  assumes "entry_keys_sorted es"
  shows "List.map_filter (\<lambda>k. lookup k es) (map Key es) = es"
proof -
  have "List.map_filter (\<lambda>k. lookup k es) (map Key xs) = xs" if "set xs \<subseteq> set es" for xs
    using that
  proof (induction xs)
    case (Cons x xs)
    then have "lookup (Key x) es = Some x" using lookup_in_set [OF assms] by simp
    with Cons show ?case by (simp add: map_filter_simps)
  qed (simp add: map_filter_simps)
  then show ?thesis by simp
qed

lemma Map_Drain_ok:
  assumes h: "map_holds m es"
  shows "fst (Map_Drain m) = es" "map_holds (snd (Map_Drain m)) []"
proof -
  have "getByKey m = (\<lambda>k. lookup k es)" using h by (auto simp: map_holds_def)
  then show "fst (Map_Drain m) = es"
    using h sort_keys_of_entries [of es "mt_keys m"] map_filter_lookup [of es]
    by (cases "mt_entries m = []") (auto simp: map_holds_def Map_Drain_def Let_def)
  show "map_holds (snd (Map_Drain m)) []"
    using h by (auto simp: map_holds_def Map_Drain_def Let_def getByKey_def bucket_of_def)
qed

lemma map_range_ok:
  assumes "\<And>k. getByKey m k = lookup k es" "entry_keys_sorted es" "entry_keys_sorted xs" "set xs \<subseteq> set es"
  shows "map_range m start en (map Key xs) = range_entries start en xs"
  using assms(3,4)
proof (induction xs)
  case (Cons x xs)
  have x: "getByKey m (Key x) = Some x" using Cons.prems(2) assms(1) lookup_in_set [OF assms(2), of x] by simp
  have "range_entries start en xs = []" if "en \<noteq> []" "en \<le> Key x"
    using that Cons.prems(1) by (auto simp: range_entries_def in_range_def filter_empty_conv)
  moreover have "map_range m start en (map Key xs) = range_entries start en xs" using Cons by simp
  ultimately show ?case by (auto simp: x range_entries_def in_range_def not_le not_less)
qed (simp add: range_entries_def)

lemma Map_Range_ok:
  assumes h: "map_holds m es"
  shows "Map_Range m start en = newSliceIterator (range_entries start en es)"
proof -
  have g: "\<And>k. getByKey m k = lookup k es" and s: "entry_keys_sorted es" and
    k: "distinct (mt_keys m)" "set (mt_keys m) = Key ` set es" using h by (auto simp: map_holds_def)
  have "(if 1 < length (mt_keys m) then sort_Slice (<) (mt_keys m) else mt_keys m) = sort_Slice (<) (mt_keys m)"
    by (cases "mt_keys m" rule: list.exhaust [case_names Nil Cons]; cases "tl (mt_keys m)")
       (auto simp: sort_Slice_def)
  then have keys: "(if 1 < length (mt_keys m) then sort_Slice (<) (mt_keys m) else mt_keys m) = map Key es"
    using sort_keys_of_entries [OF s k] by simp
  have "range_entries start en es = []" if "start \<noteq> [] \<and> en \<noteq> [] \<and> en \<le> start"
    using that by (auto simp: range_entries_def in_range_def filter_empty_conv)
  moreover have "range_entries start en es = []" if "mt_keys m = []" using that k(2) by (simp add: range_entries_def)
  ultimately show ?thesis
    using map_range_ok [OF g s s] unfolding Map_Range_def Let_def keys by simp
qed

lemma Map_Reset_ok: "map_holds m es \<Longrightarrow> map_holds (Map_Reset m) []"
  by (cases "mt_arena m") (simp add: map_holds_def Map_Reset_def getByKey_def bucket_of_def arena_ok_Reset)

lemma Map_CopyEntry_ok:
  "map_holds m es \<Longrightarrow> fst (Map_CopyEntry e m) = e \<and> map_holds (snd (Map_CopyEntry e m)) es"
  using CopyEntry_ok [of "mt_arena m" e]
  by (auto simp: map_holds_def Map_CopyEntry_def getByKey_def bucket_of_def split: prod.splits)

interpretation map_table: memtable map_holds "\<lambda>m k. Some (Inr (Map_Get m k))"
  "\<lambda>e m. Some (Inr (Map_ApplyOwned e m))" "\<lambda>es m. Some (Inr (Map_ApplyBatchOwned es m))" Map_Size
  "\<lambda>m. Some (Inr (Map_Drain m))" "\<lambda>m s e. Some (Inr (Map_Range m s e))"
  "\<lambda>e m. Some (Inr (Map_CopyEntry e m))" Map_Reset
proof
  fix m es assume h: "map_holds m es"
  show "entry_keys_sorted es" "Map_Size m = sum_list (map entrySize es)"
    using h by (auto simp: map_holds_def Map_Size_def)
  show "Some (Inr (Map_Get m k)) = Some (Inr (lookup k es))" for k
    using h by (simp add: map_holds_def Map_Get_def)
  show "\<exists>t'. Some (Inr (Map_ApplyOwned e m)) = Some (Inr t') \<and> map_holds t' (upsert e es)" for e
    using Map_ApplyOwned_ok [OF h] by blast
  show "\<exists>t'. Some (Inr (Map_ApplyBatchOwned new m)) = Some (Inr t') \<and> map_holds t' (fold upsert new es)" for new
    using Map_ApplyBatchOwned_ok [OF h] by blast
  show "\<exists>t'. Some (Inr (Map_Drain m)) = Some (Inr (es, t')) \<and> map_holds t' []"
    using Map_Drain_ok [OF h] by (metis prod.collapse)
  show "Some (Inr (Map_Range m start en)) = Some (Inr (newSliceIterator (range_entries start en es)))" for start en
    using Map_Range_ok [OF h] by simp
  show "\<exists>t'. Some (Inr (Map_CopyEntry e m)) = Some (Inr (e, t')) \<and> map_holds t' es" for e
    using Map_CopyEntry_ok [OF h, of e] by (metis prod.collapse)
  show "map_holds (Map_Reset m) []" by (rule Map_Reset_ok [OF h])
qed

end
