(* ===== verification/Skiplist_Table.thy ===== *)
theory Skiplist_Table
  imports Memtable
begin

text \<open>The memtable over one skip list (\<open>internal/lsm/memtable/table/skiplist_table.go\<close>).\<close>

record SkipListTable =
  kt_list :: SkipList
  kt_seq :: u64
  kt_sizeBytes :: int
  kt_arena :: arena_state
  kt_wg :: nat

definition newSkipListTable :: "int \<Rightarrow> SkipListTable" where
  "newSkipListTable blockSize =
     \<lparr>kt_list = NewSkipList, kt_seq = 0, kt_sizeBytes = 0, kt_arena = (NewArena blockSize, []), kt_wg = 0\<rparr>"

text \<open>The change of a byte count by the result of an upsert.\<close>

definition size_delta :: "entry \<Rightarrow> bool \<times> entry \<times> bool \<Rightarrow> int" where
  "size_delta e r =
     (case r of (inserted, prev, replaced) \<Rightarrow>
        if inserted then entrySize e else if replaced then entrySize e - entrySize prev else 0)"

definition Skip_ApplyOwned :: "entry \<Rightarrow> SkipListTable \<Rightarrow> SkipListTable result option" where
  "Skip_ApplyOwned e t =
     (let t = (if kt_seq t < Seq e then t\<lparr>kt_seq := Seq e\<rparr> else t)
      in bind_outcome (Upsert e (kt_list t)) (\<lambda>(r, list).
           Some (Inr (t\<lparr>kt_list := list, kt_sizeBytes := kt_sizeBytes t + size_delta e r\<rparr>))))"

fun Skip_ApplyBatchOwned :: "entry list \<Rightarrow> SkipListTable \<Rightarrow> SkipListTable result option" where
  "Skip_ApplyBatchOwned [] t = Some (Inr t)"
| "Skip_ApplyBatchOwned (e # es) t =
     (let t = (if kt_seq t < Seq e then t\<lparr>kt_seq := Seq e\<rparr> else t)
      in bind_outcome (Upsert e (kt_list t)) (\<lambda>(r, list).
           Skip_ApplyBatchOwned es (t\<lparr>kt_list := list, kt_sizeBytes := kt_sizeBytes t + size_delta e r\<rparr>)))"

definition Skip_CopyEntry :: "entry \<Rightarrow> SkipListTable \<Rightarrow> entry \<times> SkipListTable" where
  "Skip_CopyEntry e t = (let (e', st) = CopyEntry e (kt_arena t) in (e', t\<lparr>kt_arena := st\<rparr>))"

definition Skip_Get :: "SkipListTable \<Rightarrow> bytes \<Rightarrow> entry option result option" where
  "Skip_Get t key = SkipList_Get (kt_list t) key"

definition Skip_Size :: "SkipListTable \<Rightarrow> int" where
  "Skip_Size t = kt_sizeBytes t"

definition Skip_Stats :: "SkipListTable \<Rightarrow> table_stats" where
  "Skip_Stats t =
     (let a = Arena_Stats (fst (kt_arena t))
      in \<lparr>ts_Entries = int (sl_length (kt_list t)), ts_Bytes = kt_sizeBytes t, ts_ArenaBytes = as_UsedBytes a,
          ts_ArenaBlocks = as_Blocks a, ts_Shards = []\<rparr>)"

definition Skip_Drain :: "SkipListTable \<Rightarrow> (entry list \<times> SkipListTable) result option" where
  "Skip_Drain t =
     (if sl_length (kt_list t) = 0 then Some (Inr ([], t))
      else bind_outcome (sl_collect (kt_list t) [] (SkipList_Iter (kt_list t)) []) (\<lambda>out.
             Some (Inr (out, t\<lparr>kt_list := NewSkipList, kt_sizeBytes := 0\<rparr>))))"

definition Skip_Range :: "SkipListTable \<Rightarrow> bytes \<Rightarrow> bytes \<Rightarrow> sliceIterator result option" where
  "Skip_Range t start en =
     (if start \<noteq> [] \<and> en \<noteq> [] \<and> en \<le> start then Some (Inr (newSliceIterator []))
      else bind_outcome (IterFrom (kt_list t) start) (\<lambda>x.
             bind_outcome (sl_collect (kt_list t) en x []) (\<lambda>entries. Some (Inr (newSliceIterator entries)))))"

definition Skip_Reset :: "SkipListTable \<Rightarrow> SkipListTable" where
  "Skip_Reset t =
     t\<lparr>kt_list := NewSkipList, kt_seq := 0, kt_sizeBytes := 0,
       kt_arena := (Arena_Reset (fst (kt_arena t)) (snd (kt_arena t)), snd (kt_arena t))\<rparr>"

section \<open>Contents\<close>

definition skip_holds :: "SkipListTable \<Rightarrow> entry list \<Rightarrow> bool" where
  "skip_holds t es \<longleftrightarrow>
     sl_holds (kt_list t) es \<and> kt_sizeBytes t = sum_list (map entrySize es) \<and> arena_ok (kt_arena t)"

lemma skip_holds_new: "skip_holds (newSkipListTable n) []"
  by (simp add: skip_holds_def newSkipListTable_def sl_holds_New arena_ok_New)

text \<open>An upsert of the list, with the change of the byte count it reports.\<close>

lemma Upsert_delta:
  assumes "sl_holds s es"
  obtains r s' where "Upsert e s = Some (Inr (r, s'))" "sl_holds s' (upsert e es)"
    "size_delta e r = sum_list (map entrySize (upsert e es)) - sum_list (map entrySize es)"
    "fst r \<longleftrightarrow> lookup (Key e) es = None"
proof -
  obtain s' where s': "Upsert e s = Some (Inr (case lookup (Key e) es of None \<Rightarrow> ((True, zero_entry, False), s')
                 | Some prev \<Rightarrow> ((False, prev, True), s')))" "sl_holds s' (upsert e es)"
    using Upsert_ok [OF assms] by blast
  note sum = sum_upsert [OF sl_holds_sorted [OF assms], of entrySize e]
  show thesis
  proof (cases "lookup (Key e) es")
    case None
    with s' sum that [of "(True, zero_entry, False)" s'] show thesis by (simp add: size_delta_def)
  next
    case (Some p)
    with s' sum that [of "(False, p, True)" s'] show thesis by (simp add: size_delta_def)
  qed
qed

lemma skip_holds_seq: "skip_holds (t\<lparr>kt_seq := q\<rparr>) es = skip_holds t es"
  by (simp add: skip_holds_def)

lemma Skip_ApplyBatchOwned_ok:
  "skip_holds t es \<Longrightarrow> \<exists>t'. Skip_ApplyBatchOwned new t = Some (Inr t') \<and> skip_holds t' (fold upsert new es)"
proof (induction new arbitrary: t es)
  case (Cons e new)
  define u where "u = (if kt_seq t < Seq e then t\<lparr>kt_seq := Seq e\<rparr> else t)"
  have u: "skip_holds u es" using Cons.prems by (simp add: u_def skip_holds_seq)
  then have l: "sl_holds (kt_list u) es" by (simp add: skip_holds_def)
  obtain r s' where r: "Upsert e (kt_list u) = Some (Inr (r, s'))" "sl_holds s' (upsert e es)"
    "size_delta e r = sum_list (map entrySize (upsert e es)) - sum_list (map entrySize es)"
    by (rule Upsert_delta [OF l])
  have "skip_holds (u\<lparr>kt_list := s', kt_sizeBytes := kt_sizeBytes u + size_delta e r\<rparr>) (upsert e es)"
    using u r by (simp add: skip_holds_def)
  from Cons.IH [OF this] r(1) show ?case by (simp add: Let_def u_def [symmetric])
qed simp

lemma Skip_ApplyOwned_batch: "Skip_ApplyOwned e t = Skip_ApplyBatchOwned [e] t"
  by (simp add: Skip_ApplyOwned_def Let_def)

lemma Skip_Range_ok:
  assumes "skip_holds t es"
  shows "Skip_Range t start en = Some (Inr (newSliceIterator (range_entries start en es)))"
proof -
  obtain x where x: "IterFrom (kt_list t) start = Some (Inr x)"
    "sl_collect (kt_list t) en x [] = Some (Inr (range_entries start en es))"
    using sl_range_ok [of "kt_list t" es start en] assms by (auto simp: skip_holds_def)
  have "range_entries start en es = []" if "start \<noteq> [] \<and> en \<noteq> [] \<and> en \<le> start"
    using that by (auto simp: range_entries_def in_range_def filter_empty_conv)
  with x show ?thesis by (simp add: Skip_Range_def)
qed

lemma sl_collect_all:
  assumes "sl_holds s es"
  shows "sl_collect s [] (SkipList_Iter s) [] = Some (Inr es)"
proof -
  obtain ns where inv: "sl_inv s ns" and es: "es = map (\<lambda>y. sn_entry (the (sl_nodes s y))) ns"
    using assms by (auto simp: sl_holds_def)
  from sl_collect_path [OF sl_path_bottom [OF inv], of "[]" "[]"] sl_invD(3) [OF inv]
  have "sl_collect s [] 0 [] = Some (Inr (takeWhile (\<lambda>_. True) es))" by (simp add: es)
  moreover have "takeWhile (\<lambda>_. True) es = es" by (induction es) auto
  ultimately show ?thesis by (simp add: SkipList_Iter_def)
qed

lemma Skip_Drain_ok:
  assumes "skip_holds t es"
  shows "\<exists>t'. Skip_Drain t = Some (Inr (es, t')) \<and> skip_holds t' []"
proof (cases "sl_length (kt_list t) = 0")
  case True
  then have "es = []" using assms sl_holds_length by (force simp: skip_holds_def)
  with True assms show ?thesis by (simp add: Skip_Drain_def)
next
  case False
  with assms sl_collect_all [of "kt_list t" es] show ?thesis
    by (simp add: Skip_Drain_def skip_holds_def sl_holds_New)
qed

lemma Skip_Reset_ok: "skip_holds t es \<Longrightarrow> skip_holds (Skip_Reset t) []"
  by (cases "kt_arena t") (simp add: skip_holds_def Skip_Reset_def sl_holds_New arena_ok_Reset)

lemma Skip_CopyEntry_ok:
  "skip_holds t es \<Longrightarrow> fst (Skip_CopyEntry e t) = e \<and> skip_holds (snd (Skip_CopyEntry e t)) es"
  using CopyEntry_ok [of "kt_arena t" e] by (auto simp: skip_holds_def Skip_CopyEntry_def split: prod.splits)

interpretation skip_table: memtable skip_holds Skip_Get Skip_ApplyOwned Skip_ApplyBatchOwned Skip_Size Skip_Drain
  Skip_Range "\<lambda>e t. Some (Inr (Skip_CopyEntry e t))" Skip_Reset
proof
  fix t es assume h: "skip_holds t es"
  then have l: "sl_holds (kt_list t) es" by (simp add: skip_holds_def)
  show "entry_keys_sorted es" by (rule sl_holds_sorted [OF l])
  show "Skip_Size t = sum_list (map entrySize es)" using h by (simp add: skip_holds_def Skip_Size_def)
  show "Skip_Get t k = Some (Inr (lookup k es))" for k using SkipList_Get_ok [OF l] by (simp add: Skip_Get_def)
  show "\<exists>t'. Skip_ApplyOwned e t = Some (Inr t') \<and> skip_holds t' (upsert e es)" for e
    using Skip_ApplyBatchOwned_ok [OF h, of "[e]"] by (simp only: Skip_ApplyOwned_batch) simp
  show "\<exists>t'. Skip_ApplyBatchOwned new t = Some (Inr t') \<and> skip_holds t' (fold upsert new es)" for new
    by (rule Skip_ApplyBatchOwned_ok [OF h])
  show "\<exists>t'. Skip_Drain t = Some (Inr (es, t')) \<and> skip_holds t' []" by (rule Skip_Drain_ok [OF h])
  show "Skip_Range t start en = Some (Inr (newSliceIterator (range_entries start en es)))" for start en
    by (rule Skip_Range_ok [OF h])
  show "\<exists>t'. Some (Inr (Skip_CopyEntry e t)) = Some (Inr (e, t')) \<and> skip_holds t' es" for e
    using Skip_CopyEntry_ok [OF h, of e] by (metis prod.collapse)
  show "skip_holds (Skip_Reset t) []" by (rule Skip_Reset_ok [OF h])
qed

end
