(* ===== verification/Sharded_Table.thy ===== *)
theory Sharded_Table
  imports Skiplist_Table
begin

text \<open>
  The memtable over several skip lists (\<open>internal/lsm/memtable/table/sharded_skiplist_table.go\<close>): a
  key belongs to the shard of its hash, range scans merge the shards with a heap.  Each method is one
  step; the shard locks are not modelled.
\<close>

record shard =
  sh_list :: SkipList
  sh_entries :: int
  sh_bytes :: int
  sh_arena :: arena_state

record ShardedSkipListTable =
  st_shards :: "shard list"
  st_mask :: u64
  st_seq :: u64
  st_sizeBytes :: int
  st_wg :: nat

text \<open>\<open>n <<= 1\<close> on a 64-bit \<open>int\<close>; past \<open>2 ^ 62\<close> it turns negative, then zero, and the loop never ends.\<close>

definition shl1 :: "int \<Rightarrow> int" where
  "shl1 n = sint (word_of_int (2 * n) :: 64 word)"

partial_function (option) nextPow2_loop :: "int \<Rightarrow> int \<Rightarrow> int option" where
  "nextPow2_loop v n = (if n < v then nextPow2_loop v (shl1 n) else Some n)"

definition nextPow2 :: "int \<Rightarrow> int option" where
  "nextPow2 v = (if v \<le> 1 then Some 1 else nextPow2_loop v 1)"

text \<open>\<open>procs\<close> is \<open>runtime.GOMAXPROCS(0)\<close>.\<close>

definition shardCount :: "int \<Rightarrow> int \<Rightarrow> int option" where
  "shardCount procs concurrency =
     (let concurrency = (if concurrency < 1 then 1 else concurrency)
      in nextPow2 (sint (word_of_int (procs * concurrency) :: 64 word)))"

text \<open>Memory is unbounded: an allocation panics for a negative length only.\<close>

definition newShardedSkipListTable :: "int \<Rightarrow> int \<Rightarrow> ShardedSkipListTable result" where
  "newShardedSkipListTable shards blockSize =
     (if shards < 0 then Inl (PanicMsg ''makeslice: len out of range'')
      else Inr \<lparr>st_shards = replicate (nat shards)
                  \<lparr>sh_list = NewSkipList, sh_entries = 0, sh_bytes = 0, sh_arena = (NewArena blockSize, [])\<rparr>,
                st_mask = word_of_int (shards - 1), st_seq = 0, st_sizeBytes = 0, st_wg = 0\<rparr>)"

definition NewShardedSkipListTableWithArena :: "int \<Rightarrow> int \<Rightarrow> int \<Rightarrow> ShardedSkipListTable result option" where
  "NewShardedSkipListTableWithArena procs concurrency blockSize =
     map_option (\<lambda>n. newShardedSkipListTable n blockSize) (shardCount procs concurrency)"

definition NewShardedSkipListTableWithShardsAndArena :: "int \<Rightarrow> int \<Rightarrow> ShardedSkipListTable result option" where
  "NewShardedSkipListTableWithShardsAndArena shards blockSize =
     (let shards = (if shards < 1 then 1 else shards)
      in map_option (\<lambda>n. newShardedSkipListTable n blockSize) (nextPow2 shards))"

definition shard_index :: "u64 \<Rightarrow> bytes \<Rightarrow> nat" where
  "shard_index msk key = unat (hashKey key AND msk)"

definition pick :: "ShardedSkipListTable \<Rightarrow> bytes \<Rightarrow> (nat \<times> shard) result" where
  "pick t key =
     (let idx = shard_index (st_mask t) key
      in if idx < length (st_shards t) then Inr (idx, st_shards t ! idx) else Inl PanicBounds)"

definition bumpSeq :: "u64 \<Rightarrow> ShardedSkipListTable \<Rightarrow> ShardedSkipListTable" where
  "bumpSeq seq t = (if seq \<le> st_seq t then t else t\<lparr>st_seq := seq\<rparr>)"

text \<open>One upsert into shard \<open>i\<close>, with the counts of the shard and of the table.\<close>

definition shard_upsert :: "nat \<Rightarrow> entry \<Rightarrow> ShardedSkipListTable \<Rightarrow> ShardedSkipListTable result option" where
  "shard_upsert i e t =
     (let s = st_shards t ! i
      in bind_outcome (Upsert e (sh_list s)) (\<lambda>(r, list).
           Some (Inr (t\<lparr>st_shards := (st_shards t)[i := s\<lparr>sh_list := list,
                          sh_entries := sh_entries s + (if fst r then 1 else 0),
                          sh_bytes := sh_bytes s + size_delta e r\<rparr>],
                        st_sizeBytes := st_sizeBytes t + size_delta e r\<rparr>))))"

definition Sharded_ApplyOwned :: "entry \<Rightarrow> ShardedSkipListTable \<Rightarrow> ShardedSkipListTable result option" where
  "Sharded_ApplyOwned e t =
     (let t = bumpSeq (Seq e) t
      in bind_outcome (Some (pick t (Key e))) (\<lambda>(i, _). shard_upsert i e t))"

fun shard_upserts :: "nat \<Rightarrow> entry list \<Rightarrow> ShardedSkipListTable \<Rightarrow> ShardedSkipListTable result option" where
  "shard_upserts i [] t = Some (Inr t)"
| "shard_upserts i (e # es) t = bind_outcome (shard_upsert i e t) (shard_upserts i es)"

text \<open>The entries of a batch by shard, each shard in the order of the batch.\<close>

fun group_by_shard :: "u64 \<Rightarrow> entry list \<Rightarrow> entry list list \<Rightarrow> entry list list result" where
  "group_by_shard msk [] sharded = Inr sharded"
| "group_by_shard msk (e # es) sharded =
     (let idx = shard_index msk (Key e)
      in if idx < length sharded then group_by_shard msk es (sharded[idx := sharded ! idx @ [e]])
         else Inl PanicBounds)"

fun apply_groups :: "nat \<Rightarrow> entry list list \<Rightarrow> ShardedSkipListTable \<Rightarrow> ShardedSkipListTable result option" where
  "apply_groups i [] t = Some (Inr t)"
| "apply_groups i (g # gs) t =
     (if g = [] then apply_groups (Suc i) gs t
      else bind_outcome (shard_upserts i g t) (apply_groups (Suc i) gs))"

definition Sharded_ApplyBatchOwned :: "entry list \<Rightarrow> ShardedSkipListTable \<Rightarrow> ShardedSkipListTable result option" where
  "Sharded_ApplyBatchOwned entries t =
     (case entries of
        [] \<Rightarrow> Some (Inr t)
      | e # _ \<Rightarrow>
          let maxSeq = fold (\<lambda>e m. if m < Seq e then Seq e else m) entries (Seq e)
          in bind_outcome (Some (group_by_shard (st_mask t) entries (replicate (length (st_shards t)) [])))
               (\<lambda>sharded. apply_groups 0 sharded (bumpSeq maxSeq t)))"

definition Sharded_CopyEntry :: "entry \<Rightarrow> ShardedSkipListTable \<Rightarrow> (entry \<times> ShardedSkipListTable) result" where
  "Sharded_CopyEntry e t =
     bind_result (pick t (Key e)) (\<lambda>(i, s).
       let (e', st) = CopyEntry e (sh_arena s)
       in Inr (e', t\<lparr>st_shards := (st_shards t)[i := s\<lparr>sh_arena := st\<rparr>]\<rparr>))"

definition Sharded_Get :: "ShardedSkipListTable \<Rightarrow> bytes \<Rightarrow> entry option result option" where
  "Sharded_Get t key = bind_outcome (Some (pick t key)) (\<lambda>(_, s). SkipList_Get (sh_list s) key)"

definition Sharded_Size :: "ShardedSkipListTable \<Rightarrow> int" where
  "Sharded_Size t = st_sizeBytes t"

definition Sharded_Stats :: "ShardedSkipListTable \<Rightarrow> table_stats" where
  "Sharded_Stats t =
     (let arenas = map (\<lambda>s. Arena_Stats (fst (sh_arena s))) (st_shards t)
      in \<lparr>ts_Entries = sum_list (map sh_entries (st_shards t)), ts_Bytes = st_sizeBytes t,
          ts_ArenaBytes = sum_list (map as_UsedBytes arenas), ts_ArenaBlocks = sum_list (map as_Blocks arenas),
          ts_Shards = map (\<lambda>s. \<lparr>ss_Entries = sh_entries s, ss_Bytes = sh_bytes s\<rparr>) (st_shards t)\<rparr>)"

section \<open>Merging shards\<close>

text \<open>A heap item: the slice of a shard, the position of its cursor and the entry there.\<close>

record sliceItem =
  si_entries :: "entry list"
  si_idx :: nat
  si_entry :: entry

definition sliceHeap_Less :: "sliceItem \<Rightarrow> sliceItem \<Rightarrow> bool" where
  "sliceHeap_Less a b \<longleftrightarrow> Key (si_entry a) < Key (si_entry b)"

function merge_slices :: "sliceItem list \<Rightarrow> entry list \<Rightarrow> entry list" where
  "merge_slices h out =
     (if h = [] then out
      else let (item, h) = heap_Pop sliceHeap_Less h;
               out = out @ [si_entry item];
               item = item\<lparr>si_idx := Suc (si_idx item)\<rparr>
           in if si_idx item < length (si_entries item)
              then merge_slices (heap_Push sliceHeap_Less h (item\<lparr>si_entry := si_entries item ! si_idx item\<rparr>)) out
              else merge_slices h out)"
  by pat_completeness auto

termination
  by (relation "measure (\<lambda>(h, _). sum_list (map (\<lambda>x. Suc (length (si_entries x) - si_idx x)) h))")
     (auto simp: heap_Pop_sum heap_Push_sum dest: sym)

declare merge_slices.simps [simp del]

definition slice_item :: "entry list \<Rightarrow> sliceItem" where
  "slice_item entries = \<lparr>si_entries = entries, si_idx = 0, si_entry = entries ! 0\<rparr>"

definition mergeEntries :: "entry list list \<Rightarrow> entry list result" where
  "mergeEntries segments =
     (if [] \<in> set segments then Inl PanicBounds
      else Inr (merge_slices (heap_Init sliceHeap_Less (map slice_item segments)) []))"

definition collectShardEntries :: "shard \<Rightarrow> bytes \<Rightarrow> bytes \<Rightarrow> entry list result option" where
  "collectShardEntries s start en =
     bind_outcome (IterFrom (sh_list s) start) (\<lambda>x. sl_collect (sh_list s) en x [])"

fun collect_shards :: "shard list \<Rightarrow> bytes \<Rightarrow> bytes \<Rightarrow> entry list list result option" where
  "collect_shards [] start en = Some (Inr [])"
| "collect_shards (s # ss) start en =
     bind_outcome (collectShardEntries s start en) (\<lambda>entries.
       bind_outcome (collect_shards ss start en) (\<lambda>segments.
         Some (Inr (if entries = [] then segments else entries # segments))))"

definition snapshotRange :: "ShardedSkipListTable \<Rightarrow> bytes \<Rightarrow> bytes \<Rightarrow> entry list result option" where
  "snapshotRange t start en =
     (if st_shards t = [] then Some (Inr [])
      else bind_outcome (collect_shards (st_shards t) start en) (\<lambda>segments.
             if segments = [] then Some (Inr [])
             else if length segments = 1 then Some (Inr (segments ! 0))
             else Some (mergeEntries segments)))"

definition Sharded_Range :: "ShardedSkipListTable \<Rightarrow> bytes \<Rightarrow> bytes \<Rightarrow> sliceIterator result option" where
  "Sharded_Range t start en =
     (if start \<noteq> [] \<and> en \<noteq> [] \<and> en \<le> start then Some (Inr (newSliceIterator []))
      else bind_outcome (snapshotRange t start en) (\<lambda>entries. Some (Inr (newSliceIterator entries))))"

definition Sharded_Drain :: "ShardedSkipListTable \<Rightarrow> (entry list \<times> ShardedSkipListTable) result option" where
  "Sharded_Drain t =
     bind_outcome (Sharded_Range t [] []) (\<lambda>it.
       Some (Inr (entriesFromIter it [],
         t\<lparr>st_shards := map (\<lambda>s. s\<lparr>sh_list := NewSkipList, sh_entries := 0, sh_bytes := 0\<rparr>) (st_shards t),
           st_sizeBytes := 0\<rparr>)))"

definition Sharded_Reset :: "ShardedSkipListTable \<Rightarrow> ShardedSkipListTable" where
  "Sharded_Reset t =
     t\<lparr>st_shards := map (\<lambda>s. s\<lparr>sh_list := NewSkipList, sh_entries := 0, sh_bytes := 0,
           sh_arena := (Arena_Reset (fst (sh_arena s)) (snd (sh_arena s)), snd (sh_arena s))\<rparr>) (st_shards t),
       st_sizeBytes := 0, st_seq := 0\<rparr>"

section \<open>The merge is the sorted union\<close>

interpretation slice_order: strict_weak sliceHeap_Less
  by unfold_locales (auto simp: sliceHeap_Less_def)

text \<open>What an item still has to give.\<close>

definition si_rest :: "sliceItem \<Rightarrow> entry list" where
  "si_rest x = si_entry x # drop (Suc (si_idx x)) (si_entries x)"

lemma si_rest_advance:
  assumes "Suc (si_idx x) < length (si_entries x)"
  shows "si_rest x = si_entry x # si_rest (x\<lparr>si_idx := Suc (si_idx x), si_entry := si_entries x ! Suc (si_idx x)\<rparr>)"
  using assms by (simp add: si_rest_def Cons_nth_drop_Suc)

abbreviation heap_entries :: "sliceItem list \<Rightarrow> entry multiset" where
  "heap_entries h \<equiv> \<Sum>\<^sub># (image_mset (\<lambda>x. mset (si_rest x)) (mset h))"

lemma merge_slices_ok:
  assumes "heap_ok sliceHeap_Less h" "\<forall>x \<in> set h. entry_keys_sorted (si_rest x)"
    and "sorted (map Key out)" "\<forall>o' \<in> set out. \<forall>x \<in> set h. Key o' \<le> Key (si_entry x)"
  shows "sorted (map Key (merge_slices h out)) \<and> mset (merge_slices h out) = mset out + heap_entries h"
  using assms
proof (induction h out rule: merge_slices.induct)
  case (1 h out)
  show ?case
  proof (cases "h = []")
    case True
    with "1.prems" show ?thesis by (subst (1 2) merge_slices.simps) simp
  next
    case False
    obtain item h' where p: "heap_Pop sliceHeap_Less h = (item, h')" by (cases "heap_Pop sliceHeap_Less h")
    have m: "mset h = add_mset item (mset h')" using heap_Pop_mset [OF False, of sliceHeap_Less] p by simp
    then have sets: "set h = insert item (set h')" by (metis set_mset_add_mset_insert set_mset_mset)
    have ok': "heap_ok sliceHeap_Less h'" using slice_order.heap_ok_Pop [OF "1.prems"(1) False] p by simp
    have least: "Key (si_entry item) \<le> Key (si_entry x)" if "x \<in> set h" for x
      using slice_order.heap_Pop_least [OF "1.prems"(1) that] p by (simp add: sliceHeap_Less_def)
    let ?out = "out @ [si_entry item]"
    let ?next = "item\<lparr>si_idx := Suc (si_idx item), si_entry := si_entries item ! Suc (si_idx item)\<rparr>"
    have out: "sorted (map Key ?out)" "\<forall>o' \<in> set ?out. \<forall>x \<in> set h'. Key o' \<le> Key (si_entry x)"
      using "1.prems"(3,4) sets least by (auto simp: sorted_append)
    show ?thesis
    proof (cases "Suc (si_idx item) < length (si_entries item)")
      case True
      note rest = si_rest_advance [OF True]
      have sorted: "entry_keys_sorted (si_rest ?next)" "Key (si_entry item) < Key (si_entry ?next)"
        using "1.prems"(2) sets rest by (auto simp: si_rest_def)
      have "merge_slices h out = merge_slices (heap_Push sliceHeap_Less h' ?next) ?out"
        by (subst merge_slices.simps) (simp add: False p True Let_def)
      moreover
      let ?h = "heap_Push sliceHeap_Less h' ?next"
      have set': "set ?h = insert ?next (set h')" by (metis mset_heap_Push set_mset_add_mset_insert set_mset_mset)
      have "\<forall>x \<in> set ?h. entry_keys_sorted (si_rest x)" using "1.prems"(2) sets sorted(1) set' by simp
      moreover have "Key o' \<le> Key (si_entry ?next)" if "o' \<in> set ?out" for o'
      proof -
        have "Key o' \<le> Key (si_entry item)" using that "1.prems"(4) sets by auto
        with sorted(2) show ?thesis by simp
      qed
      then have "\<forall>o' \<in> set ?out. \<forall>x \<in> set ?h. Key o' \<le> Key (si_entry x)" using out(2) unfolding set' by blast
      ultimately have "sorted (map Key (merge_slices h out)) \<and> mset (merge_slices h out) = mset ?out + heap_entries ?h"
        using "1.IH"(1) [OF False p [symmetric] refl refl] True slice_order.heap_ok_Push [OF ok'] out(1) by simp
      then show ?thesis using rest m by simp
    next
      case last: False
      have "merge_slices h out = merge_slices h' ?out"
        by (subst merge_slices.simps) (simp add: False p last Let_def)
      moreover have "si_rest item = [si_entry item]" using last by (simp add: si_rest_def)
      moreover have "sorted (map Key (merge_slices h' ?out)) \<and> mset (merge_slices h' ?out) = mset ?out + heap_entries h'"
        using "1.IH"(2) [OF False p [symmetric] refl refl] last ok' "1.prems"(2) sets out by simp
      ultimately show ?thesis using m by simp
    qed
  qed
qed

section \<open>Shard counts\<close>

lemma shl1_pow: "j < 62 \<Longrightarrow> shl1 (2 ^ j) = 2 ^ Suc j"
proof -
  assume j: "j < 62"
  then have "(2 :: int) ^ Suc j < 2 ^ 63" by (intro power_strict_increasing) auto
  then show ?thesis
    unfolding shl1_def power_Suc [symmetric] sint_sbintrunc' by (intro signed_take_bit_int_eq_self) (auto intro: order_trans [of _ 0])
qed

lemma nextPow2_loop_pow:
  assumes "v \<le> 2 ^ 62" "j \<le> 62"
  shows "\<exists>k \<le> 62. nextPow2_loop v (2 ^ j) = Some (2 ^ k) \<and> v \<le> 2 ^ k \<and> (k = j \<or> 2 ^ (k - 1) < v)"
  using assms(2)
proof (induction "62 - j" arbitrary: j)
  case 0
  then have "nextPow2_loop v (2 ^ j) = Some (2 ^ j)" using assms(1) by (subst nextPow2_loop.simps) simp
  with 0 assms(1) show ?case by (intro exI [of _ 62]) simp
next
  case (Suc n)
  show ?case
  proof (cases "2 ^ j < v")
    case True
    have "nextPow2_loop v (2 ^ j) = nextPow2_loop v (2 ^ Suc j)"
      using True shl1_pow [of j] Suc(2) by (subst nextPow2_loop.simps) simp
    moreover obtain k where "k \<le> 62" "nextPow2_loop v (2 ^ Suc j) = Some (2 ^ k)" "v \<le> 2 ^ k"
      "k = Suc j \<or> 2 ^ (k - 1) < v"
    proof -
      have "n = 62 - Suc j" "Suc j \<le> 62" using Suc(2) by simp_all
      from Suc(1) [OF this] that show thesis by blast
    qed
    ultimately show ?thesis using True by auto
  next
    case False
    then have "nextPow2_loop v (2 ^ j) = Some (2 ^ j)" by (subst nextPow2_loop.simps) simp
    with False Suc(3) show ?thesis by (intro exI [of _ j]) simp
  qed
qed

lemma nextPow2_ok:
  assumes "v \<le> 2 ^ 62"
  obtains k where "k \<le> 62" "nextPow2 v = Some (2 ^ k)" "v \<le> 2 ^ k" "k = 0 \<or> 2 ^ (k - 1) < v"
proof (cases "v \<le> 1")
  case True
  then show thesis using that [of 0] by (simp add: nextPow2_def)
next
  case False
  from nextPow2_loop_pow [OF assms, of 0] obtain k where "k \<le> 62" "nextPow2_loop v 1 = Some (2 ^ k)" "v \<le> 2 ^ k"
    "k = 0 \<or> 2 ^ (k - 1) < v" by auto
  with False that [of k] show thesis by (simp add: nextPow2_def)
qed

text \<open>Past \<open>2 ^ 62\<close> the doubled value wraps to the least integer, then to zero, and stays there.\<close>

definition pow2_orbit :: "int set" where
  "pow2_orbit = {0, - (2 ^ 63)} \<union> (\<lambda>j. 2 ^ j) ` {..62 :: nat}"

lemma shl1_orbit:
  assumes "n \<in> pow2_orbit"
  shows "shl1 n \<in> pow2_orbit" "n \<le> 2 ^ 62"
proof -
  have e: "shl1 0 = 0" "shl1 (- (2 ^ 63)) = 0" "shl1 (2 ^ 62) = - (2 ^ 63)" by code_simp+
  consider "n = 0" | "n = - (2 ^ 63)" | j where "j \<le> 62" "n = 2 ^ j" using assms by (auto simp: pow2_orbit_def)
  then show "shl1 n \<in> pow2_orbit"
  proof cases
    case (3 j)
    show ?thesis
    proof (cases "j = 62")
      case True
      then show ?thesis using 3 e(3) by (simp add: pow2_orbit_def)
    next
      case False
      with 3 have "j < 62" by simp
      then have "shl1 n = 2 ^ Suc j" "Suc j \<in> {..62}" using 3 shl1_pow [of j] by simp_all
      then show ?thesis unfolding pow2_orbit_def by blast
    qed
  qed (use e in \<open>simp_all add: pow2_orbit_def\<close>)
  show "n \<le> 2 ^ 62"
    using assms power_increasing [of _ 62 "2 :: int"] by (auto simp: pow2_orbit_def)
qed

lemma nextPow2_loop_orbit:
  assumes "nextPow2_loop v n = Some y"
  shows "n \<in> pow2_orbit \<longrightarrow> v \<le> 2 ^ 62"
proof (rule nextPow2_loop.raw_induct [where P = "\<lambda>v n y. n \<in> pow2_orbit \<longrightarrow> v \<le> 2 ^ 62", OF _ assms])
  fix loop v n y
  assume step: "\<And>v n y. loop v n = Some y \<Longrightarrow> n \<in> pow2_orbit \<longrightarrow> v \<le> 2 ^ 62"
    and eq: "(if n < v then loop v (shl1 n) else Some n) = Some y"
  show "n \<in> pow2_orbit \<longrightarrow> v \<le> 2 ^ 62"
  proof (cases "n < v")
    case True
    with eq have "loop v (shl1 n) = Some y" by simp
    from step [OF this] shl1_orbit(1) [of n] show ?thesis by blast
  next
    case False
    with shl1_orbit(2) [of n] show ?thesis by linarith
  qed
qed

text \<open>
  C26: the shard count is rounded up to the least power of two that is not below it, and the rounding
  returns exactly for counts up to \<open>2 ^ 62\<close>; above, the doubled value overflows to zero and the loop
  runs for ever.
\<close>

theorem nextPow2_returns_iff:
  "((\<exists>n. nextPow2 v = Some n) \<longleftrightarrow> v \<le> 2 ^ 62) \<and>
   (nextPow2 v = None \<or> (\<exists>k. nextPow2 v = Some (2 ^ k) \<and> v \<le> 2 ^ k \<and> (k = 0 \<or> 2 ^ (k - 1) < v)))"
proof (cases "v \<le> 2 ^ 62")
  case True
  obtain k where "k \<le> 62" "nextPow2 v = Some (2 ^ k)" "v \<le> 2 ^ k" "k = 0 \<or> 2 ^ (k - 1) < v"
    by (rule nextPow2_ok [OF True])
  with True show ?thesis by blast
next
  case False
  have "1 \<in> pow2_orbit" unfolding pow2_orbit_def by (intro UnI2 image_eqI [of _ _ 0]) simp_all
  then have "nextPow2 v = None"
    using nextPow2_loop_orbit [of v 1] False by (cases "nextPow2_loop v 1") (auto simp: nextPow2_def)
  with False show ?thesis by simp
qed

section \<open>Contents\<close>

definition shard_holds :: "shard \<Rightarrow> entry list \<Rightarrow> bool" where
  "shard_holds s es \<longleftrightarrow> sl_holds (sh_list s) es \<and> sh_entries s = int (length es) \<and>
     sh_bytes s = sum_list (map entrySize es) \<and> arena_ok (sh_arena s)"

text \<open>\<open>ps\<close> are the contents of the shards; the hash mask fits the number of shards.\<close>

definition parts_hold :: "ShardedSkipListTable \<Rightarrow> entry list list \<Rightarrow> bool" where
  "parts_hold t ps \<longleftrightarrow>
     (\<exists>k \<le> 62. length (st_shards t) = 2 ^ k \<and> st_mask t = mask k) \<and> list_all2 shard_holds (st_shards t) ps \<and>
     st_sizeBytes t = sum_list (map (\<lambda>p. sum_list (map entrySize p)) ps)"

definition parts :: "ShardedSkipListTable \<Rightarrow> entry list \<Rightarrow> entry list list" where
  "parts t es = map (\<lambda>i. filter (\<lambda>e. shard_index (st_mask t) (Key e) = i) es) [0..<length (st_shards t)]"

definition sharded_holds :: "ShardedSkipListTable \<Rightarrow> entry list \<Rightarrow> bool" where
  "sharded_holds t es \<longleftrightarrow> entry_keys_sorted es \<and> parts_hold t (parts t es)"

lemma shard_index_less: "parts_hold t ps \<Longrightarrow> shard_index (st_mask t) key < length (st_shards t)"
proof -
  assume "parts_hold t ps"
  then obtain k where k: "k \<le> 62" "length (st_shards t) = 2 ^ k" "st_mask t = mask k" by (auto simp: parts_hold_def)
  have "unat (hashKey key AND mask k) = take_bit k (unat (hashKey key))"
    by (simp flip: take_bit_eq_mask add: unsigned_take_bit_eq)
  with k show ?thesis by (simp add: shard_index_def take_bit_nat_less_exp)
qed

lemma sum_parts:
  fixes f :: "entry \<Rightarrow> int"
  assumes "\<forall>e \<in> set es. idx e < n"
  shows "(\<Sum>i\<leftarrow>[0..<n]. sum_list (map f (filter (\<lambda>e. idx e = i) es))) = sum_list (map f es)"
  using assms
proof (induction es)
  case (Cons e es)
  have "(\<Sum>i\<leftarrow>[0..<n]. if idx e = i then f e else 0) = f e"
    using Cons.prems by (simp add: interv_sum_list_conv_sum_set_nat)
  moreover have "(\<Sum>i\<leftarrow>[0..<n]. sum_list (map f (filter (\<lambda>e. idx e = i) (e # es)))) =
      (\<Sum>i\<leftarrow>[0..<n]. (if idx e = i then f e else 0) + sum_list (map f (filter (\<lambda>e. idx e = i) es)))"
    by (intro arg_cong [where f = sum_list] map_cong) auto
  ultimately show ?case using Cons by (simp add: sum_list_addf)
qed simp

lemma parts_nth:
  "i < length (st_shards t) \<Longrightarrow> parts t es ! i = filter (\<lambda>e. shard_index (st_mask t) (Key e) = i) es"
  "length (parts t es) = length (st_shards t)"
  by (simp_all add: parts_def)

lemma sharded_size:
  assumes "sharded_holds t es"
  shows "st_sizeBytes t = sum_list (map entrySize es)"
proof -
  have p: "parts_hold t (parts t es)" using assms by (simp add: sharded_holds_def)
  then have "st_sizeBytes t = sum_list (map (\<lambda>p. sum_list (map entrySize p)) (parts t es))" by (simp add: parts_hold_def)
  also have "\<dots> = sum_list (map entrySize es)"
    unfolding parts_def map_map comp_def by (rule sum_parts) (use shard_index_less [OF p] in simp)
  finally show ?thesis .
qed

lemma sharded_holds_new:
  assumes "newShardedSkipListTable (2 ^ k) blockSize = Inr t" "k \<le> 62"
  shows "sharded_holds t []"
proof -
  let ?s = "\<lparr>sh_list = NewSkipList, sh_entries = 0, sh_bytes = 0, sh_arena = (NewArena blockSize, [])\<rparr>"
  have t: "st_shards t = replicate (2 ^ k) ?s" "st_mask t = mask k" "st_sizeBytes t = 0"
    using assms by (auto simp: newShardedSkipListTable_def nat_power_eq mask_eq_exp_minus_1 split: if_splits)
  have "parts t [] = replicate (2 ^ k) []" by (simp add: parts_def t map_replicate_const)
  moreover have "shard_holds ?s []" by (simp add: shard_holds_def sl_holds_New arena_ok_New)
  then have "list_all2 shard_holds (replicate n ?s) (replicate n [])" for n by (induction n) auto
  ultimately show ?thesis using assms(2) by (auto simp: sharded_holds_def parts_hold_def t sum_list_replicate)
qed

section \<open>Operations\<close>

lemma sum_list_update_int: "i < length xs \<Longrightarrow> sum_list (xs[i := x :: int]) = sum_list xs - xs ! i + x"
  by (induction xs arbitrary: i) (auto split: nat.split)

lemma shard_upsert_ok:
  assumes h: "parts_hold t ps" and i: "i < length (st_shards t)"
  obtains t' where "shard_upsert i e t = Some (Inr t')" "parts_hold t' (ps[i := upsert e (ps ! i)])"
    "st_mask t' = st_mask t" "length (st_shards t') = length (st_shards t)"
proof -
  let ?s = "st_shards t ! i"
  have all: "list_all2 shard_holds (st_shards t) ps" using h by (simp add: parts_hold_def)
  have len: "length ps = length (st_shards t)" using list_all2_lengthD [OF all] by simp
  have s: "shard_holds ?s (ps ! i)" using all i by (simp add: list_all2_conv_all_nth)
  then have l: "sl_holds (sh_list ?s) (ps ! i)" by (simp add: shard_holds_def)
  obtain r list where r: "Upsert e (sh_list ?s) = Some (Inr (r, list))" "sl_holds list (upsert e (ps ! i))"
    "size_delta e r = sum_list (map entrySize (upsert e (ps ! i))) - sum_list (map entrySize (ps ! i))"
    "fst r \<longleftrightarrow> lookup (Key e) (ps ! i) = None"
    by (rule Upsert_delta [OF l])
  define s' where "s' = ?s\<lparr>sh_list := list, sh_entries := sh_entries ?s + (if fst r then 1 else 0),
    sh_bytes := sh_bytes ?s + size_delta e r\<rparr>"
  define t' where "t' = t\<lparr>st_shards := (st_shards t)[i := s'], st_sizeBytes := st_sizeBytes t + size_delta e r\<rparr>"
  have "shard_holds s' (upsert e (ps ! i))"
    using s r length_upsert [OF sl_holds_sorted [OF l], of e]
    by (simp add: shard_holds_def s'_def split: option.splits)
  then have "list_all2 shard_holds (st_shards t') (ps[i := upsert e (ps ! i)])"
    using all by (simp add: t'_def list_all2_update_cong)
  moreover have "st_sizeBytes t' = sum_list (map (\<lambda>p. sum_list (map entrySize p)) (ps[i := upsert e (ps ! i)]))"
    using h r(3) i len by (simp add: t'_def parts_hold_def map_update sum_list_update_int)
  ultimately have "parts_hold t' (ps[i := upsert e (ps ! i)])"
    using h by (auto simp: parts_hold_def t'_def)
  moreover have "shard_upsert i e t = Some (Inr t')"
    using r(1) by (simp add: shard_upsert_def Let_def t'_def s'_def)
  ultimately show thesis using that [of t'] by (simp add: t'_def)
qed

lemma shard_upserts_ok:
  assumes "parts_hold t ps" "i < length (st_shards t)"
  shows "\<exists>t'. shard_upserts i es t = Some (Inr t') \<and> parts_hold t' (ps[i := fold upsert es (ps ! i)]) \<and>
    st_mask t' = st_mask t \<and> length (st_shards t') = length (st_shards t)"
  using assms
proof (induction es arbitrary: t ps)
  case Nil
  then have "i < length ps" by (auto simp: parts_hold_def dest: list_all2_lengthD)
  with Nil show ?case by simp
next
  case (Cons e es)
  have len: "length ps = length (st_shards t)" using Cons.prems(1) by (auto simp: parts_hold_def dest: list_all2_lengthD)
  obtain t1 where t1: "shard_upsert i e t = Some (Inr t1)" "parts_hold t1 (ps[i := upsert e (ps ! i)])"
    "st_mask t1 = st_mask t" "length (st_shards t1) = length (st_shards t)"
    by (rule shard_upsert_ok [OF Cons.prems])
  from Cons.IH [OF t1(2)] Cons.prems(2) t1(4) obtain t2 where "shard_upserts i es t1 = Some (Inr t2)"
    "parts_hold t2 (ps[i := upsert e (ps ! i), i := fold upsert es (ps[i := upsert e (ps ! i)] ! i)])"
    "st_mask t2 = st_mask t1" "length (st_shards t2) = length (st_shards t1)"
    by auto
  with t1 Cons.prems(2) len show ?case by auto
qed

lemma apply_groups_ok:
  assumes "parts_hold t (done @ ps)" "length gs = length ps"
  shows "\<exists>t'. apply_groups (length done) gs t = Some (Inr t') \<and>
    parts_hold t' (done @ map2 (fold upsert) gs ps) \<and> st_mask t' = st_mask t \<and> length (st_shards t') = length (st_shards t)"
  using assms(2,1)
proof (induction gs ps arbitrary: t "done" rule: list_induct2)
  case (Cons g gs p ps)
  have len: "length (st_shards t) = length (done @ p # ps)"
    using Cons.prems by (auto simp: parts_hold_def dest: list_all2_lengthD)
  show ?case
  proof (cases "g = []")
    case True
    with Cons.IH [of t "done @ [p]"] Cons.prems show ?thesis by simp
  next
    case False
    obtain t1 where t1: "shard_upserts (length done) g t = Some (Inr t1)"
      "parts_hold t1 ((done @ [fold upsert g p]) @ ps)" "st_mask t1 = st_mask t"
      "length (st_shards t1) = length (st_shards t)"
      using shard_upserts_ok [OF Cons.prems, of "length done" g] len by auto
    with Cons.IH [OF t1(2)] False show ?thesis by auto
  qed
qed simp

lemma group_by_shard_ok:
  assumes "\<And>k. shard_index msk k < length acc"
  shows "group_by_shard msk es acc =
    Inr (map (\<lambda>i. acc ! i @ filter (\<lambda>e. shard_index msk (Key e) = i) es) [0..<length acc])"
  using assms
proof (induction es arbitrary: acc)
  case Nil
  then show ?case by (simp add: map_nth)
next
  case (Cons e es)
  let ?acc = "acc[shard_index msk (Key e) := acc ! shard_index msk (Key e) @ [e]]"
  have "group_by_shard msk es ?acc =
    Inr (map (\<lambda>i. ?acc ! i @ filter (\<lambda>e. shard_index msk (Key e) = i) es) [0..<length ?acc])"
    using Cons by simp
  also have "map (\<lambda>i. ?acc ! i @ filter (\<lambda>e. shard_index msk (Key e) = i) es) [0..<length ?acc] =
      map (\<lambda>i. acc ! i @ filter (\<lambda>e. shard_index msk (Key e) = i) (e # es)) [0..<length acc]"
    by (auto simp: nth_list_update)
  finally show ?case using Cons.prems [of "Key e"] by (simp add: Let_def)
qed

lemma parts_hold_bumpSeq [simp]:
  "parts_hold (bumpSeq q t) ps = parts_hold t ps" "st_mask (bumpSeq q t) = st_mask t"
  "st_shards (bumpSeq q t) = st_shards t"
  by (simp_all add: parts_hold_def bumpSeq_def)

lemma parts_cong:
  "st_mask t' = st_mask t \<Longrightarrow> length (st_shards t') = length (st_shards t) \<Longrightarrow> parts t' es = parts t es"
  by (simp add: parts_def)

lemma Sharded_ApplyBatchOwned_ok:
  assumes h: "sharded_holds t es"
  shows "\<exists>t'. Sharded_ApplyBatchOwned new t = Some (Inr t') \<and> sharded_holds t' (fold upsert new es)"
proof (cases new)
  case Nil
  with h show ?thesis by (simp add: Sharded_ApplyBatchOwned_def)
next
  case (Cons e rest)
  have s: "entry_keys_sorted es" and p: "parts_hold t (parts t es)" using h by (auto simp: sharded_holds_def)
  define q where "q = fold (\<lambda>e m. if m < Seq e then Seq e else m) new (Seq e)"
  have g: "group_by_shard (st_mask t) new (replicate (length (st_shards t)) []) = Inr (parts t new)"
    using shard_index_less [OF p] by (subst group_by_shard_ok) (auto simp: parts_def)
  have "parts_hold (bumpSeq q t) ([] @ parts t es)" "length (parts t new) = length (parts t es)"
    using p by (simp_all add: parts_nth)
  from apply_groups_ok [OF this] obtain t' where t': "apply_groups 0 (parts t new) (bumpSeq q t) = Some (Inr t')"
    "parts_hold t' (map2 (fold upsert) (parts t new) (parts t es))" "st_mask t' = st_mask t"
    "length (st_shards t') = length (st_shards t)" by auto
  have "map2 (fold upsert) (parts t new) (parts t es) = parts t (fold upsert new es)"
    using filter_fold_upsert [OF s, of "\<lambda>k. shard_index (st_mask t) k = i" new for i]
    by (intro nth_equalityI) (simp_all add: parts_nth)
  then have "sharded_holds t' (fold upsert new es)"
    using t' fold_upsert_sorted [OF s] parts_cong [OF t'(3,4)] by (simp add: sharded_holds_def)
  moreover have "Sharded_ApplyBatchOwned new t = Some (Inr t')"
    using g t'(1) unfolding Sharded_ApplyBatchOwned_def q_def by (simp add: Cons Let_def)
  ultimately show ?thesis by blast
qed

lemma pick_ok:
  assumes "parts_hold t ps"
  shows "pick t k = Inr (shard_index (st_mask t) k, st_shards t ! shard_index (st_mask t) k)"
  using shard_index_less [OF assms, of k] by (simp add: pick_def Let_def)

lemma Sharded_ApplyOwned_ok:
  assumes h: "sharded_holds t es"
  shows "\<exists>t'. Sharded_ApplyOwned e t = Some (Inr t') \<and> sharded_holds t' (upsert e es)"
proof -
  have s: "entry_keys_sorted es" and p: "parts_hold t (parts t es)" using h by (auto simp: sharded_holds_def)
  define i where "i = shard_index (st_mask t) (Key e)"
  have i: "i < length (st_shards t)" unfolding i_def by (rule shard_index_less [OF p])
  have p': "parts_hold (bumpSeq (Seq e) t) (parts t es)" "i < length (st_shards (bumpSeq (Seq e) t))" using p i by simp_all
  obtain t' where t': "shard_upsert i e (bumpSeq (Seq e) t) = Some (Inr t')"
    "parts_hold t' ((parts t es)[i := upsert e (parts t es ! i)])"
    "st_mask t' = st_mask (bumpSeq (Seq e) t)" "length (st_shards t') = length (st_shards (bumpSeq (Seq e) t))"
    by (rule shard_upsert_ok [OF p'])
  have "(parts t es)[i := upsert e (parts t es ! i)] = parts t (upsert e es)"
    using filter_upsert [OF s, of "\<lambda>k. shard_index (st_mask t) k = j" e for j] i
    by (intro nth_equalityI) (auto simp: parts_nth nth_list_update i_def)
  then have "sharded_holds t' (upsert e es)"
    using t' upsert_sorted [OF s] parts_cong [of t' t] by (simp add: sharded_holds_def)
  moreover have "Sharded_ApplyOwned e t = Some (Inr t')"
    using t'(1) pick_ok [OF p'(1)] by (simp add: Sharded_ApplyOwned_def i_def Let_def)
  ultimately show ?thesis by blast
qed

lemma shard_part:
  assumes "sharded_holds t es" "i < length (st_shards t)"
  shows "shard_holds (st_shards t ! i) (filter (\<lambda>e. shard_index (st_mask t) (Key e) = i) es)"
  using assms list_all2_nthD [of shard_holds "st_shards t" "parts t es" i]
  by (simp add: sharded_holds_def parts_hold_def parts_nth)

lemma Sharded_Get_ok:
  assumes h: "sharded_holds t es"
  shows "Sharded_Get t k = Some (Inr (lookup k es))"
proof -
  let ?i = "shard_index (st_mask t) k"
  have p: "parts_hold t (parts t es)" using h by (simp add: sharded_holds_def)
  have "sl_holds (sh_list (st_shards t ! ?i)) (filter (\<lambda>e. shard_index (st_mask t) (Key e) = ?i) es)"
    using shard_part [OF h shard_index_less [OF p]] by (simp add: shard_holds_def)
  from SkipList_Get_ok [OF this, of k] pick_ok [OF p, of k]
    lookup_filter_key [of k "\<lambda>k'. shard_index (st_mask t) k' = ?i" es]
  show ?thesis by (simp add: Sharded_Get_def)
qed

lemma collect_shards_ok:
  "list_all2 shard_holds ss ps \<Longrightarrow>
     collect_shards ss start en = Some (Inr (filter (\<lambda>p. p \<noteq> []) (map (range_entries start en) ps)))"
proof (induction rule: list_all2_induct)
  case (Cons s ss p ps)
  then obtain x where "IterFrom (sh_list s) start = Some (Inr x)"
    "sl_collect (sh_list s) en x [] = Some (Inr (range_entries start en p))"
    using sl_range_ok [of "sh_list s" p start en] by (auto simp: shard_holds_def)
  with Cons show ?case by (simp add: collectShardEntries_def)
qed simp

lemma mset_parts:
  assumes "\<forall>e \<in> set es. idx e < n"
  shows "(\<Sum>i\<leftarrow>[0..<n]. mset (filter (\<lambda>e. idx e = i) es)) = mset es"
  using assms
proof (induction es)
  case (Cons e es)
  have "(\<Sum>i\<leftarrow>[0..<n]. if idx e = i then {#e#} else {#}) = {#e#}"
    using Cons.prems by (simp add: interv_sum_list_conv_sum_set_nat)
  moreover have "(\<Sum>i\<leftarrow>[0..<n]. mset (filter (\<lambda>e. idx e = i) (e # es))) =
      (\<Sum>i\<leftarrow>[0..<n]. (if idx e = i then {#e#} else {#}) + mset (filter (\<lambda>e. idx e = i) es))"
    by (intro arg_cong [where f = sum_list] map_cong) auto
  ultimately show ?case using Cons by (simp add: sum_list_addf)
qed (induction n; simp)

text \<open>A sorted list with the entries of a list of distinct keys is that list in key order.\<close>

lemma sorted_mset_entries:
  assumes "sorted (map Key out)" "mset out = mset es" "entry_keys_sorted es"
  shows "out = es"
proof (rule sorted_entries_setI)
  have "distinct (map Key out)"
    using entry_keys_sorted_distinct [OF assms(3)] assms(2) by (metis mset_eq_imp_distinct_iff mset_map)
  with assms(1) show "entry_keys_sorted out" by (simp add: entry_keys_sorted_def strict_sorted_iff)
  show "set out = set es" using assms(2) by (metis set_mset_mset)
qed (rule assms(3))

lemma si_rest_slice_item: "g \<noteq> [] \<Longrightarrow> si_rest (slice_item g) = g"
  by (auto simp: slice_item_def si_rest_def neq_Nil_conv)

lemma mergeEntries_ok:
  assumes nil: "[] \<notin> set segs" and sorted: "\<forall>g \<in> set segs. entry_keys_sorted g"
    and sum: "sum_list (map mset segs) = mset es" and es: "entry_keys_sorted es"
  shows "mergeEntries segs = Inr es"
proof -
  define h where "h = heap_Init sliceHeap_Less (map slice_item segs)"
  have ok: "heap_ok sliceHeap_Less h" unfolding h_def by (rule slice_order.heap_ok_Init)
  have mh: "mset h = mset (map slice_item segs)" unfolding h_def by (rule mset_heap_Init)
  have rest: "si_rest (slice_item g) = g" if "g \<in> set segs" for g
    by (rule si_rest_slice_item) (use that nil in auto)
  have "set h = slice_item ` set segs" using mset_eq_setD [OF mh] by simp
  then have hs: "\<forall>x \<in> set h. entry_keys_sorted (si_rest x)" using rest sorted by auto
  have "map (\<lambda>g. mset (si_rest (slice_item g))) segs = map mset segs" using rest by (intro map_cong) auto
  then have "image_mset (\<lambda>x. mset (si_rest x)) (mset (map slice_item segs)) = mset (map mset segs)"
    by (metis (mono_tags, lifting) comp_apply list.map_comp list.map_cong0 mset_map)
  then have he: "heap_entries h = mset es" unfolding mh using sum by (simp only: sum_mset_sum_list)
  have m: "sorted (map Key (merge_slices h [])) \<and> mset (merge_slices h []) = mset [] + heap_entries h"
    by (rule merge_slices_ok [OF ok hs]) simp_all
  have "merge_slices h [] = es"
    by (rule sorted_mset_entries [OF conjunct1 [OF m] _ es]) (use m he in simp)
  then show ?thesis using nil by (simp add: mergeEntries_def h_def)
qed

lemma snapshotRange_ok:
  assumes h: "sharded_holds t es"
  shows "snapshotRange t start en = Some (Inr (range_entries start en es))"
proof -
  have s: "entry_keys_sorted es" and p: "parts_hold t (parts t es)" using h by (auto simp: sharded_holds_def)
  let ?r = "range_entries start en"
  let ?g = "map ?r (parts t es)"
  define segs where "segs = filter (\<lambda>p. p \<noteq> []) ?g"
  have ne: "st_shards t \<noteq> []" using p by (auto simp: parts_hold_def)
  have c: "collect_shards (st_shards t) start en = Some (Inr segs)"
    unfolding segs_def by (rule collect_shards_ok) (use p in \<open>simp add: parts_hold_def\<close>)
  have swap: "?r (filter q es) = filter q (?r es)" for q by (simp add: range_entries_def conj_commute)
  have sr: "entry_keys_sorted (?r es)" unfolding range_entries_def by (rule entry_keys_sorted_filter [OF s])
  have "sum_list (map mset segs) = sum_list (map mset ?g)"
    unfolding segs_def by (rule sum_list_map_filter) auto
  also have "\<dots> = mset (?r es)"
    unfolding parts_def map_map comp_def swap by (rule mset_parts) (use shard_index_less [OF p] in simp)
  finally have sum: "sum_list (map mset segs) = mset (?r es)" .
  have sorted: "\<forall>g \<in> set segs. entry_keys_sorted g"
    using sr by (auto simp: segs_def parts_def swap entry_keys_sorted_filter)
  have nil: "[] \<notin> set segs" by (simp add: segs_def)
  consider "segs = []" | g where "segs = [g]" | "segs \<noteq> []" "length segs \<noteq> 1"
    by (cases segs) auto
  then show ?thesis
  proof cases
    case 1
    with sum ne c show ?thesis by (simp add: snapshotRange_def)
  next
    case (2 g)
    have "g = ?r es" using sum sorted sr 2
      by (intro sorted_entries_setI) (auto dest: mset_eq_setD)
    with 2 ne c show ?thesis by (simp add: snapshotRange_def)
  next
    case 3
    with mergeEntries_ok [OF nil sorted sum sr] ne c show ?thesis by (simp add: snapshotRange_def)
  qed
qed

lemma Sharded_Range_ok:
  assumes h: "sharded_holds t es"
  shows "Sharded_Range t start en = Some (Inr (newSliceIterator (range_entries start en es)))"
proof -
  have "range_entries start en es = []" if "start \<noteq> [] \<and> en \<noteq> [] \<and> en \<le> start"
    using that by (auto simp: range_entries_def in_range_def filter_empty_conv)
  with snapshotRange_ok [OF h, of start en] show ?thesis by (simp add: Sharded_Range_def)
qed

lemma shard_holds_empty:
  assumes "list_all2 shard_holds ss ps" "\<And>s p. shard_holds s p \<Longrightarrow> shard_holds (f s) []"
  shows "list_all2 shard_holds (map f ss) (replicate (length ss) [])"
  using assms by (induction rule: list_all2_induct) auto

lemma Sharded_clear_ok:
  assumes h: "sharded_holds t es" and f: "\<And>s p. shard_holds s p \<Longrightarrow> shard_holds (f s) []"
    and t': "st_shards t' = map f (st_shards t)" "st_mask t' = st_mask t" "st_sizeBytes t' = 0"
  shows "sharded_holds t' []"
proof -
  have "parts t' [] = replicate (length (st_shards t)) []" by (simp add: parts_def t' map_replicate_const)
  then show ?thesis
    using h shard_holds_empty [of "st_shards t" "parts t es" f] f
    by (auto simp: sharded_holds_def parts_hold_def t' sum_list_replicate)
qed

lemma Sharded_Drain_ok:
  assumes h: "sharded_holds t es"
  shows "\<exists>t'. Sharded_Drain t = Some (Inr (es, t')) \<and> sharded_holds t' []"
proof -
  have "range_entries [] [] es = es" by (simp add: range_entries_def in_range_def)
  then have "Sharded_Range t [] [] = Some (Inr (newSliceIterator es))" using Sharded_Range_ok [OF h] by simp
  moreover have "sharded_holds
     (t\<lparr>st_shards := map (\<lambda>s. s\<lparr>sh_list := NewSkipList, sh_entries := 0, sh_bytes := 0\<rparr>) (st_shards t),
           st_sizeBytes := 0\<rparr>) []"
    by (rule Sharded_clear_ok [OF h, of "\<lambda>s. s\<lparr>sh_list := NewSkipList, sh_entries := 0, sh_bytes := 0\<rparr>"])
       (auto simp: shard_holds_def sl_holds_New)
  ultimately show ?thesis by (simp add: Sharded_Drain_def)
qed

lemma Sharded_Reset_ok:
  assumes h: "sharded_holds t es"
  shows "sharded_holds (Sharded_Reset t) []"
proof (rule Sharded_clear_ok [OF h])
  show "st_shards (Sharded_Reset t) = map (\<lambda>s. s\<lparr>sh_list := NewSkipList, sh_entries := 0, sh_bytes := 0,
      sh_arena := (Arena_Reset (fst (sh_arena s)) (snd (sh_arena s)), snd (sh_arena s))\<rparr>) (st_shards t)"
    by (simp add: Sharded_Reset_def)
  show "shard_holds (s\<lparr>sh_list := NewSkipList, sh_entries := 0, sh_bytes := 0,
      sh_arena := (Arena_Reset (fst (sh_arena s)) (snd (sh_arena s)), snd (sh_arena s))\<rparr>) []"
    if "shard_holds s p" for s p
    using that arena_ok_Reset [of "fst (sh_arena s)" "snd (sh_arena s)"] by (simp add: shard_holds_def sl_holds_New)
qed (simp_all add: Sharded_Reset_def)

lemma Sharded_CopyEntry_ok:
  assumes h: "sharded_holds t es"
  shows "\<exists>t'. Sharded_CopyEntry e t = Inr (e, t') \<and> sharded_holds t' es"
proof -
  have p: "parts_hold t (parts t es)" using h by (simp add: sharded_holds_def)
  let ?i = "shard_index (st_mask t) (Key e)"
  let ?s = "st_shards t ! ?i"
  note i = shard_index_less [OF p, of "Key e"]
  note sp = shard_part [OF h i]
  obtain st where c: "CopyEntry e (sh_arena ?s) = (e, st)" "arena_ok st"
    using CopyEntry_ok [of "sh_arena ?s" e] sp by (cases "CopyEntry e (sh_arena ?s)") (auto simp: shard_holds_def)
  define t' where "t' = t\<lparr>st_shards := (st_shards t)[?i := ?s\<lparr>sh_arena := st\<rparr>]\<rparr>"
  have all: "list_all2 shard_holds (st_shards t) (parts t es)" using p by (simp add: parts_hold_def)
  have "shard_holds (?s\<lparr>sh_arena := st\<rparr>) (parts t es ! ?i)" using sp c(2) i by (simp add: shard_holds_def parts_nth)
  from list_all2_update_cong [OF all this, of ?i]
  have "list_all2 shard_holds (st_shards t') (parts t es)" by (simp add: t'_def)
  moreover have "parts t' es = parts t es" by (rule parts_cong) (simp_all add: t'_def)
  ultimately have "sharded_holds t' es" using h by (auto simp: sharded_holds_def parts_hold_def t'_def)
  moreover have "Sharded_CopyEntry e t = Inr (e, t')"
    by (simp add: Sharded_CopyEntry_def pick_ok [OF p] c(1) t'_def)
  ultimately show ?thesis by blast
qed

interpretation sharded_table: memtable sharded_holds Sharded_Get Sharded_ApplyOwned Sharded_ApplyBatchOwned
  Sharded_Size Sharded_Drain Sharded_Range "\<lambda>e t. Some (Sharded_CopyEntry e t)" Sharded_Reset
proof
  fix t es assume h: "sharded_holds t es"
  then show "entry_keys_sorted es" by (simp add: sharded_holds_def)
  show "Sharded_Size t = sum_list (map entrySize es)" using sharded_size [OF h] by (simp add: Sharded_Size_def)
  show "Sharded_Get t k = Some (Inr (lookup k es))" for k by (rule Sharded_Get_ok [OF h])
  show "\<exists>t'. Sharded_ApplyOwned e t = Some (Inr t') \<and> sharded_holds t' (upsert e es)" for e
    by (rule Sharded_ApplyOwned_ok [OF h])
  show "\<exists>t'. Sharded_ApplyBatchOwned new t = Some (Inr t') \<and> sharded_holds t' (fold upsert new es)" for new
    by (rule Sharded_ApplyBatchOwned_ok [OF h])
  show "\<exists>t'. Sharded_Drain t = Some (Inr (es, t')) \<and> sharded_holds t' []" by (rule Sharded_Drain_ok [OF h])
  show "Sharded_Range t start en = Some (Inr (newSliceIterator (range_entries start en es)))" for start en
    by (rule Sharded_Range_ok [OF h])
  show "\<exists>t'. Some (Sharded_CopyEntry e t) = Some (Inr (e, t')) \<and> sharded_holds t' es" for e
    using Sharded_CopyEntry_ok [OF h, of e] by simp
  show "sharded_holds (Sharded_Reset t) []" by (rule Sharded_Reset_ok [OF h])
qed

text \<open>The counts of the shards add up.\<close>

lemma Sharded_Stats_ok:
  assumes h: "sharded_holds t es"
  shows "ts_Entries (Sharded_Stats t) = int (length es)" "ts_Bytes (Sharded_Stats t) = sum_list (map entrySize es)"
proof -
  have p: "parts_hold t (parts t es)" using h by (simp add: sharded_holds_def)
  have "list_all2 shard_holds (st_shards t) (parts t es)" using p by (simp add: parts_hold_def)
  then have "map sh_entries (st_shards t) = map (\<lambda>p. int (length p)) (parts t es)"
    by (induction rule: list_all2_induct) (auto simp: shard_holds_def)
  then have "ts_Entries (Sharded_Stats t) = (\<Sum>p\<leftarrow>parts t es. int (length p))" by (simp add: Sharded_Stats_def Let_def)
  also have "\<dots> = (\<Sum>i\<leftarrow>[0..<length (st_shards t)].
      sum_list (map (\<lambda>_. 1) (filter (\<lambda>e. shard_index (st_mask t) (Key e) = i) es)))"
    by (simp add: parts_def comp_def sum_list_triv)
  also have "\<dots> = sum_list (map (\<lambda>_. 1) es)" by (rule sum_parts) (use shard_index_less [OF p] in simp)
  finally show "ts_Entries (Sharded_Stats t) = int (length es)" by (simp add: sum_list_triv)
  show "ts_Bytes (Sharded_Stats t) = sum_list (map entrySize es)"
    using sharded_size [OF h] by (simp add: Sharded_Stats_def Let_def)
qed

end
