(* ===== verification/Mem_Tables.thy ===== *)
theory Mem_Tables
  imports Map_Table Sharded_Table
begin

text \<open>
  The memtable behind the interface \<open>memtable.Table\<close>: which implementation a factory makes
  (\<open>internal/lsm/memtable/table/factory.go\<close>), and the calls of the interface on it.
\<close>

datatype mem_table =
    MapTab MapTable
  | SkipTab SkipListTable
  | ShardedTab ShardedSkipListTable

text \<open>
  \<open>strings.ToLower\<close> as far as comparing its result with an ASCII word goes: besides the ASCII capitals, the two
  runes whose lower case is an ASCII letter, U+0130 (i) and U+212A (k); no other rune becomes one.
\<close>

fun ascii_ToLower :: "string \<Rightarrow> string" where
  "ascii_ToLower [] = []"
| "ascii_ToLower (c # s) =
     (if c = CHR 0xC4 \<and> take 1 s = [CHR 0xB0] then CHR ''i'' # ascii_ToLower (drop 1 s)
      else if c = CHR 0xE2 \<and> take 2 s = [CHR 0x84, CHR 0xAA] then CHR ''k'' # ascii_ToLower (drop 2 s)
      else ascii_lower c # ascii_ToLower s)"

text \<open>\<open>procs\<close> is \<open>runtime.GOMAXPROCS(0)\<close>; the result is the factory as the table a call of it makes.\<close>

definition FactoryForKind :: "int \<Rightarrow> string \<Rightarrow> int \<Rightarrow> int \<Rightarrow> int \<Rightarrow> mem_table result option result" where
  "FactoryForKind procs kind concurrency shards arenaBlockSize =
     (let k = ascii_ToLower kind
      in if k = '''' \<or> k = ''sharded'' \<or> k = ''sharded-skiplist''
         then Inr (map_option (\<lambda>r. bind_result r (\<lambda>t. Inr (ShardedTab t)))
                (if 0 < shards then NewShardedSkipListTableWithShardsAndArena shards arenaBlockSize
                 else NewShardedSkipListTableWithArena procs concurrency arenaBlockSize))
         else if k = ''skiplist'' then Inr (Some (Inr (SkipTab (newSkipListTable arenaBlockSize))))
         else if k = ''map'' then Inr (Some (Inr (MapTab (newMapTable arenaBlockSize))))
         else Inl (ErrMsg ''unknown memtable kind''))"

section \<open>Calls of the interface\<close>

fun Table_Get :: "mem_table \<Rightarrow> bytes \<Rightarrow> entry option result option" where
  "Table_Get (MapTab m) k = Some (Inr (Map_Get m k))"
| "Table_Get (SkipTab t) k = Skip_Get t k"
| "Table_Get (ShardedTab t) k = Sharded_Get t k"

fun Table_ApplyOwned :: "entry \<Rightarrow> mem_table \<Rightarrow> mem_table result option" where
  "Table_ApplyOwned e (MapTab m) = Some (Inr (MapTab (Map_ApplyOwned e m)))"
| "Table_ApplyOwned e (SkipTab t) = bind_outcome (Skip_ApplyOwned e t) (\<lambda>t. Some (Inr (SkipTab t)))"
| "Table_ApplyOwned e (ShardedTab t) = bind_outcome (Sharded_ApplyOwned e t) (\<lambda>t. Some (Inr (ShardedTab t)))"

fun Table_ApplyBatchOwned :: "entry list \<Rightarrow> mem_table \<Rightarrow> mem_table result option" where
  "Table_ApplyBatchOwned es (MapTab m) = Some (Inr (MapTab (Map_ApplyBatchOwned es m)))"
| "Table_ApplyBatchOwned es (SkipTab t) = bind_outcome (Skip_ApplyBatchOwned es t) (\<lambda>t. Some (Inr (SkipTab t)))"
| "Table_ApplyBatchOwned es (ShardedTab t) =
     bind_outcome (Sharded_ApplyBatchOwned es t) (\<lambda>t. Some (Inr (ShardedTab t)))"

fun Table_Size :: "mem_table \<Rightarrow> int" where
  "Table_Size (MapTab m) = Map_Size m"
| "Table_Size (SkipTab t) = Skip_Size t"
| "Table_Size (ShardedTab t) = Sharded_Size t"

fun Table_Stats :: "mem_table \<Rightarrow> table_stats" where
  "Table_Stats (MapTab m) = Map_Stats m"
| "Table_Stats (SkipTab t) = Skip_Stats t"
| "Table_Stats (ShardedTab t) = Sharded_Stats t"

fun Table_Drain :: "mem_table \<Rightarrow> (entry list \<times> mem_table) result option" where
  "Table_Drain (MapTab m) = (let (es, m) = Map_Drain m in Some (Inr (es, MapTab m)))"
| "Table_Drain (SkipTab t) = bind_outcome (Skip_Drain t) (\<lambda>(es, t). Some (Inr (es, SkipTab t)))"
| "Table_Drain (ShardedTab t) = bind_outcome (Sharded_Drain t) (\<lambda>(es, t). Some (Inr (es, ShardedTab t)))"

fun Table_Range :: "mem_table \<Rightarrow> bytes \<Rightarrow> bytes \<Rightarrow> sliceIterator result option" where
  "Table_Range (MapTab m) start en = Some (Inr (Map_Range m start en))"
| "Table_Range (SkipTab t) start en = Skip_Range t start en"
| "Table_Range (ShardedTab t) start en = Sharded_Range t start en"

definition Table_Iter :: "mem_table \<Rightarrow> sliceIterator result option" where
  "Table_Iter t = Table_Range t [] []"

fun Table_CopyEntry :: "entry \<Rightarrow> mem_table \<Rightarrow> (entry \<times> mem_table) result option" where
  "Table_CopyEntry e (MapTab m) = (let (e', m) = Map_CopyEntry e m in Some (Inr (e', MapTab m)))"
| "Table_CopyEntry e (SkipTab t) = (let (e', t) = Skip_CopyEntry e t in Some (Inr (e', SkipTab t)))"
| "Table_CopyEntry e (ShardedTab t) =
     Some (bind_result (Sharded_CopyEntry e t) (\<lambda>(e', t). Inr (e', ShardedTab t)))"

fun Table_Reset :: "mem_table \<Rightarrow> mem_table" where
  "Table_Reset (MapTab m) = MapTab (Map_Reset m)"
| "Table_Reset (SkipTab t) = SkipTab (Skip_Reset t)"
| "Table_Reset (ShardedTab t) = ShardedTab (Sharded_Reset t)"

fun Table_writers :: "mem_table \<Rightarrow> nat" where
  "Table_writers (MapTab m) = mt_wg m"
| "Table_writers (SkipTab t) = kt_wg t"
| "Table_writers (ShardedTab t) = st_wg t"

fun Table_IncWriter :: "mem_table \<Rightarrow> mem_table" where
  "Table_IncWriter (MapTab m) = MapTab (m\<lparr>mt_wg := wg_Add1 (mt_wg m)\<rparr>)"
| "Table_IncWriter (SkipTab t) = SkipTab (t\<lparr>kt_wg := wg_Add1 (kt_wg t)\<rparr>)"
| "Table_IncWriter (ShardedTab t) = ShardedTab (t\<lparr>st_wg := wg_Add1 (st_wg t)\<rparr>)"

fun Table_DecWriter :: "mem_table \<Rightarrow> mem_table result" where
  "Table_DecWriter (MapTab m) = bind_result (wg_Done (mt_wg m)) (\<lambda>n. Inr (MapTab (m\<lparr>mt_wg := n\<rparr>)))"
| "Table_DecWriter (SkipTab t) = bind_result (wg_Done (kt_wg t)) (\<lambda>n. Inr (SkipTab (t\<lparr>kt_wg := n\<rparr>)))"
| "Table_DecWriter (ShardedTab t) = bind_result (wg_Done (st_wg t)) (\<lambda>n. Inr (ShardedTab (t\<lparr>st_wg := n\<rparr>)))"

definition Table_WaitWriters :: "mem_table \<Rightarrow> lsm_error option \<Rightarrow> (unit result) list" where
  "Table_WaitWriters t ctx = WaitWriters (Table_writers t) ctx"

section \<open>Contents\<close>

fun table_holds_entries :: "mem_table \<Rightarrow> entry list \<Rightarrow> bool" where
  "table_holds_entries (MapTab m) es = map_holds m es"
| "table_holds_entries (SkipTab t) es = skip_holds t es"
| "table_holds_entries (ShardedTab t) es = sharded_holds t es"

interpretation mem_table: memtable table_holds_entries Table_Get Table_ApplyOwned Table_ApplyBatchOwned Table_Size
  Table_Drain Table_Range Table_CopyEntry Table_Reset
proof
  fix t es assume h: "table_holds_entries t es"
  show "entry_keys_sorted es"
    using h map_table.holds_sorted skip_table.holds_sorted sharded_table.holds_sorted by (cases t) auto
  show "Table_Get t k = Some (Inr (lookup k es))" for k
    using h map_table.get_law skip_table.get_law sharded_table.get_law by (cases t) auto
  show "\<exists>t'. Table_ApplyOwned e t = Some (Inr t') \<and> table_holds_entries t' (upsert e es)" for e
    using h map_table.apply_law [of _ es e] skip_table.apply_law [of _ es e] sharded_table.apply_law [of _ es e]
    by (cases t) force+
  show "\<exists>t'. Table_ApplyBatchOwned new t = Some (Inr t') \<and> table_holds_entries t' (fold upsert new es)" for new
    using h map_table.batch_law [of _ es new] skip_table.batch_law [of _ es new] sharded_table.batch_law [of _ es new]
    by (cases t) force+
  show "Table_Size t = sum_list (map entrySize es)"
    using h map_table.size_law skip_table.size_law sharded_table.size_law by (cases t) auto
  show "\<exists>t'. Table_Drain t = Some (Inr (es, t')) \<and> table_holds_entries t' []"
    using h map_table.drain_law [of _ es] skip_table.drain_law [of _ es] sharded_table.drain_law [of _ es]
    by (cases t) force+
  show "Table_Range t start en = Some (Inr (newSliceIterator (range_entries start en es)))" for start en
    using h map_table.range_law [of _ es start en] skip_table.range_law [of _ es start en]
      sharded_table.range_law [of _ es start en] by (cases t) auto
  show "\<exists>t'. Table_CopyEntry e t = Some (Inr (e, t')) \<and> table_holds_entries t' es" for e
    using h map_table.copy_law [of _ es e] skip_table.copy_law [of _ es e] sharded_table.copy_law [of _ es e]
    by (cases t) force+
  show "table_holds_entries (Table_Reset t) []"
    using h map_table.reset_law skip_table.reset_law sharded_table.reset_law by (cases t) auto
qed

section \<open>All kinds answer alike\<close>

fun table_call :: "table_call \<Rightarrow> mem_table \<Rightarrow> (table_answer \<times> mem_table) result option" where
  "table_call (CallApply e) t = bind_outcome (Table_ApplyOwned e t) (\<lambda>t. Some (Inr (AnsUnit, t)))"
| "table_call (CallBatch es) t = bind_outcome (Table_ApplyBatchOwned es t) (\<lambda>t. Some (Inr (AnsUnit, t)))"
| "table_call (CallGet k) t = bind_outcome (Table_Get t k) (\<lambda>e. Some (Inr (AnsEntry e, t)))"
| "table_call (CallRange start en) t =
     bind_outcome (Table_Range t start en) (\<lambda>it. Some (Inr (AnsEntries (entriesFromIter it []), t)))"
| "table_call CallSize t = Some (Inr (AnsSize (Table_Size t), t))"
| "table_call CallDrain t = bind_outcome (Table_Drain t) (\<lambda>(es, t). Some (Inr (AnsEntries es, t)))"
| "table_call CallReset t = Some (Inr (AnsUnit, Table_Reset t))"

fun table_calls :: "table_call list \<Rightarrow> mem_table \<Rightarrow> table_answer list result option" where
  "table_calls [] t = Some (Inr [])"
| "table_calls (c # cs) t =
     bind_outcome (table_call c t) (\<lambda>(a, t). bind_outcome (table_calls cs t) (\<lambda>as. Some (Inr (a # as))))"

lemma table_call_ok:
  assumes "table_holds_entries t es"
  shows "\<exists>t'. table_call c t = Some (Inr (fst (spec_call c es), t')) \<and> table_holds_entries t' (snd (spec_call c es))"
proof (cases c)
  case (CallApply e)
  with mem_table.apply_law [OF assms, of e] show ?thesis by auto
next
  case (CallBatch new)
  with mem_table.batch_law [OF assms, of new] show ?thesis by auto
next
  case CallDrain
  with mem_table.drain_law [OF assms] show ?thesis by auto
qed (use assms mem_table.get_law [OF assms] mem_table.range_law [OF assms] mem_table.size_law [OF assms]
    mem_table.reset_law [OF assms] in simp_all)

lemma table_calls_ok: "table_holds_entries t es \<Longrightarrow> table_calls cs t = Some (Inr (spec_calls cs es))"
proof (induction cs arbitrary: t es)
  case (Cons c cs)
  obtain t' where "table_call c t = Some (Inr (fst (spec_call c es), t'))" "table_holds_entries t' (snd (spec_call c es))"
    using table_call_ok [OF Cons.prems] by blast
  with Cons.IH show ?case by (simp split: prod.split)
qed simp

lemma new_sharded_ok:
  assumes "n \<le> 2 ^ 62"
  shows "\<exists>t. map_option (\<lambda>n. newShardedSkipListTable n blk) (nextPow2 n) = Some (Inr t) \<and> sharded_holds t []"
proof -
  obtain k where k: "k \<le> 62" "nextPow2 n = Some (2 ^ k)" using nextPow2_ok [OF assms] by metis
  obtain t where t: "newShardedSkipListTable (2 ^ k) blk = Inr t" by (simp add: newShardedSkipListTable_def)
  with sharded_holds_new [OF t k(1)] k(2) show ?thesis by simp
qed

lemma sint_word_of_int_small: "- (2 ^ 63) \<le> n \<Longrightarrow> n < 2 ^ 63 \<Longrightarrow> sint (word_of_int n :: 64 word) = n"
  by (simp add: sint_sbintrunc' signed_take_bit_int_eq_self)

lemma factory_table_ok:
  assumes f: "FactoryForKind procs kind concurrency shards blk = Inr mk"
    and b: "0 < procs" "procs * max 1 concurrency \<le> 2 ^ 62" "shards \<le> 2 ^ 62"
  obtains t where "mk = Some (Inr t)" "table_holds_entries t []"
proof -
  have "0 < procs * max 1 concurrency" using b(1) by simp
  then have "sint (word_of_int (procs * max 1 concurrency) :: 64 word) = procs * max 1 concurrency"
    using b(2) by (intro sint_word_of_int_small) auto
  then have c: "shardCount procs concurrency = nextPow2 (procs * max 1 concurrency)"
    by (simp add: shardCount_def Let_def max_def split: if_splits)
  obtain t1 where t1: "NewShardedSkipListTableWithArena procs concurrency blk = Some (Inr t1)" "sharded_holds t1 []"
    using new_sharded_ok [OF b(2), of blk] by (auto simp: NewShardedSkipListTableWithArena_def c)
  obtain t2 where t2: "NewShardedSkipListTableWithShardsAndArena shards blk = Some (Inr t2)" "sharded_holds t2 []"
  proof -
    have "(if shards < 1 then 1 else shards) \<le> 2 ^ 62" using b(3) by simp
    from new_sharded_ok [OF this, of blk] that show thesis
      unfolding NewShardedSkipListTableWithShardsAndArena_def Let_def by blast
  qed
  show thesis
    using f t1 t2 skip_holds_new [of blk] map_holds_new [of blk] that
    by (auto simp: FactoryForKind_def Let_def split: if_splits)
qed

text \<open>
  C2: the kind of memtable is invisible: tables made by any two factories, whatever their kind, shard
  count and block size, give the same answers to every sequence of upserts, batches, lookups, range
  scans, size queries, drains and resets, namely those of the sorted map; every call returns.
\<close>

theorem memtable_kinds_agree:
  assumes "FactoryForKind procs kind concurrency shards blk = Inr mk"
    and "0 < procs" "procs * max 1 concurrency \<le> 2 ^ 62" "shards \<le> 2 ^ 62"
    and "FactoryForKind procs' kind' concurrency' shards' blk' = Inr mk'"
    and "0 < procs'" "procs' * max 1 concurrency' \<le> 2 ^ 62" "shards' \<le> 2 ^ 62"
  shows "\<exists>t t'. mk = Some (Inr t) \<and> mk' = Some (Inr t') \<and> table_calls cs t = table_calls cs t' \<and>
    table_calls cs t = Some (Inr (spec_calls cs []))"
proof -
  obtain t where t: "mk = Some (Inr t)" "table_holds_entries t []" by (rule factory_table_ok [OF assms(1-4)])
  obtain t' where t': "mk' = Some (Inr t')" "table_holds_entries t' []" by (rule factory_table_ok [OF assms(5-8)])
  show ?thesis using t t' table_calls_ok [OF t(2), of cs] table_calls_ok [OF t'(2), of cs] by simp
qed

definition demo_put :: "nat \<Rightarrow> nat \<Rightarrow> entry" where
  "demo_put k v = \<lparr>Key = [of_nat k], Value = [of_nat v], Tombstone = False, Seq = of_nat v\<rparr>"

theorem memtable_kinds_agree_witness:
  "\<exists>t t'. FactoryForKind 4 ''Map'' 0 0 16 = Inr (Some (Inr t)) \<and> FactoryForKind 4 ''sharded'' 0 3 64 = Inr (Some (Inr t')) \<and>
    table_calls [CallApply (demo_put 2 1), CallBatch [demo_put 1 2, demo_put 2 3], CallRange [] []] t =
    table_calls [CallApply (demo_put 2 1), CallBatch [demo_put 1 2, demo_put 2 3], CallRange [] []] t' \<and>
    table_calls [CallApply (demo_put 2 1), CallBatch [demo_put 1 2, demo_put 2 3], CallRange [] []] t =
      Some (Inr [AnsUnit, AnsUnit, AnsEntries [demo_put 1 2, demo_put 2 3]])"
proof -
  have m: "ascii_ToLower ''Map'' = ''map''" "ascii_ToLower ''sharded'' = ''sharded''" by code_simp+
  have s: "spec_calls [CallApply (demo_put 2 1), CallBatch [demo_put 1 2, demo_put 2 3], CallRange [] []] [] =
    [AnsUnit, AnsUnit, AnsEntries [demo_put 1 2, demo_put 2 3]]" by code_simp
  have 1: "FactoryForKind 4 ''Map'' 0 0 16 = Inr (Some (Inr (MapTab (newMapTable 16))))"
    unfolding FactoryForKind_def Let_def m by simp
  have 2: "FactoryForKind 4 ''sharded'' 0 3 64 =
      Inr (map_option (\<lambda>r. bind_result r (\<lambda>t. Inr (ShardedTab t))) (NewShardedSkipListTableWithShardsAndArena 3 64))"
    unfolding FactoryForKind_def Let_def m by simp
  have "\<exists>t t'. Some (Inr (MapTab (newMapTable 16))) = Some (Inr t) \<and>
      map_option (\<lambda>r. bind_result r (\<lambda>t. Inr (ShardedTab t))) (NewShardedSkipListTableWithShardsAndArena 3 64) = Some (Inr t') \<and>
      table_calls cs t = table_calls cs t' \<and> table_calls cs t = Some (Inr (spec_calls cs []))" for cs
    using memtable_kinds_agree [OF 1 _ _ _ 2, of cs] by simp
  then show ?thesis unfolding 1 2 s [symmetric] sum.inject by blast
qed

end
