(* ===== verification/Go_Json.thy ===== *)
theory Go_Json
  imports Go_Fs
begin

text \<open>
  What the sources use of \<^verbatim>\<open>encoding/json\<close> and \<^verbatim>\<open>encoding/base64\<close>: printing with and without
  indentation, parsing, and the fields of structs.  A Go string is the list of its bytes as
  characters.  Printing escapes as the Go encoder does with its HTML escapes; bytes that are no UTF-8
  become \<open>U+FFFD\<close> both ways.  Object keys match field names up to the case of ASCII letters.
\<close>

section \<open>UTF-8\<close>

abbreviation ccode :: "char \<Rightarrow> nat" where
  "ccode c \<equiv> of_char c"

definition cont_in :: "nat \<Rightarrow> nat \<Rightarrow> char \<Rightarrow> bool" where
  "cont_in lo hi c \<longleftrightarrow> lo \<le> ccode c \<and> ccode c \<le> hi"

text \<open>The length of the valid multi-byte sequence at the front; \<open>0\<close> if there is none.\<close>

fun utf8_len :: "string \<Rightarrow> nat" where
  "utf8_len (a # b # s) =
     (let n = ccode a
      in if 0xC2 \<le> n \<and> n \<le> 0xDF then (if cont_in 0x80 0xBF b then 2 else 0)
         else if 0xE0 \<le> n \<and> n \<le> 0xEF
         then (if cont_in (if n = 0xE0 then 0xA0 else 0x80) (if n = 0xED then 0x9F else 0xBF) b \<and>
                  s \<noteq> [] \<and> cont_in 0x80 0xBF (s ! 0) then 3 else 0)
         else if 0xF0 \<le> n \<and> n \<le> 0xF4
         then (if cont_in (if n = 0xF0 then 0x90 else 0x80) (if n = 0xF4 then 0x8F else 0xBF) b \<and>
                  1 < length s \<and> cont_in 0x80 0xBF (s ! 0) \<and> cont_in 0x80 0xBF (s ! 1) then 4 else 0)
         else 0)"
| "utf8_len _ = 0"

definition utf8_encode :: "nat \<Rightarrow> string" where
  "utf8_encode r =
     map char_of
       (if r < 0x80 then [r]
        else if r < 0x800 then [0xC0 + r div 0x40, 0x80 + r mod 0x40]
        else if r < 0x10000 then [0xE0 + r div 0x1000, 0x80 + r div 0x40 mod 0x40, 0x80 + r mod 0x40]
        else [0xF0 + r div 0x40000, 0x80 + r div 0x1000 mod 0x40, 0x80 + r div 0x40 mod 0x40, 0x80 + r mod 0x40])"

section \<open>Strings\<close>

definition hex_char :: "nat \<Rightarrow> char" where
  "hex_char n = char_of (if n < 10 then 48 + n else 87 + n)"

definition hex_val :: "char \<Rightarrow> nat option" where
  "hex_val c =
     (let n = ccode c
      in if 48 \<le> n \<and> n \<le> 57 then Some (n - 48)
         else if 97 \<le> n \<and> n \<le> 102 then Some (n - 87)
         else if 65 \<le> n \<and> n \<le> 70 then Some (n - 55) else None)"

abbreviation backslash :: char where "backslash \<equiv> CHR 0x5C"
abbreviation dquote :: char where "dquote \<equiv> CHR 0x22"

definition u_escape :: "nat \<Rightarrow> string" where
  "u_escape r = [backslash, CHR ''u'', hex_char (r div 0x1000), hex_char (r div 0x100 mod 16),
     hex_char (r div 16 mod 16), hex_char (r mod 16)]"

definition esc_char :: "char \<Rightarrow> string" where
  "esc_char c =
     (let n = ccode c
      in if n = 0x22 \<or> n = 0x5C then [backslash, c]
         else if n = 8 then [backslash, CHR ''b'']
         else if n = 12 then [backslash, CHR ''f'']
         else if n = 10 then [backslash, CHR ''n'']
         else if n = 13 then [backslash, CHR ''r'']
         else if n = 9 then [backslash, CHR ''t'']
         else if n < 32 \<or> n = 0x3C \<or> n = 0x3E \<or> n = 0x26 then u_escape n
         else [c])"

function quote_body :: "string \<Rightarrow> string" where
  "quote_body [] = []"
| "quote_body (c # s) =
     (if ccode c < 128 then esc_char c @ quote_body s
      else let k = utf8_len (c # s)
           in if k = 0 then u_escape 0xFFFD @ quote_body s
              else (let r = take k (c # s)
                    in if map ccode r = [0xE2, 0x80, 0xA8] then u_escape 0x2028
                       else if map ccode r = [0xE2, 0x80, 0xA9] then u_escape 0x2029 else r) @
                   quote_body (drop (k - 1) s))"
  by pat_completeness auto
termination by (relation "measure length") auto

definition json_quote :: "string \<Rightarrow> string" where
  "json_quote s = dquote # quote_body s @ [dquote]"

text \<open>Four hexadecimal digits, and the rune of an escape with its low surrogate.\<close>

definition hex4 :: "string \<Rightarrow> nat option" where
  "hex4 s =
     (case s of
        a # b # c # d # _ \<Rightarrow>
          (case (hex_val a, hex_val b, hex_val c, hex_val d) of
             (Some w, Some x, Some y, Some z) \<Rightarrow> Some (((w * 16 + x) * 16 + y) * 16 + z)
           | _ \<Rightarrow> None)
      | _ \<Rightarrow> None)"

definition u_rune :: "string \<Rightarrow> (string \<times> nat) option" where
  "u_rune s =
     (case hex4 s of
        None \<Rightarrow> None
      | Some r \<Rightarrow>
          if 0xD800 \<le> r \<and> r < 0xE000
          then (case drop 4 s of
                  x # y # t \<Rightarrow>
                    (case (if x = backslash \<and> y = CHR ''u'' then hex4 t else None) of
                       Some r2 \<Rightarrow>
                         if r < 0xDC00 \<and> 0xDC00 \<le> r2 \<and> r2 < 0xE000
                         then Some (utf8_encode (0x10000 + (r - 0xD800) * 0x400 + (r2 - 0xDC00)), 10)
                         else Some (utf8_encode 0xFFFD, 4)
                     | None \<Rightarrow> Some (utf8_encode 0xFFFD, 4))
                | _ \<Rightarrow> Some (utf8_encode 0xFFFD, 4))
          else Some (utf8_encode r, 4))"

definition simple_escape :: "char \<Rightarrow> char option" where
  "simple_escape c =
     (if c = dquote \<or> c = backslash \<or> c = CHR ''/'' then Some c
      else if c = CHR ''b'' then Some (char_of (8 :: nat))
      else if c = CHR ''f'' then Some (char_of (12 :: nat))
      else if c = CHR ''n'' then Some (char_of (10 :: nat))
      else if c = CHR ''r'' then Some (char_of (13 :: nat))
      else if c = CHR ''t'' then Some (char_of (9 :: nat)) else None)"

text \<open>The text of a string after its opening quote, up to the closing one, and what follows.\<close>

function unquote :: "string \<Rightarrow> (string \<times> string) option" where
  "unquote s =
     (case s of
        [] \<Rightarrow> None
      | c # s1 \<Rightarrow>
          if c = dquote then Some ([], s1)
          else if c = backslash
          then (case s1 of
                  [] \<Rightarrow> None
                | e # s2 \<Rightarrow>
                    if e = CHR ''u''
                    then (case u_rune s2 of
                            None \<Rightarrow> None
                          | Some (r, k) \<Rightarrow> map_option (\<lambda>(t, rest). (r @ t, rest)) (unquote (drop k s2)))
                    else (case simple_escape e of
                            None \<Rightarrow> None
                          | Some x \<Rightarrow> map_option (\<lambda>(t, rest). (x # t, rest)) (unquote s2)))
          else if ccode c < 32 then None
          else if ccode c < 128 then map_option (\<lambda>(t, rest). (c # t, rest)) (unquote s1)
          else let k = utf8_len s
               in if k = 0 then map_option (\<lambda>(t, rest). (utf8_encode 0xFFFD @ t, rest)) (unquote s1)
                  else map_option (\<lambda>(t, rest). (take k s @ t, rest)) (unquote (drop k s)))"
  by pat_completeness auto
termination by (relation "measure length") auto

declare unquote.simps [simp del]

definition ascii :: "string \<Rightarrow> bool" where
  "ascii s \<longleftrightarrow> (\<forall>c \<in> set s. ccode c < 128)"

lemma ascii_simps [simp]:
  "ascii []" "ascii (c # s) \<longleftrightarrow> ccode c < 128 \<and> ascii s" "ascii (s @ t) \<longleftrightarrow> ascii s \<and> ascii t"
  by (auto simp: ascii_def)

lemma ccode_char_of [simp]: "n < 256 \<Longrightarrow> ccode (char_of n) = n"
  by simp

lemma hex_val_hex_char [simp]: "n < 16 \<Longrightarrow> hex_val (hex_char n) = Some n"
  by (auto simp: hex_val_def hex_char_def Let_def)

lemma ccode_eq_iff: "c = d \<longleftrightarrow> ccode c = ccode d"
  by simp

lemma unquote_u_escape:
  assumes "n < 128"
  shows "unquote (u_escape n @ t) = map_option (\<lambda>(x, rest). (char_of n # x, rest)) (unquote t)"
proof -
  let ?h = "[hex_char (n div 0x1000), hex_char (n div 0x100 mod 16), hex_char (n div 16 mod 16), hex_char (n mod 16)]"
  have "((n div 0x1000 * 16 + n div 0x100 mod 16) * 16 + n div 16 mod 16) * 16 + n mod 16 = n" using assms by simp
  then have "hex4 (?h @ t) = Some n" using assms by (simp add: hex4_def)
  then have "u_rune (?h @ t) = Some ([char_of n], 4)" using assms by (simp add: u_rune_def utf8_encode_def)
  then show ?thesis by (subst unquote.simps) (simp add: u_escape_def)
qed

lemma unquote_simple_escape:
  "simple_escape e = Some c \<Longrightarrow> e \<noteq> CHR ''u'' \<Longrightarrow>
     unquote (backslash # e # t) = map_option (\<lambda>(x, rest). (c # x, rest)) (unquote t)"
  by (subst unquote.simps) simp

lemma unquote_esc_char:
  assumes "ccode c < 128"
  shows "unquote (esc_char c @ t) = map_option (\<lambda>(x, rest). (c # x, rest)) (unquote t)"
proof -
  let ?n = "ccode c"
  have chr: "char_of k = c" if "?n = k" for k using that by auto
  consider "?n = 0x22 \<or> ?n = 0x5C" | "?n = 8" | "?n = 12" | "?n = 10" | "?n = 13" | "?n = 9"
    | "?n \<notin> {8, 12, 10, 13, 9}" "?n < 32 \<or> ?n = 0x3C \<or> ?n = 0x3E \<or> ?n = 0x26"
    | "\<not> ?n < 32" "?n \<noteq> 0x22" "?n \<noteq> 0x5C" "?n \<noteq> 0x3C" "?n \<noteq> 0x3E" "?n \<noteq> 0x26" by auto
  then show ?thesis
  proof cases
    case 7
    then have "esc_char c = u_escape ?n" by (auto simp: esc_char_def Let_def)
    with unquote_u_escape [OF assms, of t] show ?thesis by simp
  next
    case 8
    then have "esc_char c = [c]" "c \<noteq> dquote" "c \<noteq> backslash" by (auto simp: esc_char_def Let_def)
    with 8 assms show ?thesis by (subst unquote.simps) simp
  next
    case 1
    then have "c = dquote \<or> c = backslash" by (auto simp: ccode_eq_iff [of c])
    then have "simple_escape c = Some c" "c \<noteq> CHR ''u''" by (auto simp: simple_escape_def)
    with 1 show ?thesis by (simp add: esc_char_def Let_def unquote_simple_escape)
  qed (simp_all add: esc_char_def Let_def unquote_simple_escape simple_escape_def chr)
qed

lemma unquote_quote_body: "ascii s \<Longrightarrow> unquote (quote_body s @ dquote # rest) = Some (s, rest)"
proof (induction s)
  case Nil
  then show ?case by (subst unquote.simps) simp
next
  case (Cons c s)
  then show ?case using unquote_esc_char [of c "quote_body s @ dquote # rest"] by simp
qed

section \<open>Values\<close>

datatype json =
    JNull
  | JBool bool
  | JNum string
  | JStr string
  | JArr "json list"
  | JObj "(string \<times> json) list"

text \<open>
  The printer; \<open>nl d\<close> is the line break before an item at depth \<open>d\<close> and \<open>sp\<close> the space after a colon,
  both empty for \<^verbatim>\<open>Marshal\<close>.
\<close>

fun json_print :: "(nat \<Rightarrow> string) \<Rightarrow> string \<Rightarrow> nat \<Rightarrow> json \<Rightarrow> string" where
  "json_print nl sp d JNull = ''null''"
| "json_print nl sp d (JBool b) = (if b then ''true'' else ''false'')"
| "json_print nl sp d (JNum n) = n"
| "json_print nl sp d (JStr s) = json_quote s"
| "json_print nl sp d (JArr []) = ''[]''"
| "json_print nl sp d (JArr (x # xs)) =
     CHR ''['' # nl (Suc d) @ json_print nl sp (Suc d) x @
       concat (map (\<lambda>y. CHR '','' # nl (Suc d) @ json_print nl sp (Suc d) y) xs) @ nl d @ '']''"
| "json_print nl sp d (JObj []) = ''{}''"
| "json_print nl sp d (JObj (m # ms)) =
     CHR ''{'' # nl (Suc d) @ json_quote (fst m) @ CHR '':'' # sp @ json_print nl sp (Suc d) (snd m) @
       concat (map (\<lambda>y. CHR '','' # nl (Suc d) @ json_quote (fst y) @ CHR '':'' # sp @
          json_print nl sp (Suc d) (snd y)) ms) @ nl d @ ''}''"

definition json_Marshal :: "json \<Rightarrow> string" where
  "json_Marshal j = json_print (\<lambda>_. []) [] 0 j"

definition json_MarshalIndent :: "json \<Rightarrow> string" where
  "json_MarshalIndent j = json_print (\<lambda>d. CHR 0x0A # replicate (2 * d) (CHR '' '')) '' '' 0 j"

section \<open>Parsing\<close>

definition is_ws :: "char \<Rightarrow> bool" where
  "is_ws c \<longleftrightarrow> c = CHR '' '' \<or> c = CHR 0x09 \<or> c = CHR 0x0A \<or> c = CHR 0x0D"

abbreviation skip_ws :: "string \<Rightarrow> string" where
  "skip_ws s \<equiv> dropWhile is_ws s"

definition is_digit :: "char \<Rightarrow> bool" where
  "is_digit c \<longleftrightarrow> 48 \<le> ccode c \<and> ccode c \<le> 57"

definition num_char :: "char \<Rightarrow> bool" where
  "num_char c \<longleftrightarrow> is_digit c \<or> c = CHR ''-'' \<or> c = CHR ''+'' \<or> c = CHR ''.'' \<or> c = CHR ''e'' \<or> c = CHR ''E''"

definition valid_exponent :: "string \<Rightarrow> bool" where
  "valid_exponent s =
     (case s of
        [] \<Rightarrow> True
      | e # t \<Rightarrow>
          (e = CHR ''e'' \<or> e = CHR ''E'') \<and>
          (let ds = (if t \<noteq> [] \<and> (hd t = CHR ''+'' \<or> hd t = CHR ''-'') then tl t else t)
           in ds \<noteq> [] \<and> list_all is_digit ds))"

definition valid_fraction :: "string \<Rightarrow> bool" where
  "valid_fraction s =
     (case s of
        [] \<Rightarrow> True
      | c # t \<Rightarrow>
          if c = CHR ''.'' then takeWhile is_digit t \<noteq> [] \<and> valid_exponent (dropWhile is_digit t)
          else valid_exponent s)"

definition valid_num :: "string \<Rightarrow> bool" where
  "valid_num s =
     (let t = (if s \<noteq> [] \<and> hd s = CHR ''-'' then tl s else s)
      in case t of
           [] \<Rightarrow> False
         | c # r \<Rightarrow>
             if c = CHR ''0'' then valid_fraction r
             else is_digit c \<and> valid_fraction (dropWhile is_digit r))"

definition strip_prefix :: "string \<Rightarrow> string \<Rightarrow> string option" where
  "strip_prefix p s = (if take (length p) s = p then Some (drop (length p) s) else None)"

text \<open>The fuel bounds the number of nested calls; the length of the text is always enough.\<close>

fun parse_value :: "nat \<Rightarrow> string \<Rightarrow> (json \<times> string) option"
  and parse_elems :: "nat \<Rightarrow> string \<Rightarrow> (json list \<times> string) option"
  and parse_members :: "nat \<Rightarrow> string \<Rightarrow> ((string \<times> json) list \<times> string) option" where
  "parse_value 0 s = None"
| "parse_value (Suc n) s =
     (let s = skip_ws s
      in case s of
           [] \<Rightarrow> None
         | c # t \<Rightarrow>
             if c = dquote then map_option (\<lambda>(x, rest). (JStr x, rest)) (unquote t)
             else if c = CHR ''['' then
               (case skip_ws t of
                  [] \<Rightarrow> None
                | d # u \<Rightarrow>
                    if d = CHR '']'' then Some (JArr [], u)
                    else map_option (\<lambda>(xs, rest). (JArr xs, rest)) (parse_elems n t))
             else if c = CHR ''{'' then
               (case skip_ws t of
                  [] \<Rightarrow> None
                | d # u \<Rightarrow>
                    if d = CHR ''}'' then Some (JObj [], u)
                    else map_option (\<lambda>(xs, rest). (JObj xs, rest)) (parse_members n t))
             else if c = CHR ''n'' then map_option (\<lambda>rest. (JNull, rest)) (strip_prefix ''null'' s)
             else if c = CHR ''t'' then map_option (\<lambda>rest. (JBool True, rest)) (strip_prefix ''true'' s)
             else if c = CHR ''f'' then map_option (\<lambda>rest. (JBool False, rest)) (strip_prefix ''false'' s)
             else (let lit = takeWhile num_char s
                   in if valid_num lit then Some (JNum lit, dropWhile num_char s) else None))"
| "parse_elems 0 s = None"
| "parse_elems (Suc n) s =
     (case parse_value n s of
        None \<Rightarrow> None
      | Some (x, rest) \<Rightarrow>
          (case skip_ws rest of
             [] \<Rightarrow> None
           | c # t \<Rightarrow>
               if c = CHR '','' then map_option (\<lambda>(xs, r). (x # xs, r)) (parse_elems n t)
               else if c = CHR '']'' then Some ([x], t) else None))"
| "parse_members 0 s = None"
| "parse_members (Suc n) s =
     (case skip_ws s of
        [] \<Rightarrow> None
      | q # t \<Rightarrow>
          if q \<noteq> dquote then None
          else (case unquote t of
                  None \<Rightarrow> None
                | Some (k, t1) \<Rightarrow>
                    (case skip_ws t1 of
                       [] \<Rightarrow> None
                     | c # t2 \<Rightarrow>
                         if c \<noteq> CHR '':'' then None
                         else (case parse_value n t2 of
                                 None \<Rightarrow> None
                               | Some (x, rest) \<Rightarrow>
                                   (case skip_ws rest of
                                      [] \<Rightarrow> None
                                    | e # u \<Rightarrow>
                                        if e = CHR '','' then map_option (\<lambda>(ms, r). ((k, x) # ms, r)) (parse_members n u)
                                        else if e = CHR ''}'' then Some ([(k, x)], u) else None)))))"

definition json_parse :: "string \<Rightarrow> json option" where
  "json_parse s =
     (case parse_value (Suc (length s)) s of
        Some (j, rest) \<Rightarrow> if skip_ws rest = [] then Some j else None
      | None \<Rightarrow> None)"

declare parse_value.simps [simp del] parse_elems.simps [simp del] parse_members.simps [simp del]

section \<open>Parsing what was printed\<close>

fun json_ok :: "json \<Rightarrow> bool" where
  "json_ok (JNum n) = (valid_num n \<and> list_all num_char n)"
| "json_ok (JStr s) = ascii s"
| "json_ok (JArr xs) = list_all json_ok xs"
| "json_ok (JObj ms) = list_all (\<lambda>m. ascii (fst m) \<and> json_ok (snd m)) ms"
| "json_ok _ = True"

fun jsize :: "json \<Rightarrow> nat" where
  "jsize (JArr xs) = Suc (sum_list (map (\<lambda>x. Suc (jsize x)) xs))"
| "jsize (JObj ms) = Suc (sum_list (map (\<lambda>m. Suc (jsize (snd m))) ms))"
| "jsize _ = 1"

definition ws :: "string \<Rightarrow> bool" where
  "ws s = list_all is_ws s"

lemma skip_ws_append: "ws w \<Longrightarrow> skip_ws (w @ s) = skip_ws s"
  by (induction w) (auto simp: ws_def)

lemma skip_ws_Cons: "\<not> is_ws c \<Longrightarrow> skip_ws (c # s) = c # s"
  by simp

lemma not_ws [simp]:
  "\<not> is_ws dquote" "\<not> is_ws CHR ''[''" "\<not> is_ws CHR '']''" "\<not> is_ws CHR ''{''" "\<not> is_ws CHR ''}''"
  "\<not> is_ws CHR '',''" "\<not> is_ws CHR '':''" "\<not> is_ws CHR ''n''" "\<not> is_ws CHR ''t''" "\<not> is_ws CHR ''f''"
  by (simp_all add: is_ws_def)

lemma num_char_props: "num_char c \<Longrightarrow> \<not> is_ws c \<and> c \<noteq> dquote \<and> c \<notin> {CHR ''['', CHR '']'', CHR ''{'', CHR ''}'',
    CHR ''n'', CHR ''t'', CHR ''f'', CHR '',''}"
  by (auto simp: num_char_def is_ws_def is_digit_def)

lemma not_num_char [simp]: "\<not> num_char CHR '',''" "\<not> num_char CHR '']''" "\<not> num_char CHR ''}''"
  by (simp_all add: num_char_def is_digit_def)

lemma is_ws_not_num: "is_ws c \<Longrightarrow> \<not> num_char c"
  by (auto simp: num_char_def is_ws_def is_digit_def)

lemma valid_num_not_Nil: "valid_num n \<Longrightarrow> n \<noteq> []"
  by (auto simp: valid_num_def Let_def)

text \<open>A text that does not go on with a number: what may follow a value.\<close>

definition ends_num :: "string \<Rightarrow> bool" where
  "ends_num s \<longleftrightarrow> (case s of [] \<Rightarrow> True | c # _ \<Rightarrow> \<not> num_char c)"

lemma ends_num_ws: "ws w \<Longrightarrow> ends_num s \<Longrightarrow> ends_num (w @ s)"
  by (cases w) (auto simp: ends_num_def ws_def is_ws_not_num)

lemma json_print_hd:
  assumes "json_ok j"
  obtains c t where "json_print nl sp d j = c # t" "\<not> is_ws c" "c \<noteq> CHR '']''" "c \<noteq> CHR ''}''"
proof (cases j)
  case (JNum n)
  with assms obtain c t where "n = c # t" "num_char c" using valid_num_not_Nil by (cases n) auto
  with JNum num_char_props [of c] that show thesis by auto
next
  case (JBool b)
  then show thesis using that by (cases b) (auto simp: is_ws_def)
next
  case (JArr xs)
  then show thesis using that by (cases xs) auto
next
  case (JObj ms)
  then show thesis using that by (cases ms) auto
qed (use that in \<open>auto simp: json_quote_def is_ws_def\<close>)

abbreviation parses :: "(nat \<Rightarrow> string) \<Rightarrow> string \<Rightarrow> json \<Rightarrow> bool" where
  "parses nl sp j \<equiv> \<forall>n d w rest. json_ok j \<longrightarrow> jsize j \<le> n \<longrightarrow> ws w \<longrightarrow> ends_num rest \<longrightarrow>
     parse_value n (w @ json_print nl sp d j @ rest) = Some (j, rest)"

lemma parse_elems_print:
  assumes nl: "\<forall>d. ws (nl d)"
  shows "\<forall>x \<in> set (x # xs). json_ok x \<and> parses nl sp x \<Longrightarrow> sum_list (map (\<lambda>x. Suc (jsize x)) (x # xs)) \<le> n \<Longrightarrow> ws w \<Longrightarrow>
    parse_elems n (w @ json_print nl sp d x @ concat (map (\<lambda>y. CHR '','' # nl d @ json_print nl sp d y) xs) @
       nl e @ CHR '']'' # rest) = Some (x # xs, rest)"
proof (induction xs arbitrary: x n w)
  case Nil
  then obtain m where n: "n = Suc m" "jsize x \<le> m" by (cases n) auto
  have "ends_num (nl e @ CHR '']'' # rest)" using nl by (intro ends_num_ws) (auto simp: ends_num_def)
  then have "parse_value m (w @ json_print nl sp d x @ (nl e @ CHR '']'' # rest)) = Some (x, nl e @ CHR '']'' # rest)"
    using Nil n by auto
  then show ?case unfolding n(1) by (subst parse_elems.simps) (simp add: nl skip_ws_append)
next
  case (Cons y ys)
  then obtain m where n: "n = Suc m" "jsize x \<le> m" by (cases n) auto
  let ?tail = "json_print nl sp d y @ concat (map (\<lambda>y. CHR '','' # nl d @ json_print nl sp d y) ys) @ nl e @ CHR '']'' # rest"
  have "parse_value m (w @ json_print nl sp d x @ (CHR '','' # nl d @ ?tail)) = Some (x, CHR '','' # nl d @ ?tail)"
    using Cons.prems n by (auto simp: ends_num_def)
  moreover have "parse_elems m (nl d @ ?tail) = Some (y # ys, rest)"
    using Cons.prems n nl by (intro Cons.IH) auto
  ultimately show ?case unfolding n(1) by (subst parse_elems.simps) simp
qed

lemma parse_members_print:
  assumes nl: "\<forall>d. ws (nl d)" and sp: "ws sp"
  shows "\<forall>m \<in> set (m # ms). ascii (fst m) \<and> json_ok (snd m) \<and> parses nl sp (snd m) \<Longrightarrow>
    sum_list (map (\<lambda>m. Suc (jsize (snd m))) (m # ms)) \<le> n \<Longrightarrow> ws w \<Longrightarrow>
    parse_members n (w @ json_quote (fst m) @ CHR '':'' # sp @ json_print nl sp d (snd m) @
       concat (map (\<lambda>y. CHR '','' # nl d @ json_quote (fst y) @ CHR '':'' # sp @ json_print nl sp d (snd y)) ms) @
       nl e @ CHR ''}'' # rest) = Some (m # ms, rest)"
proof (induction ms arbitrary: m n w)
  case Nil
  then obtain k where n: "n = Suc k" "jsize (snd m) \<le> k" by (cases n) auto
  have "ends_num (nl e @ CHR ''}'' # rest)" using nl by (intro ends_num_ws) (auto simp: ends_num_def)
  then have "parse_value k (sp @ json_print nl sp d (snd m) @ (nl e @ CHR ''}'' # rest)) = Some (snd m, nl e @ CHR ''}'' # rest)"
    using Nil n sp by auto
  then show ?case unfolding n(1)
    using Nil by (subst parse_members.simps) (simp add: nl skip_ws_append json_quote_def unquote_quote_body)
next
  case (Cons y ys)
  then obtain k where n: "n = Suc k" "jsize (snd m) \<le> k" by (cases n) auto
  let ?tail = "json_quote (fst y) @ CHR '':'' # sp @ json_print nl sp d (snd y) @
       concat (map (\<lambda>y. CHR '','' # nl d @ json_quote (fst y) @ CHR '':'' # sp @ json_print nl sp d (snd y)) ys) @
       nl e @ CHR ''}'' # rest"
  have "parse_value k (sp @ json_print nl sp d (snd m) @ (CHR '','' # nl d @ ?tail)) = Some (snd m, CHR '','' # nl d @ ?tail)"
    using Cons.prems n sp by (auto simp: ends_num_def)
  moreover have "parse_members k (nl d @ ?tail) = Some (y # ys, rest)"
    using Cons.prems n nl by (intro Cons.IH) auto
  ultimately show ?case unfolding n(1)
    using Cons.prems by (subst parse_members.simps) (simp add: skip_ws_append json_quote_def unquote_quote_body)
qed

lemma parse_value_print:
  assumes nl: "\<forall>d. ws (nl d)" and sp: "ws sp"
  shows "parses nl sp j"
proof (induction j)
  case (JNum x)
  show ?case
  proof (intro allI impI)
    fix n d w rest assume a: "json_ok (JNum x)" "jsize (JNum x) \<le> n" "ws w" "ends_num rest"
    then obtain m where n: "n = Suc m" by (cases n) auto
    obtain c t where x: "x = c # t" "num_char c" using a(1) valid_num_not_Nil by (cases x) auto
    have "takeWhile num_char (x @ rest) = x" "dropWhile num_char (x @ rest) = rest"
      using a(1,4) by (auto simp: list_all_iff ends_num_def takeWhile_append dropWhile_append split: list.splits)
    moreover have "skip_ws (w @ x @ rest) = x @ rest"
      using x num_char_props [of c] by (simp add: skip_ws_append [OF a(3)])
    ultimately show "parse_value n (w @ json_print nl sp d (JNum x) @ rest) = Some (JNum x, rest)"
      unfolding n using a(1) x num_char_props [of c] by (subst parse_value.simps) (simp add: Let_def)
  qed
next
  case (JArr xs)
  show ?case
  proof (intro allI impI)
    fix n d w rest assume a: "json_ok (JArr xs)" "jsize (JArr xs) \<le> n" "ws w" "ends_num rest"
    then obtain m where n: "n = Suc m" by (cases n) auto
    show "parse_value n (w @ json_print nl sp d (JArr xs) @ rest) = Some (JArr xs, rest)"
    proof (cases xs)
      case Nil
      then show ?thesis unfolding n by (subst parse_value.simps) (simp add: skip_ws_append [OF a(3)])
    next
      case (Cons y ys)
      let ?tail = "concat (map (\<lambda>y. CHR '','' # nl (Suc d) @ json_print nl sp (Suc d) y) ys) @ nl d @ CHR '']'' # rest"
      have "json_ok y" using a(1) Cons by simp
      then obtain c t where c: "json_print nl sp (Suc d) y = c # t" "\<not> is_ws c" "c \<noteq> CHR '']''" by (rule json_print_hd)
      have "parse_elems m (nl (Suc d) @ json_print nl sp (Suc d) y @ ?tail) = Some (y # ys, rest)"
        using a JArr nl n unfolding Cons by (intro parse_elems_print) (auto simp: list_all_iff)
      with c show ?thesis
        unfolding n using nl by (subst parse_value.simps) (simp add: skip_ws_append [OF a(3)] skip_ws_append Cons)
    qed
  qed
next
  case (JObj ms)
  show ?case
  proof (intro allI impI)
    fix n d w rest assume a: "json_ok (JObj ms)" "jsize (JObj ms) \<le> n" "ws w" "ends_num rest"
    then obtain m where n: "n = Suc m" by (cases n) auto
    show "parse_value n (w @ json_print nl sp d (JObj ms) @ rest) = Some (JObj ms, rest)"
    proof (cases ms)
      case Nil
      then show ?thesis unfolding n by (subst parse_value.simps) (simp add: skip_ws_append [OF a(3)])
    next
      case (Cons y ys)
      let ?tail = "concat (map (\<lambda>y. CHR '','' # nl (Suc d) @ json_quote (fst y) @ CHR '':'' # sp @
          json_print nl sp (Suc d) (snd y)) ys) @ nl d @ CHR ''}'' # rest"
      have ih: "\<forall>m \<in> set ms. parses nl sp (snd m)" using JObj by (metis snds.intros prod.collapse snd_eqD)
      have "parse_members m (nl (Suc d) @ json_quote (fst y) @ CHR '':'' # sp @ json_print nl sp (Suc d) (snd y) @ ?tail) =
          Some (y # ys, rest)"
        using a ih nl sp n unfolding Cons by (intro parse_members_print) (auto simp: list_all_iff)
      then show ?thesis
        unfolding n using nl
        by (subst parse_value.simps) (simp add: skip_ws_append [OF a(3)] skip_ws_append Cons json_quote_def)
    qed
  qed
qed (auto simp: skip_ws_append strip_prefix_def json_quote_def unquote_quote_body parse_value.simps gr0_conv_Suc Suc_le_eq)

lemma sum_list_le_concat: "(\<And>x. x \<in> set xs \<Longrightarrow> f x \<le> length (g x)) \<Longrightarrow> sum_list (map f xs) \<le> length (concat (map g xs))"
  by (induction xs) (auto intro: add_mono)

lemma jsize_le_length: "json_ok j \<Longrightarrow> jsize j \<le> length (json_print nl sp d j)"
proof (induction j arbitrary: d)
  case (JNum n)
  then show ?case using valid_num_not_Nil by (cases n) auto
next
  case (JArr xs)
  show ?case
  proof (cases xs)
    case (Cons y ys)
    have "jsize y \<le> length (json_print nl sp (Suc d) y)" using JArr Cons by simp
    moreover have "sum_list (map (\<lambda>x. Suc (jsize x)) ys) \<le>
        length (concat (map (\<lambda>y. CHR '','' # nl (Suc d) @ json_print nl sp (Suc d) y) ys))"
      using JArr Cons by (intro sum_list_le_concat) (auto simp: list_all_iff intro: trans_le_add2)
    ultimately show ?thesis using Cons by simp
  qed simp
next
  case (JObj ms)
  show ?case
  proof (cases ms)
    case (Cons y ys)
    have ih: "jsize (snd m) \<le> length (json_print nl sp (Suc d) (snd m))" if "m \<in> set ms" for m
      using JObj that by (cases m) (force simp: list_all_iff)
    have "jsize (snd y) \<le> length (json_print nl sp (Suc d) (snd y))" using ih Cons by simp
    moreover have "Suc (jsize (snd m)) \<le> length (CHR '','' # nl (Suc d) @ json_quote (fst m) @ CHR '':'' # sp @
          json_print nl sp (Suc d) (snd m))" if "m \<in> set ys" for m
      using ih [of m] Cons that by simp
    then have "sum_list (map (\<lambda>m. Suc (jsize (snd m))) ys) \<le>
        length (concat (map (\<lambda>y. CHR '','' # nl (Suc d) @ json_quote (fst y) @ CHR '':'' # sp @
          json_print nl sp (Suc d) (snd y)) ys))"
      by (rule sum_list_le_concat)
    ultimately show ?thesis using Cons by simp
  qed simp
qed (auto simp: json_quote_def)

lemma json_parse_print:
  assumes "\<forall>d. ws (nl d)" "ws sp" "json_ok j"
  shows "json_parse (json_print nl sp 0 j) = Some j"
proof -
  have n: "jsize j \<le> Suc (length (json_print nl sp 0 j))" using jsize_le_length [OF assms(3), of nl sp 0] by simp
  have "ws []" "ends_num []" by (simp_all add: ws_def ends_num_def)
  with parse_value_print [OF assms(1,2), of j] assms(3) n
  have "parse_value (Suc (length (json_print nl sp 0 j))) ([] @ json_print nl sp 0 j @ []) = Some (j, [])" by blast
  then show ?thesis by (simp add: json_parse_def)
qed

lemma json_parse_Marshal: "json_ok j \<Longrightarrow> json_parse (json_Marshal j) = Some j"
  unfolding json_Marshal_def by (intro json_parse_print) (auto simp: ws_def)

lemma json_parse_MarshalIndent: "json_ok j \<Longrightarrow> json_parse (json_MarshalIndent j) = Some j"
  unfolding json_MarshalIndent_def by (intro json_parse_print) (auto simp: ws_def is_ws_def list_all_iff)

section \<open>Base64\<close>

definition b64_char :: "nat \<Rightarrow> char" where
  "b64_char n = char_of
     (if n < 26 then 65 + n else if n < 52 then 71 + n else if n < 62 then n - 4 else if n = 62 then 43 else 47)"

definition b64_val :: "char \<Rightarrow> nat option" where
  "b64_val c =
     (let n = ccode c
      in if 65 \<le> n \<and> n \<le> 90 then Some (n - 65)
         else if 97 \<le> n \<and> n \<le> 122 then Some (n - 71)
         else if 48 \<le> n \<and> n \<le> 57 then Some (n + 4)
         else if n = 43 then Some 62 else if n = 47 then Some 63 else None)"

fun b64_encode :: "nat list \<Rightarrow> string" where
  "b64_encode [] = []"
| "b64_encode [a] = [b64_char (a div 4), b64_char (a mod 4 * 16), CHR ''='', CHR ''='']"
| "b64_encode [a, b] = [b64_char (a div 4), b64_char (a mod 4 * 16 + b div 16), b64_char (b mod 16 * 4), CHR ''='']"
| "b64_encode (a # b # c # s) =
     b64_char (a div 4) # b64_char (a mod 4 * 16 + b div 16) # b64_char (b mod 16 * 4 + c div 64) #
     b64_char (c mod 64) # b64_encode s"

text \<open>The decoder of \<^verbatim>\<open>StdEncoding\<close>: padding only at the end; line breaks do not occur in JSON strings.\<close>

fun b64_decode :: "string \<Rightarrow> nat list option" where
  "b64_decode [] = Some []"
| "b64_decode (p # q # r # t # s) =
     (case (b64_val p, b64_val q) of
        (Some a, Some b) \<Rightarrow>
          if r = CHR ''='' then (if t = CHR ''='' \<and> s = [] then Some [a * 4 + b div 16] else None)
          else (case b64_val r of
                  None \<Rightarrow> None
                | Some c \<Rightarrow>
                    if t = CHR ''='' then (if s = [] then Some [a * 4 + b div 16, b mod 16 * 16 + c div 4] else None)
                    else (case b64_val t of
                            None \<Rightarrow> None
                          | Some d \<Rightarrow>
                              map_option (\<lambda>xs. (a * 4 + b div 16) # (b mod 16 * 16 + c div 4) # (c mod 4 * 64 + d) # xs)
                                (b64_decode s)))
      | _ \<Rightarrow> None)"
| "b64_decode _ = None"

lemma b64_val_char [simp]: "n < 64 \<Longrightarrow> b64_val (b64_char n) = Some n"
  by (auto simp: b64_val_def b64_char_def Let_def)

lemma b64_char_pad: "n < 64 \<Longrightarrow> b64_char n \<noteq> CHR ''=''"
proof
  assume "n < 64" "b64_char n = CHR ''=''"
  then have "b64_val CHR ''='' = Some n" using b64_val_char [of n] by simp
  then show False by (simp add: b64_val_def)
qed

lemma b64_digits:
  fixes a b c :: nat
  assumes "a < 256" "b < 256" "c < 256"
  shows "a div 4 < 64" "a mod 4 * 16 + b div 16 < 64" "b mod 16 * 4 + c div 64 < 64" "c mod 64 < 64"
    "a mod 4 * 16 < 64" "b mod 16 * 4 < 64"
    "a div 4 * 4 + (a mod 4 * 16 + b div 16) div 16 = a"
    "(a mod 4 * 16 + b div 16) mod 16 * 16 + (b mod 16 * 4 + c div 64) div 4 = b"
    "(b mod 16 * 4 + c div 64) mod 4 * 64 + c mod 64 = c"
proof -
  have b: "b div 16 < 16" "c div 64 < 4" using assms by (auto simp: less_mult_imp_div_less)
  have m: "a mod 4 \<le> 3" "b mod 16 \<le> 15" using mod_less_divisor [of 4 a] mod_less_divisor [of 16 b] by linarith+
  show "a div 4 < 64" "c mod 64 < 64" using assms by (auto simp: less_mult_imp_div_less)
  show "a mod 4 * 16 + b div 16 < 64" "b mod 16 * 4 + c div 64 < 64" "a mod 4 * 16 < 64" "b mod 16 * 4 < 64"
    using b m by linarith+
  have "(a mod 4 * 16 + b div 16) div 16 = a mod 4" "(a mod 4 * 16 + b div 16) mod 16 = b div 16"
    "(b mod 16 * 4 + c div 64) div 4 = b mod 16" "(b mod 16 * 4 + c div 64) mod 4 = c div 64"
    using b by auto
  then show "a div 4 * 4 + (a mod 4 * 16 + b div 16) div 16 = a"
    "(a mod 4 * 16 + b div 16) mod 16 * 16 + (b mod 16 * 4 + c div 64) div 4 = b"
    "(b mod 16 * 4 + c div 64) mod 4 * 64 + c mod 64 = c" by simp_all
qed

lemma b64_decode_encode: "\<forall>a \<in> set s. a < 256 \<Longrightarrow> b64_decode (b64_encode s) = Some s"
proof (induction s rule: b64_encode.induct)
  case (2 a)
  then show ?case using b64_digits [of a 0 0] by simp
next
  case (3 a b)
  then show ?case using b64_digits [of a b 0] b64_char_pad [of "b mod 16 * 4"] by simp
next
  case (4 a b c s)
  define p q r t where "p = a div 4" and "q = a mod 4 * 16 + b div 16" and "r = b mod 16 * 4 + c div 64" and "t = c mod 64"
  note defs = p_def q_def r_def t_def
  have "a < 256" "b < 256" "c < 256" using 4(2) by simp_all
  note d = b64_digits [OF this, folded defs]
  show ?case using 4 d b64_char_pad [OF d(3)] b64_char_pad [OF d(4)] by (simp add: defs [symmetric])
qed simp

lemma b64_char_ascii [simp]: "ccode (b64_char n) < 128"
  by (auto simp: b64_char_def)

lemma b64_encode_ascii: "ascii (b64_encode s)"
  by (induction s rule: b64_encode.induct) simp_all

section \<open>Numbers\<close>

definition json_uint :: "nat \<Rightarrow> json" where
  "json_uint n = JNum (show_nat n)"

definition json_int :: "int \<Rightarrow> json" where
  "json_int n = JNum (if n < 0 then CHR ''-'' # show_nat (nat (- n)) else show_nat (nat n))"

lemma digit_char_is_digit: "k < 10 \<Longrightarrow> is_digit (digit_char k)"
  by (simp add: is_digit_def digit_char_def)

lemma show_nat_digits: "list_all is_digit (show_nat n)"
  by (induction n rule: show_nat.induct) (subst show_nat.simps, auto simp: digit_char_is_digit)

lemma hd_show_nat_zero: "hd (show_nat n) = CHR ''0'' \<Longrightarrow> show_nat n = ''0''"
proof (induction n rule: show_nat.induct)
  case (1 n)
  have z: "digit_char k = CHR ''0'' \<longleftrightarrow> k = 0" if "k < 10" for k
  proof
    assume "digit_char k = CHR ''0''"
    with digit_val_digit_char [OF that] show "k = 0" by (simp add: digit_val_def)
  next
    assume "k = 0"
    moreover have "digit_char 0 = CHR ''0''" by code_simp
    ultimately show "digit_char k = CHR ''0''" by simp
  qed
  show ?case
  proof (cases "n < 10")
    case True
    with 1(2) z show ?thesis by (subst show_nat.simps) (simp add: show_nat.simps [of n])
  next
    case False
    then have "hd (show_nat (n div 10)) = CHR ''0''" using 1(2) by (subst (asm) show_nat.simps) (simp add: hd_append)
    from 1(1) [OF False this] have "digits_val 0 (show_nat (n div 10)) = Some 0"
      by (simp add: digit_val_def)
    with digits_val_show_nat [of "n div 10"] False show ?thesis by simp
  qed
qed

lemma valid_num_show_nat: "valid_num (show_nat n) \<and> list_all num_char (show_nat n)"
proof -
  obtain c r where s: "show_nat n = c # r" using show_nat_not_Nil [of n] by (cases "show_nat n") auto
  then have d: "is_digit c" "list_all is_digit r" using show_nat_digits [of n] by auto
  then have "c \<noteq> CHR ''-''" by (auto simp: is_digit_def)
  moreover have e: "dropWhile is_digit r = []" using d(2) by (simp add: list_all_iff)
  moreover have "c = CHR ''0'' \<Longrightarrow> r = []" using hd_show_nat_zero [of n] s by simp
  ultimately have "valid_num (show_nat n)" using d(1) by (simp add: valid_num_def s valid_fraction_def e)
  with d show ?thesis by (auto simp: s num_char_def list_all_iff)
qed

lemma json_ok_uint [simp]: "json_ok (json_uint n)"
  using valid_num_show_nat [of n] by (simp add: json_uint_def)

lemma valid_num_neg: "valid_num (show_nat n) \<Longrightarrow> valid_num (CHR ''-'' # show_nat n)"
proof -
  assume v: "valid_num (show_nat n)"
  obtain c r where s: "show_nat n = c # r" using show_nat_not_Nil [of n] by (cases "show_nat n") auto
  then have "c \<noteq> CHR ''-''" using show_nat_digits [of n] by (auto simp: is_digit_def)
  with v show ?thesis by (simp add: valid_num_def s)
qed

lemma json_ok_int [simp]: "json_ok (json_int n)"
  using valid_num_show_nat [of "nat n"] valid_num_show_nat [of "nat (- n)"] valid_num_neg [of "nat (- n)"]
  by (auto simp: json_int_def num_char_def)

section \<open>Fields\<close>

definition json_error :: lsm_error where "json_error = ErrMsg ''json''"

definition key_matches :: "string \<Rightarrow> string \<Rightarrow> bool" where
  "key_matches name k \<longleftrightarrow> map ascii_lower k = map ascii_lower name"

text \<open>
  The value a field takes: of the members that match its name the last one; \<open>null\<close> leaves a scalar as
  it is and empties a slice.
\<close>

definition json_field :: "string \<Rightarrow> (string \<times> json) list \<Rightarrow> json option" where
  "json_field name ms =
     (let vs = filter (\<lambda>v. v \<noteq> JNull) (map snd (filter (\<lambda>m. key_matches name (fst m)) ms))
      in if vs = [] then None else Some (last vs))"

definition json_slice_field :: "string \<Rightarrow> (string \<times> json) list \<Rightarrow> json option" where
  "json_slice_field name ms =
     (let vs = map snd (filter (\<lambda>m. key_matches name (fst m)) ms)
      in if vs = [] \<or> last vs = JNull then None else Some (last vs))"

definition dec_string :: "json option \<Rightarrow> string result" where
  "dec_string v = (case v of None \<Rightarrow> Inr [] | Some (JStr s) \<Rightarrow> Inr s | Some _ \<Rightarrow> Inl json_error)"

definition dec_bool :: "json option \<Rightarrow> bool result" where
  "dec_bool v = (case v of None \<Rightarrow> Inr False | Some (JBool b) \<Rightarrow> Inr b | Some _ \<Rightarrow> Inl json_error)"

definition dec_u64 :: "json option \<Rightarrow> u64 result" where
  "dec_u64 v =
     (case v of
        None \<Rightarrow> Inr 0
      | Some (JNum s) \<Rightarrow>
          (case (if list_all is_digit s then digits_val 0 s else None) of
             Some n \<Rightarrow> if n < 2 ^ 64 then Inr (of_nat n) else Inl json_error
           | None \<Rightarrow> Inl json_error)
      | Some _ \<Rightarrow> Inl json_error)"

definition dec_int :: "json option \<Rightarrow> int result" where
  "dec_int v =
     (case v of
        None \<Rightarrow> Inr 0
      | Some (JNum s) \<Rightarrow> (case Atoi s of Some n \<Rightarrow> Inr n | None \<Rightarrow> Inl json_error)
      | Some _ \<Rightarrow> Inl json_error)"

definition dec_bytes :: "json option \<Rightarrow> bytes result" where
  "dec_bytes v =
     (case v of
        None \<Rightarrow> Inr []
      | Some (JStr s) \<Rightarrow> (case b64_decode s of Some xs \<Rightarrow> Inr (map of_nat xs) | None \<Rightarrow> Inl json_error)
      | Some _ \<Rightarrow> Inl json_error)"

text \<open>A slice of structs; \<open>null\<close> elements are zero values.\<close>

fun dec_list :: "((string \<times> json) list \<Rightarrow> 'a result) \<Rightarrow> json list \<Rightarrow> 'a list result" where
  "dec_list f [] = Inr []"
| "dec_list f (x # xs) =
     bind_result (case x of JObj ms \<Rightarrow> f ms | JNull \<Rightarrow> f [] | _ \<Rightarrow> Inl json_error) (\<lambda>y.
       bind_result (dec_list f xs) (\<lambda>ys. Inr (y # ys)))"

definition dec_structs :: "((string \<times> json) list \<Rightarrow> 'a result) \<Rightarrow> json option \<Rightarrow> 'a list result" where
  "dec_structs f v =
     (case v of None \<Rightarrow> Inr [] | Some (JArr xs) \<Rightarrow> dec_list f xs | Some _ \<Rightarrow> Inl json_error)"

fun dec_string_list :: "json list \<Rightarrow> string list result" where
  "dec_string_list [] = Inr []"
| "dec_string_list (x # xs) =
     bind_result (dec_string (if x = JNull then None else Some x)) (\<lambda>y.
       bind_result (dec_string_list xs) (\<lambda>ys. Inr (y # ys)))"

definition dec_strings :: "json option \<Rightarrow> string list result" where
  "dec_strings v =
     (case v of None \<Rightarrow> Inr [] | Some (JArr xs) \<Rightarrow> dec_string_list xs | Some _ \<Rightarrow> Inl json_error)"

definition json_bytes :: "bytes \<Rightarrow> json" where
  "json_bytes b = JStr (b64_encode (map unat b))"

lemma json_ok_bytes [simp]: "json_ok (json_bytes b)"
  by (simp add: json_bytes_def b64_encode_ascii)

lemma dec_json_bytes [simp]: "dec_bytes (Some (json_bytes b)) = Inr b"
proof -
  have "\<forall>a \<in> set (map unat b). a < 256" using unsigned_less [where 'b = 8] by auto
  from b64_decode_encode [OF this] show ?thesis by (simp add: dec_bytes_def json_bytes_def comp_def)
qed

lemma dec_json_uint [simp]: "dec_u64 (Some (json_uint (unat (w :: u64)))) = Inr w"
  using show_nat_digits [of "unat w"] unsigned_less [of w]
  by (simp add: dec_u64_def json_uint_def digits_val_show_nat)

lemma Atoi_json_int:
  assumes "- (2 ^ 63) \<le> n" "n < 2 ^ 63"
  shows "dec_int (Some (json_int n)) = Inr n"
proof (cases "n < 0")
  case True
  then have "nat (- n) \<le> 2 ^ 63" using assms by (simp add: nat_le_iff)
  then have "Atoi (CHR ''-'' # show_nat (nat (- n))) = Some n"
    using True by (simp add: Atoi_def digits_val_show_nat Let_def)
  with True show ?thesis by (simp add: dec_int_def json_int_def)
next
  case False
  then have "nat n < 2 ^ 63" using assms by (simp add: nat_less_iff)
  with False Atoi_show_nat [of "nat n"] show ?thesis by (simp add: dec_int_def json_int_def)
qed

lemma dec_json_simple [simp]:
  "dec_string (Some (JStr s)) = Inr s" "dec_string None = Inr []"
  "dec_bool (Some (JBool b)) = Inr b" "dec_bool None = Inr False"
  "dec_u64 None = Inr 0" "dec_int None = Inr 0" "dec_bytes None = Inr []"
  "dec_strings None = Inr []" "dec_structs f None = Inr []"
  by (simp_all add: dec_string_def dec_bool_def dec_u64_def dec_int_def dec_bytes_def dec_strings_def dec_structs_def)

lemma dec_strings_JStr [simp]: "dec_strings (Some (JArr (map JStr xs))) = Inr xs"
  unfolding dec_strings_def by (induction xs) simp_all

lemma dec_structs_map:
  "(\<And>x. x \<in> set xs \<Longrightarrow> \<exists>ms. g x = JObj ms \<and> f ms = Inr x) \<Longrightarrow> dec_structs f (Some (JArr (map g xs))) = Inr xs"
  unfolding dec_structs_def
proof (induction xs)
  case (Cons x xs)
  obtain ms where "g x = JObj ms" "f ms = Inr x" using Cons.prems by auto
  with Cons show ?case by simp
qed simp

section \<open>Structs\<close>

text \<open>A field that is left out when empty, and the bytes of a document.\<close>

definition omit_if :: "bool \<Rightarrow> string \<Rightarrow> json \<Rightarrow> (string \<times> json) list" where
  "omit_if b k v = (if b then [] else [(k, v)])"

definition string_bytes :: "string \<Rightarrow> bytes" where
  "string_bytes s = map (\<lambda>c. of_nat (of_char c)) s"

definition bytes_string :: "bytes \<Rightarrow> string" where
  "bytes_string b = map (\<lambda>w. char_of (unat w)) b"

lemma bytes_string_bytes [simp]: "bytes_string (string_bytes s) = s"
proof -
  have "char_of (unat (of_nat (of_char c) :: 8 word)) = c" for c :: char
    by (simp add: unsigned_of_nat take_bit_eq_mod)
  then show ?thesis by (simp add: bytes_string_def string_bytes_def comp_def)
qed

definition lower_name :: "string \<Rightarrow> bool" where
  "lower_name s \<longleftrightarrow> list_all (\<lambda>c. ascii_lower c = c) s"

lemma key_matches_lower: "lower_name a \<Longrightarrow> lower_name b \<Longrightarrow> key_matches a b \<longleftrightarrow> b = a"
proof -
  have "map ascii_lower s = s" if "lower_name s" for s
    using that by (induction s) (auto simp: lower_name_def)
  then show "lower_name a \<Longrightarrow> lower_name b \<Longrightarrow> key_matches a b \<longleftrightarrow> b = a"
    by (simp add: key_matches_def)
qed

definition has_key :: "string \<Rightarrow> (string \<times> json) list \<Rightarrow> bool" where
  "has_key name ms \<longleftrightarrow> list_ex (\<lambda>m. key_matches name (fst m)) ms"

lemma json_field_Nil [simp]: "json_field name [] = None" "json_slice_field name [] = None" "\<not> has_key name []"
  by (simp_all add: json_field_def json_slice_field_def has_key_def)

lemma has_key_Cons [simp]: "has_key name ((k, v) # ms) \<longleftrightarrow> key_matches name k \<or> has_key name ms"
  by (simp add: has_key_def)

lemma has_key_append [simp]: "has_key name (a @ b) \<longleftrightarrow> has_key name a \<or> has_key name b"
  by (simp add: has_key_def)

lemma json_field_append:
  "json_field name (a @ b) = (case json_field name b of None \<Rightarrow> json_field name a | Some v \<Rightarrow> Some v)"
  by (simp add: json_field_def Let_def)

lemma json_field_Cons [simp]:
  "json_field name ((k, v) # ms) =
     (case json_field name ms of
        None \<Rightarrow> if key_matches name k \<and> v \<noteq> JNull then Some v else None
      | Some w \<Rightarrow> Some w)"
  by (simp add: json_field_def Let_def)

lemma json_slice_field_append:
  "json_slice_field name (a @ b) = (if has_key name b then json_slice_field name b else json_slice_field name a)"
proof -
  have "has_key name b \<longleftrightarrow> filter (\<lambda>m. key_matches name (fst m)) b \<noteq> []"
    by (auto simp: has_key_def list_ex_iff filter_empty_conv)
  then show ?thesis by (auto simp: json_slice_field_def Let_def)
qed

lemma json_slice_field_Cons [simp]:
  "json_slice_field name ((k, v) # ms) =
     (if has_key name ms then json_slice_field name ms
      else if key_matches name k \<and> v \<noteq> JNull then Some v else None)"
  using json_slice_field_append [of name "[(k, v)]" ms] by (simp add: json_slice_field_def)

lemma omit_if_fields [simp]:
  "json_field name (omit_if b k v) = (if \<not> b \<and> key_matches name k \<and> v \<noteq> JNull then Some v else None)"
  "json_slice_field name (omit_if b k v) = (if \<not> b \<and> key_matches name k \<and> v \<noteq> JNull then Some v else None)"
  "has_key name (omit_if b k v) \<longleftrightarrow> \<not> b \<and> key_matches name k"
  by (auto simp: omit_if_def)

lemma json_not_null [simp]: "json_int n \<noteq> JNull" "json_uint u \<noteq> JNull" "json_bytes b \<noteq> JNull"
  by (simp_all add: json_int_def json_uint_def json_bytes_def)

lemmas json_fields = json_field_append json_slice_field_append key_matches_lower

definition int_ok :: "int \<Rightarrow> bool" where
  "int_ok n \<longleftrightarrow> - (2 ^ 63) \<le> n \<and> n < 2 ^ 63"

lemma dec_json_int [simp]: "int_ok n \<Longrightarrow> dec_int (Some (json_int n)) = Inr n"
  by (simp add: int_ok_def Atoi_json_int)

end
