(* ===== verification/Control_State.thy ===== *)
theory Control_State
  imports Go_Json "HOL-Library.AList"
begin

text \<open>
  The persistent state of the control plane and its routes (\<^verbatim>\<open>pkg/lsm/engine/control_plane.go\<close>):
  the configuration and status types, \<^verbatim>\<open>buildShardRoutes\<close>, \<^verbatim>\<open>validateControlPlaneState\<close> and the JSON
  the state is saved as.  A \<^verbatim>\<open>ShardStatus\<close> is polymorphic in its replicas: in the saved state they
  are a list of values, in the running control plane a slice of a shared array
  (\<open>Control_Plane\<close>).  A nil and an empty slice of a value type are both \<open>[]\<close>.
\<close>

section \<open>Data\<close>

record RaftOptions =
  ro_Replicas :: int
  ro_ElectionTimeout :: int
  ro_HeartbeatInterval :: int
  ro_Peers :: "string list"

record ShardConfig =
  sc_ID :: string
  sc_StartKey :: bytes
  sc_EndKey :: bytes
  sc_Replicas :: "string list"
  sc_Leader :: string

record ReplicaStatus =
  rs_NodeID :: string
  rs_Role :: string
  rs_Healthy :: bool

record 'r ShardStatus =
  ss_WriteLeader :: "string option"
  ss_ID :: string
  ss_StartKey :: bytes
  ss_EndKey :: bytes
  ss_Leader :: string
  ss_Replicas :: 'r

record appliedOperationState =
  ao_ID :: string
  ao_Fingerprint :: string
  ao_Revision :: u64

record controlPlaneState =
  cs_CommitLogAppliedIndex :: u64
  cs_Version :: int
  cs_NodeID :: string
  cs_ClusterID :: string
  cs_StorageMode :: string
  cs_Raft :: RaftOptions
  cs_Draining :: bool
  cs_Revision :: u64
  cs_Order :: "string list"
  cs_Shards :: "ReplicaStatus list ShardStatus list"
  cs_AppliedOps :: "appliedOperationState list"

record shardRoute =
  rt_id :: string
  rt_start :: bytes
  rt_end :: bytes

definition maxAppliedControlOps :: nat where "maxAppliedControlOps = 256"

section \<open>Routes\<close>

definition hasReplica :: "ReplicaStatus list \<Rightarrow> string \<Rightarrow> bool" where
  "hasReplica replicas nodeID \<longleftrightarrow> list_ex (\<lambda>r. rs_NodeID r = nodeID) replicas"

definition keyInRange :: "bytes \<Rightarrow> bytes \<Rightarrow> bytes \<Rightarrow> bool" where
  "keyInRange key start stop \<longleftrightarrow>
     (if start \<noteq> [] \<and> key < start then False
      else if stop \<noteq> [] \<and> stop \<le> key then False
      else True)"

fun routes_loop ::
  "(string \<times> 'r ShardStatus) list \<Rightarrow> nat \<Rightarrow> string list \<Rightarrow> bytes \<Rightarrow> string list \<Rightarrow> shardRoute list result" where
  "routes_loop shards i seen prevEnd [] = Inr []"
| "routes_loop shards i seen prevEnd (id0 # ids) =
     (let id1 = TrimSpace id0 in
      if id1 = [] then Inl (ErrMsg ''shard order contains empty id'')
      else if id1 \<in> set seen then Inl (ErrMsg ''shard order contains duplicate shard'')
      else (case map_of shards id1 of
              None \<Rightarrow> Inl (ErrMsg ''state order references unknown shard'')
            | Some shard \<Rightarrow>
                (let start = ss_StartKey shard; stop = ss_EndKey shard in
                 if stop \<noteq> [] \<and> stop \<le> start then Inl (ErrMsg ''invalid shard range'')
                 else if 0 < i \<and> prevEnd = [] then Inl (ErrMsg ''open-ended shard must be last'')
                 else if 0 < i \<and> start = [] then Inl (ErrMsg ''shard has empty start key after first shard'')
                 else if 0 < i \<and> start < prevEnd then Inl (ErrMsg ''overlapping shard ranges'')
                 else bind_result (routes_loop shards (Suc i) (id1 # seen) stop ids) (\<lambda>rs.
                        Inr (\<lparr>rt_id = id1, rt_start = start, rt_end = stop\<rparr> # rs)))))"

definition buildShardRoutes :: "string list \<Rightarrow> (string \<times> 'r ShardStatus) list \<Rightarrow> shardRoute list result" where
  "buildShardRoutes order shards =
     (if order = [] then Inl (ErrMsg ''shard order is required'')
      else if shards = [] then Inl (ErrMsg ''at least one shard is required'')
      else if length order \<noteq> length shards then Inl (ErrMsg ''shard order count does not match shard map count'')
      else routes_loop shards 0 [] [] order)"

text \<open>The search of \<^verbatim>\<open>shardForKeyLocked\<close>: the first route whose end lies above the key.\<close>

definition route_for_key :: "shardRoute list \<Rightarrow> bytes \<Rightarrow> shardRoute option" where
  "route_for_key routes key =
     (if routes = [] then None
      else let idx = sort_Search (length routes) (\<lambda>i. rt_end (routes ! i) = [] \<or> key < rt_end (routes ! i)) in
           if length routes \<le> idx then None
           else let route = routes ! idx in
                if rt_start route \<noteq> [] \<and> key < rt_start route then None else Some route)"

section \<open>Validation\<close>

fun collect_state_shards ::
  "(string \<times> 'r ShardStatus) list \<Rightarrow> 'r ShardStatus list \<Rightarrow> (string \<times> 'r ShardStatus) list result" where
  "collect_state_shards acc [] = Inr acc"
| "collect_state_shards acc (shard # rest) =
     (if TrimSpace (ss_ID shard) = [] then Inl (ErrMsg ''state has shard with empty id'')
      else if map_of acc (ss_ID shard) \<noteq> None then Inl (ErrMsg ''state has duplicate shard id'')
      else collect_state_shards (AList.update (ss_ID shard) shard acc) rest)"

fun check_ops :: "string list \<Rightarrow> appliedOperationState list \<Rightarrow> unit result" where
  "check_ops seen [] = Inr ()"
| "check_ops seen (op # rest) =
     (let opID = TrimSpace (ao_ID op) in
      if opID = [] then Inl (ErrMsg ''state has applied operation with empty id'')
      else if opID \<in> set seen then Inl (ErrMsg ''state has duplicate applied operation id'')
      else if TrimSpace (ao_Fingerprint op) = [] then Inl (ErrMsg ''state has applied operation without fingerprint'')
      else check_ops (opID # seen) rest)"

definition validateControlPlaneState :: "controlPlaneState \<Rightarrow> unit result" where
  "validateControlPlaneState state =
     (if cs_Order state = [] then Inl (ErrMsg ''state order is required'')
      else if cs_Shards state = [] then Inl (ErrMsg ''state contains no shards'')
      else bind_result (collect_state_shards [] (cs_Shards state)) (\<lambda>shards.
             bind_result (buildShardRoutes (cs_Order state) shards) (\<lambda>_.
               if maxAppliedControlOps < length (cs_AppliedOps state)
               then Inl (ErrMsg ''state contains too many applied operations'')
               else check_ops [] (cs_AppliedOps state))))"

section \<open>The saved state\<close>

definition json_str_list :: "string list \<Rightarrow> json" where
  "json_str_list xs = (if xs = [] then JNull else JArr (map JStr xs))"

definition enc_raft :: "RaftOptions \<Rightarrow> json" where
  "enc_raft r = JObj
     ((''replicas'', json_int (ro_Replicas r)) #
      omit_if (ro_ElectionTimeout r = 0) ''election_timeout'' (json_int (ro_ElectionTimeout r)) @
      omit_if (ro_HeartbeatInterval r = 0) ''heartbeat_interval'' (json_int (ro_HeartbeatInterval r)) @
      omit_if (ro_Peers r = []) ''peers'' (json_str_list (ro_Peers r)))"

definition enc_replica :: "ReplicaStatus \<Rightarrow> json" where
  "enc_replica r = JObj
     [(''node_id'', JStr (rs_NodeID r)), (''role'', JStr (rs_Role r)), (''healthy'', JBool (rs_Healthy r))]"

definition enc_shard :: "ReplicaStatus list ShardStatus \<Rightarrow> json" where
  "enc_shard s = JObj
     (omit_if (ss_WriteLeader s = None) ''write_leader'' (JStr (case ss_WriteLeader s of Some w \<Rightarrow> w | None \<Rightarrow> [])) @
      (''id'', JStr (ss_ID s)) #
      omit_if (ss_StartKey s = []) ''start_key'' (json_bytes (ss_StartKey s)) @
      omit_if (ss_EndKey s = []) ''end_key'' (json_bytes (ss_EndKey s)) @
      [(''leader'', JStr (ss_Leader s)),
       (''replicas'', if ss_Replicas s = [] then JNull else JArr (map enc_replica (ss_Replicas s)))])"

definition enc_op :: "appliedOperationState \<Rightarrow> json" where
  "enc_op a = JObj
     [(''id'', JStr (ao_ID a)), (''fingerprint'', JStr (ao_Fingerprint a)),
      (''revision'', json_uint (unat (ao_Revision a)))]"

definition enc_state :: "controlPlaneState \<Rightarrow> json" where
  "enc_state s = JObj
     (omit_if (cs_CommitLogAppliedIndex s = 0) ''commit_log_applied_index'' (json_uint (unat (cs_CommitLogAppliedIndex s))) @
      [(''version'', json_int (cs_Version s)),
       (''node_id'', JStr (cs_NodeID s)),
       (''cluster_id'', JStr (cs_ClusterID s)),
       (''storage_mode'', JStr (cs_StorageMode s)),
       (''raft'', enc_raft (cs_Raft s)),
       (''draining'', JBool (cs_Draining s)),
       (''revision'', json_uint (unat (cs_Revision s))),
       (''order'', json_str_list (cs_Order s)),
       (''shards'', JArr (map enc_shard (cs_Shards s)))] @
      omit_if (cs_AppliedOps s = []) ''applied_ops'' (JArr (map enc_op (cs_AppliedOps s))))"

definition dec_raft :: "(string \<times> json) list \<Rightarrow> RaftOptions result" where
  "dec_raft ms =
     bind_result (dec_int (json_field ''replicas'' ms)) (\<lambda>n.
     bind_result (dec_int (json_field ''election_timeout'' ms)) (\<lambda>e.
     bind_result (dec_int (json_field ''heartbeat_interval'' ms)) (\<lambda>h.
     bind_result (dec_strings (json_slice_field ''peers'' ms)) (\<lambda>p.
       Inr \<lparr>ro_Replicas = n, ro_ElectionTimeout = e, ro_HeartbeatInterval = h, ro_Peers = p\<rparr>))))"

definition dec_replica :: "(string \<times> json) list \<Rightarrow> ReplicaStatus result" where
  "dec_replica ms =
     bind_result (dec_string (json_field ''node_id'' ms)) (\<lambda>n.
     bind_result (dec_string (json_field ''role'' ms)) (\<lambda>r.
     bind_result (dec_bool (json_field ''healthy'' ms)) (\<lambda>h.
       Inr \<lparr>rs_NodeID = n, rs_Role = r, rs_Healthy = h\<rparr>)))"

definition dec_string_pointer :: "json option \<Rightarrow> string option result" where
  "dec_string_pointer v = (case v of None \<Rightarrow> Inr None | Some (JStr s) \<Rightarrow> Inr (Some s) | Some _ \<Rightarrow> Inl json_error)"

definition dec_shard :: "(string \<times> json) list \<Rightarrow> ReplicaStatus list ShardStatus result" where
  "dec_shard ms =
     bind_result (dec_string_pointer (json_slice_field ''write_leader'' ms)) (\<lambda>w.
     bind_result (dec_string (json_field ''id'' ms)) (\<lambda>i.
     bind_result (dec_bytes (json_slice_field ''start_key'' ms)) (\<lambda>s.
     bind_result (dec_bytes (json_slice_field ''end_key'' ms)) (\<lambda>e.
     bind_result (dec_string (json_field ''leader'' ms)) (\<lambda>l.
     bind_result (dec_structs dec_replica (json_slice_field ''replicas'' ms)) (\<lambda>r.
       Inr \<lparr>ss_WriteLeader = w, ss_ID = i, ss_StartKey = s, ss_EndKey = e, ss_Leader = l, ss_Replicas = r\<rparr>))))))"

definition dec_op :: "(string \<times> json) list \<Rightarrow> appliedOperationState result" where
  "dec_op ms =
     bind_result (dec_string (json_field ''id'' ms)) (\<lambda>i.
     bind_result (dec_string (json_field ''fingerprint'' ms)) (\<lambda>f.
     bind_result (dec_u64 (json_field ''revision'' ms)) (\<lambda>r.
       Inr \<lparr>ao_ID = i, ao_Fingerprint = f, ao_Revision = r\<rparr>)))"

definition dec_raft_value :: "json option \<Rightarrow> RaftOptions result" where
  "dec_raft_value v = (case v of None \<Rightarrow> dec_raft [] | Some (JObj ms) \<Rightarrow> dec_raft ms | Some _ \<Rightarrow> Inl json_error)"

definition dec_state :: "(string \<times> json) list \<Rightarrow> controlPlaneState result" where
  "dec_state ms =
     bind_result (dec_u64 (json_field ''commit_log_applied_index'' ms)) (\<lambda>ci.
     bind_result (dec_int (json_field ''version'' ms)) (\<lambda>v.
     bind_result (dec_string (json_field ''node_id'' ms)) (\<lambda>n.
     bind_result (dec_string (json_field ''cluster_id'' ms)) (\<lambda>c.
     bind_result (dec_string (json_field ''storage_mode'' ms)) (\<lambda>m.
     bind_result (dec_raft_value (json_field ''raft'' ms)) (\<lambda>r.
     bind_result (dec_bool (json_field ''draining'' ms)) (\<lambda>d.
     bind_result (dec_u64 (json_field ''revision'' ms)) (\<lambda>rev.
     bind_result (dec_strings (json_slice_field ''order'' ms)) (\<lambda>ord.
     bind_result (dec_structs dec_shard (json_slice_field ''shards'' ms)) (\<lambda>ss.
     bind_result (dec_structs dec_op (json_slice_field ''applied_ops'' ms)) (\<lambda>ops.
       Inr \<lparr>cs_CommitLogAppliedIndex = ci, cs_Version = v, cs_NodeID = n, cs_ClusterID = c, cs_StorageMode = m,
            cs_Raft = r, cs_Draining = d, cs_Revision = rev, cs_Order = ord, cs_Shards = ss, cs_AppliedOps = ops\<rparr>)))))))))))"

text \<open>\<^verbatim>\<open>json.MarshalIndent(state, "", "  ")\<close> and \<^verbatim>\<open>json.Unmarshal\<close> over the bytes of the file.\<close>

definition marshal_state :: "controlPlaneState \<Rightarrow> bytes" where
  "marshal_state s = string_bytes (json_MarshalIndent (enc_state s))"

definition unmarshal_state :: "bytes \<Rightarrow> controlPlaneState result" where
  "unmarshal_state data =
     (case json_parse (bytes_string data) of
        None \<Rightarrow> Inl json_error
      | Some (JObj ms) \<Rightarrow> dec_state ms
      | Some JNull \<Rightarrow> dec_state []
      | Some _ \<Rightarrow> Inl json_error)"

section \<open>Reading back what was written\<close>

lemma state_names [simp]:
  "lower_name ''replicas''" "lower_name ''election_timeout''" "lower_name ''heartbeat_interval''"
  "lower_name ''peers''" "lower_name ''node_id''" "lower_name ''role''" "lower_name ''healthy''"
  "lower_name ''write_leader''" "lower_name ''id''" "lower_name ''start_key''" "lower_name ''end_key''"
  "lower_name ''leader''" "lower_name ''fingerprint''" "lower_name ''revision''"
  "lower_name ''commit_log_applied_index''" "lower_name ''version''" "lower_name ''cluster_id''"
  "lower_name ''storage_mode''" "lower_name ''raft''" "lower_name ''draining''" "lower_name ''order''"
  "lower_name ''shards''" "lower_name ''applied_ops''"
  by code_simp+

lemma enc_raft_not_null [simp]: "enc_raft r \<noteq> JNull"
  by (simp add: enc_raft_def)

lemma dec_enc_raft:
  assumes "int_ok (ro_Replicas r)" "int_ok (ro_ElectionTimeout r)" "int_ok (ro_HeartbeatInterval r)"
  shows "dec_raft_value (Some (enc_raft r)) = Inr r"
  using assms
  by (cases "ro_ElectionTimeout r = 0"; cases "ro_HeartbeatInterval r = 0"; cases "ro_Peers r = []")
    (simp_all add: dec_raft_value_def enc_raft_def dec_raft_def json_fields json_str_list_def)

lemma dec_enc_replica: "\<exists>ms. enc_replica r = JObj ms \<and> dec_replica ms = Inr r"
  by (simp add: enc_replica_def dec_replica_def json_fields)

lemma dec_enc_op: "\<exists>ms. enc_op a = JObj ms \<and> dec_op ms = Inr a"
  by (simp add: enc_op_def dec_op_def json_fields)

lemma dec_enc_shard: "\<exists>ms. enc_shard s = JObj ms \<and> dec_shard ms = Inr s"
proof -
  have "dec_structs dec_replica (if rs = [] then None else Some (JArr (map enc_replica rs))) = Inr rs" for rs
    using dec_structs_map [of rs enc_replica dec_replica] dec_enc_replica by simp
  note replicas = this [of "ss_Replicas s"]
  show ?thesis
    using replicas
    by (cases "ss_WriteLeader s"; cases "ss_StartKey s = []"; cases "ss_EndKey s = []"; cases "ss_Replicas s = []")
      (simp_all add: enc_shard_def dec_shard_def json_fields dec_string_pointer_def)
qed

definition state_ints_ok :: "controlPlaneState \<Rightarrow> bool" where
  "state_ints_ok s \<longleftrightarrow>
     int_ok (cs_Version s) \<and> int_ok (ro_Replicas (cs_Raft s)) \<and> int_ok (ro_ElectionTimeout (cs_Raft s)) \<and>
     int_ok (ro_HeartbeatInterval (cs_Raft s))"

text \<open>
  The strings of the state are ASCII: \<^verbatim>\<open>encoding/json\<close> replaces invalid UTF-8, so that other strings
  need not come back.
\<close>

definition state_encodable :: "controlPlaneState \<Rightarrow> bool" where
  "state_encodable s \<longleftrightarrow> state_ints_ok s \<and> json_ok (enc_state s)"

lemma dec_enc_state:
  assumes "state_ints_ok s"
  shows "\<exists>ms. enc_state s = JObj ms \<and> dec_state ms = Inr s"
proof -
  have shards: "dec_structs dec_shard (Some (JArr (map enc_shard (cs_Shards s)))) = Inr (cs_Shards s)"
    by (rule dec_structs_map) (rule dec_enc_shard)
  have ops: "dec_structs dec_op (Some (JArr (map enc_op (cs_AppliedOps s)))) = Inr (cs_AppliedOps s)"
    by (rule dec_structs_map) (rule dec_enc_op)
  have ord: "dec_strings (if xs = [] then None else Some (json_str_list xs)) = Inr xs" for xs
    by (simp add: json_str_list_def)
  have raft: "dec_raft_value (Some (enc_raft (cs_Raft s))) = Inr (cs_Raft s)"
    using assms by (intro dec_enc_raft) (simp_all add: state_ints_ok_def)
  have nn: "json_str_list xs = JNull \<longleftrightarrow> xs = []" for xs by (simp add: json_str_list_def)
  show ?thesis
    using assms shards ops ord [of "cs_Order s"] raft
    by (cases "cs_CommitLogAppliedIndex s = 0"; cases "cs_AppliedOps s = []"; cases "cs_Order s = []")
      (simp_all add: enc_state_def dec_state_def json_fields nn state_ints_ok_def)
qed

theorem unmarshal_marshal_state: "state_encodable s \<Longrightarrow> unmarshal_state (marshal_state s) = Inr s"
proof -
  assume ok: "state_encodable s"
  obtain ms where "enc_state s = JObj ms" "dec_state ms = Inr s"
    using dec_enc_state ok by (auto simp: state_encodable_def)
  then show ?thesis
    using ok by (simp add: unmarshal_state_def marshal_state_def json_parse_MarshalIndent state_encodable_def)
qed

end
