(* ===== verification/Control_Routes.thy ===== *)
theory Control_Routes
  imports Control_State
begin

text \<open>
  What a successful \<^verbatim>\<open>buildShardRoutes\<close> establishes, and that the binary search over the routes finds the
  one range that holds the key (\<^verbatim>\<open>pkg/lsm/engine/control_plane.go\<close>).
\<close>

section \<open>Successful route tables\<close>

definition route_of :: "(string \<times> 'r ShardStatus) list \<Rightarrow> string \<Rightarrow> shardRoute" where
  "route_of shards i =
     (case map_of shards i of
        Some s \<Rightarrow> \<lparr>rt_id = i, rt_start = ss_StartKey s, rt_end = ss_EndKey s\<rparr>
      | None \<Rightarrow> \<lparr>rt_id = i, rt_start = [], rt_end = []\<rparr>)"

definition range_ok :: "shardRoute \<Rightarrow> bool" where
  "range_ok r \<longleftrightarrow> rt_end r = [] \<or> rt_start r < rt_end r"

fun routes_ok :: "bytes option \<Rightarrow> shardRoute list \<Rightarrow> bool" where
  "routes_ok prev [] \<longleftrightarrow> True"
| "routes_ok prev (r # rs) \<longleftrightarrow>
     range_ok r \<and> (case prev of None \<Rightarrow> True | Some e \<Rightarrow> e \<noteq> [] \<and> rt_start r \<noteq> [] \<and> e \<le> rt_start r) \<and>
     routes_ok (Some (rt_end r)) rs"

lemma route_of_id [simp]: "rt_id (route_of shards i) = i"
  by (simp add: route_of_def split: option.split)

lemma routes_loop_iff:
  assumes "\<forall>i \<in> set order. TrimSpace i = i"
  shows "routes_loop shards n seen prevEnd order = Inr rs \<longleftrightarrow>
    rs = map (route_of shards) order \<and> [] \<notin> set order \<and> distinct order \<and> set order \<inter> set seen = {} \<and>
    set order \<subseteq> dom (map_of shards) \<and> routes_ok (if n = 0 then None else Some prevEnd) rs"
  using assms
proof (induction order arbitrary: n seen prevEnd rs)
  case (Cons i ids)
  note IH = Cons.IH [of "Suc n" "i # seen" "ss_EndKey (the (map_of shards i))"]
  have trim: "TrimSpace i = i" using Cons.prems by simp
  show ?case
  proof (cases "map_of shards i")
    case None
    then show ?thesis by (auto simp: trim Let_def)
  next
    case (Some s)
    have r: "route_of shards i = \<lparr>rt_id = i, rt_start = ss_StartKey s, rt_end = ss_EndKey s\<rparr>"
      using Some by (simp add: route_of_def)
    have step: "routes_loop shards n seen prevEnd (i # ids) = Inr rs \<longleftrightarrow>
        i \<noteq> [] \<and> i \<notin> set seen \<and> range_ok (route_of shards i) \<and>
        (n = 0 \<or> prevEnd \<noteq> [] \<and> ss_StartKey s \<noteq> [] \<and> prevEnd \<le> ss_StartKey s) \<and>
        (\<exists>rs'. routes_loop shards (Suc n) (i # seen) (ss_EndKey s) ids = Inr rs' \<and> rs = route_of shards i # rs')"
      using Some by (auto simp: trim Let_def r range_ok_def not_less not_le bind_result_Inr_iff)
    have ids: "routes_loop shards (Suc n) (i # seen) (ss_EndKey s) ids = Inr rs' \<longleftrightarrow>
        rs' = map (route_of shards) ids \<and> [] \<notin> set ids \<and> distinct ids \<and> set ids \<inter> set (i # seen) = {} \<and>
        set ids \<subseteq> dom (map_of shards) \<and> routes_ok (Some (ss_EndKey s)) rs'" for rs'
      using IH [of rs'] Cons.prems Some by simp
    show ?thesis unfolding step ids using Some by (cases n) (auto simp: r)
  qed
qed auto

lemma buildShardRoutes_iff:
  assumes "\<forall>i \<in> set order. TrimSpace i = i"
  shows "buildShardRoutes order shards = Inr rs \<longleftrightarrow>
    order \<noteq> [] \<and> length order = length shards \<and> rs = map (route_of shards) order \<and> [] \<notin> set order \<and>
    distinct order \<and> set order \<subseteq> dom (map_of shards) \<and> routes_ok None rs"
  using routes_loop_iff [OF assms, of shards 0 "[]" "[]" rs] by (auto simp: buildShardRoutes_def)

section \<open>Ordered ranges\<close>

lemma routes_ok_from:
  assumes "routes_ok (Some e) rs" "rs \<noteq> []"
  shows "e \<noteq> [] \<and> (\<forall>r \<in> set rs. rt_start r \<noteq> [] \<and> e \<le> rt_start r)"
  using assms
proof (induction rs arbitrary: e)
  case (Cons r rs)
  show ?case
  proof (cases "rs = []")
    case True
    with Cons.prems show ?thesis by auto
  next
    case False
    have n: "rt_end r \<noteq> [] \<and> (\<forall>s \<in> set rs. rt_start s \<noteq> [] \<and> rt_end r \<le> rt_start s)"
      using Cons.prems False by (intro Cons.IH) auto
    moreover have "e \<le> rt_end r"
      using Cons.prems n by (auto simp: range_ok_def intro: order_trans [OF _ less_imp_le])
    ultimately show ?thesis using Cons.prems by (auto intro: order_trans)
  qed
qed simp

lemma routes_ok_append:
  "routes_ok prev (xs @ ys) \<longleftrightarrow>
     routes_ok prev xs \<and> routes_ok (if xs = [] then prev else Some (rt_end (last xs))) ys"
  by (induction xs arbitrary: prev) auto

lemma routes_ok_ordered:
  assumes "routes_ok None rs" "i < j" "j < length rs"
  shows "rt_end (rs ! i) \<noteq> [] \<and> rt_start (rs ! j) \<noteq> [] \<and> rt_end (rs ! i) \<le> rt_start (rs ! j)"
proof -
  have "rs = take i rs @ rs ! i # drop (Suc i) rs" using assms by (simp add: id_take_nth_drop)
  then have "routes_ok (Some (rt_end (rs ! i))) (drop (Suc i) rs)"
    using assms(1) routes_ok_append [of None "take i rs" "rs ! i # drop (Suc i) rs"] by simp
  moreover have "rs ! j \<in> set (drop (Suc i) rs)"
    using assms nth_mem [of "j - Suc i" "drop (Suc i) rs"] by simp
  ultimately show ?thesis using routes_ok_from by (metis empty_iff list.set(1))
qed

lemma routes_ok_range: "routes_ok prev rs \<Longrightarrow> r \<in> set rs \<Longrightarrow> range_ok r"
  by (induction rs arbitrary: prev) auto

section \<open>The search finds the range\<close>

definition in_route :: "bytes \<Rightarrow> shardRoute \<Rightarrow> bool" where
  "in_route key r \<longleftrightarrow> keyInRange key (rt_start r) (rt_end r)"

lemma in_route_iff:
  "in_route key r \<longleftrightarrow> (rt_start r = [] \<or> rt_start r \<le> key) \<and> (rt_end r = [] \<or> key < rt_end r)"
  by (auto simp: in_route_def keyInRange_def not_less not_le)

lemma route_for_key_find:
  assumes ok: "routes_ok None rs"
  shows "route_for_key rs key = find (in_route key) rs"
proof (cases "rs = []")
  case True
  then show ?thesis by (simp add: route_for_key_def)
next
  case False
  define above where "above i \<longleftrightarrow> rt_end (rs ! i) = [] \<or> key < rt_end (rs ! i)" for i
  define n where "n = sort_Search (length rs) above"
  note ordered = routes_ok_ordered [OF ok]
  have rng: "rt_end (rs ! i) = [] \<or> rt_start (rs ! i) < rt_end (rs ! i)" if "i < length rs" for i
    using routes_ok_range [OF ok nth_mem [OF that]] by (simp add: range_ok_def)
  have mono: "above j" if "i \<le> j" "j < length rs" "above i" for i j
  proof (cases "i = j")
    case False
    then have ij: "i < j" using that by simp
    have "key < rt_start (rs ! j)"
      using ordered [OF ij that(2)] that(3) by (auto simp: above_def intro: less_le_trans)
    then show ?thesis using rng [OF that(2)] by (auto simp: above_def intro: less_trans)
  qed (use that in simp)
  have below: "\<not> above k" if "k < n" for k
    using sort_Search_least(1) [of "length rs" above k] mono that unfolding n_def by blast
  have at: "above n" if "n < length rs"
    using sort_Search_least(2) [of "length rs" above] mono that unfolding n_def by blast
  have out: "\<not> in_route key (rs ! k)" if "k < n" for k
    using below [OF that] by (auto simp: above_def in_route_iff)
  have unfold: "route_for_key rs key =
      (if length rs \<le> n then None
       else if rt_start (rs ! n) \<noteq> [] \<and> key < rt_start (rs ! n) then None else Some (rs ! n))"
    using False by (simp add: route_for_key_def Let_def n_def above_def [abs_def])
  show ?thesis
  proof (cases "n < length rs")
    case False
    then have "find (in_route key) rs = None" using out by (auto simp: find_None_iff in_set_conv_nth)
    with False show ?thesis by (simp add: unfold)
  next
    case True
    show ?thesis
    proof (cases "rt_start (rs ! n) \<noteq> [] \<and> key < rt_start (rs ! n)")
      case hole: True
      have "\<not> in_route key (rs ! k)" if "k < length rs" for k
      proof (cases "k < n")
        case False
        have "rt_start (rs ! k) \<noteq> [] \<and> key < rt_start (rs ! k)"
        proof (cases "k = n")
          case False
          then have "n < k" using \<open>\<not> k < n\<close> by simp
          from ordered [OF this that] at [OF True] show ?thesis
            by (auto simp: above_def intro: less_le_trans)
        qed (use hole in simp)
        then show ?thesis by (auto simp: in_route_iff)
      qed (use out in simp)
      then have "find (in_route key) rs = None" by (auto simp: find_None_iff in_set_conv_nth)
      with hole True show ?thesis by (simp add: unfold)
    next
      case hit: False
      then have "in_route key (rs ! n)" using at [OF True] by (auto simp: in_route_iff above_def not_less)
      then have "find (in_route key) rs = Some (rs ! n)"
        using out True by (auto simp: find_Some_iff)
      with hit True show ?thesis by (simp add: unfold)
    qed
  qed
qed

text \<open>No key lies in two ranges.\<close>

lemma in_route_unique:
  assumes ok: "routes_ok None rs" and ij: "i < length rs" "j < length rs"
    and k: "in_route key (rs ! i)" "in_route key (rs ! j)"
  shows "i = j"
proof (rule ccontr)
  have "False" if "i < j" "j < length rs" "in_route key (rs ! i)" "in_route key (rs ! j)" for i j
    using routes_ok_ordered [OF ok that(1,2)] that(3,4) by (auto simp: in_route_iff)
  moreover assume "i \<noteq> j"
  ultimately show False using ij k by (metis nat_neq_iff)
qed

end
