(* ===== verification/Go_Files.thy ===== *)
theory Go_Files
  imports Go_Fs
begin

text \<open>
  Calls on files that several steps make up: one step after the other unless it failed, \<^verbatim>\<open>WriteFile\<close>,
  \<^verbatim>\<open>Remove\<close>, and what they do to the other files of the directory.
\<close>

definition fs_seq :: "(fs \<Rightarrow> lsm_error option \<times> fs) \<Rightarrow> (fs \<Rightarrow> lsm_error option \<times> fs) \<Rightarrow> fs \<Rightarrow> lsm_error option \<times> fs" where
  "fs_seq a b s = (case a s of (Some e, s1) \<Rightarrow> (Some e, s1) | (None, s1) \<Rightarrow> b s1)"

definition fs_WriteFile :: "string \<Rightarrow> bytes \<Rightarrow> fs \<Rightarrow> lsm_error option \<times> fs" where
  "fs_WriteFile name data =
     fs_seq (fs_open True name) (\<lambda>s.
       let ((n, e1), s1) = fs_write name data s; (e2, s2) = fs_effect s1
       in (case e1 of Some e \<Rightarrow> Some e | None \<Rightarrow> e2, s2))"

definition fs_open_existing :: "string \<Rightarrow> fs \<Rightarrow> lsm_error option \<times> fs" where
  "fs_open_existing name =
     fs_seq fs_effect (\<lambda>s. (if map_of (fs_dir s) name = None then Some ErrIO else None, s))"

definition fs_remove :: "string \<Rightarrow> fs \<Rightarrow> lsm_error option \<times> fs" where
  "fs_remove name = fs_seq fs_effect (\<lambda>s. (None, s\<lparr>fs_dir := del_file name (fs_dir s)\<rparr>))"

definition tmp_path :: "string \<Rightarrow> string" where "tmp_path p = p @ ''.tmp''"

definition keeps_dir :: "(fs \<Rightarrow> lsm_error option \<times> fs) \<Rightarrow> bool" where
  "keeps_dir a \<longleftrightarrow> (\<forall>s e s'. a s = (e, s') \<longrightarrow> fs_dir s' = fs_dir s)"

lemma keeps_dir_effect: "keeps_dir fs_effect"
  by (auto simp: keeps_dir_def fs_effect_def next_outcome_def split: list.splits io_outcome.splits prod.splits)

lemma keeps_dir_seq: "keeps_dir a \<Longrightarrow> keeps_dir b \<Longrightarrow> keeps_dir (fs_seq a b)"
  by (fastforce simp: keeps_dir_def fs_seq_def split: prod.splits option.splits)

lemma keeps_dir_open_existing: "keeps_dir (fs_open_existing name)"
  unfolding fs_open_existing_def by (rule keeps_dir_seq [OF keeps_dir_effect]) (simp add: keeps_dir_def)

lemma keeps_dirD: "keeps_dir a \<Longrightarrow> a s = (e, s') \<Longrightarrow> fs_dir s' = fs_dir s"
  by (simp add: keeps_dir_def)

lemma fs_seq_cases:
  assumes "fs_seq a b s = (e, s')"
  obtains (first) "a s = (e, s')" "e \<noteq> None" | (both) s1 where "a s = (None, s1)" "b s1 = (e, s')"
  using assms by (auto simp: fs_seq_def split: prod.splits option.splits)

lemma fs_write_dir:
  assumes "fs_write name b s = (r, s')"
  shows "\<forall>n. n \<noteq> name \<longrightarrow> map_of (fs_dir s') n = map_of (fs_dir s) n"
    and "snd r = None \<Longrightarrow> map_of (fs_dir s) name = Some old \<Longrightarrow> map_of (fs_dir s') name = Some (old @ b)"
  using assms
  by (auto simp: fs_write_def next_outcome_def split: option.splits list.splits io_outcome.splits prod.splits)

lemma fs_WriteFile_dir:
  assumes "fs_WriteFile name data s = (e, s')"
  shows "\<forall>n. n \<noteq> name \<longrightarrow> map_of (fs_dir s') n = map_of (fs_dir s) n"
    "e = None \<Longrightarrow> map_of (fs_dir s') name = Some data"
proof -
  have op: "\<forall>n. n \<noteq> name \<longrightarrow> map_of (fs_dir s1) n = map_of (fs_dir s) n"
    "e1 = None \<Longrightarrow> map_of (fs_dir s1) name = Some []" if "fs_open True name s = (e1, s1)" for e1 s1
    using that keeps_dirD [OF keeps_dir_effect, of s]
    by (auto simp: fs_open_def split: prod.splits option.splits)
  from assms have "(\<forall>n. n \<noteq> name \<longrightarrow> map_of (fs_dir s') n = map_of (fs_dir s) n) \<and>
      (e = None \<longrightarrow> map_of (fs_dir s') name = Some data)"
    unfolding fs_WriteFile_def
  proof (cases rule: fs_seq_cases)
    case first
    then show ?thesis using op(1) [of e s'] by auto
  next
    case (both s1)
    obtain n e1 s2 where w: "fs_write name data s1 = ((n, e1), s2)" by (metis surj_pair)
    obtain e2 where c: "fs_effect s2 = (e2, s')" "e = (case e1 of Some e \<Rightarrow> Some e | None \<Rightarrow> e2)"
      using both(2) w by (auto simp: Let_def split: prod.splits)
    have "fs_dir s' = fs_dir s2" using keeps_dirD [OF keeps_dir_effect c(1)] .
    then show ?thesis
      using fs_write_dir [OF w] op [OF both(1)] c(2) by (auto split: option.splits)
  qed
  then show "\<forall>n. n \<noteq> name \<longrightarrow> map_of (fs_dir s') n = map_of (fs_dir s) n"
    "e = None \<Longrightarrow> map_of (fs_dir s') name = Some data" by auto
qed

lemma tmp_path_neq [simp]: "tmp_path p \<noteq> p" "p \<noteq> tmp_path p"
  by (auto simp: tmp_path_def)

end
