(* ===== verification/Control_Plane.thy ===== *)
theory Control_Plane
  imports Control_Routes Go_Files
begin

text \<open>
  The running control plane (\<^verbatim>\<open>pkg/lsm/engine/control_plane.go\<close>, \<^verbatim>\<open>control_payload.go\<close>): its state, the
  three mutations, the commit of a mutation with rollback, idempotent operation ids and the saved
  state file.

  A \<^verbatim>\<open>ShardStatus\<close> holds its replicas as a Go slice.  Copying the struct copies the slice header
  and shares the array, so the arrays are explicit: \<open>cp_arrays\<close> is the list of the allocated
  arrays, a slice is the address of one and a length, and the length of the array is the capacity.
  How much capacity the runtime adds when \<^verbatim>\<open>append\<close> reallocates is not fixed by the language;
  \<open>cp_growcap\<close> is that choice.
\<close>

section \<open>Replica slices\<close>

record rslice =
  sl_addr :: nat
  sl_len :: nat

type_synonym replica_arrays = "ReplicaStatus list list"

definition nil_slice :: rslice where "nil_slice = \<lparr>sl_addr = 0, sl_len = 0\<rparr>"

definition zero_replica :: ReplicaStatus where
  "zero_replica = \<lparr>rs_NodeID = [], rs_Role = [], rs_Healthy = False\<rparr>"

definition backing :: "replica_arrays \<Rightarrow> nat \<Rightarrow> ReplicaStatus list" where
  "backing arrs a = (if a < length arrs then arrs ! a else [])"

definition slice_read :: "replica_arrays \<Rightarrow> rslice \<Rightarrow> ReplicaStatus list" where
  "slice_read arrs s = take (sl_len s) (backing arrs (sl_addr s))"

definition slice_alloc :: "nat \<Rightarrow> ReplicaStatus list \<Rightarrow> replica_arrays \<Rightarrow> rslice \<times> replica_arrays" where
  "slice_alloc cap xs arrs =
     (\<lparr>sl_addr = length arrs, sl_len = length xs\<rparr>, arrs @ [xs @ replicate (cap - length xs) zero_replica])"

text \<open>\<^verbatim>\<open>append([]ReplicaStatus(nil), xs...)\<close>: nil for no elements, a fresh array otherwise.\<close>

definition slice_copy ::
  "(nat \<Rightarrow> nat \<Rightarrow> nat) \<Rightarrow> ReplicaStatus list \<Rightarrow> replica_arrays \<Rightarrow> rslice \<times> replica_arrays" where
  "slice_copy growcap xs arrs = (if xs = [] then (nil_slice, arrs) else slice_alloc (growcap 0 (length xs)) xs arrs)"

definition slice_append ::
  "(nat \<Rightarrow> nat \<Rightarrow> nat) \<Rightarrow> rslice \<Rightarrow> ReplicaStatus \<Rightarrow> replica_arrays \<Rightarrow> rslice \<times> replica_arrays" where
  "slice_append growcap s x arrs =
     (let b = backing arrs (sl_addr s) in
      if sl_len s < length b
      then (s\<lparr>sl_len := Suc (sl_len s)\<rparr>, arrs[sl_addr s := b[sl_len s := x]])
      else slice_alloc (growcap (length b) (Suc (sl_len s))) (slice_read arrs s @ [x]) arrs)"

text \<open>\<^verbatim>\<open>for i := range shard.Replicas\<close> setting the roles, in place.\<close>

definition leader_role :: "string \<Rightarrow> ReplicaStatus \<Rightarrow> ReplicaStatus" where
  "leader_role target r = r\<lparr>rs_Role := (if rs_NodeID r = target then ''leader'' else ''follower'')\<rparr>"

definition set_roles :: "string \<Rightarrow> rslice \<Rightarrow> replica_arrays \<Rightarrow> replica_arrays" where
  "set_roles target s arrs =
     (let b = backing arrs (sl_addr s) in
      arrs[sl_addr s := map (leader_role target) (take (sl_len s) b) @ drop (sl_len s) b])"

section \<open>The control plane\<close>

text \<open>
  The errors of a proposal: an ordinary one, the built-in provider's \<^verbatim>\<open>commitLogNotLeader\<close>,
  \<^verbatim>\<open>errControlNoop\<close> and a \<^verbatim>\<open>persistedControlRejection\<close> with its cause.
\<close>

datatype control_error =
    CErr lsm_error
  | CNotLeader
  | CNoop
  | CRejected lsm_error

record controlPlane =
  cp_commitErr :: "control_error option"
  cp_commitLogAppliedIndex :: u64
  cp_nodeID :: string
  cp_clusterID :: string
  cp_storageMode :: string
  cp_raft :: RaftOptions
  cp_draining :: bool
  cp_revision :: u64
  cp_order :: "string list"
  cp_shards :: "(string \<times> rslice ShardStatus) list"
  cp_routes :: "shardRoute list"
  cp_appliedOps :: "(string \<times> appliedOperationState) list"
  cp_appliedOrder :: "string list"
  cp_statePath :: string
  cp_arrays :: replica_arrays
  cp_growcap :: "nat \<Rightarrow> nat \<Rightarrow> nat"

record ControlWriteOptions =
  cw_OperationID :: string
  cw_ExpectedRevision :: "u64 option"

record controlMutation =
  cm_ExpectedRevision :: "u64 option"
  cm_OperationID :: string
  cm_Kind :: string
  cm_ShardID :: string
  cm_Target :: string
  cm_Split :: bytes
  cm_NodeID :: string

record controlCommittedEntry =
  ce_Index :: u64
  ce_Term :: u64
  ce_Mutation :: controlMutation

definition zero_shard :: "rslice ShardStatus" where
  "zero_shard = \<lparr>ss_WriteLeader = None, ss_ID = [], ss_StartKey = [], ss_EndKey = [], ss_Leader = [],
                 ss_Replicas = nil_slice\<rparr>"

definition shard_at :: "controlPlane \<Rightarrow> string \<Rightarrow> rslice ShardStatus" where
  "shard_at c i = (case map_of (cp_shards c) i of Some s \<Rightarrow> s | None \<Rightarrow> zero_shard)"

definition replicas_of :: "controlPlane \<Rightarrow> rslice ShardStatus \<Rightarrow> ReplicaStatus list" where
  "replicas_of c s = slice_read (cp_arrays c) (ss_Replicas s)"

definition rebuildRoutesLocked :: "controlPlane \<Rightarrow> lsm_error option \<times> controlPlane" where
  "rebuildRoutesLocked c =
     (case buildShardRoutes (cp_order c) (cp_shards c) of
        Inl e \<Rightarrow> (Some e, c)
      | Inr routes \<Rightarrow> (None, c\<lparr>cp_routes := routes\<rparr>))"

definition shardForKeyLocked :: "controlPlane \<Rightarrow> bytes \<Rightarrow> rslice ShardStatus option" where
  "shardForKeyLocked c key =
     (case route_for_key (cp_routes c) key of
        None \<Rightarrow> None
      | Some route \<Rightarrow> map_of (cp_shards c) (rt_id route))"

definition shardIDForKey :: "controlPlane \<Rightarrow> bytes \<Rightarrow> string option" where
  "shardIDForKey c key = map_option ss_ID (shardForKeyLocked c key)"

text \<open>
  \<open>raftLeader\<close> is the answer of \<^verbatim>\<open>raftWriteLeader\<close>: the leader the built-in Raft provider knows when
  it runs with several replicas.
\<close>

definition allowWrite :: "string option \<Rightarrow> controlPlane \<Rightarrow> bytes \<Rightarrow> lsm_error option" where
  "allowWrite raftLeader c key =
     (if cp_draining c then Some ErrBackpressure
      else case shardForKeyLocked c key of
             None \<Rightarrow> Some ErrShardNotFound
           | Some shard \<Rightarrow>
               (case raftLeader of
                  Some leader \<Rightarrow> if leader \<noteq> cp_nodeID c then Some ErrNotLeader else None
                | None \<Rightarrow> if ss_Leader shard \<noteq> cp_nodeID c then Some ErrNotLeader else None))"

definition raftWriteLeader :: "string \<Rightarrow> string \<Rightarrow> int \<Rightarrow> string option" where
  "raftWriteLeader provider leaderNodeID replicas =
     (if provider \<noteq> ''etcd-raft'' then None else if 1 < replicas then Some leaderNodeID else None)"

definition value_shard :: "controlPlane \<Rightarrow> rslice ShardStatus \<Rightarrow> ReplicaStatus list ShardStatus" where
  "value_shard c s =
     \<lparr>ss_WriteLeader = ss_WriteLeader s, ss_ID = ss_ID s, ss_StartKey = ss_StartKey s, ss_EndKey = ss_EndKey s,
      ss_Leader = ss_Leader s, ss_Replicas = replicas_of c s\<rparr>"

definition shardsSnapshot :: "string option \<Rightarrow> controlPlane \<Rightarrow> ReplicaStatus list ShardStatus list" where
  "shardsSnapshot raftLeader c =
     map (\<lambda>i. let shard = value_shard c (shard_at c i) in
              (case raftLeader of None \<Rightarrow> shard | Some leader \<Rightarrow> shard\<lparr>ss_WriteLeader := Some leader\<rparr>)) (cp_order c)"

section \<open>Names of new shards\<close>

definition shard_candidate :: "string \<Rightarrow> nat \<Rightarrow> string" where
  "shard_candidate base i = base @ ''-'' @ show_nat i"

lemma shard_candidate_inj: "inj (shard_candidate base)"
  by (auto simp: inj_def shard_candidate_def show_nat_inject)

function unique_from :: "string \<Rightarrow> string list \<Rightarrow> nat \<Rightarrow> string" where
  "unique_from base taken i =
     (let candidate = shard_candidate base i in
      if candidate \<notin> set taken then candidate else unique_from base taken (Suc i))"
  by pat_completeness auto
termination
proof (relation "measure (\<lambda>(base, taken, i). card {j. i \<le> j \<and> shard_candidate base j \<in> set taken})")
  fix base :: string and taken i x
  assume x: "x = shard_candidate base i" "\<not> x \<notin> set taken"
  let ?S = "\<lambda>i. {j. i \<le> j \<and> shard_candidate base j \<in> set taken}"
  have "shard_candidate base ` ?S i \<subseteq> set taken" by auto
  then have fin: "finite (?S i)"
    using finite_imageD [of "shard_candidate base" "?S i"] shard_candidate_inj
    by (meson List.finite_set finite_subset inj_on_subset subset_UNIV)
  have "?S (Suc i) \<subset> ?S i" using x by (auto simp: Suc_le_eq)
  then show "((base, taken, Suc i), base, taken, i) \<in>
      measure (\<lambda>(base, taken, i). card {j. i \<le> j \<and> shard_candidate base j \<in> set taken})"
    using fin by (simp add: psubset_card_mono)
qed simp

declare unique_from.simps [simp del]

definition uniqueShardID :: "controlPlane \<Rightarrow> string \<Rightarrow> string" where
  "uniqueShardID c base =
     (if map_of (cp_shards c) base = None then base else unique_from base (map fst (cp_shards c)) 2)"

section \<open>The mutations\<close>

definition applyTransferLeaderPayloadLocked :: "controlMutation \<Rightarrow> controlPlane \<Rightarrow> lsm_error option \<times> controlPlane" where
  "applyTransferLeaderPayloadLocked m c =
     (let shardID = cm_ShardID m; target = cm_Target m in
      case map_of (cp_shards c) shardID of
        None \<Rightarrow> (Some ErrShardNotFound, c)
      | Some shard \<Rightarrow>
          (let (replicas, arrs) =
                 (if \<not> hasReplica (replicas_of c shard) target
                  then slice_append (cp_growcap c) (ss_Replicas shard)
                         \<lparr>rs_NodeID = target, rs_Role = ''follower'', rs_Healthy = True\<rparr> (cp_arrays c)
                  else (ss_Replicas shard, cp_arrays c));
               shard1 = shard\<lparr>ss_Replicas := replicas, ss_Leader := target\<rparr>
           in (None, c\<lparr>cp_shards := AList.update shardID shard1 (cp_shards c),
                       cp_arrays := set_roles target replicas arrs\<rparr>)))"

definition applySplitPayloadLocked :: "controlMutation \<Rightarrow> controlPlane \<Rightarrow> lsm_error option \<times> controlPlane" where
  "applySplitPayloadLocked m c =
     (let shardID = cm_ShardID m; splitKey = cm_Split m in
      case map_of (cp_shards c) shardID of
        None \<Rightarrow> (Some ErrShardNotFound, c)
      | Some shard \<Rightarrow>
          if \<not> keyInRange splitKey (ss_StartKey shard) (ss_EndKey shard)
          then (Some (ErrMsg ''split key outside shard range''), c)
          else if (ss_StartKey shard \<noteq> [] \<and> splitKey = ss_StartKey shard) \<or>
                  (ss_EndKey shard \<noteq> [] \<and> splitKey = ss_EndKey shard)
          then (Some (ErrMsg ''split key must be inside range''), c)
          else
            (let leftID = uniqueShardID c (shardID @ ''-a'');
                 rightID = uniqueShardID c (shardID @ ''-b'');
                 left = shard\<lparr>ss_ID := leftID, ss_EndKey := splitKey\<rparr>;
                 right = shard\<lparr>ss_ID := rightID, ss_StartKey := splitKey\<rparr>;
                 shards = AList.update rightID right (AList.update leftID left (AList.delete shardID (cp_shards c)));
                 nextOrder = concat (map (\<lambda>i. if i = shardID then [leftID, rightID] else [i]) (cp_order c))
             in rebuildRoutesLocked (c\<lparr>cp_shards := shards, cp_order := nextOrder\<rparr>)))"

fun drain_targets ::
  "controlPlane \<Rightarrow> string \<Rightarrow> string list \<Rightarrow> (string \<times> string) list \<Rightarrow> (string \<times> string) list result" where
  "drain_targets c nodeID [] targets = Inr targets"
| "drain_targets c nodeID (i # ids) targets =
     (let shard = shard_at c i in
      if ss_Leader shard \<noteq> nodeID then drain_targets c nodeID ids targets
      else let target = (case find (\<lambda>r. rs_NodeID r \<noteq> nodeID \<and> rs_Healthy r) (replicas_of c shard) of
                           Some r \<Rightarrow> rs_NodeID r | None \<Rightarrow> []) in
           if target = [] then Inl (ErrMsg ''cannot drain: shard has no alternate healthy replica'')
           else drain_targets c nodeID ids (AList.update i target targets))"

definition drain_shard :: "(string \<times> string) list \<Rightarrow> string \<Rightarrow> controlPlane \<Rightarrow> controlPlane" where
  "drain_shard targets i c =
     (case map_of targets i of
        None \<Rightarrow> c
      | Some target \<Rightarrow>
          (let shard = shard_at c i in
           c\<lparr>cp_shards := AList.update i (shard\<lparr>ss_Leader := target\<rparr>) (cp_shards c),
             cp_arrays := set_roles target (ss_Replicas shard) (cp_arrays c)\<rparr>))"

definition applyDrainPayloadLocked :: "controlMutation \<Rightarrow> controlPlane \<Rightarrow> lsm_error option \<times> controlPlane" where
  "applyDrainPayloadLocked m c =
     (let nodeID = cm_NodeID m in
      case drain_targets c nodeID (cp_order c) [] of
        Inl e \<Rightarrow> (Some e, c)
      | Inr targets \<Rightarrow>
          (let c1 = fold (drain_shard targets) (cp_order c) c
           in (None, if nodeID = cp_nodeID c1 then c1\<lparr>cp_draining := True\<rparr> else c1)))"

definition applyControlPayloadLocked :: "controlMutation \<Rightarrow> controlPlane \<Rightarrow> lsm_error option \<times> controlPlane" where
  "applyControlPayloadLocked m c =
     (if cm_Kind m = ''transfer-leader'' then applyTransferLeaderPayloadLocked m c
      else if cm_Kind m = ''split'' then applySplitPayloadLocked m c
      else if cm_Kind m = ''prepare-drain'' then applyDrainPayloadLocked m c
      else (Some (ErrMsg ''unknown committed control mutation''), c))"

section \<open>Snapshots\<close>

definition appliedOpsSnapshotLocked :: "controlPlane \<Rightarrow> appliedOperationState list" where
  "appliedOpsSnapshotLocked c = List.map_filter (map_of (cp_appliedOps c)) (cp_appliedOrder c)"

definition snapshotStateLocked :: "controlPlane \<Rightarrow> controlPlaneState" where
  "snapshotStateLocked c =
     \<lparr>cs_CommitLogAppliedIndex = cp_commitLogAppliedIndex c, cs_Version = 1, cs_NodeID = cp_nodeID c,
      cs_ClusterID = cp_clusterID c, cs_StorageMode = cp_storageMode c, cs_Raft = cp_raft c,
      cs_Draining = cp_draining c, cs_Revision = cp_revision c, cs_Order = cp_order c,
      cs_Shards = map (\<lambda>i. value_shard c (shard_at c i)) (cp_order c),
      cs_AppliedOps = appliedOpsSnapshotLocked c\<rparr>"

fun restore_shards ::
  "(nat \<Rightarrow> nat \<Rightarrow> nat) \<Rightarrow> ReplicaStatus list ShardStatus list \<Rightarrow>
   (string \<times> rslice ShardStatus) list \<times> replica_arrays \<Rightarrow> (string \<times> rslice ShardStatus) list \<times> replica_arrays" where
  "restore_shards growcap [] st = st"
| "restore_shards growcap (shard # rest) (shards, arrs) =
     (let (sl, arrs1) = slice_copy growcap (ss_Replicas shard) arrs;
          copy = \<lparr>ss_WriteLeader = ss_WriteLeader shard, ss_ID = ss_ID shard, ss_StartKey = ss_StartKey shard,
                  ss_EndKey = ss_EndKey shard, ss_Leader = ss_Leader shard, ss_Replicas = sl\<rparr>
      in restore_shards growcap rest (AList.update (ss_ID shard) copy shards, arrs1))"

definition restored_op :: "appliedOperationState \<Rightarrow> appliedOperationState" where
  "restored_op op = \<lparr>ao_ID = TrimSpace (ao_ID op), ao_Fingerprint = ao_Fingerprint op, ao_Revision = ao_Revision op\<rparr>"

definition applyState :: "controlPlaneState \<Rightarrow> controlPlane \<Rightarrow> lsm_error option \<times> controlPlane" where
  "applyState state c =
     (let (shards, arrs) = restore_shards (cp_growcap c) (cs_Shards state) ([], cp_arrays c)
      in rebuildRoutesLocked
           (c\<lparr>cp_commitLogAppliedIndex := cs_CommitLogAppliedIndex state,
              cp_draining := cs_Draining state,
              cp_revision := cs_Revision state,
              cp_order := cs_Order state,
              cp_shards := shards,
              cp_arrays := arrs,
              cp_appliedOps := fold (\<lambda>op. AList.update (TrimSpace (ao_ID op)) (restored_op op)) (cs_AppliedOps state) [],
              cp_appliedOrder := map (\<lambda>op. TrimSpace (ao_ID op)) (cs_AppliedOps state)\<rparr>))"

section \<open>The state file\<close>

text \<open>\<^verbatim>\<open>f.Sync()\<close> and \<^verbatim>\<open>f.Close()\<close>, both carried out, the error of the first one reported first.\<close>

definition sync_close :: "fs \<Rightarrow> lsm_error option \<times> fs" where
  "sync_close s =
     (let (e1, s1) = fs_effect s; (e2, s2) = fs_effect s1
      in (case e1 of Some e \<Rightarrow> Some e | None \<Rightarrow> e2, s2))"

text \<open>
  The directories above the state file, each opened, synced and closed; \<open>dirs\<close> is their number,
  the depth of \<^verbatim>\<open>filepath.Abs(filepath.Dir(statePath))\<close>, which depends on the working directory and is a
  parameter.  \<^verbatim>\<open>filepath.Abs\<close> asks the system for that directory and may fail like an operation on a file.
\<close>

fun sync_dirs :: "nat \<Rightarrow> fs \<Rightarrow> lsm_error option \<times> fs" where
  "sync_dirs 0 s = (None, s)"
| "sync_dirs (Suc n) s = fs_seq fs_effect (fs_seq sync_close (sync_dirs n)) s"

definition saveLocked :: "nat \<Rightarrow> controlPlane \<Rightarrow> fs \<Rightarrow> lsm_error option \<times> fs" where
  "saveLocked dirs c =
     (if cp_statePath c = [] then (\<lambda>s. (None, s))
      else
        fs_seq fs_effect
          (let data = marshal_state (snapshotStateLocked c); tmpPath = tmp_path (cp_statePath c) in
           fs_seq (fs_WriteFile tmpPath data)
             (fs_seq (fs_open_existing tmpPath)
                (fs_seq sync_close
                   (fs_seq (\<lambda>s. case fs_rename tmpPath (cp_statePath c) s of
                                  (Some e, s1) \<Rightarrow> (Some e, snd (fs_remove tmpPath s1))
                                | (None, s1) \<Rightarrow> (None, s1))
                      (fs_seq fs_effect (sync_dirs dirs)))))))"

definition saveLockedWithRollback ::
  "nat \<Rightarrow> controlPlaneState \<Rightarrow> controlPlane \<Rightarrow> fs \<Rightarrow> lsm_error option \<times> controlPlane \<times> fs" where
  "saveLockedWithRollback dirs previous c s =
     (case saveLocked dirs c s of
        (None, s1) \<Rightarrow> (None, c, s1)
      | (Some e, s1) \<Rightarrow>
          (case applyState previous c of
             (Some r, c1) \<Rightarrow> (Some (ErrMsg ''save control state; rollback control state''), c1, s1)
           | (None, c1) \<Rightarrow> (Some e, c1, s1)))"

definition ErrNotExist :: lsm_error where "ErrNotExist = ErrMsg ''file does not exist''"

definition loadState :: "controlPlane \<Rightarrow> fs \<Rightarrow> controlPlaneState result" where
  "loadState c s =
     (if cp_statePath c = [] then Inl ErrNotExist
      else case map_of (fs_dir s) (cp_statePath c) of
             None \<Rightarrow> Inl ErrNotExist
           | Some data \<Rightarrow>
               bind_result (unmarshal_state data) (\<lambda>state0.
                 let state = (if cs_Version state0 = 0 then state0\<lparr>cs_Version := 1\<rparr> else state0)
                 in bind_result (validateControlPlaneState state) (\<lambda>_. Inr state)))"

section \<open>Committing a mutation\<close>

definition checkOperationPreconditionsLocked :: "ControlWriteOptions \<Rightarrow> string \<Rightarrow> controlPlane \<Rightarrow> bool result" where
  "checkOperationPreconditionsLocked opts fingerprint c =
     (let opID = TrimSpace (cw_OperationID opts) in
      case (if opID = [] then None else map_of (cp_appliedOps c) opID) of
        Some applied \<Rightarrow>
          if ao_Fingerprint applied \<noteq> fingerprint then Inl ErrControlOperationConflict else Inr True
      | None \<Rightarrow>
          (case cw_ExpectedRevision opts of
             Some r \<Rightarrow> if r \<noteq> cp_revision c then Inl ErrControlRevisionConflict else Inr False
           | None \<Rightarrow> Inr False))"

definition noteOperationAppliedLocked :: "ControlWriteOptions \<Rightarrow> string \<Rightarrow> controlPlane \<Rightarrow> controlPlane" where
  "noteOperationAppliedLocked opts fingerprint c0 =
     (let c = c0\<lparr>cp_revision := cp_revision c0 + 1\<rparr>; opID = TrimSpace (cw_OperationID opts) in
      if opID = [] then c
      else
        let record0 = \<lparr>ao_ID = opID, ao_Fingerprint = fingerprint, ao_Revision = cp_revision c\<rparr>;
            order = (if map_of (cp_appliedOps c) opID = None then cp_appliedOrder c @ [opID] else cp_appliedOrder c);
            ops = AList.update opID record0 (cp_appliedOps c)
        in if length order \<le> maxAppliedControlOps
           then c\<lparr>cp_appliedOrder := order, cp_appliedOps := ops\<rparr>
           else let overflow = length order - maxAppliedControlOps
                in c\<lparr>cp_appliedOps := fold AList.delete (take overflow order) ops,
                     cp_appliedOrder := drop overflow order\<rparr>)"

definition hex_bytes :: "bytes \<Rightarrow> string" where
  "hex_bytes b = concat (map (\<lambda>w. [hex_char (unat w div 16), hex_char (unat w mod 16)]) b)"

definition transferLeaderFingerprint :: "string \<Rightarrow> string \<Rightarrow> string" where
  "transferLeaderFingerprint shardID target = ''transfer:'' @ shardID @ '':'' @ target"

definition splitFingerprint :: "string \<Rightarrow> bytes \<Rightarrow> string" where
  "splitFingerprint shardID splitKey = ''split:'' @ shardID @ '':'' @ hex_bytes splitKey"

definition prepareDrainFingerprint :: "string \<Rightarrow> string" where
  "prepareDrainFingerprint nodeID = ''drain:'' @ nodeID"

definition observe_index :: "u64 \<Rightarrow> controlPlane \<Rightarrow> controlPlane" where
  "observe_index i c = (if cp_commitLogAppliedIndex c < i then c\<lparr>cp_commitLogAppliedIndex := i\<rparr> else c)"

text \<open>The tail the rejecting branches share: raise the index, save, answer the rejection.\<close>

definition save_rejection ::
  "nat \<Rightarrow> u64 \<Rightarrow> lsm_error \<Rightarrow> controlPlaneState \<Rightarrow> controlPlane \<Rightarrow> fs \<Rightarrow> control_error option \<times> controlPlane \<times> fs" where
  "save_rejection dirs i cause previous c s =
     (case saveLockedWithRollback dirs previous (observe_index i c) s of
        (Some e, c1, s1) \<Rightarrow> (Some (CErr e), c1, s1)
      | (None, c1, s1) \<Rightarrow> (Some (CRejected cause), c1, s1))"

definition applyCommittedControlMutation ::
  "nat \<Rightarrow> controlCommittedEntry \<Rightarrow> ControlWriteOptions \<Rightarrow> string \<Rightarrow>
   (controlMutation \<Rightarrow> controlPlane \<Rightarrow> lsm_error option \<times> controlPlane) \<Rightarrow>
   controlPlane \<Rightarrow> fs \<Rightarrow> control_error option \<times> controlPlane \<times> fs" where
  "applyCommittedControlMutation dirs entry opts fingerprint mutate c s =
     (if ce_Index entry = 0 \<or> ce_Term entry = 0 then (Some (CErr (ErrMsg ''invalid committed control entry'')), c, s)
      else case checkOperationPreconditionsLocked opts fingerprint c of
        Inl e \<Rightarrow> save_rejection dirs (ce_Index entry) e (snapshotStateLocked c) c s
      | Inr True \<Rightarrow>
          if cp_commitLogAppliedIndex c < ce_Index entry
          then (case saveLockedWithRollback dirs (snapshotStateLocked c) (observe_index (ce_Index entry) c) s of
                  (Some e, c1, s1) \<Rightarrow> (Some (CErr e), c1, s1)
                | (None, c1, s1) \<Rightarrow> (Some CNoop, c1, s1))
          else (Some CNoop, c, s)
      | Inr False \<Rightarrow>
          (let previous = snapshotStateLocked c in
           case mutate (ce_Mutation entry) c of
             (Some e, c1) \<Rightarrow>
               (case applyState previous c1 of
                  (Some r, c2) \<Rightarrow> (Some (CErr r), c2, s)
                | (None, c2) \<Rightarrow> save_rejection dirs (ce_Index entry) e previous c2 s)
           | (None, c1) \<Rightarrow>
               (case saveLockedWithRollback dirs previous
                       (observe_index (ce_Index entry) (noteOperationAppliedLocked opts fingerprint c1)) s of
                  (e, c2, s1) \<Rightarrow> (map_option CErr e, c2, s1))))"

definition applyCommittedControlFromLog ::
  "nat \<Rightarrow> controlCommittedEntry \<Rightarrow> controlPlane \<Rightarrow> fs \<Rightarrow> control_error option \<times> controlPlane \<times> fs" where
  "applyCommittedControlFromLog dirs entry c s =
     (let m = ce_Mutation entry;
          run = (\<lambda>fingerprint.
                   case applyCommittedControlMutation dirs entry
                          \<lparr>cw_OperationID = cm_OperationID m, cw_ExpectedRevision = cm_ExpectedRevision m\<rparr>
                          fingerprint applyControlPayloadLocked c s of
                     (Some CNoop, c1, s1) \<Rightarrow> (None, c1, s1)
                   | r \<Rightarrow> r)
      in if cm_Kind m = ''transfer-leader'' then run (transferLeaderFingerprint (cm_ShardID m) (cm_Target m))
         else if cm_Kind m = ''split'' then run (splitFingerprint (cm_ShardID m) (cm_Split m))
         else if cm_Kind m = ''prepare-drain'' then run (prepareDrainFingerprint (cm_NodeID m))
         else (Some (CErr (ErrMsg ''unknown committed control mutation'')), c, s))"

definition recoverCommittedControl ::
  "nat \<Rightarrow> controlCommittedEntry \<Rightarrow> controlPlane \<Rightarrow> fs \<Rightarrow> control_error option \<times> controlPlane \<times> fs" where
  "recoverCommittedControl dirs entry c s =
     (if ce_Index entry \<le> cp_commitLogAppliedIndex c then (None, c, s)
      else applyCommittedControlFromLog dirs entry c s)"

end
