(* ===== verification/Go_Trim.thy ===== *)
theory Go_Trim
  imports Go_Std
begin

text \<open>Facts on \<^verbatim>\<open>strings.TrimSpace\<close>: when a string has nothing to trim.\<close>

definition plain_char :: "char \<Rightarrow> bool" where
  "plain_char c \<longleftrightarrow> 33 \<le> (of_char c :: nat) \<and> (of_char c :: nat) < 128"

definition trimmed :: "string \<Rightarrow> bool" where
  "trimmed s \<longleftrightarrow> TrimSpace s = s"

lemma go_spaces_not_plain: "w \<in> set go_spaces \<Longrightarrow> w \<noteq> [] \<and> (\<forall>b \<in> set w. b < 33 \<or> 128 \<le> b)"
  by (auto simp: go_spaces_def)

lemma plain_not_space: "plain_char c \<Longrightarrow> w \<in> set go_spaces \<Longrightarrow> of_char c \<notin> set w"
  using go_spaces_not_plain [of w] by (auto simp: plain_char_def)

lemma space_prefix_0_iff:
  assumes "\<forall>w \<in> set spaces. w \<noteq> []"
  shows "space_prefix spaces s = 0 \<longleftrightarrow> (\<forall>w \<in> set spaces. map of_char (take (length w) s) \<noteq> w)"
proof (cases "List.find (\<lambda>w. map of_char (take (length w) s) = w) spaces")
  case None
  moreover from None have "\<forall>w \<in> set spaces. map of_char (take (length w) s) \<noteq> w" by (auto simp: find_None_iff)
  ultimately show ?thesis by (simp add: space_prefix_def)
next
  case (Some w)
  then have "w \<in> set spaces" "map of_char (take (length w) s) = w" by (auto simp: find_Some_iff)
  with assms Some show ?thesis by (auto simp: space_prefix_def)
qed

lemma trim_front_length: "length (trim_front spaces s) \<le> length s"
proof (induction spaces s rule: trim_front.induct)
  case (1 spaces s)
  show ?case
  proof (cases "space_prefix spaces s = 0 \<or> s = []")
    case True
    then show ?thesis by (subst trim_front.simps) (simp add: Let_def)
  next
    case False
    have "trim_front spaces s = trim_front spaces (drop (space_prefix spaces s) s)"
      using False by (subst trim_front.simps) (simp add: Let_def)
    then show ?thesis using 1 [OF refl False] by (simp del: length_drop) (simp add: le_trans)
  qed
qed

lemma trim_front_id_iff: "trim_front spaces s = s \<longleftrightarrow> space_prefix spaces s = 0 \<or> s = []"
proof
  assume eq: "trim_front spaces s = s"
  show "space_prefix spaces s = 0 \<or> s = []"
    using trim_front_fixed [of spaces s] unfolding eq .
next
  assume "space_prefix spaces s = 0 \<or> s = []"
  then show "trim_front spaces s = s" by (subst trim_front.simps) (auto simp: Let_def)
qed

lemma trim_front_eq_length: "length (trim_front spaces s) = length s \<Longrightarrow> trim_front spaces s = s"
proof (rule ccontr)
  assume len: "length (trim_front spaces s) = length s" and "trim_front spaces s \<noteq> s"
  then have n: "space_prefix spaces s \<noteq> 0" "s \<noteq> []" by (simp_all add: trim_front_id_iff)
  then have "trim_front spaces s = trim_front spaces (drop (space_prefix spaces s) s)"
    by (subst trim_front.simps) (simp add: Let_def)
  with trim_front_length [of spaces "drop (space_prefix spaces s) s"] len n show False
    by (cases s) auto
qed

lemma trimmed_iff:
  "trimmed s \<longleftrightarrow>
     s = [] \<or> space_prefix go_spaces s = 0 \<and> space_prefix (map rev go_spaces) (rev s) = 0"
proof
  assume "trimmed s"
  then have eq: "rev (trim_front (map rev go_spaces) (rev (trim_front go_spaces s))) = s"
    by (simp add: trimmed_def TrimSpace_def)
  have "length s \<le> length (trim_front go_spaces s)"
    using trim_front_length [of "map rev go_spaces" "rev (trim_front go_spaces s)"] arg_cong [OF eq, of length] by simp
  then have f: "trim_front go_spaces s = s"
    using trim_front_length [of go_spaces s] by (intro trim_front_eq_length) simp
  with eq have "trim_front (map rev go_spaces) (rev s) = rev s" by (metis rev_rev_ident)
  with f show "s = [] \<or> space_prefix go_spaces s = 0 \<and> space_prefix (map rev go_spaces) (rev s) = 0"
    by (auto simp: trim_front_id_iff)
next
  assume "s = [] \<or> space_prefix go_spaces s = 0 \<and> space_prefix (map rev go_spaces) (rev s) = 0"
  then have "trim_front go_spaces s = s" "trim_front (map rev go_spaces) (rev s) = rev s"
    by (auto simp: trim_front_id_iff)
  then show "trimmed s" by (simp add: trimmed_def TrimSpace_def)
qed

lemma space_prefix_append:
  assumes "\<forall>w \<in> set spaces. w \<noteq> [] \<and> of_char (hd t) \<notin> set w" "t \<noteq> []" "s = [] \<or> space_prefix spaces s = 0"
  shows "space_prefix spaces (s @ t) = 0"
proof -
  have ne: "\<forall>w \<in> set spaces. w \<noteq> []" using assms(1) by blast
  have "map of_char (take (length w) (s @ t)) \<noteq> w" if w: "w \<in> set spaces" for w
  proof
    assume eq: "map of_char (take (length w) (s @ t)) = w"
    show False
    proof (cases "length w \<le> length s")
      case True
      with eq have "map of_char (take (length w) s) = w" by simp
      moreover have "s \<noteq> []" using True ne w by auto
      ultimately show False using assms(3) ne w by (auto simp: space_prefix_0_iff)
    next
      case False
      have "hd t \<in> set (take (length w) (s @ t))"
        using False assms(2) by (cases "length w - length s"; cases t) auto
      then have "of_char (hd t) \<in> set w" using arg_cong [OF eq, of set] by (metis image_eqI list.set_map)
      with assms(1) w show False by blast
    qed
  qed
  then show ?thesis using ne by (simp add: space_prefix_0_iff)
qed

lemma trimmed_append:
  assumes "trimmed s" "t \<noteq> []" "list_all plain_char t"
  shows "trimmed (s @ t)"
proof -
  have h: "plain_char (hd t)" "plain_char (hd (rev t))"
    using assms(2,3) by (auto simp: list_all_iff hd_rev)
  have "space_prefix go_spaces (s @ t) = 0"
    using assms(1,2) plain_not_space [OF h(1)] go_spaces_not_plain
    by (intro space_prefix_append) (auto simp: trimmed_iff)
  moreover have "space_prefix (map rev go_spaces) ([] @ rev t @ rev s) = 0"
    using assms(2) plain_not_space [OF h(2)] go_spaces_not_plain
    by (intro space_prefix_append) auto
  ultimately show ?thesis by (simp add: trimmed_iff)
qed

lemma trim_front_keeps_last:
  assumes "\<forall>w \<in> set spaces. of_char c \<notin> set w"
  shows "trim_front spaces (s @ [c]) \<noteq> []"
proof (induction "length s" arbitrary: s rule: less_induct)
  case less
  define n where "n = space_prefix spaces (s @ [c])"
  show ?case
  proof (cases "n = 0")
    case True
    then have "trim_front spaces (s @ [c]) = s @ [c]" by (simp add: trim_front_id_iff n_def)
    then show ?thesis by simp
  next
    case False
    then obtain w where w: "List.find (\<lambda>w. map of_char (take (length w) (s @ [c])) = w) spaces = Some w" "n = length w"
      by (auto simp: n_def space_prefix_def split: option.splits)
    then have mem: "w \<in> set spaces" and eq: "map of_char (take (length w) (s @ [c])) = w"
      by (auto simp: find_Some_iff)
    have "length w \<le> length s"
    proof (rule ccontr)
      assume "\<not> length w \<le> length s"
      then have "c \<in> set (take (length w) (s @ [c]))" by (simp add: take_Cons')
      then have "of_char c \<in> set w" using arg_cong [OF eq, of set] by (metis image_eqI list.set_map)
      with assms mem show False by blast
    qed
    then have "drop n (s @ [c]) = drop n s @ [c]" using w(2) by simp
    moreover have "trim_front spaces (s @ [c]) = trim_front spaces (drop n (s @ [c]))"
      using False by (subst trim_front.simps) (simp add: Let_def n_def)
    moreover have "length (drop n s) < length s" using False \<open>length w \<le> length s\<close> w(2) by (cases "length w") auto
    ultimately show ?thesis using less by simp
  qed
qed

lemma TrimSpace_plain_hd: "plain_char c \<Longrightarrow> TrimSpace (c # s) \<noteq> []"
proof -
  assume c: "plain_char c"
  have "space_prefix go_spaces ([] @ c # s) = 0"
    using plain_not_space [OF c] go_spaces_not_plain by (intro space_prefix_append) auto
  then have "trim_front go_spaces (c # s) = c # s" by (simp add: trim_front_id_iff)
  moreover have "trim_front (map rev go_spaces) (rev s @ [c]) \<noteq> []"
    using plain_not_space [OF c] by (intro trim_front_keeps_last) auto
  ultimately show ?thesis by (simp add: TrimSpace_def)
qed

lemma trim_front_suffix: "\<exists>p. s = p @ trim_front spaces s"
proof (induction spaces s rule: trim_front.induct)
  case (1 spaces s)
  let ?n = "space_prefix spaces s"
  show ?case
  proof (cases "?n = 0 \<or> s = []")
    case True
    then have "trim_front spaces s = s" by (simp add: trim_front_id_iff)
    then show ?thesis by simp
  next
    case False
    obtain p where "drop ?n s = p @ trim_front spaces (drop ?n s)" using 1 [OF refl False] by blast
    moreover have "trim_front spaces s = trim_front spaces (drop ?n s)"
      using False by (subst trim_front.simps) (simp add: Let_def)
    ultimately show ?thesis by (metis append.assoc append_take_drop_id)
  qed
qed

lemma TrimSpace_idem [simp]: "TrimSpace (TrimSpace s) = TrimSpace s"
proof -
  define u where "u = trim_front go_spaces s"
  define t where "t = TrimSpace s"
  have t: "rev t = trim_front (map rev go_spaces) (rev u)" by (simp add: t_def TrimSpace_def u_def)
  then obtain p where "rev u = p @ rev t" using trim_front_suffix [of "rev u" "map rev go_spaces"] by auto
  then have pre: "u = t @ rev p" by (metis rev_append rev_rev_ident)
  have ne: "\<forall>w \<in> set go_spaces. w \<noteq> []" using go_spaces_not_plain by blast
  have "space_prefix go_spaces t = 0 \<or> t = []"
  proof (cases "u = []")
    case False
    then have u0: "\<forall>w \<in> set go_spaces. map of_char (take (length w) u) \<noteq> w"
      using trim_front_fixed [of go_spaces s] ne by (auto simp: u_def space_prefix_0_iff)
    have "map of_char (take (length w) t) \<noteq> w" if w: "w \<in> set go_spaces" for w
    proof
      assume eq: "map of_char (take (length w) t) = w"
      then have "length w \<le> length t" by (metis length_map length_take min.cobounded1)
      with eq have "map of_char (take (length w) u) = w" by (simp add: pre)
      with u0 w show False by blast
    qed
    then show ?thesis using ne by (simp add: space_prefix_0_iff)
  qed (simp add: pre)
  moreover have "space_prefix (map rev go_spaces) (rev t) = 0 \<or> rev t = []"
    unfolding t by (rule trim_front_fixed)
  ultimately have "trimmed t" by (auto simp: trimmed_iff)
  then show ?thesis by (simp add: trimmed_def t_def)
qed

end
