(* ===== verification/Control_Inv.thy ===== *)
theory Control_Inv
  imports Control_Plane Go_Trim
begin

text \<open>
  The invariant of the control plane, that a snapshot restores to an equal one, and that every
  mutation keeps the invariant or leaves a state the snapshot can restore.
\<close>

section \<open>Slices\<close>

definition slice_ok :: "replica_arrays \<Rightarrow> rslice \<Rightarrow> bool" where
  "slice_ok arrs s \<longleftrightarrow> sl_len s \<le> length (backing arrs (sl_addr s))"

definition grows :: "replica_arrays \<Rightarrow> replica_arrays \<Rightarrow> bool" where
  "grows arrs arrs' \<longleftrightarrow> (\<forall>a. length (backing arrs a) \<le> length (backing arrs' a))"

lemma grows_refl [simp]: "grows arrs arrs"
  by (simp add: grows_def)

lemma grows_trans: "grows a b \<Longrightarrow> grows b c \<Longrightarrow> grows a c"
  unfolding grows_def using order_trans by blast

lemma slice_ok_grows: "slice_ok arrs s \<Longrightarrow> grows arrs arrs' \<Longrightarrow> slice_ok arrs' s"
  unfolding grows_def slice_ok_def using order_trans by blast

lemma slice_ok_nil [simp]: "slice_ok arrs nil_slice"
  by (simp add: slice_ok_def nil_slice_def)

lemma backing_append: "backing (arrs @ ext) a = (if a < length arrs then arrs ! a else backing ext (a - length arrs))"
  by (auto simp: backing_def nth_append)

lemma grows_append [simp]: "grows arrs (arrs @ ext)"
  unfolding grows_def backing_append by (simp add: backing_def)

lemma slice_read_append: "slice_ok arrs s \<Longrightarrow> slice_read (arrs @ ext) s = slice_read arrs s"
  by (auto simp: slice_ok_def slice_read_def backing_def nth_append)

lemma slice_read_alloc:
  assumes "slice_alloc cap xs arrs = (s, arrs')"
  shows "slice_read arrs' s = xs \<and> slice_ok arrs' s \<and> (\<exists>ext. arrs' = arrs @ ext)"
  using assms by (auto simp: slice_alloc_def slice_read_def slice_ok_def backing_def)

lemma slice_read_copy:
  assumes "slice_copy growcap xs arrs = (s, arrs')"
  shows "slice_read arrs' s = xs \<and> slice_ok arrs' s \<and> (\<exists>ext. arrs' = arrs @ ext)"
proof (cases "xs = []")
  case True
  with assms show ?thesis by (auto simp: slice_copy_def nil_slice_def slice_read_def slice_ok_def)
next
  case False
  with assms show ?thesis by (intro slice_read_alloc) (simp add: slice_copy_def)
qed

lemma backing_update:
  "backing (arrs[a := b]) a' = (if a = a' \<and> a < length arrs then b else backing arrs a')"
  by (simp add: backing_def nth_list_update)

lemma grows_set_roles: "grows arrs (set_roles target s arrs)"
  by (auto simp: grows_def set_roles_def Let_def backing_update)

lemma slice_append_ok:
  assumes "slice_append growcap s x arrs = (s', arrs')" "slice_ok arrs s"
  shows "slice_read arrs' s' = slice_read arrs s @ [x] \<and> slice_ok arrs' s' \<and> grows arrs arrs'"
proof (cases "sl_len s < length (backing arrs (sl_addr s))")
  case True
  then have a: "sl_addr s < length arrs" by (auto simp: backing_def split: if_splits)
  have "s' = s\<lparr>sl_len := Suc (sl_len s)\<rparr>" "arrs' = arrs[sl_addr s := (backing arrs (sl_addr s))[sl_len s := x]]"
    using assms(1) True by (auto simp: slice_append_def)
  with True a show ?thesis
    by (auto simp: slice_read_def slice_ok_def grows_def backing_update take_Suc_conv_app_nth)
next
  case False
  then have al: "slice_alloc (growcap (length (backing arrs (sl_addr s))) (Suc (sl_len s))) (slice_read arrs s @ [x]) arrs
      = (s', arrs')"
    using assms(1) by (simp add: slice_append_def Let_def)
  then show ?thesis using slice_read_alloc [OF al] by auto
qed

lemma slice_read_set_roles:
  assumes "slice_ok arrs s"
  shows "slice_read (set_roles target s arrs) s = map (leader_role target) (slice_read arrs s)"
proof (cases "sl_addr s < length arrs")
  case True
  with assms show ?thesis by (simp add: slice_read_def set_roles_def Let_def backing_update slice_ok_def)
next
  case False
  with assms show ?thesis by (simp add: slice_read_def set_roles_def Let_def backing_def slice_ok_def)
qed

section \<open>The invariant\<close>

definition value_of :: "replica_arrays \<Rightarrow> rslice ShardStatus \<Rightarrow> ReplicaStatus list ShardStatus" where
  "value_of arrs s =
     \<lparr>ss_WriteLeader = ss_WriteLeader s, ss_ID = ss_ID s, ss_StartKey = ss_StartKey s, ss_EndKey = ss_EndKey s,
      ss_Leader = ss_Leader s, ss_Replicas = slice_read arrs (ss_Replicas s)\<rparr>"

lemma value_shard_eq: "value_shard c s = value_of (cp_arrays c) s"
  by (simp add: value_shard_def value_of_def replicas_of_def)

definition shards_inv :: "replica_arrays \<Rightarrow> (string \<times> rslice ShardStatus) list \<Rightarrow> bool" where
  "shards_inv arrs shards \<longleftrightarrow>
     distinct (map fst shards) \<and>
     (\<forall>k s. map_of shards k = Some s \<longrightarrow> ss_ID s = k \<and> slice_ok arrs (ss_Replicas s))"

definition ops_inv :: "string list \<Rightarrow> (string \<times> appliedOperationState) list \<Rightarrow> bool" where
  "ops_inv order ops \<longleftrightarrow>
     distinct order \<and> length order \<le> maxAppliedControlOps \<and> set order = dom (map_of ops) \<and>
     (\<forall>k a. map_of ops k = Some a \<longrightarrow>
        ao_ID a = k \<and> k \<noteq> [] \<and> trimmed k \<and> TrimSpace (ao_Fingerprint a) \<noteq> [])"

definition cp_inv :: "controlPlane \<Rightarrow> bool" where
  "cp_inv c \<longleftrightarrow>
     shards_inv (cp_arrays c) (cp_shards c) \<and> (\<forall>i \<in> set (cp_order c). trimmed i) \<and>
     buildShardRoutes (cp_order c) (cp_shards c) = Inr (cp_routes c) \<and>
     ops_inv (cp_appliedOrder c) (cp_appliedOps c)"

lemma cp_inv_routes:
  assumes "cp_inv c"
  shows "cp_order c \<noteq> []" "length (cp_order c) = length (cp_shards c)" "distinct (cp_order c)" "[] \<notin> set (cp_order c)"
    "set (cp_order c) = dom (map_of (cp_shards c))" "cp_routes c = map (route_of (cp_shards c)) (cp_order c)"
    "routes_ok None (cp_routes c)"
proof -
  have t: "\<forall>i \<in> set (cp_order c). TrimSpace i = i" using assms by (simp add: cp_inv_def trimmed_def)
  have b: "buildShardRoutes (cp_order c) (cp_shards c) = Inr (cp_routes c)" using assms by (simp add: cp_inv_def)
  note r = b [unfolded buildShardRoutes_iff [OF t]]
  then show "cp_order c \<noteq> []" "length (cp_order c) = length (cp_shards c)" "distinct (cp_order c)" "[] \<notin> set (cp_order c)"
    "cp_routes c = map (route_of (cp_shards c)) (cp_order c)" "routes_ok None (cp_routes c)" by blast+
  have "distinct (map fst (cp_shards c))" using assms by (simp add: cp_inv_def shards_inv_def)
  then have "card (dom (map_of (cp_shards c))) = length (cp_shards c)"
    by (simp add: dom_map_of_conv_image_fst distinct_card flip: set_map)
  moreover have "card (set (cp_order c)) = length (cp_order c)" using r by (simp add: distinct_card)
  ultimately show "set (cp_order c) = dom (map_of (cp_shards c))"
    using r by (intro card_subset_eq) (simp_all add: finite_dom_map_of)
qed

lemma shard_at_order:
  assumes "cp_inv c" "i \<in> set (cp_order c)"
  shows "map_of (cp_shards c) i = Some (shard_at c i)" "ss_ID (shard_at c i) = i"
    "slice_ok (cp_arrays c) (ss_Replicas (shard_at c i))"
proof -
  obtain s where s: "map_of (cp_shards c) i = Some s" using cp_inv_routes(5) [OF assms(1)] assms(2) by auto
  then show "map_of (cp_shards c) i = Some (shard_at c i)" by (simp add: shard_at_def)
  then show "ss_ID (shard_at c i) = i" "slice_ok (cp_arrays c) (ss_Replicas (shard_at c i))"
    using assms(1) by (auto simp: cp_inv_def shards_inv_def)
qed

section \<open>Snapshots restore\<close>

lemma restore_shards_spec:
  assumes "restore_shards growcap ss (acc, arrs) = (acc', arrs')"
    and "distinct (map fst acc @ map ss_ID ss)" "shards_inv arrs acc"
  shows "map fst acc' = map fst acc @ map ss_ID ss \<and> shards_inv arrs' acc' \<and>
    (\<exists>ext. arrs' = arrs @ ext) \<and>
    (\<forall>k s. map_of acc k = Some s \<longrightarrow> map_of acc' k = Some s) \<and>
    (\<forall>v \<in> set ss. \<exists>s. map_of acc' (ss_ID v) = Some s \<and> value_of arrs' s = v)"
  using assms
proof (induction ss arbitrary: acc arrs)
  case (Cons v ss)
  obtain sl arrs1 where cp: "slice_copy growcap (ss_Replicas v) arrs = (sl, arrs1)" by fastforce
  define copy where "copy = \<lparr>ss_WriteLeader = ss_WriteLeader v, ss_ID = ss_ID v, ss_StartKey = ss_StartKey v,
                  ss_EndKey = ss_EndKey v, ss_Leader = ss_Leader v, ss_Replicas = sl\<rparr>"
  obtain ext where ext: "arrs1 = arrs @ ext" and rd: "slice_read arrs1 sl = ss_Replicas v" "slice_ok arrs1 sl"
    using slice_read_copy [OF cp] by blast
  have rest: "restore_shards growcap ss (AList.update (ss_ID v) copy acc, arrs1) = (acc', arrs')"
    using Cons.prems(1) cp by (simp add: copy_def)
  have new: "ss_ID v \<notin> fst ` set acc" using Cons.prems(2) by auto
  then have keys: "map fst (AList.update (ss_ID v) copy acc) = map fst acc @ [ss_ID v]"
    by (simp add: update_keys)
  have inv: "shards_inv arrs1 (AList.update (ss_ID v) copy acc)"
    using Cons.prems(2,3) rd
    by (auto simp: shards_inv_def distinct_update update_conv' copy_def ext split: if_splits
          intro: slice_ok_grows [OF _ grows_append])
  have ih: "map fst acc' = map fst (AList.update (ss_ID v) copy acc) @ map ss_ID ss \<and> shards_inv arrs' acc' \<and>
    (\<exists>ext. arrs' = arrs1 @ ext) \<and>
    (\<forall>k s. map_of (AList.update (ss_ID v) copy acc) k = Some s \<longrightarrow> map_of acc' k = Some s) \<and>
    (\<forall>v \<in> set ss. \<exists>s. map_of acc' (ss_ID v) = Some s \<and> value_of arrs' s = v)"
    using Cons.prems(2) by (intro Cons.IH [OF rest _ inv]) (simp add: keys)
  then obtain ext' where ext': "arrs' = arrs1 @ ext'" by blast
  have "map_of acc' (ss_ID v) = Some copy" using ih by (simp add: update_conv')
  moreover have "value_of arrs' copy = v"
    using slice_read_append [OF rd(2), of ext'] rd(1) by (simp add: value_of_def copy_def ext')
  moreover have "map_of acc' k = Some s" if "map_of acc k = Some s" for k s
  proof -
    have "k \<noteq> ss_ID v" using that new by (metis map_of_SomeD fst_conv image_eqI)
    then show ?thesis using ih that by (simp add: update_conv')
  qed
  ultimately show ?case using ih keys ext ext' by auto
qed (auto simp: shards_inv_def)

definition control_same :: "controlPlane \<Rightarrow> controlPlane \<Rightarrow> bool" where
  "control_same c d \<longleftrightarrow>
     cp_nodeID d = cp_nodeID c \<and> cp_clusterID d = cp_clusterID c \<and> cp_storageMode d = cp_storageMode c \<and>
     cp_raft d = cp_raft c \<and> cp_statePath d = cp_statePath c \<and> cp_growcap d = cp_growcap c \<and>
     cp_commitErr d = cp_commitErr c"

lemma control_same_refl [simp]: "control_same c c" by (simp add: control_same_def)

lemma control_same_trans: "control_same a b \<Longrightarrow> control_same b c \<Longrightarrow> control_same a c"
  by (simp add: control_same_def)

lemma map_of_restore_ops:
  assumes "distinct (map ao_ID ops)"
    and "\<forall>a \<in> set ops. trimmed (ao_ID a)" and "\<forall>a \<in> set ops. ao_ID a \<notin> dom (map_of acc)"
  shows "map_of (fold (\<lambda>op. AList.update (TrimSpace (ao_ID op)) (restored_op op)) ops acc) =
     map_of acc ++ map_of (map (\<lambda>a. (ao_ID a, a)) ops)"
  using assms
proof (induction ops arbitrary: acc)
  case (Cons a ops)
  have a: "TrimSpace (ao_ID a) = ao_ID a" "restored_op a = a"
    using Cons.prems(2) by (auto simp: trimmed_def restored_op_def)
  have "ao_ID a \<notin> ao_ID ` set ops" using Cons.prems(1) by simp
  then have "\<forall>x \<in> set ops. ao_ID x \<noteq> ao_ID a" by (metis image_eqI)
  with Cons.prems(3) have fresh: "\<forall>x \<in> set ops. ao_ID x \<notin> dom (map_of (AList.update (ao_ID a) a acc))"
    by (simp add: update_conv')
  have "map_of (fold (\<lambda>op. AList.update (TrimSpace (ao_ID op)) (restored_op op)) ops
          (AList.update (ao_ID a) a acc)) =
        map_of (AList.update (ao_ID a) a acc) ++ map_of (map (\<lambda>a. (ao_ID a, a)) ops)"
    using Cons.prems fresh by (intro Cons.IH) simp_all
  moreover have "ao_ID a \<notin> dom (map_of (map (\<lambda>a. (ao_ID a, a)) ops))"
    using Cons.prems(1) by (auto simp: dom_map_of_conv_image_fst image_iff)
  ultimately show ?case
    by (auto simp: a update_conv' map_add_def fun_eq_iff domIff split: option.split)
qed simp

lemma map_of_keyed: "a \<in> set ops \<Longrightarrow> distinct (map ao_ID ops) \<Longrightarrow> map_of (map (\<lambda>a. (ao_ID a, a)) ops) (ao_ID a) = Some a"
  by (rule map_of_is_SomeI) (auto simp: comp_def)

lemma map_filter_the: "\<forall>x \<in> set xs. f x \<noteq> None \<Longrightarrow> List.map_filter f xs = map (\<lambda>x. the (f x)) xs"
  by (induction xs) (auto simp: List.map_filter_def)

lemma ops_snapshot:
  assumes "ops_inv (cp_appliedOrder c) (cp_appliedOps c)"
  shows "map ao_ID (appliedOpsSnapshotLocked c) = cp_appliedOrder c"
    "\<forall>a \<in> set (appliedOpsSnapshotLocked c). map_of (cp_appliedOps c) (ao_ID a) = Some a"
proof -
  have at: "map_of (cp_appliedOps c) k = Some (the (map_of (cp_appliedOps c) k))"
    "ao_ID (the (map_of (cp_appliedOps c) k)) = k" if "k \<in> set (cp_appliedOrder c)" for k
    using assms that by (auto simp: ops_inv_def)
  have eq: "appliedOpsSnapshotLocked c = map (\<lambda>k. the (map_of (cp_appliedOps c) k)) (cp_appliedOrder c)"
    unfolding appliedOpsSnapshotLocked_def by (rule map_filter_the) (metis at(1) option.distinct(1))
  show "map ao_ID (appliedOpsSnapshotLocked c) = cp_appliedOrder c"
    unfolding eq using at(2) by (auto intro: map_idI simp: comp_def)
  show "\<forall>a \<in> set (appliedOpsSnapshotLocked c). map_of (cp_appliedOps c) (ao_ID a) = Some a"
    unfolding eq using at by auto
qed

lemma restored_shards:
  assumes inv: "cp_inv c"
    and r: "restore_shards growcap (cs_Shards (snapshotStateLocked c)) ([], arrs) = (shards', arrs')"
  shows "map fst shards' = cp_order c" "shards_inv arrs' shards'" "dom (map_of shards') = set (cp_order c)"
    "\<And>i. i \<in> set (cp_order c) \<Longrightarrow> \<exists>s. map_of shards' i = Some s \<and> value_of arrs' s = value_shard c (shard_at c i)"
proof -
  let ?ss = "cs_Shards (snapshotStateLocked c)"
  have ids: "map ss_ID ?ss = cp_order c"
    using shard_at_order(2) [OF inv]
    by (auto simp: snapshotStateLocked_def value_shard_def comp_def intro: map_idI)
  note spec = restore_shards_spec [OF r]
  have sp: "map fst shards' = map ss_ID ?ss \<and> shards_inv arrs' shards' \<and>
    (\<forall>v \<in> set ?ss. \<exists>s. map_of shards' (ss_ID v) = Some s \<and> value_of arrs' s = v)"
  proof -
    have "distinct (map fst [] @ map ss_ID ?ss)" "shards_inv arrs []"
      using cp_inv_routes(3) [OF inv] ids by (simp_all add: shards_inv_def)
    from spec [OF this] show ?thesis by simp
  qed
  then show k: "map fst shards' = cp_order c" "shards_inv arrs' shards'" using ids by simp_all
  show "dom (map_of shards') = set (cp_order c)"
    using arg_cong [OF k(1), of set] by (simp add: dom_map_of_conv_image_fst)
  fix i assume i: "i \<in> set (cp_order c)"
  then have "value_shard c (shard_at c i) \<in> set ?ss" by (simp add: snapshotStateLocked_def)
  with sp have "\<exists>s. map_of shards' (ss_ID (value_shard c (shard_at c i))) = Some s \<and>
      value_of arrs' s = value_shard c (shard_at c i)" by blast
  then show "\<exists>s. map_of shards' i = Some s \<and> value_of arrs' s = value_shard c (shard_at c i)"
    using shard_at_order(2) [OF inv i] by (simp add: value_shard_def)
qed

lemma restored_ops:
  assumes "ops_inv (cp_appliedOrder c) (cp_appliedOps c)"
    and "ops' = fold (\<lambda>op. AList.update (TrimSpace (ao_ID op)) (restored_op op)) (appliedOpsSnapshotLocked c) []"
  shows "map (\<lambda>op. TrimSpace (ao_ID op)) (appliedOpsSnapshotLocked c) = cp_appliedOrder c"
    "map_of ops' = map_of (cp_appliedOps c)"
proof -
  let ?ops = "appliedOpsSnapshotLocked c"
  note snap = ops_snapshot [OF assms(1)]
  have ids: "distinct (map ao_ID ?ops)" using snap(1) assms(1) by (simp add: ops_inv_def)
  have tr: "\<forall>a \<in> set ?ops. trimmed (ao_ID a)" using snap(2) assms(1) by (auto simp: ops_inv_def)
  then have "map (\<lambda>op. TrimSpace (ao_ID op)) ?ops = map ao_ID ?ops" by (auto simp: trimmed_def)
  then show "map (\<lambda>op. TrimSpace (ao_ID op)) ?ops = cp_appliedOrder c" by (simp add: snap(1))
  have m: "map_of ops' = map_of (map (\<lambda>a. (ao_ID a, a)) ?ops)"
    unfolding assms(2) using map_of_restore_ops [OF ids tr, of "[]"] by simp
  show "map_of ops' = map_of (cp_appliedOps c)"
  proof
    fix k
    show "map_of ops' k = map_of (cp_appliedOps c) k"
    proof (cases "k \<in> set (cp_appliedOrder c)")
      case True
      then obtain a where "a \<in> set ?ops" "ao_ID a = k" using snap(1) by (metis imageE list.set_map)
      then show ?thesis using map_of_keyed [OF _ ids, of a] snap(2) by (auto simp: m)
    next
      case False
      then have "map_of (cp_appliedOps c) k = None" using assms(1) by (auto simp: ops_inv_def)
      moreover have "k \<notin> dom (map_of (map (\<lambda>a. (ao_ID a, a)) ?ops))"
        using False arg_cong [OF snap(1), of set] by (simp add: dom_map_of_conv_image_fst image_image)
      ultimately show ?thesis by (auto simp: m)
    qed
  qed
qed

lemma ops_inv_cong: "map_of a = map_of b \<Longrightarrow> ops_inv order a = ops_inv order b"
  by (simp add: ops_inv_def)

lemma buildShardRoutes_cong:
  assumes "buildShardRoutes order shards = Inr rs" "\<forall>i \<in> set order. trimmed i"
    and "length shards' = length shards" "set order \<subseteq> dom (map_of shards')"
    and "\<And>i. i \<in> set order \<Longrightarrow> route_of shards' i = route_of shards i"
  shows "buildShardRoutes order shards' = Inr rs"
proof -
  have t: "\<forall>i \<in> set order. TrimSpace i = i" using assms(2) by (simp add: trimmed_def)
  have "map (route_of shards') order = map (route_of shards) order" using assms(5) by simp
  with assms(1,3,4) show ?thesis unfolding buildShardRoutes_iff [OF t] by auto
qed

lemma applyState_snapshot:
  assumes inv: "cp_inv c" and cfg: "control_same c d"
  obtains d' where "applyState (snapshotStateLocked c) d = (None, d')" "cp_inv d'" "control_same c d'"
    "snapshotStateLocked d' = snapshotStateLocked c" "cp_routes d' = cp_routes c"
proof -
  obtain shards' arrs' where r: "restore_shards (cp_growcap d) (cs_Shards (snapshotStateLocked c)) ([], cp_arrays d) = (shards', arrs')"
    by fastforce
  define ops' where "ops' = fold (\<lambda>op. AList.update (TrimSpace (ao_ID op)) (restored_op op)) (appliedOpsSnapshotLocked c) []"
  have opsi: "ops_inv (cp_appliedOrder c) (cp_appliedOps c)" using inv by (simp add: cp_inv_def)
  note rs = restored_shards [OF inv r] and ro = restored_ops [OF opsi ops'_def]
  define d1 where "d1 = d\<lparr>cp_commitLogAppliedIndex := cp_commitLogAppliedIndex c, cp_draining := cp_draining c,
    cp_revision := cp_revision c, cp_order := cp_order c, cp_shards := shards', cp_arrays := arrs',
    cp_appliedOps := ops', cp_appliedOrder := cp_appliedOrder c\<rparr>"
  define d' where "d' = d1\<lparr>cp_routes := cp_routes c\<rparr>"
  have route: "route_of shards' i = route_of (cp_shards c) i" if "i \<in> set (cp_order c)" for i
    using rs(4) [OF that] shard_at_order(1) [OF inv that]
    by (auto simp: route_of_def value_of_def value_shard_def)
  have tr: "\<forall>i \<in> set (cp_order c). trimmed i" and b: "buildShardRoutes (cp_order c) (cp_shards c) = Inr (cp_routes c)"
    using inv by (simp_all add: cp_inv_def)
  have b': "buildShardRoutes (cp_order c) shards' = Inr (cp_routes c)"
  proof (rule buildShardRoutes_cong [OF b tr _ _ route])
    show "length shards' = length (cp_shards c)"
      using cp_inv_routes(2) [OF inv] arg_cong [OF rs(1), of length] by simp
    show "set (cp_order c) \<subseteq> dom (map_of shards')" using rs(3) by simp
  qed
  have st: "applyState (snapshotStateLocked c) d = (None, d')"
    using r b' ro(1)
    by (simp add: applyState_def rebuildRoutesLocked_def d'_def d1_def snapshotStateLocked_def ops'_def)
  have shards: "value_shard d' (shard_at d' i) = value_shard c (shard_at c i)" if "i \<in> set (cp_order c)" for i
    using rs(4) [OF that] by (auto simp: value_shard_eq shard_at_def d'_def d1_def)
  have snap: "snapshotStateLocked d' = snapshotStateLocked c"
    using cfg shards ro(2)
    by (simp add: snapshotStateLocked_def appliedOpsSnapshotLocked_def control_same_def d'_def d1_def)
  have "cp_inv d'"
    using rs(2) b' tr opsi ops_inv_cong [OF ro(2)] by (simp add: cp_inv_def d'_def d1_def)
  moreover have "control_same c d'" using cfg by (simp add: control_same_def d'_def d1_def)
  ultimately show thesis using that [OF st _ _ snap] by (simp add: d'_def)
qed

end
