(* ===== verification/Control_Ops.thy ===== *)
theory Control_Ops
  imports Control_Inv
begin

text \<open>
  The mutations of the control plane keep the invariant: a leader transfer and a drain change
  leaders and roles only, a split replaces one range by two.
\<close>

section \<open>Changing the leader of a shard\<close>

lemma cp_inv_update_shard:
  assumes inv: "cp_inv c" and s: "map_of (cp_shards c) i = Some s"
    and s': "ss_ID s' = ss_ID s" "ss_StartKey s' = ss_StartKey s" "ss_EndKey s' = ss_EndKey s"
    and arrs: "slice_ok arrs (ss_Replicas s')" "grows (cp_arrays c) arrs"
  shows "cp_inv (c\<lparr>cp_shards := AList.update i s' (cp_shards c), cp_arrays := arrs\<rparr>)"
proof -
  let ?shards = "AList.update i s' (cp_shards c)"
  have mem: "i \<in> fst ` set (cp_shards c)" using s by (metis map_of_SomeD fst_conv image_eqI)
  then have keys: "map fst ?shards = map fst (cp_shards c)" by (simp add: update_keys)
  then have len: "length ?shards = length (cp_shards c)" by (metis length_map)
  have "shards_inv arrs ?shards"
    using inv s s' arrs by (auto simp: cp_inv_def shards_inv_def keys update_conv' intro: slice_ok_grows [OF _ arrs(2)])
  moreover have "buildShardRoutes (cp_order c) ?shards = Inr (cp_routes c)"
  proof (rule buildShardRoutes_cong [OF _ _ len])
    show "set (cp_order c) \<subseteq> dom (map_of ?shards)" using cp_inv_routes(5) [OF inv] by (auto simp: update_conv')
    show "route_of ?shards k = route_of (cp_shards c) k" for k using s s' by (simp add: route_of_def update_conv')
  qed (use inv in \<open>simp_all add: cp_inv_def\<close>)
  ultimately show ?thesis using inv by (simp add: cp_inv_def)
qed

text \<open>What a change of leaders keeps: everything but leaders and replicas.\<close>

definition same_ranges :: "controlPlane \<Rightarrow> controlPlane \<Rightarrow> bool" where
  "same_ranges c d \<longleftrightarrow>
     control_same c d \<and> cp_order d = cp_order c \<and> cp_routes d = cp_routes c \<and> cp_draining d = cp_draining c \<and>
     cp_revision d = cp_revision c \<and> cp_appliedOps d = cp_appliedOps c \<and> cp_appliedOrder d = cp_appliedOrder c \<and>
     cp_commitLogAppliedIndex d = cp_commitLogAppliedIndex c"

lemma same_ranges_refl [simp]: "same_ranges c c" by (simp add: same_ranges_def)

lemma same_ranges_trans: "same_ranges a b \<Longrightarrow> same_ranges b c \<Longrightarrow> same_ranges a c"
  by (auto simp: same_ranges_def intro: control_same_trans)

lemma transfer_ok:
  assumes inv: "cp_inv c" and s: "map_of (cp_shards c) (cm_ShardID m) = Some s"
  obtains c' s' where "applyTransferLeaderPayloadLocked m c = (None, c')" "cp_inv c'" "same_ranges c c'"
    "map_of (cp_shards c') = (map_of (cp_shards c))(cm_ShardID m \<mapsto> s')"
    "ss_Leader s' = cm_Target m" "ss_ID s' = ss_ID s" "ss_StartKey s' = ss_StartKey s" "ss_EndKey s' = ss_EndKey s"
    "replicas_of c' s' = map (leader_role (cm_Target m))
       (replicas_of c s @ (if hasReplica (replicas_of c s) (cm_Target m) then []
          else [\<lparr>rs_NodeID = cm_Target m, rs_Role = ''follower'', rs_Healthy = True\<rparr>]))"
proof -
  let ?new = "\<lparr>rs_NodeID = cm_Target m, rs_Role = ''follower'', rs_Healthy = True\<rparr>"
  have ok: "slice_ok (cp_arrays c) (ss_Replicas s)" using inv s by (auto simp: cp_inv_def shards_inv_def)
  obtain sl arrs where app: "(if \<not> hasReplica (replicas_of c s) (cm_Target m)
      then slice_append (cp_growcap c) (ss_Replicas s) ?new (cp_arrays c) else (ss_Replicas s, cp_arrays c)) = (sl, arrs)"
    by fastforce
  have sl: "slice_read arrs sl = replicas_of c s @ (if hasReplica (replicas_of c s) (cm_Target m) then [] else [?new])"
    "slice_ok arrs sl" "grows (cp_arrays c) arrs"
    using app slice_append_ok [of "cp_growcap c" "ss_Replicas s" ?new "cp_arrays c" sl arrs, OF _ ok] ok
    by (auto simp: replicas_of_def split: if_splits)
  define s' where "s' = s\<lparr>ss_Replicas := sl, ss_Leader := cm_Target m\<rparr>"
  define c' where "c' = c\<lparr>cp_shards := AList.update (cm_ShardID m) s' (cp_shards c),
                        cp_arrays := set_roles (cm_Target m) sl arrs\<rparr>"
  have "applyTransferLeaderPayloadLocked m c = (None, c')"
    using s app by (simp add: applyTransferLeaderPayloadLocked_def Let_def c'_def s'_def)
  moreover have "cp_inv c'"
    unfolding c'_def using sl slice_ok_grows [OF sl(2) grows_set_roles] grows_trans [OF sl(3) grows_set_roles]
    by (intro cp_inv_update_shard [OF inv s]) (simp_all add: s'_def)
  moreover have "replicas_of c' s' = map (leader_role (cm_Target m)) (slice_read arrs sl)"
    using slice_read_set_roles [OF sl(2)] by (simp add: replicas_of_def c'_def s'_def)
  moreover have "same_ranges c c'" by (simp add: same_ranges_def control_same_def c'_def)
  moreover have "map_of (cp_shards c') = (map_of (cp_shards c))(cm_ShardID m \<mapsto> s')"
    by (simp add: c'_def update_conv')
  ultimately show thesis using sl(1) by (intro that [of c' s']) (simp_all add: s'_def)
qed

section \<open>Draining a node\<close>

lemma drain_shard_ok:
  assumes inv: "cp_inv c" and i: "i \<in> set (cp_order c)"
  shows "cp_inv (drain_shard targets i c)" "same_ranges c (drain_shard targets i c)"
    "ss_Leader (shard_at (drain_shard targets i c) k) =
       (if k = i then case map_of targets i of Some t \<Rightarrow> t | None \<Rightarrow> ss_Leader (shard_at c i)
        else ss_Leader (shard_at c k))"
proof -
  note s = shard_at_order [OF inv i]
  have "cp_inv (drain_shard targets i c)"
  proof (cases "map_of targets i")
    case (Some t)
    have "cp_inv (c\<lparr>cp_shards := AList.update i ((shard_at c i)\<lparr>ss_Leader := t\<rparr>) (cp_shards c),
        cp_arrays := set_roles t (ss_Replicas (shard_at c i)) (cp_arrays c)\<rparr>)"
      using slice_ok_grows [OF s(3) grows_set_roles]
      by (intro cp_inv_update_shard [OF inv s(1)]) (simp_all add: grows_set_roles)
    then show ?thesis using Some by (simp add: drain_shard_def Let_def)
  qed (simp add: drain_shard_def inv)
  then show "cp_inv (drain_shard targets i c)" .
  show "same_ranges c (drain_shard targets i c)"
    by (auto simp: drain_shard_def same_ranges_def control_same_def Let_def split: option.split)
  show "ss_Leader (shard_at (drain_shard targets i c) k) =
       (if k = i then case map_of targets i of Some t \<Rightarrow> t | None \<Rightarrow> ss_Leader (shard_at c i)
        else ss_Leader (shard_at c k))"
    by (auto simp: drain_shard_def shard_at_def Let_def update_conv' split: option.split)
qed

lemma drain_fold_ok:
  assumes "cp_inv c" "set ids \<subseteq> set (cp_order c)" "distinct ids"
  shows "cp_inv (fold (drain_shard targets) ids c) \<and> same_ranges c (fold (drain_shard targets) ids c) \<and>
    (\<forall>k. ss_Leader (shard_at (fold (drain_shard targets) ids c) k) =
       (case if k \<in> set ids then map_of targets k else None of
          Some t \<Rightarrow> t | None \<Rightarrow> ss_Leader (shard_at c k)))"
  using assms
proof (induction ids arbitrary: c)
  case (Cons i ids)
  let ?d = "drain_shard targets i c"
  have i: "i \<in> set (cp_order c)" using Cons.prems by simp
  note d = drain_shard_ok [OF Cons.prems(1) i, of targets]
  have ord: "cp_order ?d = cp_order c" using d(2) by (simp add: same_ranges_def)
  have ih: "cp_inv (fold (drain_shard targets) ids ?d)" "same_ranges ?d (fold (drain_shard targets) ids ?d)"
    "\<And>k. ss_Leader (shard_at (fold (drain_shard targets) ids ?d) k) =
       (case if k \<in> set ids then map_of targets k else None of Some t \<Rightarrow> t | None \<Rightarrow> ss_Leader (shard_at ?d k))"
    using Cons.IH [OF d(1)] Cons.prems by (simp_all add: ord)
  show ?case
    using ih(1) same_ranges_trans [OF d(2) ih(2)] Cons.prems(3) by (auto simp: ih(3) d(3) split: option.split)
qed auto

lemma drain_targets_ok:
  assumes "drain_targets c nodeID ids acc = Inr targets" "distinct ids" "set ids \<inter> dom (map_of acc) = {}"
  shows "\<forall>k. k \<notin> set ids \<or> ss_Leader (shard_at c k) \<noteq> nodeID \<longrightarrow> map_of targets k = map_of acc k"
    "\<forall>k \<in> set ids. ss_Leader (shard_at c k) = nodeID \<longrightarrow>
       (\<exists>r \<in> set (replicas_of c (shard_at c k)). rs_Healthy r \<and> rs_NodeID r \<noteq> nodeID \<and> map_of targets k = Some (rs_NodeID r))"
  using assms
proof (induction ids arbitrary: acc)
  case (Cons i ids)
  {
    case 1
    show ?case
    proof (cases "ss_Leader (shard_at c i) = nodeID")
      case False
      then show ?thesis using Cons.IH(1) [of acc] 1 by (auto simp: Let_def)
    next
      case True
      then obtain t where "drain_targets c nodeID ids (AList.update i t acc) = Inr targets"
        using 1(1) by (auto simp: Let_def split: if_splits)
      moreover have "distinct ids" "set ids \<inter> dom (map_of (AList.update i t acc)) = {}"
        using 1(2,3) by (auto simp: update_conv')
      ultimately have "\<forall>k. k \<notin> set ids \<or> ss_Leader (shard_at c k) \<noteq> nodeID \<longrightarrow>
          map_of targets k = map_of (AList.update i t acc) k" by (rule Cons.IH(1))
      then show ?thesis using True by (auto simp: update_conv')
    qed
  next
    case 2
    show ?case
    proof (cases "ss_Leader (shard_at c i) = nodeID")
      case False
      then show ?thesis using Cons.IH(2) [of acc] 2 by (auto simp: Let_def)
    next
      case True
      let ?find = "find (\<lambda>r. rs_NodeID r \<noteq> nodeID \<and> rs_Healthy r) (replicas_of c (shard_at c i))"
      obtain r where r: "?find = Some r" and rest: "drain_targets c nodeID ids (AList.update i (rs_NodeID r) acc) = Inr targets"
        using 2(1) True by (cases ?find) (auto simp: Let_def split: if_splits)
      have d: "distinct ids" "set ids \<inter> dom (map_of (AList.update i (rs_NodeID r) acc)) = {}" "i \<notin> set ids"
        using 2 by (auto simp: update_conv')
      have "map_of targets i = Some (rs_NodeID r)"
        using Cons.IH(1) [OF rest d(1,2)] d(3) by (auto simp: update_conv')
      moreover have "r \<in> set (replicas_of c (shard_at c i))" "rs_NodeID r \<noteq> nodeID" "rs_Healthy r"
        using r by (auto simp: find_Some_iff)
      ultimately show ?thesis using Cons.IH(2) [OF rest d(1,2)] by auto
    qed
  }
qed auto

lemma drain_ok:
  assumes inv: "cp_inv c" and run: "applyDrainPayloadLocked m c = (None, c')"
  shows "cp_inv c'" "control_same c c'" "cp_order c' = cp_order c" "cp_routes c' = cp_routes c"
    "\<And>i. i \<in> set (cp_order c) \<Longrightarrow>
       if ss_Leader (shard_at c i) = cm_NodeID m
       then \<exists>r \<in> set (replicas_of c (shard_at c i)).
              rs_Healthy r \<and> rs_NodeID r \<noteq> cm_NodeID m \<and> ss_Leader (shard_at c' i) = rs_NodeID r
       else ss_Leader (shard_at c' i) = ss_Leader (shard_at c i)"
    "cp_draining c' = (cp_draining c \<or> cm_NodeID m = cp_nodeID c)"
proof -
  obtain targets where t: "drain_targets c (cm_NodeID m) (cp_order c) [] = Inr targets"
    using run by (cases "drain_targets c (cm_NodeID m) (cp_order c) []") (auto simp: applyDrainPayloadLocked_def Let_def)
  define c1 where "c1 = fold (drain_shard targets) (cp_order c) c"
  have c': "c' = (if cm_NodeID m = cp_nodeID c1 then c1\<lparr>cp_draining := True\<rparr> else c1)"
    using run t by (simp add: applyDrainPayloadLocked_def Let_def c1_def split: if_splits)
  note d = cp_inv_routes(3) [OF inv]
  have f: "cp_inv c1" "same_ranges c c1"
    "\<And>k. ss_Leader (shard_at c1 k) =
       (case if k \<in> set (cp_order c) then map_of targets k else None of
          Some t \<Rightarrow> t | None \<Rightarrow> ss_Leader (shard_at c k))"
    using drain_fold_ok [OF inv order_refl d, of targets] by (simp_all add: c1_def)
  have tg: "\<forall>k. k \<notin> set (cp_order c) \<or> ss_Leader (shard_at c k) \<noteq> cm_NodeID m \<longrightarrow> map_of targets k = None"
    "\<forall>k \<in> set (cp_order c). ss_Leader (shard_at c k) = cm_NodeID m \<longrightarrow>
       (\<exists>r \<in> set (replicas_of c (shard_at c k)). rs_Healthy r \<and> rs_NodeID r \<noteq> cm_NodeID m \<and> map_of targets k = Some (rs_NodeID r))"
    using drain_targets_ok [OF t d] by simp_all
  show "cp_inv c'" using f(1) by (simp add: c' cp_inv_def)
  show "control_same c c'" "cp_order c' = cp_order c" "cp_routes c' = cp_routes c"
    "cp_draining c' = (cp_draining c \<or> cm_NodeID m = cp_nodeID c)"
    using f(2) by (auto simp: c' same_ranges_def control_same_def)
  fix i assume i: "i \<in> set (cp_order c)"
  have at: "shard_at c' i = shard_at c1 i" by (simp add: c' shard_at_def)
  show "if ss_Leader (shard_at c i) = cm_NodeID m
       then \<exists>r \<in> set (replicas_of c (shard_at c i)).
              rs_Healthy r \<and> rs_NodeID r \<noteq> cm_NodeID m \<and> ss_Leader (shard_at c' i) = rs_NodeID r
       else ss_Leader (shard_at c' i) = ss_Leader (shard_at c i)"
  proof (cases "ss_Leader (shard_at c i) = cm_NodeID m")
    case True
    with tg(2) i obtain r where "r \<in> set (replicas_of c (shard_at c i))" "rs_Healthy r" "rs_NodeID r \<noteq> cm_NodeID m"
      "map_of targets i = Some (rs_NodeID r)" by blast
    then show ?thesis using True i by (auto simp: at f(3))
  next
    case False
    then have "map_of targets i = None" using tg(1) [rule_format, of i] by simp
    with False show ?thesis by (simp add: at f(3))
  qed
qed

section \<open>Splitting a shard\<close>

lemma unique_from_spec: "\<exists>j. unique_from base taken i = shard_candidate base j \<and> shard_candidate base j \<notin> set taken"
proof (induction base taken i rule: unique_from.induct)
  case (1 base taken i)
  then show ?case by (subst unique_from.simps) (auto simp: Let_def unique_from.simps [of base taken i])
qed

lemma digit_char_plain: "k < 10 \<Longrightarrow> plain_char (digit_char k)"
  by (simp add: plain_char_def digit_char_def)

lemma show_nat_plain: "list_all plain_char (show_nat n)"
  by (induction n rule: show_nat.induct) (subst show_nat.simps, auto simp: digit_char_plain)

lemma uniqueShardID_spec:
  obtains t where "uniqueShardID c base = base @ t" "list_all plain_char t" "map_of (cp_shards c) (uniqueShardID c base) = None"
proof (cases "map_of (cp_shards c) base = None")
  case True
  then show thesis using that [of "[]"] by (simp add: uniqueShardID_def)
next
  case False
  obtain j where j: "unique_from base (map fst (cp_shards c)) 2 = shard_candidate base j"
    "shard_candidate base j \<notin> set (map fst (cp_shards c))" using unique_from_spec by blast
  have "map_of (cp_shards c) (shard_candidate base j) = None" using j(2) by (simp add: map_of_eq_None_iff)
  moreover have "plain_char CHR ''-''" by (simp add: plain_char_def)
  ultimately show thesis
    using that [of "''-'' @ show_nat j"] False j show_nat_plain [of j]
    by (simp add: uniqueShardID_def shard_candidate_def)
qed

definition replace_in :: "string \<Rightarrow> string \<Rightarrow> string \<Rightarrow> string list \<Rightarrow> string list" where
  "replace_in x l r ids = concat (map (\<lambda>i. if i = x then [l, r] else [i]) ids)"

lemma replace_in_split:
  "x \<notin> set A \<Longrightarrow> x \<notin> set B \<Longrightarrow> replace_in x l r (A @ x # B) = A @ l # r # B"
proof -
  have "replace_in x l r ys = ys" if "x \<notin> set ys" for ys
    using that by (induction ys) (auto simp: replace_in_def)
  moreover assume "x \<notin> set A" "x \<notin> set B"
  ultimately show ?thesis by (simp add: replace_in_def)
qed

text \<open>The state the split prepares before the routes are rebuilt.\<close>

definition split_shards ::
  "string \<Rightarrow> string \<Rightarrow> string \<Rightarrow> bytes \<Rightarrow> rslice ShardStatus \<Rightarrow> (string \<times> rslice ShardStatus) list \<Rightarrow>
   (string \<times> rslice ShardStatus) list" where
  "split_shards x l r key s shards =
     AList.update r (s\<lparr>ss_ID := r, ss_StartKey := key\<rparr>)
       (AList.update l (s\<lparr>ss_ID := l, ss_EndKey := key\<rparr>) (AList.delete x shards))"

lemma applySplit_cases:
  assumes inv: "cp_inv c" and run: "applySplitPayloadLocked m c = (e, c')"
  obtains (refused) "e \<noteq> None" "c' = c"
  | (tried) s l r where "map_of (cp_shards c) (cm_ShardID m) = Some s" "l \<noteq> r" "trimmed l" "trimmed r"
      "map_of (cp_shards c) l = None" "map_of (cp_shards c) r = None"
      "ss_StartKey s = [] \<or> ss_StartKey s < cm_Split m" "ss_EndKey s = [] \<or> cm_Split m < ss_EndKey s"
      "rebuildRoutesLocked (c\<lparr>cp_shards := split_shards (cm_ShardID m) l r (cm_Split m) s (cp_shards c),
                              cp_order := replace_in (cm_ShardID m) l r (cp_order c)\<rparr>) = (e, c')"
proof -
  let ?id = "cm_ShardID m" and ?k = "cm_Split m"
  show thesis
  proof (cases "map_of (cp_shards c) ?id")
    case None
    then show thesis using run refused by (auto simp: applySplitPayloadLocked_def)
  next
    case (Some s)
    define l where "l = uniqueShardID c (?id @ ''-a'')"
    define r where "r = uniqueShardID c (?id @ ''-b'')"
    obtain t where l: "l = (?id @ ''-a'') @ t" "list_all plain_char t" "map_of (cp_shards c) l = None"
      unfolding l_def by (rule uniqueShardID_spec)
    obtain t' where r: "r = (?id @ ''-b'') @ t'" "list_all plain_char t'" "map_of (cp_shards c) r = None"
      unfolding r_def by (rule uniqueShardID_spec)
    have "?id \<in> set (cp_order c)" using Some cp_inv_routes(5) [OF inv] by auto
    then have tr: "trimmed ?id" using inv by (simp add: cp_inv_def)
    have pl: "plain_char CHR ''-''" "plain_char CHR ''a''" "plain_char CHR ''b''" by (simp_all add: plain_char_def)
    have trims: "trimmed l" "trimmed r"
      using trimmed_append [OF tr, of "''-a'' @ t"] trimmed_append [OF tr, of "''-b'' @ t'"] l r pl by simp_all
    have ne: "l \<noteq> r" by (simp add: l(1) r(1))
    show thesis
    proof (cases "keyInRange ?k (ss_StartKey s) (ss_EndKey s) \<and>
        \<not> ((ss_StartKey s \<noteq> [] \<and> ?k = ss_StartKey s) \<or> (ss_EndKey s \<noteq> [] \<and> ?k = ss_EndKey s))")
      case False
      then show thesis using run Some refused by (auto simp: applySplitPayloadLocked_def Let_def split: if_splits)
    next
      case True
      have eq: "rebuildRoutesLocked (c\<lparr>cp_shards := split_shards ?id l r ?k s (cp_shards c),
          cp_order := replace_in ?id l r (cp_order c)\<rparr>) = (e, c')"
        using run Some True
        by (simp add: applySplitPayloadLocked_def Let_def split_shards_def replace_in_def l_def r_def)
      show thesis
        using True by (intro tried [OF Some ne trims l(3) r(3) _ _ eq]) (auto simp: keyInRange_def not_less not_le order_le_less split: if_splits)
    qed
  qed
qed

lemma map_of_split_shards:
  assumes "map_of shards l = None" "map_of shards r = None" "map_of shards x = Some s" "l \<noteq> r"
  shows "map_of (split_shards x l r key s shards) =
    ((map_of shards)(x := None))(l \<mapsto> s\<lparr>ss_ID := l, ss_EndKey := key\<rparr>, r \<mapsto> s\<lparr>ss_ID := r, ss_StartKey := key\<rparr>)"
  by (simp add: split_shards_def update_conv' delete_conv')

lemma shards_inv_split:
  assumes "shards_inv arrs shards" "map_of shards l = None" "map_of shards r = None" "map_of shards x = Some s" "l \<noteq> r"
  shows "shards_inv arrs (split_shards x l r key s shards)"
proof -
  have "distinct (map fst (split_shards x l r key s shards))"
    using assms(1) by (simp add: shards_inv_def split_shards_def distinct_update distinct_delete)
  moreover have "ss_ID v = k \<and> slice_ok arrs (ss_Replicas v)"
    if "map_of (split_shards x l r key s shards) k = Some v" for k v
    using that assms unfolding map_of_split_shards [OF assms(2-5)]
    by (auto simp: shards_inv_def simp del: map_of_eq_Some_iff split: if_splits)
  ultimately show ?thesis by (simp add: shards_inv_def)
qed

lemma split_inv:
  assumes inv: "cp_inv c" and run: "applySplitPayloadLocked m c = (e, c')"
  shows "control_same c c'" "e = None \<Longrightarrow> cp_inv c'"
proof -
  show "control_same c c'"
    using inv run
    by (cases rule: applySplit_cases) (auto simp: rebuildRoutesLocked_def control_same_def split: sum.splits)
  assume e: "e = None"
  from inv run show "cp_inv c'"
  proof (cases rule: applySplit_cases)
    case (tried s l r)
    let ?d = "c\<lparr>cp_shards := split_shards (cm_ShardID m) l r (cm_Split m) s (cp_shards c),
                  cp_order := replace_in (cm_ShardID m) l r (cp_order c)\<rparr>"
    obtain routes where b: "buildShardRoutes (cp_order ?d) (cp_shards ?d) = Inr routes" "c' = ?d\<lparr>cp_routes := routes\<rparr>"
      using tried(9) e by (auto simp: rebuildRoutesLocked_def split: sum.splits)
    have "shards_inv (cp_arrays c) (cp_shards ?d)"
      using inv tried(1,2,5,6) by (simp add: cp_inv_def shards_inv_split)
    moreover have "\<forall>i \<in> set (cp_order ?d). trimmed i"
      using inv tried(3,4) by (auto simp: cp_inv_def replace_in_def split: if_splits)
    ultimately show ?thesis using b inv by (simp add: cp_inv_def)
  qed (simp add: e)
qed

lemma shardIDForKey_find:
  assumes "cp_inv c"
  shows "shardIDForKey c key = map_option rt_id (find (in_route key) (cp_routes c))"
proof (cases "find (in_route key) (cp_routes c)")
  case None
  then show ?thesis
    using route_for_key_find [OF cp_inv_routes(7) [OF assms]] by (simp add: shardIDForKey_def shardForKeyLocked_def)
next
  case (Some rt)
  then have "rt \<in> set (cp_routes c)" by (auto simp: find_Some_iff)
  then have "rt_id rt \<in> set (cp_order c)" using cp_inv_routes(6) [OF assms] by auto
  from shard_at_order(1,2) [OF assms this] Some show ?thesis
    using route_for_key_find [OF cp_inv_routes(7) [OF assms]] by (simp add: shardIDForKey_def shardForKeyLocked_def)
qed

lemma split_routes:
  assumes inv: "cp_inv c" and run: "applySplitPayloadLocked m c = (None, c')"
  obtains s l r where "map_of (cp_shards c) (cm_ShardID m) = Some s" "l \<noteq> r"
    "map_of (cp_shards c) l = None" "map_of (cp_shards c) r = None"
    "map_of (cp_shards c') = ((map_of (cp_shards c))(cm_ShardID m := None))
       (l \<mapsto> s\<lparr>ss_ID := l, ss_EndKey := cm_Split m\<rparr>, r \<mapsto> s\<lparr>ss_ID := r, ss_StartKey := cm_Split m\<rparr>)"
    "\<forall>key. shardIDForKey c' key =
       (if shardIDForKey c key = Some (cm_ShardID m) then Some (if key < cm_Split m then l else r)
        else shardIDForKey c key)"
  using inv run
proof (cases rule: applySplit_cases)
  case (tried s l r)
  let ?x = "cm_ShardID m" and ?k = "cm_Split m"
  let ?sh = "split_shards ?x l r ?k s (cp_shards c)"
  have inv': "cp_inv c'" using split_inv(2) [OF inv run] by simp
  have sh: "cp_shards c' = ?sh" "cp_order c' = replace_in ?x l r (cp_order c)"
    using tried(9) by (auto simp: rebuildRoutesLocked_def split: sum.splits)
  have m: "map_of ?sh = ((map_of (cp_shards c))(?x := None))
       (l \<mapsto> s\<lparr>ss_ID := l, ss_EndKey := ?k\<rparr>, r \<mapsto> s\<lparr>ss_ID := r, ss_StartKey := ?k\<rparr>)"
    using tried(1,2,5,6) by (intro map_of_split_shards)
  have "?x \<in> set (cp_order c)" using cp_inv_routes(5) [OF inv] tried(1) by auto
  then obtain A B where AB: "cp_order c = A @ ?x # B" by (metis split_list)
  then have nx: "?x \<notin> set A" "?x \<notin> set B" using cp_inv_routes(3) [OF inv] by auto
  have ord': "cp_order c' = A @ l # r # B" using sh(2) AB nx by (simp add: replace_in_split)
  have other: "route_of ?sh i = route_of (cp_shards c) i" if "i \<in> set A \<union> set B" for i
  proof -
    have "i \<in> dom (map_of (cp_shards c))" using that AB cp_inv_routes(5) [OF inv] by auto
    then have "i \<noteq> l" "i \<noteq> r" "i \<noteq> ?x" using that nx tried(5,6) by auto
    then show ?thesis by (simp add: route_of_def m)
  qed
  let ?R = "map (route_of (cp_shards c))"
  define a where "a = \<lparr>rt_id = l, rt_start = ss_StartKey s, rt_end = ?k\<rparr>"
  define b where "b = \<lparr>rt_id = r, rt_start = ?k, rt_end = ss_EndKey s\<rparr>"
  define o1 where "o1 = \<lparr>rt_id = ?x, rt_start = ss_StartKey s, rt_end = ss_EndKey s\<rparr>"
  have lr: "route_of ?sh l = a" "route_of ?sh r = b" using tried(2) by (simp_all add: route_of_def m a_def b_def)
  have ids: "rt_id a = l" "rt_id b = r" "rt_id o1 = ?x" by (simp_all add: a_def b_def o1_def)
  have x: "route_of (cp_shards c) ?x = o1" using tried(1) by (simp add: route_of_def o1_def)
  have rt: "cp_routes c = ?R A @ o1 # ?R B" using cp_inv_routes(6) [OF inv] by (simp add: AB x)
  have rt': "cp_routes c' = ?R A @ a # b # ?R B"
    using cp_inv_routes(6) [OF inv'] other by (simp add: sh(1) ord' lr)
  have kne: "?k \<noteq> []"
    using cp_inv_routes(7) [OF inv'] unfolding rt' routes_ok_append by (simp add: a_def b_def)
  show thesis
  proof (rule that [OF tried(1,2,5,6)])
    show "map_of (cp_shards c') = ((map_of (cp_shards c))(?x := None))
       (l \<mapsto> s\<lparr>ss_ID := l, ss_EndKey := ?k\<rparr>, r \<mapsto> s\<lparr>ss_ID := r, ss_StartKey := ?k\<rparr>)"
      using m sh(1) by simp
    show "\<forall>key. shardIDForKey c' key = (if shardIDForKey c key = Some ?x then Some (if key < ?k then l else r)
        else shardIDForKey c key)"
    proof
      fix key
      have in_a: "in_route key a \<longleftrightarrow> in_route key o1 \<and> key < ?k"
        using kne tried(8) by (auto simp: in_route_iff a_def o1_def intro: less_trans)
      have in_b: "in_route key b \<longleftrightarrow> in_route key o1 \<and> \<not> key < ?k"
        using kne tried(7) by (auto simp: in_route_iff b_def o1_def not_less intro: order_trans less_imp_le)
      have "rt_id q \<noteq> ?x" if "find (in_route key) (?R A) = Some q \<or> find (in_route key) (?R B) = Some q" for q
        using that nx find_Some_set by fastforce
      then show "shardIDForKey c' key = (if shardIDForKey c key = Some ?x then Some (if key < ?k then l else r)
          else shardIDForKey c key)"
        unfolding shardIDForKey_find [OF inv] shardIDForKey_find [OF inv'] rt rt'
        by (auto simp: find_append in_a in_b ids split: option.split)
    qed
  qed
qed simp

end
