(* ===== verification/Control_Commit.thy ===== *)
theory Control_Commit
  imports Control_Ops
begin

text \<open>
  Committing a mutation: the state file is replaced atomically, a failed or rejected mutation is
  undone, and the table of applied operations is a window over the last 256 of them.
\<close>

section \<open>The state file\<close>

lemma keeps_dir_sync_close: "keeps_dir sync_close"
  using keeps_dir_effect by (auto simp: keeps_dir_def sync_close_def Let_def split: prod.splits)

lemma keeps_dir_sync_dirs: "keeps_dir (sync_dirs n)"
proof (induction n)
  case 0
  then show ?case by (simp add: keeps_dir_def)
next
  case (Suc n)
  have "sync_dirs (Suc n) = fs_seq fs_effect (fs_seq sync_close (sync_dirs n))" by (rule ext) simp
  then show ?case using Suc by (simp add: keeps_dir_seq keeps_dir_effect keeps_dir_sync_close)
qed

definition publish :: "string \<Rightarrow> fs \<Rightarrow> lsm_error option \<times> fs" where
  "publish p = (\<lambda>s. case fs_rename (tmp_path p) p s of
      (Some e, s1) \<Rightarrow> (Some e, snd (fs_remove (tmp_path p) s1)) | (None, s1) \<Rightarrow> (None, s1))"

lemma publish_dir:
  assumes "publish p s = (e, s')"
  shows "if e = None then map_of (fs_dir s') p = map_of (fs_dir s) (tmp_path p)
         else map_of (fs_dir s') p = map_of (fs_dir s) p"
proof -
  obtain e1 s1 where r: "fs_rename (tmp_path p) p s = (e1, s1)" by fastforce
  have d: "if e1 = None then map_of (fs_dir s1) p = map_of (fs_dir s) (tmp_path p) else fs_dir s1 = fs_dir s"
    using r keeps_dirD [OF keeps_dir_effect, of s]
    by (auto simp: fs_rename_def split: prod.splits option.splits)
  show ?thesis
  proof (cases e1)
    case None
    then show ?thesis using assms r d by (simp add: publish_def)
  next
    case (Some x)
    obtain e2 s2 where rm: "fs_remove (tmp_path p) s1 = (e2, s2)" by fastforce
    have "map_of (fs_dir s2) p = map_of (fs_dir s1) p"
      using rm keeps_dirD [OF keeps_dir_effect, of s1]
      by (auto simp: fs_remove_def fs_seq_def split: prod.splits option.splits)
    then show ?thesis using assms r d rm Some by (auto simp: publish_def)
  qed
qed

lemma saveLocked_unfold:
  "cp_statePath c \<noteq> [] \<Longrightarrow> saveLocked dirs c =
     fs_seq fs_effect (fs_seq (fs_WriteFile (tmp_path (cp_statePath c)) (marshal_state (snapshotStateLocked c)))
       (fs_seq (fs_open_existing (tmp_path (cp_statePath c)))
         (fs_seq sync_close (fs_seq (publish (cp_statePath c)) (fs_seq fs_effect (sync_dirs dirs))))))"
  by (simp add: saveLocked_def Let_def publish_def)

text \<open>Whatever fails, the state file holds the old or the new state, and the new one on success.\<close>

lemma saveLocked_atomic:
  assumes path: "cp_statePath c \<noteq> []" and run: "saveLocked dirs c s = (e, s')"
  shows "map_of (fs_dir s') (cp_statePath c) = map_of (fs_dir s) (cp_statePath c) \<and> e \<noteq> None \<or>
    map_of (fs_dir s') (cp_statePath c) = Some (marshal_state (snapshotStateLocked c))"
proof -
  let ?p = "cp_statePath c" and ?data = "marshal_state (snapshotStateLocked c)"
  note dir = keeps_dirD [OF keeps_dir_effect] keeps_dirD [OF keeps_dir_open_existing] keeps_dirD [OF keeps_dir_sync_close]
  from run [unfolded saveLocked_unfold [OF path]] show ?thesis
  proof (cases rule: fs_seq_cases)
    case first
    then show ?thesis using dir(1) by simp
  next
    case s1: (both s1)
    from s1(2) show ?thesis
    proof (cases rule: fs_seq_cases)
      case first
      then show ?thesis using fs_WriteFile_dir(1) [OF first(1)] dir(1) [OF s1(1)] by simp
    next
      case s2: (both s2)
      have p2: "map_of (fs_dir s2) ?p = map_of (fs_dir s) ?p" "map_of (fs_dir s2) (tmp_path ?p) = Some ?data"
        using fs_WriteFile_dir [OF s2(1)] dir(1) [OF s1(1)] by simp_all
      from s2(2) show ?thesis
      proof (cases rule: fs_seq_cases)
        case first
        then show ?thesis using dir(2) [OF first(1)] p2 by simp
      next
        case s3: (both s3)
        from s3(2) show ?thesis
        proof (cases rule: fs_seq_cases)
          case first
          then show ?thesis using dir(3) [OF first(1)] dir(2) [OF s3(1)] p2 by simp
        next
          case s4: (both s4)
          have p4: "fs_dir s4 = fs_dir s2" using dir(2) [OF s3(1)] dir(3) [OF s4(1)] by simp
          from s4(2) show ?thesis
          proof (cases rule: fs_seq_cases)
            case first
            then show ?thesis using publish_dir [OF first(1)] p2 by (simp add: p4 split: if_splits)
          next
            case s5: (both s5)
            then show ?thesis
              using publish_dir [OF s5(1)] keeps_dirD [OF keeps_dir_seq [OF keeps_dir_effect keeps_dir_sync_dirs] s5(2)] p2 by (simp add: p4)
          qed
        qed
      qed
    qed
  qed
qed

lemma saveLocked_no_faults:
  assumes "fs_faults s = []"
  shows "\<exists>s'. saveLocked dirs c s = (None, s') \<and> fs_faults s' = []"
proof (cases "cp_statePath c = []")
  case True
  then show ?thesis using assms by (simp add: saveLocked_def)
next
  case False
  define good where "good a \<longleftrightarrow> (\<forall>s. fs_faults s = [] \<longrightarrow> (\<exists>s'. a s = (None :: lsm_error option, s') \<and> fs_faults s' = []))" for a
  have sync: "sync_dirs n s = (None, s)" if "fs_faults s = []" for n s
    using that by (induction n) (simp_all add: fs_seq_def sync_close_def)
  obtain s1 where w: "fs_WriteFile (tmp_path (cp_statePath c)) (marshal_state (snapshotStateLocked c)) s = (None, s1)"
      "fs_faults s1 = []"
    using assms by (simp add: fs_WriteFile_def fs_seq_def)
  moreover have "map_of (fs_dir s1) (tmp_path (cp_statePath c)) = Some (marshal_state (snapshotStateLocked c))"
    using fs_WriteFile_dir(2) [OF w(1)] by simp
  ultimately show ?thesis
    using assms False by (simp add: saveLocked_unfold fs_seq_def fs_open_existing_def sync_close_def publish_def sync)
qed

section \<open>The window of applied operations\<close>

lemma map_of_fold_delete: "map_of (fold AList.delete xs al) = (\<lambda>k. if k \<in> set xs then None else map_of al k)"
  by (induction xs arbitrary: al) (auto simp: delete_conv')

lemma note_ops_inv:
  assumes "ops_inv (cp_appliedOrder c) (cp_appliedOps c)" "TrimSpace fp \<noteq> []"
  shows "ops_inv (cp_appliedOrder (noteOperationAppliedLocked opts fp c)) (cp_appliedOps (noteOperationAppliedLocked opts fp c))"
proof (cases "TrimSpace (cw_OperationID opts) = []")
  case True
  then show ?thesis using assms by (simp add: noteOperationAppliedLocked_def Let_def)
next
  case False
  define i where "i = TrimSpace (cw_OperationID opts)"
  define rec where "rec = \<lparr>ao_ID = i, ao_Fingerprint = fp, ao_Revision = cp_revision c + 1\<rparr>"
  define order where "order = (if map_of (cp_appliedOps c) i = None then cp_appliedOrder c @ [i] else cp_appliedOrder c)"
  define ops where "ops = AList.update i rec (cp_appliedOps c)"
  define n where "n = length order - maxAppliedControlOps"
  have eq: "cp_appliedOrder (noteOperationAppliedLocked opts fp c) = drop n order"
    "map_of (cp_appliedOps (noteOperationAppliedLocked opts fp c)) = map_of (fold AList.delete (take n order) ops)"
    using False by (simp_all add: noteOperationAppliedLocked_def Let_def order_def ops_def rec_def i_def n_def)
  have tr: "trimmed i" by (simp add: trimmed_def i_def TrimSpace_idem)
  have d: "distinct order" "set order = dom (map_of ops)"
    using assms(1) by (auto simp: ops_inv_def order_def ops_def update_conv')
  have disj: "set (take n order) \<inter> set (drop n order) = {}" using d(1) by (rule set_take_disj_set_drop_if_distinct) simp
  have dom: "set (drop n order) = dom (map_of (fold AList.delete (take n order) ops))"
  proof -
    have "dom (map_of (fold AList.delete (take n order) ops)) = dom (map_of ops) - set (take n order)"
      by (auto simp: map_of_fold_delete split: if_splits)
    moreover have "set order = set (take n order) \<union> set (drop n order)" by (metis append_take_drop_id set_append)
    ultimately show ?thesis using disj d(2) by blast
  qed
  have vals: "ao_ID a = k \<and> k \<noteq> [] \<and> trimmed k \<and> TrimSpace (ao_Fingerprint a) \<noteq> []"
    if "map_of (fold AList.delete (take n order) ops) k = Some a" for k a
    using that assms False tr by (auto simp: map_of_fold_delete ops_def update_conv' rec_def i_def ops_inv_def split: if_splits)
  have "ops_inv (drop n order) (fold AList.delete (take n order) ops)"
    using d(1) dom vals by (simp add: ops_inv_def n_def)
  then show ?thesis using eq(1) ops_inv_cong [OF eq(2)] by simp
qed

lemma ops_in_snapshot:
  assumes "ops_inv (cp_appliedOrder c) (cp_appliedOps c)"
  shows "map_of (cp_appliedOps c) k = Some a \<longleftrightarrow> a \<in> set (appliedOpsSnapshotLocked c) \<and> ao_ID a = k"
proof
  assume m: "map_of (cp_appliedOps c) k = Some a"
  then have "k \<in> set (cp_appliedOrder c)" "ao_ID a = k" using assms by (auto simp: ops_inv_def)
  then obtain b where "b \<in> set (appliedOpsSnapshotLocked c)" "ao_ID b = k"
    using ops_snapshot(1) [OF assms] by (metis imageE list.set_map)
  with ops_snapshot(2) [OF assms] m show "a \<in> set (appliedOpsSnapshotLocked c) \<and> ao_ID a = k" by auto
next
  assume "a \<in> set (appliedOpsSnapshotLocked c) \<and> ao_ID a = k"
  then show "map_of (cp_appliedOps c) k = Some a" using ops_snapshot(2) [OF assms] by auto
qed

text \<open>The operations recorded, oldest first: a new one is appended and the oldest beyond 256 are dropped.\<close>

lemma note_snapshot:
  assumes inv: "ops_inv (cp_appliedOrder c) (cp_appliedOps c)"
    and i: "TrimSpace (cw_OperationID opts) \<noteq> []" "map_of (cp_appliedOps c) (TrimSpace (cw_OperationID opts)) = None"
  shows "appliedOpsSnapshotLocked (noteOperationAppliedLocked opts fp c) =
    (let ops = appliedOpsSnapshotLocked c @
           [\<lparr>ao_ID = TrimSpace (cw_OperationID opts), ao_Fingerprint = fp, ao_Revision = cp_revision c + 1\<rparr>]
     in drop (length ops - maxAppliedControlOps) ops)"
proof -
  define i where "i = TrimSpace (cw_OperationID opts)"
  define rec where "rec = \<lparr>ao_ID = i, ao_Fingerprint = fp, ao_Revision = cp_revision c + 1\<rparr>"
  define order where "order = cp_appliedOrder c @ [i]"
  define n where "n = length order - maxAppliedControlOps"
  define ops where "ops = AList.update i rec (cp_appliedOps c)"
  let ?old = "\<lambda>k. the (map_of (cp_appliedOps c) k)"
  have ii: "i \<noteq> []" "map_of (cp_appliedOps c) i = None" using assms(2,3) by (simp_all add: i_def)
  have eq: "cp_appliedOrder (noteOperationAppliedLocked opts fp c) = drop n order"
    "map_of (cp_appliedOps (noteOperationAppliedLocked opts fp c)) = map_of (fold AList.delete (take n order) ops)"
    using ii by (simp_all add: noteOperationAppliedLocked_def Let_def order_def ops_def rec_def i_def n_def)
  have fresh: "i \<notin> set (cp_appliedOrder c)" using inv ii(2) by (auto simp: ops_inv_def)
  have d: "distinct order" using inv fresh by (simp add: ops_inv_def order_def)
  have disj: "set (take n order) \<inter> set (drop n order) = {}" using d by (rule set_take_disj_set_drop_if_distinct) simp
  have val: "map_of (fold AList.delete (take n order) ops) k = Some (if k = i then rec else ?old k)"
    if "k \<in> set (drop n order)" for k
  proof -
    have "k \<in> set order" using that by (rule in_set_dropD)
    then have "k = i \<or> map_of (cp_appliedOps c) k = Some (?old k)" using inv by (auto simp: order_def ops_inv_def)
    moreover have "k \<notin> set (take n order)" using that disj by blast
    ultimately show ?thesis by (auto simp: map_of_fold_delete ops_def update_conv')
  qed
  have snap: "appliedOpsSnapshotLocked c = map ?old (cp_appliedOrder c)"
    unfolding appliedOpsSnapshotLocked_def using inv by (intro map_filter_the) (auto simp: ops_inv_def)
  have "appliedOpsSnapshotLocked (noteOperationAppliedLocked opts fp c) =
      map (\<lambda>k. the (map_of (fold AList.delete (take n order) ops) k)) (drop n order)"
    unfolding appliedOpsSnapshotLocked_def eq by (rule map_filter_the) (simp add: val)
  also have "\<dots> = map (\<lambda>k. if k = i then rec else ?old k) (drop n order)" using val by (intro map_cong) auto
  also have "\<dots> = drop n (map (\<lambda>k. if k = i then rec else ?old k) order)" by (simp add: drop_map)
  also have "map (\<lambda>k. if k = i then rec else ?old k) order = appliedOpsSnapshotLocked c @ [rec]"
    using fresh by (auto simp: order_def snap)
  finally show ?thesis by (simp add: Let_def rec_def i_def n_def order_def snap)
qed

section \<open>Commits\<close>

lemma snapshot_observe:
  "snapshotStateLocked (observe_index i c) =
     (snapshotStateLocked c)\<lparr>cs_CommitLogAppliedIndex := max (cp_commitLogAppliedIndex c) i\<rparr>"
  by (auto simp: snapshotStateLocked_def observe_index_def appliedOpsSnapshotLocked_def value_shard_def replicas_of_def
        shard_at_def max_def)

lemma cp_inv_observe [simp]: "cp_inv (observe_index i c) \<longleftrightarrow> cp_inv c"
  by (simp add: cp_inv_def observe_index_def)

lemma control_same_observe [simp]: "control_same c (observe_index i d) \<longleftrightarrow> control_same c d"
  by (simp add: control_same_def observe_index_def)

lemma cp_inv_note:
  assumes "cp_inv c" "TrimSpace fp \<noteq> []"
  shows "cp_inv (noteOperationAppliedLocked opts fp c)" "control_same c (noteOperationAppliedLocked opts fp c)"
proof -
  let ?d = "noteOperationAppliedLocked opts fp c"
  have "cp_shards ?d = cp_shards c \<and> cp_arrays ?d = cp_arrays c \<and> cp_order ?d = cp_order c \<and> cp_routes ?d = cp_routes c"
    by (simp add: noteOperationAppliedLocked_def Let_def)
  then show "cp_inv ?d" using assms note_ops_inv [of c fp opts] by (simp add: cp_inv_def)
  show "control_same c ?d" by (simp add: control_same_def noteOperationAppliedLocked_def Let_def)
qed

lemma rollback_ok:
  assumes "cp_inv c" "control_same c d" "saveLockedWithRollback dirs (snapshotStateLocked c) d s = (e, d', s')"
  shows "if e = None then d' = d \<and> saveLocked dirs d s = (None, s')
         else cp_inv d' \<and> control_same c d' \<and> snapshotStateLocked d' = snapshotStateLocked c \<and>
           saveLocked dirs d s = (e, s')"
proof -
  obtain d1 where d1: "applyState (snapshotStateLocked c) d = (None, d1)" "cp_inv d1" "control_same c d1"
    "snapshotStateLocked d1 = snapshotStateLocked c" using applyState_snapshot [OF assms(1,2)] by metis
  show ?thesis
    using assms(3) d1 by (cases "saveLocked dirs d s"; cases "fst (saveLocked dirs d s)")
      (auto simp: saveLockedWithRollback_def)
qed

definition good_mutate :: "(controlMutation \<Rightarrow> controlPlane \<Rightarrow> lsm_error option \<times> controlPlane) \<Rightarrow> bool" where
  "good_mutate mutate \<longleftrightarrow>
     (\<forall>m c e c'. cp_inv c \<longrightarrow> mutate m c = (e, c') \<longrightarrow> control_same c c' \<and> (e = None \<longrightarrow> cp_inv c'))"

lemma good_mutateD:
  "good_mutate mutate \<Longrightarrow> cp_inv c \<Longrightarrow> mutate m c = (e, c') \<Longrightarrow> control_same c c' \<and> (e = None \<longrightarrow> cp_inv c')"
  by (simp add: good_mutate_def)

definition saved_in :: "controlPlane \<Rightarrow> fs \<Rightarrow> bool" where
  "saved_in c s \<longleftrightarrow>
     cp_statePath c = [] \<or> map_of (fs_dir s) (cp_statePath c) = Some (marshal_state (snapshotStateLocked c))"

lemma saved_in_save: "saveLocked dirs c s = (None, s') \<Longrightarrow> saved_in c s'"
  using saveLocked_atomic [of c dirs s None s'] by (auto simp: saved_in_def)

definition index_only :: "u64 \<Rightarrow> controlPlane \<Rightarrow> controlPlane \<Rightarrow> bool" where
  "index_only i c c' \<longleftrightarrow>
     snapshotStateLocked c' = (snapshotStateLocked c)\<lparr>cs_CommitLogAppliedIndex := max (cp_commitLogAppliedIndex c) i\<rparr>"

text \<open>
  Every entry with an index and a term that changes anything ends in one save: of the state with the
  index raised, or of the state with the mutation carried out and recorded.
\<close>

definition commit_aims ::
  "controlCommittedEntry \<Rightarrow> ControlWriteOptions \<Rightarrow> string \<Rightarrow>
   (controlMutation \<Rightarrow> controlPlane \<Rightarrow> lsm_error option \<times> controlPlane) \<Rightarrow>
   controlPlane \<Rightarrow> control_error option \<Rightarrow> controlPlane \<Rightarrow> bool" where
  "commit_aims entry opts fp mutate c answer d \<longleftrightarrow>
     (case checkOperationPreconditionsLocked opts fp c of
        Inl x \<Rightarrow> answer = Some (CRejected x) \<and> index_only (ce_Index entry) c d
      | Inr True \<Rightarrow> answer = Some CNoop \<and> index_only (ce_Index entry) c d \<and> cp_commitLogAppliedIndex c < ce_Index entry
      | Inr False \<Rightarrow>
          (case mutate (ce_Mutation entry) c of
             (Some x, _) \<Rightarrow> answer = Some (CRejected x) \<and> index_only (ce_Index entry) c d
           | (None, c1) \<Rightarrow> answer = None \<and> cp_inv c1 \<and>
               d = observe_index (ce_Index entry) (noteOperationAppliedLocked opts fp c1)))"

definition saves_as ::
  "nat \<Rightarrow> controlPlane \<Rightarrow> control_error option \<Rightarrow> controlPlane \<Rightarrow> fs \<Rightarrow> control_error option \<times> controlPlane \<times> fs" where
  "saves_as dirs c answer d s =
     (case saveLockedWithRollback dirs (snapshotStateLocked c) d s of
        (Some x, c1, s1) \<Rightarrow> (Some (CErr x), c1, s1)
      | (None, c1, s1) \<Rightarrow> (answer, c1, s1))"

lemma index_only_observe:
  "snapshotStateLocked d = snapshotStateLocked c \<Longrightarrow> index_only i c (observe_index i d)"
  using arg_cong [of "snapshotStateLocked d" "snapshotStateLocked c" cs_CommitLogAppliedIndex]
  by (simp add: index_only_def snapshot_observe) (simp add: snapshotStateLocked_def)

lemma commit_saves:
  assumes inv: "cp_inv c" and good: "good_mutate mutate" and fp: "TrimSpace fp \<noteq> []"
    and entry: "ce_Index entry \<noteq> 0" "ce_Term entry \<noteq> 0"
  obtains
    (idle) "applyCommittedControlMutation dirs entry opts fp mutate c s = (Some CNoop, c, s)"
      "checkOperationPreconditionsLocked opts fp c = Inr True" "ce_Index entry \<le> cp_commitLogAppliedIndex c"
  | (saves) answer d where
      "applyCommittedControlMutation dirs entry opts fp mutate c s = saves_as dirs c answer d s"
      "cp_inv d" "control_same c d" "commit_aims entry opts fp mutate c answer d"
proof (cases "checkOperationPreconditionsLocked opts fp c")
  case (Inl x)
  show thesis
    using inv entry Inl index_only_observe [of c c]
    by (intro saves [of "Some (CRejected x)" "observe_index (ce_Index entry) c"])
      (simp_all add: applyCommittedControlMutation_def commit_aims_def saves_as_def save_rejection_def)
next
  case (Inr b)
  consider "b" "ce_Index entry \<le> cp_commitLogAppliedIndex c" | "b" "cp_commitLogAppliedIndex c < ce_Index entry" | "\<not> b"
    by fastforce
  then show thesis
  proof cases
    case 1
    then show thesis using entry Inr by (intro idle) (simp_all add: applyCommittedControlMutation_def not_less [symmetric])
  next
    case 2
    then show thesis
      using inv entry Inr index_only_observe [of c c]
      by (intro saves [of "Some CNoop" "observe_index (ce_Index entry) c"])
        (simp_all add: applyCommittedControlMutation_def commit_aims_def saves_as_def)
  next
    case 3
    obtain em c1 where mu: "mutate (ce_Mutation entry) c = (em, c1)" by fastforce
    note gm = good_mutateD [OF good inv mu]
    show thesis
    proof (cases em)
      case None
      let ?d = "observe_index (ce_Index entry) (noteOperationAppliedLocked opts fp c1)"
      have c1: "cp_inv c1" "control_same c c1" using gm None by simp_all
      show thesis
        using entry Inr 3 mu None c1 cp_inv_note [OF c1(1) fp] control_same_trans [OF c1(2)]
        by (intro saves [of None ?d])
          (auto simp: applyCommittedControlMutation_def commit_aims_def saves_as_def Let_def split: prod.splits option.splits)
    next
      case (Some x)
      obtain c2 where c2: "applyState (snapshotStateLocked c) c1 = (None, c2)" "cp_inv c2" "control_same c c2"
        "snapshotStateLocked c2 = snapshotStateLocked c" using applyState_snapshot [OF inv, of c1] gm by metis
      show thesis
        using entry Inr 3 mu Some c2 index_only_observe [OF c2(4)]
        by (intro saves [of "Some (CRejected x)" "observe_index (ce_Index entry) c2"])
          (simp_all add: applyCommittedControlMutation_def commit_aims_def saves_as_def save_rejection_def)
    qed
  qed
qed

lemma saves_as_ok:
  assumes "cp_inv c" "cp_inv d" "control_same c d" "saves_as dirs c answer d s = (e, c', s')"
  obtains
    (failed) x where "e = Some (CErr x)" "cp_inv c'" "control_same c c'" "snapshotStateLocked c' = snapshotStateLocked c"
      "saveLocked dirs d s = (Some x, s')"
  | (works) "e = answer" "c' = d" "saved_in d s'"
proof -
  obtain e1 where r: "saveLockedWithRollback dirs (snapshotStateLocked c) d s = (e1, c', s')"
      "e = (case e1 of Some x \<Rightarrow> Some (CErr x) | None \<Rightarrow> answer)"
    using assms(4) by (auto simp: saves_as_def split: prod.splits option.splits)
  show thesis
  proof (cases e1)
    case None
    then show thesis using rollback_ok [OF assms(1,3) r(1)] r(2) works saved_in_save by auto
  next
    case (Some x)
    then show thesis using rollback_ok [OF assms(1,3) r(1)] r(2) failed [of x] by auto
  qed
qed

lemma commit_cases:
  assumes inv: "cp_inv c" and good: "good_mutate mutate" and fp: "TrimSpace fp \<noteq> []"
    and run: "applyCommittedControlMutation dirs entry opts fp mutate c s = (e, c', s')"
  obtains
    (failed) x where "e = Some (CErr x)" "cp_inv c'" "control_same c c'" "snapshotStateLocked c' = snapshotStateLocked c"
  | (rejected) x where "e = Some (CRejected x)" "cp_inv c'" "control_same c c'" "index_only (ce_Index entry) c c'" "saved_in c' s'"
  | (noop) "e = Some CNoop" "cp_inv c'" "control_same c c'" "index_only (ce_Index entry) c c'"
      "checkOperationPreconditionsLocked opts fp c = Inr True"
  | (applied) c1 where "e = None" "cp_inv c'" "control_same c c'" "mutate (ce_Mutation entry) c = (None, c1)" "cp_inv c1"
      "c' = observe_index (ce_Index entry) (noteOperationAppliedLocked opts fp c1)" "saved_in c' s'"
      "checkOperationPreconditionsLocked opts fp c = Inr False"
proof (cases "ce_Index entry = 0 \<or> ce_Term entry = 0")
  case True
  then show thesis using run inv failed by (auto simp: applyCommittedControlMutation_def)
next
  case False
  then have entry: "ce_Index entry \<noteq> 0" "ce_Term entry \<noteq> 0" by simp_all
  show thesis
  proof (cases rule: commit_saves [OF inv good fp entry, of dirs opts s])
    case 1
    then have "max (cp_commitLogAppliedIndex c) (ce_Index entry) = cp_commitLogAppliedIndex c" by (simp add: max_def)
    then have "index_only (ce_Index entry) c c" by (simp add: index_only_def snapshotStateLocked_def)
    with 1 show thesis using run inv noop by simp
  next
    case aims: (2 answer d)
    have run': "saves_as dirs c answer d s = (e, c', s')" using aims(1) run by simp
    show thesis
    proof (cases rule: saves_as_ok [OF inv aims(2,3) run'])
      case (1 x)
      then show thesis using failed by blast
    next
      case 2
      then show thesis
        using aims rejected noop applied
        by (auto simp: commit_aims_def split: sum.splits bool.splits prod.splits option.splits)
    qed
  qed
qed

end
