(* ===== verification/Control_Proposals.thy ===== *)
theory Control_Proposals
  imports Control_Commit
begin

text \<open>
  Proposals to the commit log and the start of a control plane
  (\<^verbatim>\<open>pkg/lsm/engine/control_plane.go\<close>, \<^verbatim>\<open>commitlog.go\<close>, \<^verbatim>\<open>internal/lsm/commitlog/local.go\<close>).  The
  commit log is an interface: the locale \<open>consensus\<close> states what a proposal relies on, and the local
  provider is its instance.
\<close>

section \<open>The local commit log\<close>

record localConsensus =
  lc_index :: u64
  lc_term :: u64

record dataMutation =
  dm_Kind :: string
  dm_Key :: bytes
  dm_Value :: bytes

record dataCommittedEntry =
  de_Index :: u64
  de_Term :: u64
  de_Mutation :: dataMutation
  de_Seq :: u64

definition newLocalConsensus :: localConsensus where
  "newLocalConsensus = \<lparr>lc_index = 0, lc_term = 1\<rparr>"

definition nextCommit :: "localConsensus \<Rightarrow> (u64 \<times> u64) \<times> localConsensus" where
  "nextCommit w = (let i = lc_index w + 1 in ((i, lc_term w), w\<lparr>lc_index := i\<rparr>))"

definition lc_CommitControl ::
  "controlMutation \<Rightarrow> localConsensus \<Rightarrow> (control_error + controlCommittedEntry) \<times> localConsensus" where
  "lc_CommitControl m w =
     (let ((i, t), w1) = nextCommit w in (Inr \<lparr>ce_Index = i, ce_Term = t, ce_Mutation = m\<rparr>, w1))"

definition lc_CommitData :: "dataMutation \<Rightarrow> localConsensus \<Rightarrow> dataCommittedEntry result \<times> localConsensus" where
  "lc_CommitData m w =
     (let ((i, t), w1) = nextCommit w in (Inr \<lparr>de_Index = i, de_Term = t, de_Mutation = m, de_Seq = i\<rparr>, w1))"

definition lc_ObserveCommittedIndex :: "u64 \<Rightarrow> localConsensus \<Rightarrow> localConsensus" where
  "lc_ObserveCommittedIndex i w = (if lc_index w < i then w\<lparr>lc_index := i\<rparr> else w)"

section \<open>Proposals\<close>

text \<open>
  What a proposal meets: the answers of \<^verbatim>\<open>admitProposal\<close> and \<^verbatim>\<open>beforeProposal\<close> (\<open>None\<close> also when
  the function is not set), the provider's name, the hook \<^verbatim>\<open>applyFromLog\<close> and the commit log, which
  may be missing.
\<close>

record 'w control_env =
  en_admitProposal :: "control_error option"
  en_beforeProposal :: "control_error option"
  en_provider :: string
  en_applyFromLog :: "(controlCommittedEntry \<Rightarrow> controlPlane \<Rightarrow> fs \<Rightarrow> control_error option \<times> controlPlane \<times> fs) option"
  en_CommitControl :: "(controlMutation \<Rightarrow> 'w \<Rightarrow> (control_error + controlCommittedEntry) \<times> 'w) option"

definition is_rejected :: "control_error \<Rightarrow> bool" where
  "is_rejected e \<longleftrightarrow> (case e of CRejected _ \<Rightarrow> True | _ \<Rightarrow> False)"

definition applyControlMutation ::
  "'w control_env \<Rightarrow> nat \<Rightarrow> controlMutation \<Rightarrow> ControlWriteOptions \<Rightarrow> string \<Rightarrow>
   (controlMutation \<Rightarrow> controlPlane \<Rightarrow> lsm_error option \<times> controlPlane) \<Rightarrow>
   controlPlane \<Rightarrow> fs \<Rightarrow> 'w \<Rightarrow> control_error option \<times> controlPlane \<times> fs \<times> 'w" where
  "applyControlMutation env dirs mutation opts fingerprint mutate c s w =
     (case cp_commitErr c of Some e \<Rightarrow> (Some e, c, s, w) | None \<Rightarrow>
      (case en_admitProposal env of Some e \<Rightarrow> (Some e, c, s, w) | None \<Rightarrow>
       (case en_beforeProposal env of Some e \<Rightarrow> (Some e, c, s, w) | None \<Rightarrow>
        (case en_CommitControl env of
           None \<Rightarrow> (Some (CErr (ErrMsg ''commit log consensus unavailable'')), c, s, w)
         | Some commit \<Rightarrow>
            (case checkOperationPreconditionsLocked opts fingerprint c of
               Inl e \<Rightarrow> (Some (CErr e), c, s, w)
             | Inr True \<Rightarrow> (None, c, s, w)
             | Inr False \<Rightarrow>
                (let m = mutation\<lparr>cm_OperationID := TrimSpace (cw_OperationID opts),
                                  cm_ExpectedRevision := cw_ExpectedRevision opts\<rparr>
                 in case commit m w of
                      (Inl e, w1) \<Rightarrow>
                        (Some e,
                         (if en_provider env = ''etcd-raft'' \<and> e \<noteq> CNotLeader then c\<lparr>cp_commitErr := Some e\<rparr> else c),
                         s, w1)
                    | (Inr entry, w1) \<Rightarrow>
                        (let (err, c1, s1) =
                               (case en_applyFromLog env of
                                  Some apply \<Rightarrow> apply entry c s
                                | None \<Rightarrow> applyCommittedControlMutation dirs entry opts fingerprint mutate c s);
                             c2 = (case err of
                                     Some e \<Rightarrow>
                                       if en_provider env = ''etcd-raft'' \<and> e \<noteq> CNoop \<and> \<not> is_rejected e
                                       then c1\<lparr>cp_commitErr := Some e\<rparr> else c1
                                   | None \<Rightarrow> c1)
                         in (if err = Some CNoop then None else err, c2, s1, w1))))))))"

definition mismatch :: lsm_error where "mismatch = ErrMsg ''committed control mutation mismatch''"

definition empty_mutation :: controlMutation where
  "empty_mutation = \<lparr>cm_ExpectedRevision = None, cm_OperationID = [], cm_Kind = [], cm_ShardID = [], cm_Target = [],
                     cm_Split = [], cm_NodeID = []\<rparr>"

definition transferLeaderWithOptions ::
  "'w control_env \<Rightarrow> nat \<Rightarrow> string \<Rightarrow> string \<Rightarrow> ControlWriteOptions \<Rightarrow>
   controlPlane \<Rightarrow> fs \<Rightarrow> 'w \<Rightarrow> control_error option \<times> controlPlane \<times> fs \<times> 'w" where
  "transferLeaderWithOptions env dirs shardID0 target0 opts c s w =
     (let shardID = TrimSpace shardID0; target = TrimSpace target0 in
      if shardID = [] \<or> target = [] then (Some (CErr ErrShardNotFound), c, s, w)
      else applyControlMutation env dirs
             (empty_mutation\<lparr>cm_Kind := ''transfer-leader'', cm_ShardID := shardID, cm_Target := target\<rparr>) opts
             (transferLeaderFingerprint shardID target)
             (\<lambda>m c. if cm_Kind m \<noteq> ''transfer-leader'' \<or> cm_ShardID m \<noteq> shardID \<or> cm_Target m \<noteq> target
                    then (Some mismatch, c) else applyTransferLeaderPayloadLocked m c) c s w)"

definition triggerSplitWithOptions ::
  "'w control_env \<Rightarrow> nat \<Rightarrow> string \<Rightarrow> bytes \<Rightarrow> ControlWriteOptions \<Rightarrow>
   controlPlane \<Rightarrow> fs \<Rightarrow> 'w \<Rightarrow> control_error option \<times> controlPlane \<times> fs \<times> 'w" where
  "triggerSplitWithOptions env dirs shardID0 splitKey opts c s w =
     (let shardID = TrimSpace shardID0 in
      if shardID = [] then (Some (CErr ErrShardNotFound), c, s, w)
      else applyControlMutation env dirs
             (empty_mutation\<lparr>cm_Kind := ''split'', cm_ShardID := shardID, cm_Split := splitKey\<rparr>) opts
             (splitFingerprint shardID splitKey)
             (\<lambda>m c. if cm_Kind m \<noteq> ''split'' \<or> cm_ShardID m \<noteq> shardID \<or> cm_Split m \<noteq> splitKey
                    then (Some mismatch, c) else applySplitPayloadLocked m c) c s w)"

definition triggerRebalanceWithOptions ::
  "'w control_env \<Rightarrow> nat \<Rightarrow> string \<Rightarrow> string \<Rightarrow> ControlWriteOptions \<Rightarrow>
   controlPlane \<Rightarrow> fs \<Rightarrow> 'w \<Rightarrow> control_error option \<times> controlPlane \<times> fs \<times> 'w" where
  "triggerRebalanceWithOptions env dirs shardID target opts = transferLeaderWithOptions env dirs shardID target opts"

definition prepareDrainWithOptions ::
  "'w control_env \<Rightarrow> nat \<Rightarrow> string \<Rightarrow> ControlWriteOptions \<Rightarrow>
   controlPlane \<Rightarrow> fs \<Rightarrow> 'w \<Rightarrow> control_error option \<times> controlPlane \<times> fs \<times> 'w" where
  "prepareDrainWithOptions env dirs nodeID0 opts c s w =
     (let nodeID1 = TrimSpace nodeID0; nodeID = (if nodeID1 = [] then cp_nodeID c else nodeID1) in
      if nodeID \<noteq> cp_nodeID c then (Some (CErr (ErrMsg ''drain supported only for local node'')), c, s, w)
      else applyControlMutation env dirs
             (empty_mutation\<lparr>cm_Kind := ''prepare-drain'', cm_NodeID := nodeID\<rparr>) opts
             (prepareDrainFingerprint nodeID)
             (\<lambda>m c. if cm_Kind m \<noteq> ''prepare-drain'' \<or> cm_NodeID m \<noteq> nodeID
                    then (Some mismatch, c) else applyDrainPayloadLocked m c) c s w)"

section \<open>Starting\<close>

definition bootstrap_shard ::
  "string \<Rightarrow> ShardConfig \<Rightarrow> string \<Rightarrow> replica_arrays \<Rightarrow> rslice ShardStatus \<times> replica_arrays" where
  "bootstrap_shard nodeID cfg i arrs =
     (let replicas0 = (if sc_Replicas cfg = [] then [nodeID] else sc_Replicas cfg);
          leader0 = TrimSpace (sc_Leader cfg);
          leader = (if leader0 = [] then hd replicas0 else leader0);
          replicas = (if leader \<notin> set replicas0 then replicas0 @ [leader] else replicas0);
          statuses = map (\<lambda>r. \<lparr>rs_NodeID = r, rs_Role = (if r = leader then ''leader'' else ''follower''),
                               rs_Healthy = True\<rparr>) replicas;
          (sl, arrs1) = slice_alloc (length replicas) statuses arrs
      in (\<lparr>ss_WriteLeader = None, ss_ID = i, ss_StartKey = sc_StartKey cfg, ss_EndKey = sc_EndKey cfg,
           ss_Leader = leader, ss_Replicas = sl\<rparr>, arrs1))"

fun bootstrap_shards :: "ShardConfig list \<Rightarrow> controlPlane \<Rightarrow> lsm_error option \<times> controlPlane" where
  "bootstrap_shards [] c = (None, c)"
| "bootstrap_shards (cfg # cfgs) c =
     (let i = TrimSpace (sc_ID cfg) in
      if i = [] then (Some (ErrMsg ''shard id is required''), c)
      else if map_of (cp_shards c) i \<noteq> None then (Some (ErrMsg ''duplicate shard id''), c)
      else let (shard, arrs) = bootstrap_shard (cp_nodeID c) cfg i (cp_arrays c)
           in bootstrap_shards cfgs
                (c\<lparr>cp_order := cp_order c @ [i], cp_shards := AList.update i shard (cp_shards c), cp_arrays := arrs\<rparr>))"

definition default_shards :: "controlPlane \<Rightarrow> controlPlane" where
  "default_shards c =
     (let (sl, arrs) = slice_alloc 1 [\<lparr>rs_NodeID = cp_nodeID c, rs_Role = ''leader'', rs_Healthy = True\<rparr>] (cp_arrays c);
          shard = \<lparr>ss_WriteLeader = None, ss_ID = ''default'', ss_StartKey = [], ss_EndKey = [], ss_Leader = cp_nodeID c,
                   ss_Replicas = sl\<rparr>
      in c\<lparr>cp_order := [''default''], cp_shards := AList.update ''default'' shard (cp_shards c), cp_arrays := arrs\<rparr>)"

definition bootstrap_save :: "nat \<Rightarrow> controlPlane \<Rightarrow> fs \<Rightarrow> lsm_error option \<times> controlPlane \<times> fs" where
  "bootstrap_save dirs c s =
     (case rebuildRoutesLocked c of
        (Some e, c1) \<Rightarrow> (Some e, c1, s)
      | (None, c1) \<Rightarrow> (let (e, s1) = saveLocked dirs c1 s in (e, c1, s1)))"

definition loadOrBootstrap ::
  "nat \<Rightarrow> ShardConfig list \<Rightarrow> controlPlane \<Rightarrow> fs \<Rightarrow> lsm_error option \<times> controlPlane \<times> fs" where
  "loadOrBootstrap dirs shardMap c s =
     (case loadState c s of
        Inr state \<Rightarrow>
          if cs_NodeID state \<noteq> cp_nodeID c \<or> cs_ClusterID state \<noteq> cp_clusterID c
          then (Some (ErrMsg ''control state identity mismatch''), c, s)
          else (case applyState state c of
                  (Some e, c1) \<Rightarrow> (Some (ErrMsg ''apply control state''), c1, s)
                | (None, c1) \<Rightarrow> (None, c1, s))
      | Inl e \<Rightarrow>
          if e \<noteq> ErrNotExist then (Some (ErrMsg ''load control state''), c, s)
          else if shardMap = [] then bootstrap_save dirs (default_shards c) s
          else (case bootstrap_shards shardMap (c\<lparr>cp_order := []\<rparr>) of
                  (Some e, c1) \<Rightarrow> (Some e, c1, s)
                | (None, c1) \<Rightarrow> bootstrap_save dirs c1 s))"

record control_options =
  op_NodeID :: string
  op_ClusterID :: string
  op_StorageMode :: string
  op_Raft :: "RaftOptions option"
  op_ControlStatePath :: string
  op_ShardMap :: "ShardConfig list"

text \<open>
  \<open>defaultPath\<close> is \<^verbatim>\<open>filepath.Join(opts.DataDir, "control_state.json")\<close> and \<open>consensus\<close> the error of
  \<^verbatim>\<open>newCommitLogConsensus\<close>, if it has one.
\<close>

definition control_base :: "string \<Rightarrow> (nat \<Rightarrow> nat \<Rightarrow> nat) \<Rightarrow> control_options \<Rightarrow> controlPlane result" where
  "control_base defaultPath growcap opts =
     (let nodeID0 = TrimSpace (op_NodeID opts); nodeID = (if nodeID0 = [] then ''node-0'' else nodeID0);
          clusterID0 = TrimSpace (op_ClusterID opts); clusterID = (if clusterID0 = [] then ''cluster-local'' else clusterID0);
          mode0 = TrimSpace (op_StorageMode opts); mode = (if mode0 = [] then ''local'' else mode0)
      in if mode \<noteq> ''local'' \<and> mode \<noteq> ''pvc'' then Inl (ErrMsg ''unknown storage mode'')
         else
           let raft0 = (case op_Raft opts of
                          Some r \<Rightarrow> r
                        | None \<Rightarrow> \<lparr>ro_Replicas = 3, ro_ElectionTimeout = 0, ro_HeartbeatInterval = 0, ro_Peers = []\<rparr>);
               raft = (if ro_Replicas raft0 \<le> 0 then raft0\<lparr>ro_Replicas := 3\<rparr> else raft0);
               statePath = (if op_ControlStatePath opts = [] then defaultPath else op_ControlStatePath opts)
           in Inr \<lparr>cp_commitErr = None, cp_commitLogAppliedIndex = 0, cp_nodeID = nodeID, cp_clusterID = clusterID,
                   cp_storageMode = mode, cp_raft = raft, cp_draining = False, cp_revision = 0, cp_order = [],
                   cp_shards = [], cp_routes = [], cp_appliedOps = [], cp_appliedOrder = [],
                   cp_statePath = statePath, cp_arrays = [[]], cp_growcap = growcap\<rparr>)"

definition newControlPlane ::
  "string \<Rightarrow> lsm_error option \<Rightarrow> (nat \<Rightarrow> nat \<Rightarrow> nat) \<Rightarrow> nat \<Rightarrow> control_options \<Rightarrow> fs \<Rightarrow> controlPlane result \<times> fs" where
  "newControlPlane defaultPath consensus growcap dirs opts s =
     (case control_base defaultPath growcap opts of
        Inl e \<Rightarrow> (Inl e, s)
      | Inr c0 \<Rightarrow>
          (case consensus of
             Some e \<Rightarrow> (Inl e, s)
           | None \<Rightarrow>
               (case loadOrBootstrap dirs (op_ShardMap opts) c0 s of
                  (Some e, c, s1) \<Rightarrow> (Inl e, s1)
                | (None, c, s1) \<Rightarrow> (Inr c, s1))))"

end
