(* ===== verification/Control_Start.thy ===== *)
theory Control_Start
  imports Control_Proposals
begin

text \<open>
  A started control plane satisfies the invariant, and one started from the file of another has its
  state.
\<close>

section \<open>Bootstrap\<close>

definition boot_inv :: "controlPlane \<Rightarrow> bool" where
  "boot_inv c \<longleftrightarrow>
     shards_inv (cp_arrays c) (cp_shards c) \<and> (\<forall>i \<in> set (cp_order c). trimmed i) \<and>
     ops_inv (cp_appliedOrder c) (cp_appliedOps c)"

lemma boot_inv_add:
  assumes "boot_inv c" "trimmed i" "ss_ID s = i" "slice_ok arrs (ss_Replicas s)" "grows (cp_arrays c) arrs"
    "set ord \<subseteq> insert i (set (cp_order c))"
  shows "boot_inv (c\<lparr>cp_order := ord, cp_shards := AList.update i s (cp_shards c), cp_arrays := arrs\<rparr>)"
  using assms
  by (auto simp: boot_inv_def shards_inv_def distinct_update update_conv' simp del: map_of_eq_Some_iff
        intro: slice_ok_grows [OF _ assms(5)] split: if_splits)

lemma boot_inv_rebuild:
  assumes "boot_inv c" "rebuildRoutesLocked c = (None, c')"
  shows "cp_inv c'" "control_same c c'"
  using assms by (auto simp: boot_inv_def cp_inv_def rebuildRoutesLocked_def control_same_def split: sum.splits)

lemma bootstrap_shard_ok:
  assumes "bootstrap_shard nodeID cfg i arrs = (s, arrs')"
  shows "ss_ID s = i \<and> slice_ok arrs' (ss_Replicas s) \<and> grows arrs arrs'"
  using assms by (auto simp: bootstrap_shard_def Let_def slice_alloc_def slice_ok_def backing_def)

lemma bootstrap_shards_ok:
  assumes "bootstrap_shards cfgs c = (None, c')" "boot_inv c"
  shows "boot_inv c' \<and> control_same c c'"
  using assms
proof (induction cfgs c rule: bootstrap_shards.induct)
  case (2 cfg cfgs c)
  let ?i = "TrimSpace (sc_ID cfg)"
  obtain s arrs where b: "bootstrap_shard (cp_nodeID c) cfg ?i (cp_arrays c) = (s, arrs)" by fastforce
  let ?d = "c\<lparr>cp_order := cp_order c @ [?i], cp_shards := AList.update ?i s (cp_shards c), cp_arrays := arrs\<rparr>"
  have r: "?i \<noteq> []" "map_of (cp_shards c) ?i = None" "bootstrap_shards cfgs ?d = (None, c')"
    using 2(2) b by (auto simp: Let_def split: if_splits)
  have "boot_inv ?d"
    using bootstrap_shard_ok [OF b] 2(3) by (intro boot_inv_add) (auto simp: trimmed_def)
  then have "boot_inv c' \<and> control_same ?d c'" using 2(1) [OF refl] r b by auto
  then show ?case by (simp add: control_same_def)
qed auto

lemma default_shards_ok: "boot_inv c \<Longrightarrow> boot_inv (default_shards c) \<and> control_same c (default_shards c)"
proof -
  assume inv: "boot_inv c"
  have "trimmed ''default''"
    using trimmed_append [of "[]" "''default''"] by (simp add: trimmed_iff plain_char_def)
  moreover obtain sl arrs where a: "slice_alloc 1 [\<lparr>rs_NodeID = cp_nodeID c, rs_Role = ''leader'', rs_Healthy = True\<rparr>]
      (cp_arrays c) = (sl, arrs)" by fastforce
  have "slice_ok arrs sl" "grows (cp_arrays c) arrs" using slice_read_alloc [OF a] by auto
  ultimately have "boot_inv (default_shards c)"
    using inv a unfolding default_shards_def Let_def by (auto intro!: boot_inv_add)
  moreover have "control_same c (default_shards c)"
    using a by (simp add: default_shards_def control_same_def)
  ultimately show ?thesis by simp
qed

lemma bootstrap_save_ok:
  assumes "bootstrap_save dirs c s = (None, c', s')" "boot_inv c"
  shows "cp_inv c' \<and> control_same c c' \<and> saved_in c' s'"
  using assms boot_inv_rebuild [OF assms(2)] saved_in_save
  by (auto simp: bootstrap_save_def split: prod.splits option.splits)

lemma bootstrap_ok:
  assumes "loadOrBootstrap dirs shardMap c s = (None, c', s')" "loadState c s = Inl ErrNotExist" "boot_inv c"
  shows "cp_inv c' \<and> control_same c c' \<and> saved_in c' s'"
proof (cases "shardMap = []")
  case True
  then have "bootstrap_save dirs (default_shards c) s = (None, c', s')"
    using assms(1,2) by (simp add: loadOrBootstrap_def)
  then show ?thesis
    using bootstrap_save_ok default_shards_ok [OF assms(3)] control_same_trans by blast
next
  case False
  obtain c1 where c1: "bootstrap_shards shardMap (c\<lparr>cp_order := []\<rparr>) = (None, c1)" "bootstrap_save dirs c1 s = (None, c', s')"
    using assms(1,2) False by (auto simp: loadOrBootstrap_def split: prod.splits option.splits)
  have "boot_inv (c\<lparr>cp_order := []\<rparr>)" using assms(3) by (simp add: boot_inv_def)
  from bootstrap_shards_ok [OF c1(1) this] bootstrap_save_ok [OF c1(2)] show ?thesis
    by (auto simp: control_same_def)
qed

section \<open>Restart\<close>

lemma collect_state_shards_ok:
  assumes "distinct (map fst acc @ map ss_ID ss)" "\<forall>v \<in> set ss. TrimSpace (ss_ID v) \<noteq> []"
  shows "\<exists>acc'. collect_state_shards acc ss = Inr acc' \<and> map fst acc' = map fst acc @ map ss_ID ss \<and>
    (\<forall>k. map_of acc' k = (case map_of acc k of Some s \<Rightarrow> Some s | None \<Rightarrow> map_of (map (\<lambda>v. (ss_ID v, v)) ss) k))"
  using assms
proof (induction ss arbitrary: acc)
  case (Cons v ss)
  have new: "ss_ID v \<notin> fst ` set acc" using Cons.prems(1) by auto
  then have none: "map_of acc (ss_ID v) = None" by (simp add: map_of_eq_None_iff)
  have keys: "map fst (AList.update (ss_ID v) v acc) = map fst acc @ [ss_ID v]" using new by (simp add: update_keys)
  have "\<exists>acc'. collect_state_shards (AList.update (ss_ID v) v acc) ss = Inr acc' \<and>
      map fst acc' = map fst (AList.update (ss_ID v) v acc) @ map ss_ID ss \<and>
      (\<forall>k. map_of acc' k = (case map_of (AList.update (ss_ID v) v acc) k of Some s \<Rightarrow> Some s
         | None \<Rightarrow> map_of (map (\<lambda>v. (ss_ID v, v)) ss) k))"
    using Cons.prems by (intro Cons.IH) (auto simp: keys)
  then show ?case using Cons.prems(2) none keys by (auto simp: update_conv' split: option.split)
qed (auto split: option.split)

lemma check_ops_ok:
  assumes "distinct (seen @ map (\<lambda>a. TrimSpace (ao_ID a)) ops)"
    "\<forall>a \<in> set ops. TrimSpace (ao_ID a) \<noteq> [] \<and> TrimSpace (ao_Fingerprint a) \<noteq> []"
  shows "check_ops seen ops = Inr ()"
  using assms
proof (induction ops arbitrary: seen)
  case (Cons a ops)
  have "check_ops (TrimSpace (ao_ID a) # seen) ops = Inr ()" using Cons.prems by (intro Cons.IH) auto
  with Cons.prems show ?case by (auto simp: Let_def)
qed simp

lemma snapshot_shards_valid:
  assumes inv: "cp_inv c"
  shows "\<exists>acc. collect_state_shards [] (map (\<lambda>i. value_shard c (shard_at c i)) (cp_order c)) = Inr acc \<and>
    buildShardRoutes (cp_order c) acc = Inr (cp_routes c)"
proof -
  let ?ss = "map (\<lambda>i. value_shard c (shard_at c i)) (cp_order c)"
  have id: "ss_ID (value_shard c (shard_at c i)) = i" if "i \<in> set (cp_order c)" for i
    using shard_at_order(2) [OF inv that] by (simp add: value_shard_def)
  have ids: "map ss_ID ?ss = cp_order c" using id by (auto simp: comp_def intro: map_idI)
  have ne: "TrimSpace i \<noteq> []" if "i \<in> set (cp_order c)" for i
    using that inv cp_inv_routes(4) [OF inv] by (auto simp: cp_inv_def trimmed_def)
  obtain acc where acc: "collect_state_shards [] ?ss = Inr acc" "map fst acc = cp_order c"
    "\<forall>k. map_of acc k = map_of (map (\<lambda>v. (ss_ID v, v)) ?ss) k"
    using collect_state_shards_ok [of "[]" ?ss] cp_inv_routes(3) [OF inv] ids ne id by (auto simp del: map_map)
  have route: "route_of acc i = route_of (cp_shards c) i" if i: "i \<in> set (cp_order c)" for i
  proof -
    have "map_of acc i = Some (value_shard c (shard_at c i))"
    proof -
      have "map_of (map (\<lambda>v. (ss_ID v, v)) ?ss) i = Some (value_shard c (shard_at c i))"
      proof (rule map_of_is_SomeI)
        show "distinct (map fst (map (\<lambda>v. (ss_ID v, v)) ?ss))"
          using ids cp_inv_routes(3) [OF inv] by (simp add: comp_def)
        show "(i, value_shard c (shard_at c i)) \<in> set (map (\<lambda>v. (ss_ID v, v)) ?ss)"
          using i id [OF i] by (auto simp: image_iff intro!: bexI [OF _ i])
      qed
      then show ?thesis using acc(3) by simp
    qed
    then show ?thesis using shard_at_order(1) [OF inv i] by (simp add: route_of_def value_shard_def)
  qed
  have "buildShardRoutes (cp_order c) acc = Inr (cp_routes c)"
  proof (rule buildShardRoutes_cong [OF _ _ _ _ route])
    show "length acc = length (cp_shards c)"
      using arg_cong [OF acc(2), of length] cp_inv_routes(2) [OF inv] by simp
    show "set (cp_order c) \<subseteq> dom (map_of acc)"
      using arg_cong [OF acc(2), of set] by (simp add: dom_map_of_conv_image_fst)
  qed (use inv in \<open>simp_all add: cp_inv_def\<close>)
  with acc(1) show ?thesis by blast
qed

lemma validate_snapshot:
  assumes inv: "cp_inv c"
  shows "validateControlPlaneState (snapshotStateLocked c) = Inr ()"
proof -
  have opsi: "ops_inv (cp_appliedOrder c) (cp_appliedOps c)" using inv by (simp add: cp_inv_def)
  have "check_ops [] (appliedOpsSnapshotLocked c) = Inr ()"
  proof (rule check_ops_ok)
    show "distinct ([] @ map (\<lambda>a. TrimSpace (ao_ID a)) (appliedOpsSnapshotLocked c))"
      using restored_ops(1) [OF opsi refl] opsi by (simp add: ops_inv_def)
    show "\<forall>a \<in> set (appliedOpsSnapshotLocked c). TrimSpace (ao_ID a) \<noteq> [] \<and> TrimSpace (ao_Fingerprint a) \<noteq> []"
      using ops_snapshot(2) [OF opsi] opsi unfolding ops_inv_def trimmed_def by metis
  qed
  moreover have "length (appliedOpsSnapshotLocked c) \<le> maxAppliedControlOps"
    using arg_cong [OF ops_snapshot(1) [OF opsi], of length] opsi by (simp add: ops_inv_def)
  ultimately show ?thesis
    using snapshot_shards_valid [OF inv] cp_inv_routes(1) [OF inv]
    by (auto simp: validateControlPlaneState_def snapshotStateLocked_def)
qed

lemma restart_ok:
  assumes inv: "cp_inv c" and enc: "state_encodable (snapshotStateLocked c)" and saved: "saved_in c s"
    and path: "cp_statePath c \<noteq> []" and cfg: "control_same c d"
  obtains d' where "loadOrBootstrap dirs shardMap d s = (None, d', s)" "cp_inv d'" "control_same c d'"
    "snapshotStateLocked d' = snapshotStateLocked c" "cp_routes d' = cp_routes c"
proof -
  have pd: "cp_statePath d = cp_statePath c" using cfg by (simp add: control_same_def)
  have stored: "map_of (fs_dir s) (cp_statePath c) = Some (marshal_state (snapshotStateLocked c))"
    using saved path by (simp add: saved_in_def)
  have "cs_Version (snapshotStateLocked c) = 1" by (simp add: snapshotStateLocked_def)
  then have load: "loadState d s = Inr (snapshotStateLocked c)"
    using path unmarshal_marshal_state [OF enc] validate_snapshot [OF inv]
    by (simp add: loadState_def stored pd Let_def)
  obtain d' where d': "applyState (snapshotStateLocked c) d = (None, d')" "cp_inv d'" "control_same c d'"
    "snapshotStateLocked d' = snapshotStateLocked c" "cp_routes d' = cp_routes c"
    using applyState_snapshot [OF inv cfg] by metis
  have "loadOrBootstrap dirs shardMap d s = (None, d', s)"
    using load d'(1) cfg by (simp add: loadOrBootstrap_def control_same_def snapshotStateLocked_def)
  with d' show thesis using that by blast
qed

section \<open>Commits without input/output errors\<close>

lemma rollback_no_faults:
  assumes "fs_faults s = []"
  shows "\<exists>s'. saveLockedWithRollback dirs previous d s = (None, d, s') \<and> saved_in d s' \<and> fs_faults s' = []"
proof -
  obtain s' where "saveLocked dirs d s = (None, s')" "fs_faults s' = []" using saveLocked_no_faults [OF assms] by blast
  then show ?thesis using saved_in_save by (simp add: saveLockedWithRollback_def)
qed

lemma commit_saved:
  assumes inv: "cp_inv c" and good: "good_mutate mutate" and s: "fs_faults s = []" "saved_in c s"
    and run: "applyCommittedControlMutation dirs entry opts fp mutate c s = (e, c', s')"
  shows "saved_in c' s' \<and> fs_faults s' = []"
proof -
  have rej: "saved_in c' s' \<and> fs_faults s' = []" if "save_rejection dirs i x prev d s = (e, c', s')" for i x prev d
    using that rollback_no_faults [OF s(1), of dirs prev "observe_index i d"] by (auto simp: save_rejection_def)
  obtain em c1 where mu: "mutate (ce_Mutation entry) c = (em, c1)" by fastforce
  obtain c2 where c2: "applyState (snapshotStateLocked c) c1 = (None, c2)"
    using applyState_snapshot [OF inv, of c1] good_mutateD [OF good inv mu] by metis
  note save = rollback_no_faults [OF s(1), of dirs "snapshotStateLocked c"]
  show ?thesis
  proof (cases "ce_Index entry = 0 \<or> ce_Term entry = 0")
    case True
    then show ?thesis using run s by (auto simp: applyCommittedControlMutation_def)
  next
    case False
    note unf = run [unfolded applyCommittedControlMutation_def if_not_P [OF False] Let_def mu]
    show ?thesis
      using unf rej s c2 save [of "observe_index (ce_Index entry) c"]
        save [of "observe_index (ce_Index entry) (noteOperationAppliedLocked opts fp c1)"]
      by (cases "checkOperationPreconditionsLocked opts fp c"; cases em) (auto split: bool.splits if_splits)
  qed
qed

end
