(* ===== verification/Control_Props.thy ===== *)
theory Control_Props
  imports Control_Start
begin

text \<open>What the control plane promises: routing, splits, commits, idempotence, drains, restarts.\<close>

section \<open>Committed entries\<close>

lemma good_payload: "good_mutate applyControlPayloadLocked"
  unfolding good_mutate_def
proof (intro allI impI)
  fix m c e c'
  assume inv: "cp_inv c" and run: "applyControlPayloadLocked m c = (e, c')"
  have "control_same c d \<and> (x = None \<longrightarrow> cp_inv d)" if "applyTransferLeaderPayloadLocked m c = (x, d)" for x d
  proof (cases "map_of (cp_shards c) (cm_ShardID m)")
    case None
    with that inv show ?thesis by (auto simp: applyTransferLeaderPayloadLocked_def Let_def)
  next
    case (Some s)
    from transfer_ok [OF inv Some] that show ?thesis unfolding same_ranges_def by (metis prod.inject)
  qed
  moreover have "control_same c d \<and> (x = None \<longrightarrow> cp_inv d)" if "applySplitPayloadLocked m c = (x, d)" for x d
    using split_inv [OF inv that] by blast
  moreover have "control_same c d \<and> (x = None \<longrightarrow> cp_inv d)" if r: "applyDrainPayloadLocked m c = (x, d)" for x d
  proof (cases x)
    case None
    with drain_ok(1,2) [OF inv] r show ?thesis by blast
  next
    case (Some y)
    with r inv show ?thesis by (auto simp: applyDrainPayloadLocked_def Let_def split: sum.splits)
  qed
  ultimately show "control_same c c' \<and> (e = None \<longrightarrow> cp_inv c')"
    using run inv by (auto simp: applyControlPayloadLocked_def split: if_splits)
qed

definition entry_opts :: "controlCommittedEntry \<Rightarrow> ControlWriteOptions" where
  "entry_opts entry =
     \<lparr>cw_OperationID = cm_OperationID (ce_Mutation entry), cw_ExpectedRevision = cm_ExpectedRevision (ce_Mutation entry)\<rparr>"

definition mutation_fingerprint :: "controlMutation \<Rightarrow> string option" where
  "mutation_fingerprint m =
     (if cm_Kind m = ''transfer-leader'' then Some (transferLeaderFingerprint (cm_ShardID m) (cm_Target m))
      else if cm_Kind m = ''split'' then Some (splitFingerprint (cm_ShardID m) (cm_Split m))
      else if cm_Kind m = ''prepare-drain'' then Some (prepareDrainFingerprint (cm_NodeID m))
      else None)"

lemma fingerprint_not_blank: "mutation_fingerprint m = Some fp \<Longrightarrow> TrimSpace fp \<noteq> []"
proof -
  have p: "plain_char CHR ''t''" "plain_char CHR ''s''" "plain_char CHR ''d''" by (simp_all add: plain_char_def)
  assume "mutation_fingerprint m = Some fp"
  then show ?thesis
    using TrimSpace_plain_hd [OF p(1)] TrimSpace_plain_hd [OF p(2)] TrimSpace_plain_hd [OF p(3)]
    by (auto simp: mutation_fingerprint_def transferLeaderFingerprint_def splitFingerprint_def prepareDrainFingerprint_def
          split: if_splits)
qed

lemma fromLog_eq:
  "applyCommittedControlFromLog dirs entry c s =
     (case mutation_fingerprint (ce_Mutation entry) of
        None \<Rightarrow> (Some (CErr (ErrMsg ''unknown committed control mutation'')), c, s)
      | Some fp \<Rightarrow>
          (case applyCommittedControlMutation dirs entry (entry_opts entry) fp applyControlPayloadLocked c s of
             (e, c', s') \<Rightarrow> (if e = Some CNoop then None else e, c', s')))"
  by (auto simp: applyCommittedControlFromLog_def mutation_fingerprint_def entry_opts_def Let_def
        split: prod.splits option.splits control_error.splits)

lemma fromLog_cases:
  assumes inv: "cp_inv c" and run: "applyCommittedControlFromLog dirs entry c s = (e, c', s')"
  obtains
    (failed) x where "e = Some (CErr x)" "cp_inv c'" "control_same c c'" "snapshotStateLocked c' = snapshotStateLocked c"
  | (rejected) x where "e = Some (CRejected x)" "cp_inv c'" "control_same c c'" "index_only (ce_Index entry) c c'" "saved_in c' s'"
  | (noop) fp where "e = None" "cp_inv c'" "control_same c c'" "index_only (ce_Index entry) c c'"
      "mutation_fingerprint (ce_Mutation entry) = Some fp"
      "checkOperationPreconditionsLocked (entry_opts entry) fp c = Inr True"
  | (applied) fp c1 where "e = None" "cp_inv c'" "control_same c c'"
      "mutation_fingerprint (ce_Mutation entry) = Some fp"
      "applyControlPayloadLocked (ce_Mutation entry) c = (None, c1)" "cp_inv c1"
      "c' = observe_index (ce_Index entry) (noteOperationAppliedLocked (entry_opts entry) fp c1)" "saved_in c' s'"
      "checkOperationPreconditionsLocked (entry_opts entry) fp c = Inr False"
proof (cases "mutation_fingerprint (ce_Mutation entry)")
  case None
  then show thesis using run inv failed by (auto simp: fromLog_eq)
next
  case (Some fp)
  obtain e1 where r: "applyCommittedControlMutation dirs entry (entry_opts entry) fp applyControlPayloadLocked c s = (e1, c', s')"
      "e = (if e1 = Some CNoop then None else e1)"
    using run Some by (auto simp: fromLog_eq split: prod.splits)
  from inv good_payload fingerprint_not_blank [OF Some] r(1) show thesis
  proof (cases rule: commit_cases)
    case failed
    then show thesis using that(1) r(2) by auto
  next
    case rejected
    then show thesis using that(2) r(2) by auto
  next
    case noop
    then show thesis using that(3) r(2) Some by auto
  next
    case (applied c1)
    then show thesis using that(4) [of fp c1] r(2) Some by auto
  qed
qed

section \<open>What an applied entry records\<close>

lemma drain_fold_ops:
  "cp_appliedOps (fold (drain_shard targets) ids c) = cp_appliedOps c \<and>
   cp_appliedOrder (fold (drain_shard targets) ids c) = cp_appliedOrder c \<and>
   cp_revision (fold (drain_shard targets) ids c) = cp_revision c \<and>
   cp_commitLogAppliedIndex (fold (drain_shard targets) ids c) = cp_commitLogAppliedIndex c"
proof (induction ids arbitrary: c)
  case (Cons i ids)
  have "cp_appliedOps (drain_shard targets i c) = cp_appliedOps c \<and>
      cp_appliedOrder (drain_shard targets i c) = cp_appliedOrder c \<and> cp_revision (drain_shard targets i c) = cp_revision c \<and>
      cp_commitLogAppliedIndex (drain_shard targets i c) = cp_commitLogAppliedIndex c"
    by (simp add: drain_shard_def Let_def split: option.split)
  with Cons show ?case by simp
qed simp

lemma payload_ops:
  assumes "applyControlPayloadLocked m c = (None, c1)"
  shows "cp_appliedOps c1 = cp_appliedOps c \<and> cp_appliedOrder c1 = cp_appliedOrder c \<and> cp_revision c1 = cp_revision c \<and>
      cp_commitLogAppliedIndex c1 = cp_commitLogAppliedIndex c"
proof -
  have "cp_appliedOps c1 = cp_appliedOps c \<and> cp_appliedOrder c1 = cp_appliedOrder c \<and> cp_revision c1 = cp_revision c \<and>
      cp_commitLogAppliedIndex c1 = cp_commitLogAppliedIndex c"
    if "applyTransferLeaderPayloadLocked m c = (None, c1)"
    using that by (auto simp: applyTransferLeaderPayloadLocked_def Let_def split: option.splits prod.splits)
  moreover have "cp_appliedOps c1 = cp_appliedOps c \<and> cp_appliedOrder c1 = cp_appliedOrder c \<and> cp_revision c1 = cp_revision c \<and>
      cp_commitLogAppliedIndex c1 = cp_commitLogAppliedIndex c"
    if "applySplitPayloadLocked m c = (None, c1)"
    using that by (auto simp: applySplitPayloadLocked_def rebuildRoutesLocked_def Let_def split: option.splits sum.splits if_splits)
  moreover have "cp_appliedOps c1 = cp_appliedOps c \<and> cp_appliedOrder c1 = cp_appliedOrder c \<and> cp_revision c1 = cp_revision c \<and>
      cp_commitLogAppliedIndex c1 = cp_commitLogAppliedIndex c"
    if "applyDrainPayloadLocked m c = (None, c1)"
    using that drain_fold_ops by (auto simp: applyDrainPayloadLocked_def Let_def split: sum.splits if_splits)
  ultimately show ?thesis using assms by (auto simp: applyControlPayloadLocked_def split: if_splits)
qed

lemma appliedOps_cong:
  "cp_appliedOps d = cp_appliedOps c \<Longrightarrow> cp_appliedOrder d = cp_appliedOrder c \<Longrightarrow>
   appliedOpsSnapshotLocked d = appliedOpsSnapshotLocked c"
  by (simp add: appliedOpsSnapshotLocked_def)

lemma snapshot_ops: "snapshotStateLocked d = snapshotStateLocked c \<Longrightarrow> appliedOpsSnapshotLocked d = appliedOpsSnapshotLocked c"
  using arg_cong [of "snapshotStateLocked d" "snapshotStateLocked c" cs_AppliedOps] by (simp add: snapshotStateLocked_def)

lemma index_only_ops: "index_only i c d \<Longrightarrow> appliedOpsSnapshotLocked d = appliedOpsSnapshotLocked c"
  unfolding index_only_def
  using arg_cong [of "snapshotStateLocked d" _ cs_AppliedOps] by (simp add: snapshotStateLocked_def)

lemma not_applied_yet:
  assumes "checkOperationPreconditionsLocked opts fp c = Inr False" "TrimSpace (cw_OperationID opts) \<noteq> []"
  shows "map_of (cp_appliedOps c) (TrimSpace (cw_OperationID opts)) = None"
  using assms by (auto simp: checkOperationPreconditionsLocked_def Let_def split: option.splits if_splits)

text \<open>What an applied entry records.\<close>

lemma applied_records:
  assumes inv: "cp_inv c" and pay: "applyControlPayloadLocked m c = (None, c1)"
    and chk: "checkOperationPreconditionsLocked opts fp c = Inr False"
  shows "appliedOpsSnapshotLocked (observe_index i (noteOperationAppliedLocked opts fp c1)) =
    (if TrimSpace (cw_OperationID opts) = [] then appliedOpsSnapshotLocked c
     else let ops = appliedOpsSnapshotLocked c @
            [\<lparr>ao_ID = TrimSpace (cw_OperationID opts), ao_Fingerprint = fp, ao_Revision = cp_revision c + 1\<rparr>]
          in drop (length ops - maxAppliedControlOps) ops)"
proof -
  note p = payload_ops [OF pay]
  have obs: "appliedOpsSnapshotLocked (observe_index i d) = appliedOpsSnapshotLocked d" for d
    by (simp add: appliedOpsSnapshotLocked_def observe_index_def)
  have ops: "ops_inv (cp_appliedOrder c1) (cp_appliedOps c1)" using inv p by (simp add: cp_inv_def)
  show ?thesis
  proof (cases "TrimSpace (cw_OperationID opts) = []")
    case True
    then show ?thesis using p appliedOps_cong [of c1 c] unfolding obs
      by (simp add: noteOperationAppliedLocked_def Let_def appliedOpsSnapshotLocked_def)
  next
    case False
    have "map_of (cp_appliedOps c1) (TrimSpace (cw_OperationID opts)) = None"
      using not_applied_yet [OF chk False] p by simp
    from note_snapshot [OF ops False this, of fp] False show ?thesis
      using p appliedOps_cong [of c1 c] unfolding obs by simp
  qed
qed

text \<open>
  What a committed entry asks for when every save works: the answer and the state.  An operation that is recorded is
  answered from the record; another one must name the current revision, if it names one, and its mutation must be possible.
\<close>

definition indexed_state :: "controlCommittedEntry \<Rightarrow> controlPlane \<Rightarrow> controlPlaneState" where
  "indexed_state entry c =
     (snapshotStateLocked c)\<lparr>cs_CommitLogAppliedIndex := max (cp_commitLogAppliedIndex c) (ce_Index entry)\<rparr>"

definition applied_state :: "controlCommittedEntry \<Rightarrow> string \<Rightarrow> controlPlane \<Rightarrow> controlPlane \<Rightarrow> controlPlaneState" where
  "applied_state entry fp c c1 =
     (let i = TrimSpace (cm_OperationID (ce_Mutation entry));
          ops = appliedOpsSnapshotLocked c @
            (if i = [] then [] else [\<lparr>ao_ID = i, ao_Fingerprint = fp, ao_Revision = cp_revision c + 1\<rparr>])
      in (snapshotStateLocked c1)
           \<lparr>cs_CommitLogAppliedIndex := max (cp_commitLogAppliedIndex c) (ce_Index entry), cs_Revision := cp_revision c + 1,
            cs_AppliedOps := drop (length ops - maxAppliedControlOps) ops\<rparr>)"

definition commit_spec :: "controlCommittedEntry \<Rightarrow> string \<Rightarrow> controlPlane \<Rightarrow> control_error option \<times> controlPlaneState" where
  "commit_spec entry fp c =
     (let m = ce_Mutation entry; i = TrimSpace (cm_OperationID m) in
      case (if i = [] then None else map_of (cp_appliedOps c) i) of
        Some a \<Rightarrow>
          (if ao_Fingerprint a = fp then None else Some (CRejected ErrControlOperationConflict), indexed_state entry c)
      | None \<Rightarrow>
          if cm_ExpectedRevision m \<noteq> None \<and> cm_ExpectedRevision m \<noteq> Some (cp_revision c)
          then (Some (CRejected ErrControlRevisionConflict), indexed_state entry c)
          else (case applyControlPayloadLocked m c of
                  (Some x, _) \<Rightarrow> (Some (CRejected x), indexed_state entry c)
                | (None, c1) \<Rightarrow> (None, applied_state entry fp c c1)))"

lemma length_appliedOps:
  assumes "cp_inv c"
  shows "length (appliedOpsSnapshotLocked c) \<le> maxAppliedControlOps"
proof -
  have o: "ops_inv (cp_appliedOrder c) (cp_appliedOps c)" using assms by (simp add: cp_inv_def)
  show ?thesis using arg_cong [OF ops_snapshot(1) [OF o], of length] o by (simp add: ops_inv_def)
qed

lemma snapshot_applied:
  assumes "applyControlPayloadLocked m c = (None, c1)"
  shows "snapshotStateLocked (observe_index i (noteOperationAppliedLocked opts fp c1)) =
    (snapshotStateLocked c1)
      \<lparr>cs_CommitLogAppliedIndex := max (cp_commitLogAppliedIndex c) i, cs_Revision := cp_revision c + 1,
       cs_AppliedOps := appliedOpsSnapshotLocked (observe_index i (noteOperationAppliedLocked opts fp c1))\<rparr>"
  using payload_ops [OF assms]
  by (simp add: snapshotStateLocked_def observe_index_def noteOperationAppliedLocked_def value_shard_def replicas_of_def
        shard_at_def Let_def)

lemma commit_spec_check:
  "commit_spec entry fp c =
     (case checkOperationPreconditionsLocked (entry_opts entry) fp c of
        Inl x \<Rightarrow> (Some (CRejected x), indexed_state entry c)
      | Inr True \<Rightarrow> (None, indexed_state entry c)
      | Inr False \<Rightarrow>
          (case applyControlPayloadLocked (ce_Mutation entry) c of
             (Some x, _) \<Rightarrow> (Some (CRejected x), indexed_state entry c)
           | (None, c1) \<Rightarrow> (None, applied_state entry fp c c1)))"
proof (cases "if TrimSpace (cm_OperationID (ce_Mutation entry)) = [] then None
    else map_of (cp_appliedOps c) (TrimSpace (cm_OperationID (ce_Mutation entry)))")
  case (Some a)
  then show ?thesis by (simp add: commit_spec_def checkOperationPreconditionsLocked_def entry_opts_def)
next
  case None
  then show ?thesis
    by (cases "cm_ExpectedRevision (ce_Mutation entry)")
      (simp_all add: commit_spec_def checkOperationPreconditionsLocked_def entry_opts_def)
qed

lemma snapshot_applied_state:
  assumes "cp_inv c" "applyControlPayloadLocked (ce_Mutation entry) c = (None, c1)"
    "checkOperationPreconditionsLocked (entry_opts entry) fp c = Inr False"
  shows "snapshotStateLocked (observe_index (ce_Index entry) (noteOperationAppliedLocked (entry_opts entry) fp c1)) =
    applied_state entry fp c c1"
  unfolding snapshot_applied [OF assms(2)] applied_records [OF assms]
  using length_appliedOps [OF assms(1)] by (simp add: applied_state_def entry_opts_def Let_def)

lemma aims_at_spec:
  assumes inv: "cp_inv c" and aims: "commit_aims entry (entry_opts entry) fp applyControlPayloadLocked c answer d"
  shows "commit_spec entry fp c = (if answer = Some CNoop then None else answer, snapshotStateLocked d)"
proof (cases "checkOperationPreconditionsLocked (entry_opts entry) fp c")
  case (Inl x)
  then show ?thesis using aims by (simp add: commit_spec_check commit_aims_def index_only_def indexed_state_def)
next
  case (Inr b)
  obtain em c1 where pay: "applyControlPayloadLocked (ce_Mutation entry) c = (em, c1)" by fastforce
  show ?thesis
  proof (cases b)
    case True
    then show ?thesis using Inr aims by (simp add: commit_spec_check commit_aims_def index_only_def indexed_state_def)
  next
    case False
    then show ?thesis
      using Inr aims pay snapshot_applied_state [OF inv, of entry c1 fp]
      by (cases em) (simp_all add: commit_spec_check commit_aims_def index_only_def indexed_state_def)
  qed
qed

section \<open>A concrete control plane\<close>

text \<open>Two shards on the nodes \<open>n1\<close> and \<open>n2\<close>, split at the key 109.\<close>

definition example_arrays :: replica_arrays where
  "example_arrays =
     [[],
      [\<lparr>rs_NodeID = ''n1'', rs_Role = ''leader'', rs_Healthy = True\<rparr>, \<lparr>rs_NodeID = ''n2'', rs_Role = ''follower'', rs_Healthy = True\<rparr>],
      [\<lparr>rs_NodeID = ''n1'', rs_Role = ''leader'', rs_Healthy = True\<rparr>, \<lparr>rs_NodeID = ''n2'', rs_Role = ''follower'', rs_Healthy = True\<rparr>]]"

definition example_shards :: "(string \<times> rslice ShardStatus) list" where
  "example_shards =
     [(''a'', \<lparr>ss_WriteLeader = None, ss_ID = ''a'', ss_StartKey = [], ss_EndKey = [109], ss_Leader = ''n1'',
               ss_Replicas = \<lparr>sl_addr = 1, sl_len = 2\<rparr>\<rparr>),
      (''b'', \<lparr>ss_WriteLeader = None, ss_ID = ''b'', ss_StartKey = [109], ss_EndKey = [], ss_Leader = ''n1'',
               ss_Replicas = \<lparr>sl_addr = 2, sl_len = 2\<rparr>\<rparr>)]"

definition example_control :: controlPlane where
  "example_control =
     \<lparr>cp_commitErr = None, cp_commitLogAppliedIndex = 0, cp_nodeID = ''n1'', cp_clusterID = ''c'', cp_storageMode = ''local'',
      cp_raft = \<lparr>ro_Replicas = 3, ro_ElectionTimeout = 0, ro_HeartbeatInterval = 0, ro_Peers = []\<rparr>,
      cp_draining = False, cp_revision = 0, cp_order = [''a'', ''b''], cp_shards = example_shards,
      cp_routes = [\<lparr>rt_id = ''a'', rt_start = [], rt_end = [109]\<rparr>, \<lparr>rt_id = ''b'', rt_start = [109], rt_end = []\<rparr>],
      cp_appliedOps = [], cp_appliedOrder = [], cp_statePath = ''/d/control_state.json'', cp_arrays = example_arrays,
      cp_growcap = (\<lambda>old n. max (2 * old) n)\<rparr>"

lemma plain_trimmed: "list_all plain_char s \<Longrightarrow> trimmed s"
proof (cases "s = []")
  case True
  then show ?thesis by (simp add: trimmed_iff)
next
  case False
  moreover assume "list_all plain_char s"
  ultimately show ?thesis using trimmed_append [of "[]" s] by (simp add: trimmed_iff)
qed

lemma example_inv: "cp_inv example_control"
proof -
  have tr: "trimmed ''a''" "trimmed ''b''" by (rule plain_trimmed, simp add: plain_char_def)+
  have "buildShardRoutes [''a'', ''b''] example_shards =
      Inr [\<lparr>rt_id = ''a'', rt_start = [], rt_end = [109]\<rparr>, \<lparr>rt_id = ''b'', rt_start = [109], rt_end = []\<rparr>]"
    using tr by (simp add: buildShardRoutes_def trimmed_def example_shards_def Let_def)
  moreover have "shards_inv example_arrays example_shards"
    by (auto simp: shards_inv_def example_shards_def example_arrays_def slice_ok_def backing_def)
  ultimately show ?thesis
    using tr by (simp add: cp_inv_def example_control_def ops_inv_def)
qed

section \<open>Properties\<close>

lemma scan_routes:
  assumes "\<And>i. i \<in> set ids \<Longrightarrow> map_of (cp_shards c) i = Some (shard_at c i)"
  shows "(case find (in_route key) (map (route_of (cp_shards c)) ids) of
      None \<Rightarrow> None | Some route \<Rightarrow> map_of (cp_shards c) (rt_id route)) =
    find (\<lambda>s. keyInRange key (ss_StartKey s) (ss_EndKey s)) (map (shard_at c) ids)"
  using assms
proof (induction ids)
  case (Cons i ids)
  have "map_of (cp_shards c) i = Some (shard_at c i)" using Cons.prems by simp
  with Cons show ?case by (simp add: route_of_def in_route_def)
qed simp

text \<open>
  C15: the binary search of \<^verbatim>\<open>shardForKeyLocked\<close> answers what a scan of the shards in order answers: the
  shard whose range holds the key, and none when no range does.
\<close>

theorem shard_routing_is_scan:
  assumes "cp_inv c"
  shows "shardForKeyLocked c key =
    find (\<lambda>s. keyInRange key (ss_StartKey s) (ss_EndKey s)) (map (shard_at c) (cp_order c))"
proof -
  have at: "map_of (cp_shards c) i = Some (shard_at c i)" if "i \<in> set (cp_order c)" for i
    using shard_at_order(1) [OF assms that] .
  have "shardForKeyLocked c key =
      (case find (in_route key) (map (route_of (cp_shards c)) (cp_order c)) of
         None \<Rightarrow> None | Some route \<Rightarrow> map_of (cp_shards c) (rt_id route))"
    using route_for_key_find [OF cp_inv_routes(7) [OF assms]] cp_inv_routes(6) [OF assms]
    by (simp add: shardForKeyLocked_def)
  also have "\<dots> = find (\<lambda>s. keyInRange key (ss_StartKey s) (ss_EndKey s)) (map (shard_at c) (cp_order c))"
    by (rule scan_routes) (rule at)
  finally show ?thesis .
qed

theorem shard_routing_is_scan_witness:
  "cp_inv example_control \<and> shardForKeyLocked example_control [200] = Some (shard_at example_control ''b'') \<and>
   shardForKeyLocked example_control [7] = Some (shard_at example_control ''a'')"
  using example_inv shard_routing_is_scan [OF example_inv, of "[200]"] shard_routing_is_scan [OF example_inv, of "[7]"]
  by (simp add: example_control_def shard_at_def example_shards_def keyInRange_def)

text \<open>
  C14: a successful split sends every key of the old range below the split key to the new left shard and
  every other key of it to the new right shard; all other keys and shards stay where they were.
\<close>

theorem split_divides_range:
  assumes "cp_inv c" "applySplitPayloadLocked m c = (None, c')"
  shows "cp_inv c' \<and>
    (\<exists>l r. l \<noteq> r \<and> l \<notin> set (cp_order c) \<and> r \<notin> set (cp_order c) \<and>
       (\<forall>key. shardIDForKey c' key =
          (if shardIDForKey c key = Some (cm_ShardID m) then Some (if key < cm_Split m then l else r)
           else shardIDForKey c key)) \<and>
       (\<forall>i. i \<noteq> cm_ShardID m \<and> i \<in> set (cp_order c) \<longrightarrow> map_of (cp_shards c') i = map_of (cp_shards c) i))"
proof -
  note order = cp_inv_routes(5) [OF assms(1)]
  obtain s l r where "map_of (cp_shards c) (cm_ShardID m) = Some s" and
    lr: "l \<noteq> r" "map_of (cp_shards c) l = None" "map_of (cp_shards c) r = None"
    "map_of (cp_shards c') = ((map_of (cp_shards c))(cm_ShardID m := None))
       (l \<mapsto> s\<lparr>ss_ID := l, ss_EndKey := cm_Split m\<rparr>, r \<mapsto> s\<lparr>ss_ID := r, ss_StartKey := cm_Split m\<rparr>)"
    "\<forall>key. shardIDForKey c' key =
       (if shardIDForKey c key = Some (cm_ShardID m) then Some (if key < cm_Split m then l else r)
        else shardIDForKey c key)"
    by (rule split_routes [OF assms])
  have "map_of (cp_shards c') i = map_of (cp_shards c) i" if "i \<noteq> cm_ShardID m" "i \<in> set (cp_order c)" for i
  proof -
    have "i \<noteq> l" "i \<noteq> r" using that order lr(2,3) by auto
    then show ?thesis using that lr(4) by simp
  qed
  moreover have "l \<notin> set (cp_order c)" "r \<notin> set (cp_order c)" using order lr(2,3) by auto
  moreover have "cp_inv c'" using split_inv(2) [OF assms] by simp
  ultimately show ?thesis using lr(1,5) by blast
qed

definition example_split :: controlMutation where
  "example_split = empty_mutation\<lparr>cm_Kind := ''split'', cm_ShardID := ''a'', cm_Split := [50]\<rparr>"

lemma example_split_ok: "fst (applySplitPayloadLocked example_split example_control) = None"
proof -
  have "trimmed ''a-a''" "trimmed ''a-b''" "trimmed ''b''" by (rule plain_trimmed, simp add: plain_char_def)+
  then show ?thesis
    by (simp add: applySplitPayloadLocked_def example_split_def empty_mutation_def example_control_def example_shards_def
          keyInRange_def uniqueShardID_def rebuildRoutesLocked_def buildShardRoutes_def Let_def trimmed_def)
qed

theorem split_divides_range_witness:
  "let c' = snd (applySplitPayloadLocked example_split example_control) in
   cp_inv c' \<and> shardIDForKey c' [200] = Some ''b'' \<and> shardIDForKey c' [7] \<noteq> shardIDForKey c' [60]"
proof -
  let ?c' = "snd (applySplitPayloadLocked example_split example_control)"
  have run: "applySplitPayloadLocked example_split example_control = (None, ?c')"
    using example_split_ok by (metis prod.collapse)
  have a: "shardIDForKey example_control [200] = Some ''b''" "shardIDForKey example_control [7] = Some ''a''"
    "shardIDForKey example_control [60] = Some ''a''"
    unfolding shardIDForKey_find [OF example_inv] by (simp_all add: example_control_def in_route_iff)
  show ?thesis
    using split_divides_range [OF example_inv run] a by (auto simp: Let_def example_split_def empty_mutation_def)
qed

lemma commit_runs:
  assumes inv: "cp_inv c" and fp: "mutation_fingerprint (ce_Mutation entry) = Some fp"
    and entry: "ce_Index entry \<noteq> 0" "ce_Term entry \<noteq> 0"
    and run: "applyCommittedControlFromLog dirs entry c s = (e, c', s')"
  shows "cp_inv c' \<and> control_same c c' \<and>
    (let (answer, target) = commit_spec entry fp c in
     e = answer \<and> snapshotStateLocked c' = target \<and> (saved_in c' s' \<or> e = None \<and> c' = c \<and> s' = s) \<or>
     (\<exists>x. e = Some (CErr x)) \<and> fs_faults s \<noteq> [] \<and> snapshotStateLocked c' = snapshotStateLocked c \<and>
       (map_of (fs_dir s') (cp_statePath c) = map_of (fs_dir s) (cp_statePath c) \<or>
        map_of (fs_dir s') (cp_statePath c) = Some (marshal_state target)))"
proof -
  obtain e1 where r: "applyCommittedControlMutation dirs entry (entry_opts entry) fp applyControlPayloadLocked c s = (e1, c', s')"
      "e = (if e1 = Some CNoop then None else e1)"
    using run fp by (auto simp: fromLog_eq split: prod.splits)
  show ?thesis
  proof (cases rule: commit_saves [OF inv good_payload fingerprint_not_blank [OF fp] entry, of dirs "entry_opts entry" s])
    case 1
    then have "commit_spec entry fp c = (None, snapshotStateLocked c)"
      by (simp add: commit_spec_check indexed_state_def max_absorb1) (simp add: snapshotStateLocked_def)
    then show ?thesis using 1 r inv by simp
  next
    case aims: (2 answer d)
    note spec = aims_at_spec [OF inv aims(4)]
    have run': "saves_as dirs c answer d s = (e1, c', s')" using aims(1) r(1) by simp
    show ?thesis
    proof (cases rule: saves_as_ok [OF inv aims(2,3) run'])
      case (1 x)
      have "fs_faults s \<noteq> []" using saveLocked_no_faults [of s dirs d] 1(5) by auto
      moreover have "cp_statePath d = cp_statePath c" using aims(3) by (simp add: control_same_def)
      moreover have "cp_statePath d \<noteq> []" using 1(5) by (auto simp: saveLocked_def)
      ultimately show ?thesis using 1 r(2) spec saveLocked_atomic [of d dirs s "Some x" s'] by auto
    next
      case 2
      then show ?thesis using aims(2,3) spec r(2) by simp
    qed
  qed
qed

text \<open>
  C12: a committed entry is applied as a whole or not at all.  An entry without index or term or of an unknown kind is
  refused and changes nothing.  For every other entry, and whatever input/output operation fails, the invariant is kept and
  one of two things happens.  Either the answer and the state are what the specification asks for, and that state is in the
  state file: a recorded operation is not applied again, a conflicting or impossible one is rejected with its cause and
  only the applied index moves, and otherwise the mutation is carried out, the revision counted and the operation recorded.
  Only an entry that is recorded and whose index is already counted needs no save.  Or an operation failed: the answer is an
  error, the state in memory is the one before, and the state file holds what it held or the state aimed at.
\<close>

theorem control_commit_atomic:
  assumes "cp_inv c" "applyCommittedControlFromLog dirs entry c s = (e, c', s')"
  shows "cp_inv c' \<and> control_same c c' \<and>
    (case mutation_fingerprint (ce_Mutation entry) of
       None \<Rightarrow> (\<exists>x. e = Some (CErr x)) \<and> c' = c \<and> s' = s
     | Some fp \<Rightarrow>
         if ce_Index entry = 0 \<or> ce_Term entry = 0 then (\<exists>x. e = Some (CErr x)) \<and> c' = c \<and> s' = s
         else (let (answer, target) = commit_spec entry fp c in
               e = answer \<and> snapshotStateLocked c' = target \<and> (saved_in c' s' \<or> e = None \<and> c' = c \<and> s' = s) \<or>
               (\<exists>x. e = Some (CErr x)) \<and> fs_faults s \<noteq> [] \<and> snapshotStateLocked c' = snapshotStateLocked c \<and>
                 (map_of (fs_dir s') (cp_statePath c) = map_of (fs_dir s) (cp_statePath c) \<or>
                  map_of (fs_dir s') (cp_statePath c) = Some (marshal_state target))))"
proof (cases "mutation_fingerprint (ce_Mutation entry)")
  case None
  then show ?thesis using assms by (auto simp: fromLog_eq)
next
  case (Some fp)
  show ?thesis
  proof (cases "ce_Index entry = 0 \<or> ce_Term entry = 0")
    case True
    then show ?thesis using assms Some by (auto simp: fromLog_eq applyCommittedControlMutation_def)
  next
    case False
    then show ?thesis using commit_runs [OF assms(1) Some _ _ assms(2)] Some by simp
  qed
qed

definition example_entry :: controlCommittedEntry where
  "example_entry = \<lparr>ce_Index = 1, ce_Term = 1, ce_Mutation =
     empty_mutation\<lparr>cm_Kind := ''transfer-leader'', cm_ShardID := ''none'', cm_Target := ''n2''\<rparr>\<rparr>"

theorem control_commit_atomic_witness:
  "let (e, c', s') = applyCommittedControlFromLog 2 example_entry example_control \<lparr>fs_dir = [], fs_now = 0, fs_faults = []\<rparr>
   in cp_inv c' \<and> e = Some (CRejected ErrShardNotFound) \<and> cp_commitLogAppliedIndex c' = 1 \<and> saved_in c' s'"
proof -
  obtain e c' s' where r: "applyCommittedControlFromLog 2 example_entry example_control
      \<lparr>fs_dir = [], fs_now = 0, fs_faults = []\<rparr> = (e, c', s')" by (metis surj_pair)
  have pay: "applyControlPayloadLocked (ce_Mutation example_entry) example_control = (Some ErrShardNotFound, example_control)"
    by (simp add: example_entry_def empty_mutation_def applyControlPayloadLocked_def applyTransferLeaderPayloadLocked_def
          example_control_def example_shards_def)
  have spec: "commit_spec example_entry fp example_control =
      (Some (CRejected ErrShardNotFound), (snapshotStateLocked example_control)\<lparr>cs_CommitLogAppliedIndex := 1\<rparr>)" for fp
    using pay
    by (simp add: commit_spec_def indexed_state_def TrimSpace_def trim_front.simps example_entry_def empty_mutation_def Let_def)
      (simp add: example_control_def)
  have fp: "mutation_fingerprint (ce_Mutation example_entry) = Some (transferLeaderFingerprint ''none'' ''n2'')"
    and ix: "ce_Index example_entry = 1" "ce_Term example_entry = 1"
    by (simp_all add: mutation_fingerprint_def example_entry_def empty_mutation_def)
  have c': "cp_inv c'" "e = Some (CRejected ErrShardNotFound)" "saved_in c' s'"
    "snapshotStateLocked c' = (snapshotStateLocked example_control)\<lparr>cs_CommitLogAppliedIndex := 1\<rparr>"
    using control_commit_atomic [OF example_inv r] by (auto simp: fp ix spec)
  have "cp_commitLogAppliedIndex c' = 1"
    using arg_cong [OF c'(4), of cs_CommitLogAppliedIndex] by (simp add: snapshotStateLocked_def)
  with c' r show ?thesis by simp
qed

end
