(* ===== verification/Control_Log.thy ===== *)
theory Control_Log
  imports Control_Props
begin

text \<open>
  Sequences of committed entries: an operation id is applied once within the window of 256 recorded
  operations, and a restart resumes the state.
\<close>

section \<open>Sequences of entries\<close>

fun apply_log :: "nat \<Rightarrow> controlCommittedEntry list \<Rightarrow> controlPlane \<Rightarrow> fs \<Rightarrow> controlPlane \<times> fs" where
  "apply_log dirs [] c s = (c, s)"
| "apply_log dirs (entry # entries) c s =
     (case applyCommittedControlFromLog dirs entry c s of (_, c1, s1) \<Rightarrow> apply_log dirs entries c1 s1)"

section \<open>The window\<close>

definition recorded_within :: "nat \<Rightarrow> appliedOperationState \<Rightarrow> controlPlane \<Rightarrow> bool" where
  "recorded_within k a c \<longleftrightarrow> (\<exists>ys zs. appliedOpsSnapshotLocked c = ys @ a # zs \<and> length zs \<le> k)"

lemma recorded_step:
  assumes inv: "cp_inv c" and rec: "recorded_within k a c" "Suc k < maxAppliedControlOps"
    and run: "applyCommittedControlFromLog dirs entry c s = (e, c', s')"
  shows "recorded_within (Suc k) a c' \<and> cp_inv c'"
proof -
  obtain ys zs where yz: "appliedOpsSnapshotLocked c = ys @ a # zs" "length zs \<le> k" using rec(1) by (auto simp: recorded_within_def)
  have keep: "recorded_within (Suc k) a c'" if "appliedOpsSnapshotLocked c' = appliedOpsSnapshotLocked c"
    using that yz unfolding recorded_within_def by (metis le_SucI)
  note len = length_appliedOps [OF inv]
  from inv run show ?thesis
  proof (cases rule: fromLog_cases)
    case failed
    then show ?thesis using keep snapshot_ops by blast
  next
    case rejected
    then show ?thesis using keep index_only_ops by blast
  next
    case noop
    then show ?thesis using keep index_only_ops by blast
  next
    case (applied fp c1)
    note r = applied_records [OF inv applied(5,9), of "ce_Index entry"]
    show ?thesis
    proof (cases "TrimSpace (cw_OperationID (entry_opts entry)) = []")
      case True
      then show ?thesis using keep r applied(2,7) by simp
    next
      case False
      then obtain b where b: "appliedOpsSnapshotLocked c' = drop (Suc (length (appliedOpsSnapshotLocked c)) - maxAppliedControlOps)
          (appliedOpsSnapshotLocked c @ [b])" using r applied(7) by (simp add: Let_def)
      define n where "n = Suc (length (appliedOpsSnapshotLocked c)) - maxAppliedControlOps"
      have n: "n \<le> length ys"
        using len yz rec(2) by (cases ys) (auto simp: n_def)
      have "appliedOpsSnapshotLocked c' = drop n ys @ a # (zs @ [b])"
        using b n by (simp add: yz(1) n_def [symmetric] del: append_assoc) (simp add: n_def yz)
      moreover have "length (zs @ [b]) \<le> Suc k" using yz(2) by simp
      ultimately show ?thesis using applied(2) unfolding recorded_within_def by blast
    qed
  qed
qed

lemma recorded_log:
  assumes "cp_inv c" "recorded_within k a c" "k + length entries < maxAppliedControlOps"
    "apply_log dirs entries c s = (c', s')"
  shows "recorded_within (k + length entries) a c' \<and> cp_inv c'"
  using assms
proof (induction entries arbitrary: c s k)
  case (Cons entry entries)
  obtain e c1 s1 where r: "applyCommittedControlFromLog dirs entry c s = (e, c1, s1)" by (metis surj_pair)
  have st: "recorded_within (Suc k) a c1" "cp_inv c1"
    using recorded_step [OF Cons.prems(1,2) _ r] Cons.prems(3) by simp_all
  have "recorded_within (Suc k + length entries) a c' \<and> cp_inv c'"
    using Cons.prems(3,4) r by (intro Cons.IH [OF st(2,1)]) simp_all
  then show ?case by simp
qed simp

lemma recorded_check:
  assumes "cp_inv c" "recorded_within k a c" "ao_ID a = TrimSpace (cw_OperationID opts)" "ao_ID a \<noteq> []"
  shows "checkOperationPreconditionsLocked opts (ao_Fingerprint a) c = Inr True"
proof -
  have o: "ops_inv (cp_appliedOrder c) (cp_appliedOps c)" using assms(1) by (simp add: cp_inv_def)
  have "a \<in> set (appliedOpsSnapshotLocked c)" using assms(2) by (auto simp: recorded_within_def)
  then have "map_of (cp_appliedOps c) (ao_ID a) = Some a" by (simp add: ops_in_snapshot [OF o])
  then show ?thesis using assms(3,4) by (simp add: checkOperationPreconditionsLocked_def Let_def)
qed

lemma recorded_is_noop:
  assumes inv: "cp_inv c" and fp: "mutation_fingerprint (ce_Mutation entry) = Some fp"
    and chk: "checkOperationPreconditionsLocked (entry_opts entry) fp c = Inr True"
    and run: "applyCommittedControlFromLog dirs entry c s = (e, c', s')"
  shows "cp_inv c' \<and> (snapshotStateLocked c' = snapshotStateLocked c \<or> e = None \<and> index_only (ce_Index entry) c c')"
  using inv run
proof (cases rule: fromLog_cases)
  case (rejected x)
  have "e \<noteq> Some (CRejected x)"
    using run chk fp
    by (auto simp: fromLog_eq applyCommittedControlMutation_def split: if_splits prod.splits option.splits)
  with rejected show ?thesis by blast
next
  case (applied fp' d)
  then show ?thesis using chk fp by simp
qed auto

text \<open>
  C13: an operation that was applied with an operation id is applied once: when the same mutation is committed
  again after at most 254 further entries, whatever they do and whatever input/output operation fails, the
  second entry changes nothing but the applied index.
\<close>

theorem operation_applied_once:
  assumes "cp_inv c"
    and "applyCommittedControlFromLog dirs entry c s = (None, c1, s1)"
    and "TrimSpace (cm_OperationID (ce_Mutation entry)) \<noteq> []"
    and "map_of (cp_appliedOps c) (TrimSpace (cm_OperationID (ce_Mutation entry))) = None"
    and "length entries < 255" "apply_log dirs entries c1 s1 = (c2, s2)"
    and "ce_Mutation again = ce_Mutation entry"
    and "applyCommittedControlFromLog dirs again c2 s2 = (e, c3, s3)"
  shows "cp_inv c3 \<and> (snapshotStateLocked c3 = snapshotStateLocked c2 \<or> e = None \<and> index_only (ce_Index again) c2 c3)"
proof -
  let ?i = "TrimSpace (cm_OperationID (ce_Mutation entry))"
  have opts: "TrimSpace (cw_OperationID (entry_opts entry)) = ?i" "entry_opts again = entry_opts entry"
    using assms(7) by (simp_all add: entry_opts_def)
  obtain fp a where fp: "mutation_fingerprint (ce_Mutation entry) = Some fp"
    and a: "recorded_within 0 a c1" "ao_ID a = ?i" "ao_Fingerprint a = fp" and inv1: "cp_inv c1"
    using assms(1,2)
  proof (cases rule: fromLog_cases)
    case (noop fp)
    then show thesis using assms(3,4) opts by (auto simp: checkOperationPreconditionsLocked_def split: option.splits if_splits)
  next
    case (applied fp d)
    define b where "b = \<lparr>ao_ID = ?i, ao_Fingerprint = fp, ao_Revision = cp_revision c + 1\<rparr>"
    define n where "n = length (appliedOpsSnapshotLocked c @ [b]) - maxAppliedControlOps"
    have "appliedOpsSnapshotLocked c1 = drop n (appliedOpsSnapshotLocked c @ [b])"
      unfolding applied(7) n_def
      using applied_records [OF assms(1) applied(5,9), of "ce_Index entry"] assms(3) opts by (simp add: Let_def b_def)
    moreover have "n \<le> length (appliedOpsSnapshotLocked c)" by (simp add: n_def maxAppliedControlOps_def)
    ultimately have "appliedOpsSnapshotLocked c1 = drop n (appliedOpsSnapshotLocked c) @ [b]" by simp
    then show thesis using applied(2,4) by (intro that [of fp b]) (auto simp: recorded_within_def b_def)
  qed simp_all
  have "recorded_within (0 + length entries) a c2 \<and> cp_inv c2"
    using assms(5) by (intro recorded_log [OF inv1 a(1) _ assms(6)]) (simp add: maxAppliedControlOps_def)
  then have chk: "checkOperationPreconditionsLocked (entry_opts again) fp c2 = Inr True" and inv2: "cp_inv c2"
    using recorded_check [of c2 _ a "entry_opts entry"] a(2,3) assms(3) opts by auto
  have "mutation_fingerprint (ce_Mutation again) = Some fp" using fp assms(7) by simp
  from recorded_is_noop [OF inv2 this chk assms(8)] show ?thesis by blast
qed

lemma fromLog_succeeds:
  assumes "fs_faults s = []" "ce_Index entry \<noteq> 0" "ce_Term entry \<noteq> 0"
    and "mutation_fingerprint (ce_Mutation entry) = Some fp"
    and "checkOperationPreconditionsLocked (entry_opts entry) fp c = Inr False"
    and "applyControlPayloadLocked (ce_Mutation entry) c = (None, c1)"
  shows "\<exists>s'. applyCommittedControlFromLog dirs entry c s =
    (None, observe_index (ce_Index entry) (noteOperationAppliedLocked (entry_opts entry) fp c1), s') \<and> fs_faults s' = []"
  using assms rollback_no_faults [OF assms(1), of dirs "snapshotStateLocked c"
      "observe_index (ce_Index entry) (noteOperationAppliedLocked (entry_opts entry) fp c1)"]
  by (auto simp: fromLog_eq applyCommittedControlMutation_def)

definition example_transfer :: controlCommittedEntry where
  "example_transfer = \<lparr>ce_Index = 1, ce_Term = 1, ce_Mutation =
     empty_mutation\<lparr>cm_Kind := ''transfer-leader'', cm_OperationID := ''op'', cm_ShardID := ''a'', cm_Target := ''n2''\<rparr>\<rparr>"

definition empty_fs :: fs where "empty_fs = \<lparr>fs_dir = [], fs_now = 0, fs_faults = []\<rparr>"

lemma example_transfer_ok: "\<exists>c1 s1. applyCommittedControlFromLog 2 example_transfer example_control empty_fs = (None, c1, s1)"
proof -
  obtain s where s: "map_of (cp_shards example_control) (cm_ShardID (ce_Mutation example_transfer)) = Some s"
    by (simp add: example_transfer_def empty_mutation_def example_control_def example_shards_def)
  obtain c1 s' where "applyTransferLeaderPayloadLocked (ce_Mutation example_transfer) example_control = (None, c1)"
    using transfer_ok [OF example_inv s] by metis
  then have "applyControlPayloadLocked (ce_Mutation example_transfer) example_control = (None, c1)"
    by (simp add: applyControlPayloadLocked_def example_transfer_def empty_mutation_def)
  moreover have "checkOperationPreconditionsLocked (entry_opts example_transfer) fp example_control = Inr False" for fp
    by (simp add: checkOperationPreconditionsLocked_def entry_opts_def example_transfer_def empty_mutation_def
          example_control_def Let_def)
  moreover have "mutation_fingerprint (ce_Mutation example_transfer) = Some (transferLeaderFingerprint ''a'' ''n2'')"
    by (simp add: mutation_fingerprint_def example_transfer_def empty_mutation_def)
  ultimately show ?thesis
    using fromLog_succeeds [of empty_fs example_transfer]
    by (simp add: empty_fs_def) (metis example_transfer_def controlCommittedEntry.select_convs(1,2) zero_neq_one)
qed

theorem operation_applied_once_witness:
  "let (e1, c1, s1) = applyCommittedControlFromLog 2 example_transfer example_control empty_fs;
       (e2, c2, s2) = applyCommittedControlFromLog 2 (example_transfer\<lparr>ce_Index := 2\<rparr>) c1 s1
   in e1 = None \<and> cp_inv c2 \<and> cp_revision c2 = cp_revision c1"
proof -
  obtain c1 s1 where r1: "applyCommittedControlFromLog 2 example_transfer example_control empty_fs = (None, c1, s1)"
    using example_transfer_ok by blast
  obtain e2 c2 s2 where r2: "applyCommittedControlFromLog 2 (example_transfer\<lparr>ce_Index := 2\<rparr>) c1 s1 = (e2, c2, s2)"
    by (metis surj_pair)
  have "trimmed ''op''" by (rule plain_trimmed) (simp add: plain_char_def)
  then have "TrimSpace (cm_OperationID (ce_Mutation example_transfer)) \<noteq> []"
    by (simp add: example_transfer_def trimmed_def)
  moreover have "map_of (cp_appliedOps example_control) k = None" for k by (simp add: example_control_def)
  ultimately have "cp_inv c2 \<and> (snapshotStateLocked c2 = snapshotStateLocked c1 \<or>
      e2 = None \<and> index_only (ce_Index (example_transfer\<lparr>ce_Index := 2\<rparr>)) c1 c2)"
    using operation_applied_once [OF example_inv r1, of "[]" c1 s1 "example_transfer\<lparr>ce_Index := 2\<rparr>"] r2 by simp
  moreover have "cp_revision c2 = cp_revision c1"
    if "cs_Revision (snapshotStateLocked c2) = cs_Revision (snapshotStateLocked c1)"
    using that by (simp add: snapshotStateLocked_def)
  ultimately show ?thesis using r1 r2 by (auto simp: index_only_def)
qed

section \<open>Drains\<close>

text \<open>
  C18: after a successful drain of its own node no shard is led by it, every shard it led has a healthy
  replica as leader, every other leader is unchanged, and every write is refused.
\<close>

theorem drain_hands_over:
  assumes "cp_inv c" "cm_NodeID m = cp_nodeID c" "applyDrainPayloadLocked m c = (None, c')"
  shows "cp_inv c' \<and> (\<forall>key leader. allowWrite leader c' key = Some ErrBackpressure) \<and>
    (\<forall>i \<in> set (cp_order c'). ss_Leader (shard_at c' i) \<noteq> cp_nodeID c \<and>
       (if ss_Leader (shard_at c i) = cp_nodeID c
        then \<exists>r \<in> set (replicas_of c (shard_at c i)). rs_Healthy r \<and> ss_Leader (shard_at c' i) = rs_NodeID r
        else ss_Leader (shard_at c' i) = ss_Leader (shard_at c i)))"
proof -
  note d = drain_ok [OF assms(1,3)]
  have "cp_draining c'" using d(6) assms(2) by simp
  then have "allowWrite leader c' key = Some ErrBackpressure" for leader key by (simp add: allowWrite_def)
  moreover have "ss_Leader (shard_at c' i) \<noteq> cp_nodeID c \<and>
       (if ss_Leader (shard_at c i) = cp_nodeID c
        then \<exists>r \<in> set (replicas_of c (shard_at c i)). rs_Healthy r \<and> ss_Leader (shard_at c' i) = rs_NodeID r
        else ss_Leader (shard_at c' i) = ss_Leader (shard_at c i))" if "i \<in> set (cp_order c')" for i
    using d(5) [of i] that d(3) assms(2) by (auto split: if_splits)
  ultimately show ?thesis using d(1) by blast
qed

definition example_drain :: controlMutation where
  "example_drain = empty_mutation\<lparr>cm_Kind := ''prepare-drain'', cm_NodeID := ''n1''\<rparr>"

theorem drain_hands_over_witness:
  "let (e, c') = applyDrainPayloadLocked example_drain example_control in
   e = None \<and> cp_inv c' \<and> ss_Leader (shard_at c' ''a'') = ''n2''"
proof -
  obtain e c' where r: "applyDrainPayloadLocked example_drain example_control = (e, c')" by fastforce
  have t: "drain_targets example_control ''n1'' [''a'', ''b''] [] = Inr [(''a'', ''n2''), (''b'', ''n2'')]"
    by (simp add: example_control_def shard_at_def example_shards_def replicas_of_def slice_read_def backing_def
          example_arrays_def Let_def)
  then have e: "e = None"
    using r by (simp add: applyDrainPayloadLocked_def example_drain_def empty_mutation_def example_control_def Let_def)
  have n: "cm_NodeID example_drain = cp_nodeID example_control"
    by (simp add: example_drain_def empty_mutation_def example_control_def)
  note d = drain_hands_over [OF example_inv n r [unfolded e]]
  have o: "cp_order c' = [''a'', ''b'']" using drain_ok(3) [OF example_inv r [unfolded e]] by (simp add: example_control_def)
  have reps: "set (replicas_of example_control (shard_at example_control ''a'')) =
      {\<lparr>rs_NodeID = ''n1'', rs_Role = ''leader'', rs_Healthy = True\<rparr>, \<lparr>rs_NodeID = ''n2'', rs_Role = ''follower'', rs_Healthy = True\<rparr>}"
    and led: "ss_Leader (shard_at example_control ''a'') = cp_nodeID example_control" "cp_nodeID example_control = ''n1''"
    by (simp_all add: example_control_def shard_at_def example_shards_def replicas_of_def slice_read_def backing_def
          example_arrays_def)
  have "''a'' \<in> set (cp_order c')" using o by simp
  with d have "ss_Leader (shard_at c' ''a'') = ''n2''" by (auto simp: reps led)
  with d r e show ?thesis by simp
qed

end
