(* ===== verification/Control_Restart.thy ===== *)
theory Control_Restart
  imports Control_Log
begin

text \<open>
  Restarts, the contract of a commit log with the proposals that rely on it, and three defects of the
  control plane.
\<close>

section \<open>Restarts\<close>

lemma fromLog_saved:
  assumes "cp_inv c" "fs_faults s = []" "saved_in c s"
    and run: "applyCommittedControlFromLog dirs entry c s = (e, c', s')"
  shows "cp_inv c' \<and> control_same c c' \<and> saved_in c' s' \<and> fs_faults s' = []"
proof -
  have "cp_inv c' \<and> control_same c c'" using assms(1) run by (cases rule: fromLog_cases) auto
  moreover have "saved_in c' s' \<and> fs_faults s' = []"
  proof (cases "mutation_fingerprint (ce_Mutation entry)")
    case None
    then show ?thesis using run assms by (simp add: fromLog_eq)
  next
    case (Some fp)
    then obtain e1 where "applyCommittedControlMutation dirs entry (entry_opts entry) fp applyControlPayloadLocked c s = (e1, c', s')"
      using run by (auto simp: fromLog_eq split: prod.splits)
    from commit_saved [OF assms(1) good_payload assms(2,3) this] show ?thesis .
  qed
  ultimately show ?thesis by blast
qed

lemma log_saved:
  assumes "cp_inv c" "fs_faults s = []" "saved_in c s" "apply_log dirs entries c s = (c', s')"
  shows "cp_inv c' \<and> control_same c c' \<and> saved_in c' s' \<and> fs_faults s' = []"
  using assms
proof (induction entries arbitrary: c s)
  case (Cons entry entries)
  obtain e c1 s1 where r: "applyCommittedControlFromLog dirs entry c s = (e, c1, s1)" by (metis surj_pair)
  note st = fromLog_saved [OF Cons.prems(1-3) r]
  have "cp_inv c' \<and> control_same c1 c' \<and> saved_in c' s' \<and> fs_faults s' = []"
    using st Cons.prems(4) r by (intro Cons.IH [of c1 s1]) auto
  then show ?case using st control_same_trans by blast
qed simp

lemma control_base_boot:
  assumes "control_base path gc opts = Inr c0"
  shows "boot_inv c0" "op_ControlStatePath opts \<noteq> [] \<Longrightarrow> cp_statePath c0 = op_ControlStatePath opts"
  using assms by (auto simp: control_base_def boot_inv_def shards_inv_def ops_inv_def Let_def split: if_splits)

lemma bootstrap_no_faults:
  assumes "loadOrBootstrap dirs sm c0 s = (None, c, s')" "loadState c0 s = Inl ErrNotExist" "fs_faults s = []"
  shows "fs_faults s' = []"
proof -
  have b: "fs_faults s' = []" if "bootstrap_save dirs d s = (None, c, s')" for d
    using that saveLocked_no_faults [OF assms(3), of dirs "snd (rebuildRoutesLocked d)"]
    by (auto simp: bootstrap_save_def split: prod.splits option.splits)
  show ?thesis
    using assms(1,2) b by (auto simp: loadOrBootstrap_def split: prod.splits option.splits if_splits)
qed

text \<open>
  C17: a control plane that started without a state file and applied any sequence of committed entries without
  input/output errors comes back from its state file after a restart with the same options, provided that every string of
  the state it reached is ASCII and its numbers fit the JSON decoder (\<open>state_encodable\<close>): a state with invalid UTF-8,
  which a transfer to such a target puts there, is rewritten by \<^verbatim>\<open>encoding/json\<close> and does not come back.  The new control
  plane has the same order, shards, replicas, revision, applied operations and index, and routes every key alike.
\<close>

theorem control_state_survives_restart:
  assumes "fs_faults s0 = []" "map_of (fs_dir s0) (op_ControlStatePath opts) = None" "op_ControlStatePath opts \<noteq> []"
    and "newControlPlane path None gc dirs opts s0 = (Inr c0, s1)"
    and "apply_log dirs entries c0 s1 = (c, s)"
    and "state_encodable (snapshotStateLocked c)"
  shows "\<exists>d. newControlPlane path None gc dirs opts s = (Inr d, s) \<and> cp_inv d \<and>
    snapshotStateLocked d = snapshotStateLocked c \<and> (\<forall>key. shardIDForKey d key = shardIDForKey c key)"
proof -
  obtain b where b: "control_base path gc opts = Inr b" "loadOrBootstrap dirs (op_ShardMap opts) b s0 = (None, c0, s1)"
    using assms(4) by (auto simp: newControlPlane_def split: sum.splits prod.splits option.splits)
  have path: "cp_statePath b = op_ControlStatePath opts" using control_base_boot(2) [OF b(1) assms(3)] .
  have none: "loadState b s0 = Inl ErrNotExist" using assms(2,3) path by (simp add: loadState_def)
  have c0: "cp_inv c0" "control_same b c0" "saved_in c0 s1"
    using bootstrap_ok [OF b(2) none control_base_boot(1) [OF b(1)]] by simp_all
  have "fs_faults s1 = []" using bootstrap_no_faults [OF b(2) none assms(1)] .
  from log_saved [OF c0(1) this c0(3) assms(5)]
  have c: "cp_inv c" "control_same c0 c" "saved_in c s" by simp_all
  have cfg: "control_same c b" "cp_statePath c \<noteq> []"
    using c(2) c0(2) path assms(3) by (auto simp: control_same_def)
  obtain d where d: "loadOrBootstrap dirs (op_ShardMap opts) b s = (None, d, s)" "cp_inv d"
    "snapshotStateLocked d = snapshotStateLocked c" "cp_routes d = cp_routes c"
    using restart_ok [OF c(1) assms(6) c(3) cfg(2,1)] by metis
  have "newControlPlane path None gc dirs opts s = (Inr d, s)" using b(1) d(1) by (simp add: newControlPlane_def)
  moreover have "shardIDForKey d key = shardIDForKey c key" for key
    by (simp add: shardIDForKey_find [OF d(2)] shardIDForKey_find [OF c(1)] d(4))
  ultimately show ?thesis using d(2,3) by blast
qed

definition example_options :: control_options where
  "example_options = \<lparr>op_NodeID = ''n1'', op_ClusterID = ''c'', op_StorageMode = [], op_Raft = None,
     op_ControlStatePath = ''state'', op_ShardMap = []\<rparr>"

lemma example_start:
  "\<exists>c s. newControlPlane [] None (\<lambda>_ n. n) 2 example_options empty_fs = (Inr c, s) \<and>
     state_encodable (snapshotStateLocked c) \<and> shardIDForKey c [1] = Some ''default''"
proof -
  have tr: "TrimSpace ''n1'' = ''n1''" "TrimSpace ''c'' = ''c''" "TrimSpace ''default'' = ''default''"
    by (rule plain_trimmed [unfolded trimmed_def], simp add: plain_char_def)+
  have nil: "TrimSpace [] = []" by (simp add: TrimSpace_def trim_front.simps)
  define b where "b = \<lparr>cp_commitErr = None, cp_commitLogAppliedIndex = 0, cp_nodeID = ''n1'', cp_clusterID = ''c'',
                   cp_storageMode = ''local'',
                   cp_raft = \<lparr>ro_Replicas = 3, ro_ElectionTimeout = 0, ro_HeartbeatInterval = 0, ro_Peers = []\<rparr>,
                   cp_draining = False, cp_revision = 0, cp_order = [],
                   cp_shards = [], cp_routes = [], cp_appliedOps = [], cp_appliedOrder = [],
                   cp_statePath = ''state'', cp_arrays = [[]], cp_growcap = (\<lambda>_ n. n)\<rparr>"
  have base: "control_base [] (\<lambda>_ n. n) example_options = Inr b"
    by (simp add: control_base_def example_options_def tr nil b_def Let_def)
  define c where "c = (default_shards b)\<lparr>cp_routes := [\<lparr>rt_id = ''default'', rt_start = [], rt_end = []\<rparr>]\<rparr>"
  have rb: "rebuildRoutesLocked (default_shards b) = (None, c)"
    by (simp add: rebuildRoutesLocked_def c_def default_shards_def b_def slice_alloc_def buildShardRoutes_def tr Let_def)
  obtain s where sv: "saveLocked 2 c empty_fs = (None, s)" using saveLocked_no_faults [of empty_fs 2 c] by (auto simp: empty_fs_def)
  have load: "loadState b empty_fs = Inl ErrNotExist" by (simp add: loadState_def b_def empty_fs_def)
  have sm: "op_ShardMap example_options = []" by (simp add: example_options_def)
  have run: "newControlPlane [] None (\<lambda>_ n. n) 2 example_options empty_fs = (Inr c, s)"
    by (simp add: newControlPlane_def base loadOrBootstrap_def load sm bootstrap_save_def rb sv)
  have "state_encodable (snapshotStateLocked c)"
    by (simp add: c_def b_def default_shards_def slice_alloc_def snapshotStateLocked_def appliedOpsSnapshotLocked_def
          List.map_filter_def value_shard_def shard_at_def replicas_of_def slice_read_def backing_def
          state_encodable_def state_ints_ok_def int_ok_def enc_state_def enc_raft_def enc_shard_def enc_replica_def
          json_str_list_def omit_if_def)
  moreover have "shardIDForKey c [1] = Some ''default''"
    by (simp add: shardIDForKey_def shardForKeyLocked_def c_def b_def default_shards_def slice_alloc_def route_for_key_def
          sort_Search_def search_loop.simps)
  ultimately show ?thesis using run by blast
qed

theorem control_state_survives_restart_witness:
  "\<exists>c0 s1 d. newControlPlane [] None (\<lambda>_ n. n) 2 example_options empty_fs = (Inr c0, s1) \<and>
     newControlPlane [] None (\<lambda>_ n. n) 2 example_options s1 = (Inr d, s1) \<and>
     snapshotStateLocked d = snapshotStateLocked c0 \<and> shardIDForKey d [1] = Some ''default''"
proof -
  obtain c s where r: "newControlPlane [] None (\<lambda>_ n. n) 2 example_options empty_fs = (Inr c, s)"
    "state_encodable (snapshotStateLocked c)" "shardIDForKey c [1] = Some ''default''" using example_start by blast
  have "\<exists>d. newControlPlane [] None (\<lambda>_ n. n) 2 example_options s = (Inr d, s) \<and> cp_inv d \<and>
      snapshotStateLocked d = snapshotStateLocked c \<and> (\<forall>key. shardIDForKey d key = shardIDForKey c key)"
    by (rule control_state_survives_restart [of empty_fs example_options "[]" _ 2 c s "[]" c s])
      (use r in \<open>simp_all add: empty_fs_def example_options_def\<close>)
  with r show ?thesis by metis
qed

section \<open>The contract of a commit log\<close>

text \<open>
  What a proposal relies on: a commit log that is ready commits the proposed mutation as it is, at an index
  and a term other than 0.
\<close>

locale consensus =
  fixes commitControl :: "controlMutation \<Rightarrow> 'w \<Rightarrow> (control_error + controlCommittedEntry) \<times> 'w"
    and ready :: "'w \<Rightarrow> bool"
  assumes commits: "ready w \<Longrightarrow> \<exists>entry w'. commitControl m w = (Inr entry, w') \<and>
      ce_Mutation entry = m \<and> ce_Index entry \<noteq> 0 \<and> ce_Term entry \<noteq> 0"
begin

lemma proposal_succeeds:
  assumes "ready w" "en_CommitControl env = Some commitControl" "en_admitProposal env = None" "en_beforeProposal env = None"
    "en_applyFromLog env = None" "cp_commitErr c = None" "fs_faults s = []"
    and "checkOperationPreconditionsLocked opts fp c = Inr False"
    and "mutate (m\<lparr>cm_OperationID := TrimSpace (cw_OperationID opts), cm_ExpectedRevision := cw_ExpectedRevision opts\<rparr>) c = (None, c1)"
  shows "\<exists>i s' w'. applyControlMutation env dirs m opts fp mutate c s w =
    (None, observe_index i (noteOperationAppliedLocked opts fp c1), s', w') \<and>
    saved_in (observe_index i (noteOperationAppliedLocked opts fp c1)) s'"
proof -
  let ?m = "m\<lparr>cm_OperationID := TrimSpace (cw_OperationID opts), cm_ExpectedRevision := cw_ExpectedRevision opts\<rparr>"
  obtain entry w' where e: "commitControl ?m w = (Inr entry, w')" "ce_Mutation entry = ?m" "ce_Index entry \<noteq> 0" "ce_Term entry \<noteq> 0"
    using commits [OF assms(1)] by blast
  let ?d = "observe_index (ce_Index entry) (noteOperationAppliedLocked opts fp c1)"
  obtain s' where "saveLockedWithRollback dirs (snapshotStateLocked c) ?d s = (None, ?d, s')" "saved_in ?d s'"
    using rollback_no_faults [OF assms(7)] by blast
  then have "applyCommittedControlMutation dirs entry opts fp mutate c s = (None, ?d, s')"
    using assms(8,9) e by (simp add: applyCommittedControlMutation_def)
  then show ?thesis
    using assms e(1) \<open>saved_in ?d s'\<close> by (auto simp: applyControlMutation_def Let_def)
qed

end

definition lc_ready :: "localConsensus \<Rightarrow> bool" where
  "lc_ready w \<longleftrightarrow> lc_index w + 1 \<noteq> 0 \<and> lc_term w \<noteq> 0"

interpretation local_log: consensus lc_CommitControl lc_ready
  by unfold_locales (auto simp: lc_CommitControl_def nextCommit_def lc_ready_def Let_def)

text \<open>
  C19: with the local commit log and no input/output error, a proposal to move a shard to a target succeeds:
  the target leads the shard, has the role leader there as the only replica, and the state is saved.
\<close>

theorem transfer_proposal_succeeds:
  assumes "cp_inv c" "cp_commitErr c = None" "fs_faults s = []" "lc_ready w"
    and "en_CommitControl env = Some lc_CommitControl" "en_admitProposal env = None" "en_beforeProposal env = None"
      "en_applyFromLog env = None"
    and "TrimSpace shardID \<in> set (cp_order c)" "TrimSpace target \<noteq> []"
    and "cw_OperationID opts = []" "cw_ExpectedRevision opts = None"
  shows "\<exists>c' s' w'. transferLeaderWithOptions env dirs shardID target opts c s w = (None, c', s', w') \<and> saved_in c' s' \<and>
    ss_Leader (shard_at c' (TrimSpace shardID)) = TrimSpace target \<and>
    (\<exists>r \<in> set (replicas_of c' (shard_at c' (TrimSpace shardID))). rs_NodeID r = TrimSpace target) \<and>
    (\<forall>r \<in> set (replicas_of c' (shard_at c' (TrimSpace shardID))).
       rs_Role r = (if rs_NodeID r = TrimSpace target then ''leader'' else ''follower''))"
proof -
  let ?id = "TrimSpace shardID" and ?t = "TrimSpace target"
  have nil: "TrimSpace [] = []" by (simp add: TrimSpace_def trim_front.simps)
  define m where "m = empty_mutation\<lparr>cm_Kind := ''transfer-leader'', cm_ShardID := ?id, cm_Target := ?t\<rparr>"
  define m1 where "m1 = m\<lparr>cm_OperationID := TrimSpace (cw_OperationID opts), cm_ExpectedRevision := cw_ExpectedRevision opts\<rparr>"
  have fields: "cm_Kind m1 = ''transfer-leader''" "cm_ShardID m1 = ?id" "cm_Target m1 = ?t" by (simp_all add: m1_def m_def)
  have sh: "map_of (cp_shards c) (cm_ShardID m1) = Some (shard_at c ?id)"
    using shard_at_order(1) [OF assms(1,9)] by (simp add: fields)
  obtain c1 s1 where c1: "applyTransferLeaderPayloadLocked m1 c = (None, c1)"
    "map_of (cp_shards c1) = (map_of (cp_shards c))(cm_ShardID m1 \<mapsto> s1)" "ss_Leader s1 = cm_Target m1"
    "replicas_of c1 s1 = map (leader_role (cm_Target m1))
       (replicas_of c (shard_at c ?id) @ (if hasReplica (replicas_of c (shard_at c ?id)) (cm_Target m1) then []
          else [\<lparr>rs_NodeID = cm_Target m1, rs_Role = ''follower'', rs_Healthy = True\<rparr>]))"
    using transfer_ok [OF assms(1) sh] by metis
  let ?mutate = "\<lambda>m c. if cm_Kind m \<noteq> ''transfer-leader'' \<or> cm_ShardID m \<noteq> ?id \<or> cm_Target m \<noteq> ?t
                    then (Some mismatch, c) else applyTransferLeaderPayloadLocked m c"
  have mu: "?mutate m1 c = (None, c1)" using c1(1) fields by simp
  have chk: "checkOperationPreconditionsLocked opts (transferLeaderFingerprint ?id ?t) c = Inr False"
    using assms(11,12) by (simp add: checkOperationPreconditionsLocked_def nil)
  obtain i s' w' where r: "applyControlMutation env dirs m opts (transferLeaderFingerprint ?id ?t) ?mutate c s w =
      (None, observe_index i (noteOperationAppliedLocked opts (transferLeaderFingerprint ?id ?t) c1), s', w')"
    "saved_in (observe_index i (noteOperationAppliedLocked opts (transferLeaderFingerprint ?id ?t) c1)) s'"
    using local_log.proposal_succeeds [where mutate = ?mutate and m = m, OF assms(4-8,2,3) chk mu [unfolded m1_def]] by blast
  define c' where "c' = observe_index i (noteOperationAppliedLocked opts (transferLeaderFingerprint ?id ?t) c1)"
  have same: "cp_shards c' = cp_shards c1" "cp_arrays c' = cp_arrays c1"
    by (simp_all add: c'_def observe_index_def noteOperationAppliedLocked_def Let_def)
  have id: "?id \<noteq> []" using assms(9) cp_inv_routes(4) [OF assms(1)] by metis
  have run: "transferLeaderWithOptions env dirs shardID target opts c s w = (None, c', s', w')"
    using id assms(10) r(1) by (simp add: transferLeaderWithOptions_def Let_def m_def c'_def)
  have "shard_at c' ?id = s1" by (simp add: shard_at_def same c1(2) fields)
  moreover have "replicas_of c' s1 = replicas_of c1 s1" by (simp add: replicas_of_def same)
  moreover have "\<exists>x \<in> set (replicas_of c1 s1). rs_NodeID x = ?t"
    unfolding c1(4) by (auto simp: fields hasReplica_def list_ex_iff leader_role_def)
  ultimately show ?thesis
    using run r(2) c1(3) unfolding c'_def [symmetric] by (auto simp: c1(4) fields leader_role_def)
qed

definition example_env :: "localConsensus control_env" where
  "example_env = \<lparr>en_admitProposal = None, en_beforeProposal = None, en_provider = ''local'', en_applyFromLog = None,
     en_CommitControl = Some lc_CommitControl\<rparr>"

theorem transfer_proposal_succeeds_witness:
  "\<exists>c' s' w'. transferLeaderWithOptions example_env 2 ''a'' ''n2'' \<lparr>cw_OperationID = [], cw_ExpectedRevision = None\<rparr>
     example_control empty_fs newLocalConsensus = (None, c', s', w') \<and> saved_in c' s' \<and> ss_Leader (shard_at c' ''a'') = ''n2''"
proof -
  have tr: "TrimSpace ''a'' = ''a''" "TrimSpace ''n2'' = ''n2''"
    by (rule plain_trimmed [unfolded trimmed_def], simp add: plain_char_def)+
  show ?thesis
    using transfer_proposal_succeeds [OF example_inv, of empty_fs newLocalConsensus example_env "''a''" "''n2''"
        "\<lparr>cw_OperationID = [], cw_ExpectedRevision = None\<rparr>" 2]
    by (auto simp: tr example_env_def lc_ready_def newLocalConsensus_def empty_fs_def example_control_def)
qed

section \<open>Defects\<close>

definition transfer_to :: "string \<Rightarrow> string \<Rightarrow> controlMutation" where
  "transfer_to shardID target = empty_mutation\<lparr>cm_Kind := ''transfer-leader'', cm_ShardID := shardID, cm_Target := target\<rparr>"

lemma transfer_to_simps [simp]: "cm_ShardID (transfer_to i t) = i" "cm_Target (transfer_to i t) = t"
  by (simp_all add: transfer_to_def)

definition new_replica :: "string \<Rightarrow> ReplicaStatus" where
  "new_replica t = \<lparr>rs_NodeID = t, rs_Role = ''follower'', rs_Healthy = True\<rparr>"

lemma node_of_role [simp]: "rs_NodeID (leader_role t r) = rs_NodeID r"
  by (simp add: leader_role_def)

lemma hasReplica_roles [simp]: "hasReplica (map (leader_role t) rs) u \<longleftrightarrow> hasReplica rs u"
  by (simp add: hasReplica_def list_ex_iff)

text \<open>A transfer to a replica, and to a new node where the array of the replicas has room, both write into that array.\<close>

lemma transfer_in_array:
  assumes "map_of (cp_shards c) i = Some s" "hasReplica (replicas_of c s) t" "slice_ok (cp_arrays c) (ss_Replicas s)"
  obtains c' where "applyTransferLeaderPayloadLocked (transfer_to i t) c = (None, c')"
    "map_of (cp_shards c') = (map_of (cp_shards c))(i \<mapsto> s\<lparr>ss_Leader := t\<rparr>)"
    "slice_read (cp_arrays c') (ss_Replicas s) = map (leader_role t) (replicas_of c s)"
proof -
  have "s\<lparr>ss_Replicas := ss_Replicas s, ss_Leader := t\<rparr> = s\<lparr>ss_Leader := t\<rparr>" by (cases s) simp
  then have "applyTransferLeaderPayloadLocked (transfer_to i t) c =
      (None, c\<lparr>cp_shards := AList.update i (s\<lparr>ss_Leader := t\<rparr>) (cp_shards c),
               cp_arrays := set_roles t (ss_Replicas s) (cp_arrays c)\<rparr>)"
    using assms by (simp add: applyTransferLeaderPayloadLocked_def)
  then show thesis
    by (rule that) (simp_all add: update_conv' replicas_of_def slice_read_set_roles [OF assms(3)])
qed

lemma transfer_into_room:
  assumes "map_of (cp_shards c) i = Some s" "\<not> hasReplica (replicas_of c s) t" "sl = ss_Replicas s"
    and room: "sl_len sl < length (backing (cp_arrays c) (sl_addr sl))"
  obtains c' where "applyTransferLeaderPayloadLocked (transfer_to i t) c = (None, c')"
    "map_of (cp_shards c') = (map_of (cp_shards c))(i \<mapsto> s\<lparr>ss_Replicas := sl\<lparr>sl_len := Suc (sl_len sl)\<rparr>, ss_Leader := t\<rparr>)"
    "backing (cp_arrays c') (sl_addr sl) =
       map (leader_role t) (replicas_of c s @ [new_replica t]) @ drop (Suc (sl_len sl)) (backing (cp_arrays c) (sl_addr sl))"
proof -
  let ?b = "backing (cp_arrays c) (sl_addr sl)"
  have a: "sl_addr sl < length (cp_arrays c)" using room by (auto simp: backing_def split: if_splits)
  have tk: "take (Suc (sl_len sl)) (?b[sl_len sl := x]) = take (sl_len sl) ?b @ [x]" for x
    using room by (simp add: take_Suc_conv_app_nth)
  define c' where "c' = snd (applyTransferLeaderPayloadLocked (transfer_to i t) c)"
  have c': "applyTransferLeaderPayloadLocked (transfer_to i t) c = (None, c')"
    "cp_shards c' = AList.update i (s\<lparr>ss_Replicas := sl\<lparr>sl_len := Suc (sl_len sl)\<rparr>, ss_Leader := t\<rparr>) (cp_shards c)"
    "cp_arrays c' = set_roles t (sl\<lparr>sl_len := Suc (sl_len sl)\<rparr>) ((cp_arrays c)[sl_addr sl := ?b[sl_len sl := new_replica t]])"
    using assms by (simp_all add: applyTransferLeaderPayloadLocked_def slice_append_def new_replica_def c'_def Let_def)
  show thesis
  proof (rule that [OF c'(1)])
    show "backing (cp_arrays c') (sl_addr sl) =
        map (leader_role t) (replicas_of c s @ [new_replica t]) @ drop (Suc (sl_len sl)) ?b"
      using a tk assms(3) by (simp add: c'(3) set_roles_def backing_update replicas_of_def slice_read_def)
  qed (simp add: c'(2) update_conv')
qed

lemma shared_array_roles:
  assumes "map_of (cp_shards c) i = Some si" "map_of (cp_shards c) j = Some sj" "i \<noteq> j" "ss_Replicas si = ss_Replicas sj"
    and "slice_ok (cp_arrays c) (ss_Replicas sj)" "hasReplica (replicas_of c sj) t"
  shows "\<exists>c'. applyTransferLeaderPayloadLocked (transfer_to i t) c = (None, c') \<and> ss_Leader (shard_at c' i) = t \<and>
    ss_Leader (shard_at c' j) = ss_Leader sj \<and> replicas_of c' (shard_at c' j) = map (leader_role t) (replicas_of c sj)"
proof -
  have "replicas_of c si = replicas_of c sj" using assms(4) by (simp add: replicas_of_def)
  then obtain c' where c': "applyTransferLeaderPayloadLocked (transfer_to i t) c = (None, c')"
    "map_of (cp_shards c') = (map_of (cp_shards c))(i \<mapsto> si\<lparr>ss_Leader := t\<rparr>)"
    "slice_read (cp_arrays c') (ss_Replicas si) = map (leader_role t) (replicas_of c si)"
    using transfer_in_array [OF assms(1), of t] assms(4-6) by metis
  have "shard_at c' j = sj" "shard_at c' i = si\<lparr>ss_Leader := t\<rparr>" using assms(2,3) by (simp_all add: shard_at_def c'(2))
  then show ?thesis using c'(1,3) assms(4) by (simp add: replicas_of_def)
qed

lemma shared_array_overwrite:
  assumes i: "map_of (cp_shards c) i = Some si" and j: "map_of (cp_shards c) j = Some sj"
    and ij: "i \<noteq> j" "ss_Replicas si = sl" "ss_Replicas sj = sl"
    and room: "sl_len sl < length (backing (cp_arrays c) (sl_addr sl))"
    and new: "\<not> hasReplica (slice_read (cp_arrays c) sl) t" "\<not> hasReplica (slice_read (cp_arrays c) sl) u"
  shows "\<exists>c1 c2. applyTransferLeaderPayloadLocked (transfer_to i t) c = (None, c1) \<and>
    applyTransferLeaderPayloadLocked (transfer_to j u) c1 = (None, c2) \<and> ss_Leader (shard_at c2 i) = t \<and>
    replicas_of c2 (shard_at c2 i) = map (leader_role u) (map (leader_role t) (slice_read (cp_arrays c) sl) @ [new_replica u])"
proof -
  let ?R = "slice_read (cp_arrays c) sl" and ?n = "sl_len sl"
  have R: "replicas_of c si = ?R" "length ?R = ?n" using ij(2) room by (simp_all add: replicas_of_def slice_read_def)
  obtain c1 where c1: "applyTransferLeaderPayloadLocked (transfer_to i t) c = (None, c1)"
    "map_of (cp_shards c1) = (map_of (cp_shards c))(i \<mapsto> si\<lparr>ss_Replicas := sl\<lparr>sl_len := Suc ?n\<rparr>, ss_Leader := t\<rparr>)"
    "backing (cp_arrays c1) (sl_addr sl) = map (leader_role t) (?R @ [new_replica t]) @ drop (Suc ?n) (backing (cp_arrays c) (sl_addr sl))"
    using transfer_into_room [OF i, of t sl] new(1) ij(2) room unfolding R(1) by metis
  have j1: "map_of (cp_shards c1) j = Some sj" using j ij(1) by (simp add: c1(2))
  have R1: "replicas_of c1 sj = map (leader_role t) ?R" using R(2) by (simp add: replicas_of_def ij(3) slice_read_def c1(3))
  have room1: "?n < length (backing (cp_arrays c1) (sl_addr sl))" using R(2) by (simp add: c1(3))
  have "\<not> hasReplica (replicas_of c1 sj) u" using new(2) by (simp add: R1)
  then obtain c2 where c2: "applyTransferLeaderPayloadLocked (transfer_to j u) c1 = (None, c2)"
    "map_of (cp_shards c2) = (map_of (cp_shards c1))(j \<mapsto> sj\<lparr>ss_Replicas := sl\<lparr>sl_len := Suc ?n\<rparr>, ss_Leader := u\<rparr>)"
    "backing (cp_arrays c2) (sl_addr sl) =
       map (leader_role u) (map (leader_role t) ?R @ [new_replica u]) @ drop (Suc ?n) (backing (cp_arrays c1) (sl_addr sl))"
    using transfer_into_room [OF j1, of u sl] ij(3) room1 unfolding R1 by metis
  have "shard_at c2 i = si\<lparr>ss_Replicas := sl\<lparr>sl_len := Suc ?n\<rparr>, ss_Leader := t\<rparr>" using ij(1) by (simp add: shard_at_def c2(2) c1(2))
  then show ?thesis using c1(1) c2(1,3) R(2) by (simp add: replicas_of_def slice_read_def)
qed

lemma split_shares_array:
  assumes inv: "cp_inv c" and run: "applySplitPayloadLocked m c = (None, c')"
  obtains l r where "l \<noteq> r" "l \<notin> set (cp_order c)" "r \<notin> set (cp_order c)" "l \<in> set (cp_order c')" "r \<in> set (cp_order c')"
    "cp_arrays c' = cp_arrays c"
    "\<And>i. i \<in> {l, r} \<Longrightarrow> \<exists>s. map_of (cp_shards c') i = Some s \<and> ss_Replicas s = ss_Replicas (shard_at c (cm_ShardID m)) \<and>
       ss_Leader s = ss_Leader (shard_at c (cm_ShardID m))"
  using inv run
proof (cases rule: applySplit_cases)
  case (tried s l r)
  have c': "cp_shards c' = split_shards (cm_ShardID m) l r (cm_Split m) s (cp_shards c)" "cp_arrays c' = cp_arrays c"
    using tried(9) by (auto simp: rebuildRoutesLocked_def split: sum.splits)
  have m: "map_of (cp_shards c') = ((map_of (cp_shards c))(cm_ShardID m := None))
       (l \<mapsto> s\<lparr>ss_ID := l, ss_EndKey := cm_Split m\<rparr>, r \<mapsto> s\<lparr>ss_ID := r, ss_StartKey := cm_Split m\<rparr>)"
    unfolding c'(1) using tried(1,2,5,6) by (intro map_of_split_shards)
  have s: "shard_at c (cm_ShardID m) = s" using tried(1) by (simp add: shard_at_def)
  have "\<exists>h. map_of (cp_shards c') i = Some h \<and> ss_Replicas h = ss_Replicas (shard_at c (cm_ShardID m)) \<and>
      ss_Leader h = ss_Leader (shard_at c (cm_ShardID m))" if "i \<in> {l, r}" for i
    using that tried(2) by (auto simp: m s)
  moreover have "l \<notin> set (cp_order c)" "r \<notin> set (cp_order c)" "l \<in> set (cp_order c')" "r \<in> set (cp_order c')"
    using tried(2,5,6) by (simp_all add: cp_inv_routes(5) [OF inv] cp_inv_routes(5) [OF split_inv(2) [OF inv run refl]] m domIff)
  ultimately show thesis using tried(2) c'(2) by (intro that)
qed simp

text \<open>
  C34: the two halves of a split share the array of their replicas, whatever shard is split and whichever half is moved
  first.  Moving one half to a node that is a replica rewrites the roles of the other half: that node becomes its leader
  replica while the other half is still led by the old leader.  When the array has room, moving the halves to two different
  new nodes overwrites the first node: that half is led by a node that is not among its replicas, and lists the node of the
  other half.
\<close>

theorem split_halves_share_replicas:
  assumes "cp_inv c" "applySplitPayloadLocked m c = (None, c1)"
    and "shard = shard_at c (cm_ShardID m)" "sl = ss_Replicas shard"
  shows "\<exists>l r. l \<noteq> r \<and> l \<notin> set (cp_order c) \<and> r \<notin> set (cp_order c) \<and> l \<in> set (cp_order c1) \<and> r \<in> set (cp_order c1) \<and>
    (\<forall>(i, j) \<in> {(l, r), (r, l)}.
       (\<forall>t. hasReplica (replicas_of c shard) t \<longrightarrow>
          (\<exists>c2. applyTransferLeaderPayloadLocked (transfer_to i t) c1 = (None, c2) \<and> ss_Leader (shard_at c2 i) = t \<and>
             ss_Leader (shard_at c2 j) = ss_Leader shard \<and>
             replicas_of c2 (shard_at c2 j) = map (leader_role t) (replicas_of c shard))) \<and>
       (\<forall>t u. sl_len sl < length (backing (cp_arrays c) (sl_addr sl)) \<and> t \<noteq> u \<and>
          \<not> hasReplica (replicas_of c shard) t \<and> \<not> hasReplica (replicas_of c shard) u \<longrightarrow>
          (\<exists>c2 c3. applyTransferLeaderPayloadLocked (transfer_to i t) c1 = (None, c2) \<and>
             applyTransferLeaderPayloadLocked (transfer_to j u) c2 = (None, c3) \<and> ss_Leader (shard_at c3 i) = t \<and>
             map rs_NodeID (replicas_of c3 (shard_at c3 i)) = map rs_NodeID (replicas_of c shard) @ [u] \<and>
             \<not> hasReplica (replicas_of c3 (shard_at c3 i)) t)))"
    (is "\<exists>l r. l \<noteq> r \<and> _ l \<and> _ r \<and> _ l \<and> _ r \<and> (\<forall>(i, j) \<in> _ l r. ?halves i j)")
proof -
  obtain l r where lr: "l \<noteq> r" "l \<notin> set (cp_order c)" "r \<notin> set (cp_order c)" "l \<in> set (cp_order c1)" "r \<in> set (cp_order c1)"
    "cp_arrays c1 = cp_arrays c"
    "\<And>i. i \<in> {l, r} \<Longrightarrow> \<exists>s. map_of (cp_shards c1) i = Some s \<and> ss_Replicas s = sl \<and> ss_Leader s = ss_Leader shard"
    using split_shares_array [OF assms(1,2)] unfolding assms(3,4) by metis
  have reps: "replicas_of c shard = slice_read (cp_arrays c1) sl" by (simp add: replicas_of_def assms(4) lr(6))
  have inv1: "cp_inv c1" using split_inv(2) [OF assms(1,2) refl] .
  have roles: "\<exists>c2. applyTransferLeaderPayloadLocked (transfer_to i t) c1 = (None, c2) \<and> ss_Leader (shard_at c2 i) = t \<and>
      ss_Leader (shard_at c2 j) = ss_Leader shard \<and> replicas_of c2 (shard_at c2 j) = map (leader_role t) (replicas_of c shard)"
    if ij: "i \<in> {l, r}" "j \<in> {l, r}" "i \<noteq> j" and t: "hasReplica (replicas_of c shard) t" for i j t
  proof -
    obtain si sj where s: "map_of (cp_shards c1) i = Some si" "ss_Replicas si = sl" "map_of (cp_shards c1) j = Some sj"
      "ss_Replicas sj = sl" "ss_Leader sj = ss_Leader shard" using lr(7) ij by metis
    have "slice_ok (cp_arrays c1) sl" using inv1 s(1,2) by (auto simp: cp_inv_def shards_inv_def)
    then show ?thesis using shared_array_roles [OF s(1,3) ij(3), of t] s t reps by (simp add: replicas_of_def)
  qed
  have over: "\<exists>c2 c3. applyTransferLeaderPayloadLocked (transfer_to i t) c1 = (None, c2) \<and>
      applyTransferLeaderPayloadLocked (transfer_to j u) c2 = (None, c3) \<and> ss_Leader (shard_at c3 i) = t \<and>
      map rs_NodeID (replicas_of c3 (shard_at c3 i)) = map rs_NodeID (replicas_of c shard) @ [u] \<and>
      \<not> hasReplica (replicas_of c3 (shard_at c3 i)) t"
    if ij: "i \<in> {l, r}" "j \<in> {l, r}" "i \<noteq> j" and room: "sl_len sl < length (backing (cp_arrays c) (sl_addr sl))"
      and new: "t \<noteq> u" "\<not> hasReplica (replicas_of c shard) t" "\<not> hasReplica (replicas_of c shard) u" for i j t u
  proof -
    obtain si sj where s: "map_of (cp_shards c1) i = Some si" "map_of (cp_shards c1) j = Some sj" "ss_Replicas si = sl"
      "ss_Replicas sj = sl" using lr(7) ij by metis
    have new': "\<not> hasReplica (slice_read (cp_arrays c1) sl) t" "\<not> hasReplica (slice_read (cp_arrays c1) sl) u"
      using new reps by simp_all
    obtain c2 c3 where c3: "applyTransferLeaderPayloadLocked (transfer_to i t) c1 = (None, c2)"
      "applyTransferLeaderPayloadLocked (transfer_to j u) c2 = (None, c3)" "ss_Leader (shard_at c3 i) = t"
      "replicas_of c3 (shard_at c3 i) = map (leader_role u) (map (leader_role t) (replicas_of c shard) @ [new_replica u])"
      using shared_array_overwrite [OF s(1,2) ij(3) s(3,4) _ new'] room lr(6) reps by metis
    have "map rs_NodeID (replicas_of c3 (shard_at c3 i)) = map rs_NodeID (replicas_of c shard) @ [u]"
      by (simp add: c3(4) new_replica_def comp_def)
    moreover have "\<not> hasReplica (replicas_of c3 (shard_at c3 i)) t"
      using new(1,2) by (auto simp: c3(4) hasReplica_def list_ex_iff new_replica_def)
    ultimately show ?thesis using c3(1-3) by blast
  qed
  show ?thesis
  proof (rule exI [of _ l], rule exI [of _ r], intro conjI lr(1-5) ballI, clarify)
    fix i j
    assume "(i, j) \<in> {(l, r), (r, l)}"
    then have "i \<in> {l, r}" "j \<in> {l, r}" "i \<noteq> j" using lr(1) by auto
    note roles [OF this] over [OF this]
    then show "?halves i j" by blast
  qed
qed

text \<open>The example after \<open>a\<close> was moved to a third node: the array of its replicas has room for a fourth.\<close>

definition room_control :: controlPlane where
  "room_control = snd (applyTransferLeaderPayloadLocked (transfer_to ''a'' ''n3'') example_control)"

lemma room_inv: "cp_inv room_control"
proof -
  have "map_of (cp_shards example_control) (cm_ShardID (transfer_to ''a'' ''n3'')) = Some (shard_at example_control ''a'')"
    by (simp add: example_control_def example_shards_def shard_at_def)
  then show ?thesis unfolding room_control_def by (metis transfer_ok [OF example_inv] snd_conv)
qed

theorem split_halves_share_replicas_witness:
  "\<exists>c1 l r c2 c3 c4. applySplitPayloadLocked example_split room_control = (None, c1) \<and> r \<in> set (cp_order c1) \<and>
     applyTransferLeaderPayloadLocked (transfer_to l ''n2'') c1 = (None, c2) \<and> ss_Leader (shard_at c2 r) = ''n3'' \<and>
     map (\<lambda>r. (rs_NodeID r, rs_Role r)) (replicas_of c2 (shard_at c2 r)) =
       [(''n1'', ''follower''), (''n2'', ''leader''), (''n3'', ''follower'')] \<and>
     applyTransferLeaderPayloadLocked (transfer_to l ''n4'') c1 = (None, c3) \<and>
     applyTransferLeaderPayloadLocked (transfer_to r ''n5'') c3 = (None, c4) \<and> ss_Leader (shard_at c4 l) = ''n4'' \<and>
     map rs_NodeID (replicas_of c4 (shard_at c4 l)) = [''n1'', ''n2'', ''n3'', ''n5'']"
proof -
  let ?s = "shard_at room_control (cm_ShardID example_split)"
  have "fst (applySplitPayloadLocked example_split room_control) = None" by code_simp
  then obtain c1 where run: "applySplitPayloadLocked example_split room_control = (None, c1)" by (metis prod.collapse)
  have led: "ss_Leader ?s = ''n3''" by code_simp
  have reps: "map rs_NodeID (replicas_of room_control ?s) = [''n1'', ''n2'', ''n3'']" by code_simp
  have has: "hasReplica (replicas_of room_control ?s) ''n2''" "\<not> hasReplica (replicas_of room_control ?s) ''n4''"
    "\<not> hasReplica (replicas_of room_control ?s) ''n5''" by code_simp+
  have room: "sl_len (ss_Replicas ?s) < length (backing (cp_arrays room_control) (sl_addr (ss_Replicas ?s)))" by code_simp
  have roles: "map (\<lambda>r. (rs_NodeID r, rs_Role r)) (map (leader_role ''n2'') (replicas_of room_control ?s)) =
      [(''n1'', ''follower''), (''n2'', ''leader''), (''n3'', ''follower'')]" by code_simp
  from split_halves_share_replicas [OF room_inv run refl refl] show ?thesis
  proof (elim exE conjE, goal_cases)
    case (1 l r)
    have "(l, r) \<in> {(l, r), (r, l)}" by simp
    note half = bspec [OF 1(6) this, unfolded prod.case]
    obtain c2 where c2: "applyTransferLeaderPayloadLocked (transfer_to l ''n2'') c1 = (None, c2)"
      "ss_Leader (shard_at c2 r) = ''n3''" "replicas_of c2 (shard_at c2 r) = map (leader_role ''n2'') (replicas_of room_control ?s)"
      using half [THEN conjunct1, rule_format, OF has(1)] unfolding led by blast
    have "''n4'' \<noteq> ''n5''" by simp
    then obtain c3 c4 where c4: "applyTransferLeaderPayloadLocked (transfer_to l ''n4'') c1 = (None, c3)"
      "applyTransferLeaderPayloadLocked (transfer_to r ''n5'') c3 = (None, c4)" "ss_Leader (shard_at c4 l) = ''n4''"
      "map rs_NodeID (replicas_of c4 (shard_at c4 l)) = [''n1'', ''n2'', ''n3''] @ [''n5'']"
      using half [THEN conjunct2, rule_format, of "''n4''" "''n5''"] has(2,3) room unfolding reps by blast
    show ?case
      by (rule exI [of _ c1], rule exI [of _ l], rule exI [of _ r], rule exI [of _ c2], rule exI [of _ c3], rule exI [of _ c4])
        (simp only: run 1(5) c2 c4 roles append.simps simp_thms)
  qed
qed

lemma routes_loop_trims: "routes_loop shards n seen e (map TrimSpace ids) = routes_loop shards n seen e ids"
  by (induction ids arbitrary: n seen e) (simp_all add: Let_def split: option.split)

lemma buildShardRoutes_trims: "buildShardRoutes (map TrimSpace order) shards = buildShardRoutes order shards"
  by (simp add: buildShardRoutes_def routes_loop_trims)

lemma collect_state_shards_Inr:
  assumes "collect_state_shards acc ss = Inr acc'" "distinct (map fst acc)"
  shows "distinct (map fst acc @ map ss_ID ss) \<and> (\<forall>v \<in> set ss. TrimSpace (ss_ID v) \<noteq> [])"
  using assms
proof (induction ss arbitrary: acc)
  case (Cons v ss)
  have v: "TrimSpace (ss_ID v) \<noteq> []" "ss_ID v \<notin> fst ` set acc" "collect_state_shards (AList.update (ss_ID v) v acc) ss = Inr acc'"
    using Cons.prems(1) by (auto simp: map_of_eq_None_iff split: if_splits)
  have keys: "map fst (AList.update (ss_ID v) v acc) = map fst acc @ [ss_ID v]" using v(2) by (simp add: update_keys)
  show ?case using Cons.IH [OF v(3)] Cons.prems(2) v(1,2) unfolding keys by simp
qed simp

text \<open>In a valid state the trimmed order is a permutation of the ids of the shards.\<close>

lemma valid_state_order:
  assumes "validateControlPlaneState st = Inr ()"
  obtains acc where "collect_state_shards [] (cs_Shards st) = Inr acc" "distinct (map ss_ID (cs_Shards st))"
    "distinct (map TrimSpace (cs_Order st))" "TrimSpace ` set (cs_Order st) = ss_ID ` set (cs_Shards st)"
    "[] \<notin> ss_ID ` set (cs_Shards st)" "cs_Order st \<noteq> []" "length (cs_Order st) = length (cs_Shards st)"
    "routes_ok None (map (route_of acc) (map TrimSpace (cs_Order st)))"
    "\<And>v. v \<in> set (cs_Shards st) \<Longrightarrow> map_of acc (ss_ID v) = Some v"
proof -
  let ?t = "map TrimSpace (cs_Order st)"
  obtain acc rs where acc: "collect_state_shards [] (cs_Shards st) = Inr acc" "buildShardRoutes (cs_Order st) acc = Inr rs"
    using assms by (auto simp: validateControlPlaneState_def bind_result_Inr_iff split: if_splits)
  have ids: "distinct (map ss_ID (cs_Shards st))" "\<forall>v \<in> set (cs_Shards st). TrimSpace (ss_ID v) \<noteq> []"
    using collect_state_shards_Inr [OF acc(1)] by simp_all
  then have accs: "map fst acc = map ss_ID (cs_Shards st)" "map_of acc k = map_of (map (\<lambda>v. (ss_ID v, v)) (cs_Shards st)) k" for k
    using collect_state_shards_ok [of "[]" "cs_Shards st"] acc(1) by auto
  have "\<forall>i \<in> set ?t. TrimSpace i = i" by simp
  from buildShardRoutes_iff [OF this, of acc rs] acc(2)
  have t: "?t \<noteq> []" "length ?t = length acc" "distinct ?t" "set ?t \<subseteq> dom (map_of acc)" "[] \<notin> set ?t"
    "routes_ok None (map (route_of acc) ?t)" by (auto simp: buildShardRoutes_trims)
  have len: "length acc = length (cs_Shards st)" using accs(1) by (metis length_map)
  have "set ?t = ss_ID ` set (cs_Shards st)"
  proof (rule card_subset_eq)
    show "set ?t \<subseteq> ss_ID ` set (cs_Shards st)" using t(4) accs(1) by (metis dom_map_of_conv_image_fst list.set_map)
    show "card (set ?t) = card (ss_ID ` set (cs_Shards st))"
      using distinct_card [OF t(3)] distinct_card [OF ids(1)] t(2) len by simp
  qed simp
  moreover have "map_of acc (ss_ID v) = Some v" if "v \<in> set (cs_Shards st)" for v
    using that ids(1) by (simp add: accs(2) comp_def map_of_is_SomeI)
  ultimately show thesis using acc(1) ids(1) t len by (intro that [of acc]) auto
qed

text \<open>
  C35: \<^verbatim>\<open>validateControlPlaneState\<close> and \<^verbatim>\<open>applyState\<close> accept an order with a blank around an id, since
  \<^verbatim>\<open>buildShardRoutes\<close> trims it, but the order keeps the blank.  For every valid state with such an id in its order, and
  on every control plane: the state is applied without an error, the next snapshot holds a shard without id in its place
  and no shard of that id, although the state had one, and that snapshot is refused when it is loaded.
\<close>

theorem spaced_order_loses_shard:
  assumes "validateControlPlaneState st = Inr ()" "i \<in> set (cs_Order st)" "TrimSpace i \<noteq> i"
  shows "\<exists>c'. applyState st c = (None, c') \<and> TrimSpace i \<in> ss_ID ` set (cs_Shards st) \<and>
    TrimSpace i \<notin> ss_ID ` set (cs_Shards (snapshotStateLocked c')) \<and> [] \<in> ss_ID ` set (cs_Shards (snapshotStateLocked c')) \<and>
    validateControlPlaneState (snapshotStateLocked c') \<noteq> Inr ()"
proof -
  let ?t = "map TrimSpace (cs_Order st)"
  obtain acc where acc: "distinct (map ss_ID (cs_Shards st))" "distinct ?t" "TrimSpace ` set (cs_Order st) = ss_ID ` set (cs_Shards st)"
    "[] \<notin> ss_ID ` set (cs_Shards st)" "cs_Order st \<noteq> []" "length (cs_Order st) = length (cs_Shards st)"
    "routes_ok None (map (route_of acc) ?t)" "\<And>v. v \<in> set (cs_Shards st) \<Longrightarrow> map_of acc (ss_ID v) = Some v"
    using valid_state_order [OF assms(1)] by metis
  obtain shards arrs where r: "restore_shards (cp_growcap c) (cs_Shards st) ([], cp_arrays c) = (shards, arrs)" by fastforce
  have "distinct (map fst [] @ map ss_ID (cs_Shards st))" "shards_inv (cp_arrays c) []" using acc(1) by (simp_all add: shards_inv_def)
  from restore_shards_spec [OF r this]
  have sh: "map fst shards = map ss_ID (cs_Shards st)" "shards_inv arrs shards"
    "\<And>v. v \<in> set (cs_Shards st) \<Longrightarrow> \<exists>s. map_of shards (ss_ID v) = Some s \<and> value_of arrs s = v" by simp_all
  have dom: "dom (map_of shards) = TrimSpace ` set (cs_Order st)" using sh(1) acc(3) by (metis dom_map_of_conv_image_fst list.set_map)
  have "route_of shards k = route_of acc k" if k: "k \<in> set ?t" for k
  proof -
    obtain v where v: "v \<in> set (cs_Shards st)" "k = ss_ID v" using k acc(3) by auto
    then show ?thesis using sh(3) [OF v(1)] acc(8) [OF v(1)] by (auto simp: route_of_def value_of_def)
  qed
  then have "map (route_of shards) ?t = map (route_of acc) ?t" by (rule map_cong [OF refl])
  then have "routes_ok None (map (route_of shards) ?t)" using acc(7) by argo
  moreover have "length shards = length ?t" using arg_cong [OF sh(1), of length] acc(6) by simp
  moreover have "[] \<notin> set ?t" using acc(3,4) by simp
  ultimately have "buildShardRoutes ?t shards = Inr (map (route_of shards) ?t)"
    using buildShardRoutes_iff [of ?t shards] acc(2,5) dom by simp
  then obtain c' where c': "applyState st c = (None, c')" "cp_shards c' = shards" "cp_order c' = cs_Order st"
    using r by (auto simp: applyState_def rebuildRoutesLocked_def buildShardRoutes_trims)
  have at: "ss_ID (shard_at c' k) = (if k \<in> TrimSpace ` set (cs_Order st) then k else [])" for k
    using sh(2) dom by (auto simp: shard_at_def c'(2) shards_inv_def zero_shard_def split: option.split)
  have snap: "ss_ID ` set (cs_Shards (snapshotStateLocked c')) = (\<lambda>k. ss_ID (shard_at c' k)) ` set (cs_Order st)"
    by (simp add: snapshotStateLocked_def c'(3) image_image value_shard_def)
  have "i \<notin> TrimSpace ` set (cs_Order st)" using assms(3) by auto
  then have nil: "[] \<in> ss_ID ` set (cs_Shards (snapshotStateLocked c'))"
    unfolding snap using assms(2) at by (metis imageI)
  have "TrimSpace i \<noteq> ss_ID (shard_at c' k)" if k: "k \<in> set (cs_Order st)" for k
  proof
    assume eq: "TrimSpace i = ss_ID (shard_at c' k)"
    have "TrimSpace i \<noteq> []" using assms(2) acc(3,4) by (metis imageI)
    with eq at have "TrimSpace i = k" by (auto split: if_splits)
    moreover from this have "TrimSpace k = TrimSpace i" by auto
    moreover have "inj_on TrimSpace (set (cs_Order st))" using acc(2) by (simp add: distinct_map)
    ultimately show False using k assms(2,3) by (metis inj_onD)
  qed
  then have lost: "TrimSpace i \<notin> ss_ID ` set (cs_Shards (snapshotStateLocked c'))" unfolding snap by blast
  have "validateControlPlaneState (snapshotStateLocked c') \<noteq> Inr ()"
    using nil valid_state_order [of "snapshotStateLocked c'"] by metis
  then show ?thesis using c'(1) nil lost assms(2) acc(3) by blast
qed

definition spaced_state :: controlPlaneState where
  "spaced_state = (snapshotStateLocked example_control)\<lparr>cs_Order := ['' a'', ''b'']\<rparr>"

theorem spaced_order_loses_shard_witness:
  "\<exists>c'. applyState spaced_state example_control = (None, c') \<and> ''a'' \<in> ss_ID ` set (cs_Shards spaced_state) \<and>
     ''a'' \<notin> ss_ID ` set (cs_Shards (snapshotStateLocked c')) \<and> validateControlPlaneState (snapshotStateLocked c') \<noteq> Inr ()"
proof -
  have v: "validateControlPlaneState spaced_state = Inr ()" by code_simp
  have i: "'' a'' \<in> set (cs_Order spaced_state)" by (simp add: spaced_state_def)
  have t: "TrimSpace '' a'' = ''a''" by code_simp
  then have "TrimSpace '' a'' \<noteq> '' a''" by simp
  from spaced_order_loses_shard [OF v i this, of example_control] t show ?thesis by auto
qed

text \<open>Different transfers may have the same fingerprint: ids may contain the separator.\<close>

lemma transfer_fingerprints_collide:
  "transferLeaderFingerprint (x @ '':'' @ y) z = transferLeaderFingerprint x (y @ '':'' @ z)"
  by (simp add: transferLeaderFingerprint_def)

end
