(* ===== verification/Compaction_Merge.thy ===== *)
theory Compaction_Merge
  imports Go_Std Entry_Maps
begin

text \<open>
  The k-way merge of the compaction runner (\<^verbatim>\<open>internal/lsm/compaction/runner/runner.go\<close>).  An
  iterator is the entries it still has and the error \<^verbatim>\<open>Err\<close> answers once they are used up.
\<close>

section \<open>The merge\<close>

type_synonym entryIterator = "entry list \<times> lsm_error option"

record mergeItem =
  mi_entry :: entry
  mi_iter :: entryIterator

definition mergeHeap_Less :: "mergeItem \<Rightarrow> mergeItem \<Rightarrow> bool" where
  "mergeHeap_Less a b \<longleftrightarrow>
     (if Key (mi_entry a) \<noteq> Key (mi_entry b) then Key (mi_entry a) < Key (mi_entry b)
      else if Seq (mi_entry a) \<noteq> Seq (mi_entry b) then Seq (mi_entry b) < Seq (mi_entry a)
      else if Tombstone (mi_entry a) \<noteq> Tombstone (mi_entry b) then Tombstone (mi_entry a)
      else False)"

fun advance_loop :: "bytes \<Rightarrow> entry list \<Rightarrow> lsm_error option \<Rightarrow> mergeItem option result" where
  "advance_loop key [] err = (case err of Some e \<Rightarrow> Inl e | None \<Rightarrow> Inr None)"
| "advance_loop key (e # es) err =
     (if Key e = key then advance_loop key es err else Inr (Some \<lparr>mi_entry = e, mi_iter = (es, err)\<rparr>))"

definition advanceIterator :: "mergeItem \<Rightarrow> bytes \<Rightarrow> mergeItem option result" where
  "advanceIterator item key = advance_loop key (fst (mi_iter item)) (snd (mi_iter item))"

fun initial_heap :: "entryIterator list \<Rightarrow> mergeItem list result" where
  "initial_heap [] = Inr []"
| "initial_heap ((e # es, err) # its) =
     bind_result (initial_heap its) (\<lambda>h. Inr (\<lparr>mi_entry = e, mi_iter = (es, err)\<rparr> # h))"
| "initial_heap (([], Some e) # its) = Inl e"
| "initial_heap (([], None) # its) = initial_heap its"

function pop_group :: "bytes \<Rightarrow> mergeItem list \<Rightarrow> mergeItem list \<Rightarrow> mergeItem list \<times> mergeItem list" where
  "pop_group key h grp =
     (if h \<noteq> [] \<and> Key (mi_entry (h ! 0)) = key
      then let (item, h1) = heap_Pop mergeHeap_Less h in pop_group key h1 (grp @ [item])
      else (grp, h))"
  by pat_completeness auto
termination
proof (relation "measure (\<lambda>(_, h, _). length h)")
  fix key :: bytes and h grp x item h1
  assume "h \<noteq> [] \<and> Key (mi_entry (h ! 0)) = key" "x = heap_Pop mergeHeap_Less h" "(item, h1) = x"
  then have "h \<noteq> []" "snd (heap_Pop mergeHeap_Less h) = h1" by (metis snd_conv)+
  then show "((key, h1, grp @ [item]), key, h, grp) \<in> measure (\<lambda>(_, h, _). length h)"
    using length_heap_Pop [of mergeHeap_Less h] by (cases h) auto
qed simp

declare pop_group.simps [simp del]

fun better :: "entry \<Rightarrow> mergeItem list \<Rightarrow> entry" where
  "better best [] = best"
| "better best (g # gs) =
     (if Seq best < Seq (mi_entry g) then better (mi_entry g) gs
      else if Seq (mi_entry g) = Seq best \<and> Tombstone (mi_entry g) \<and> \<not> Tombstone best then better (mi_entry g) gs
      else better best gs)"

fun push_group :: "bytes \<Rightarrow> mergeItem list \<Rightarrow> mergeItem list \<Rightarrow> mergeItem list result" where
  "push_group key [] h = Inr h"
| "push_group key (g # gs) h =
     bind_result (advanceIterator g key) (\<lambda>it.
       push_group key gs (case it of None \<Rightarrow> h | Some item \<Rightarrow> heap_Push mergeHeap_Less h item))"

definition heap_size :: "mergeItem list \<Rightarrow> nat" where
  "heap_size h = sum_list (map (\<lambda>x. Suc (length (fst (mi_iter x)))) h)"

lemma heap_size_simps [simp]:
  "heap_size [] = 0" "heap_size (x # h) = Suc (length (fst (mi_iter x))) + heap_size h"
  "heap_size (h @ h') = heap_size h + heap_size h'"
  by (simp_all add: heap_size_def)

lemma heap_size_Push [simp]: "heap_size (heap_Push lt h x) = Suc (length (fst (mi_iter x))) + heap_size h"
  unfolding heap_size_def by (rule heap_Push_sum)

lemma heap_size_Pop: "heap_Pop lt h = (x, h') \<Longrightarrow> h \<noteq> [] \<Longrightarrow> heap_size h = Suc (length (fst (mi_iter x))) + heap_size h'"
  unfolding heap_size_def by (rule heap_Pop_sum)

lemma advance_loop_size:
  "advance_loop key es err = Inr (Some item) \<Longrightarrow> Suc (length (fst (mi_iter item))) \<le> length es"
  by (induction key es err rule: advance_loop.induct) (auto split: if_splits option.splits)

lemma pop_group_size: "pop_group key h grp = (grp', h') \<Longrightarrow> heap_size grp' + heap_size h' = heap_size grp + heap_size h"
proof (induction key h grp rule: pop_group.induct)
  case (1 key h grp)
  show ?case
  proof (cases "h \<noteq> [] \<and> Key (mi_entry (h ! 0)) = key")
    case True
    obtain x h1 where p: "heap_Pop mergeHeap_Less h = (x, h1)" by fastforce
    have "pop_group key h1 (grp @ [x]) = (grp', h')"
      using 1(2) True p by (subst (asm) pop_group.simps) simp
    from 1(1) [OF True p [symmetric] refl this] heap_size_Pop [OF p] True show ?thesis by simp
  next
    case False
    with 1(2) show ?thesis by (subst (asm) pop_group.simps) auto
  qed
qed

lemma pop_group_grows: "pop_group key h grp = (grp', h') \<Longrightarrow> \<exists>gs. grp' = grp @ gs"
proof (induction key h grp rule: pop_group.induct)
  case (1 key h grp)
  show ?case
  proof (cases "h \<noteq> [] \<and> Key (mi_entry (h ! 0)) = key")
    case True
    obtain x h1 where p: "heap_Pop mergeHeap_Less h = (x, h1)" by fastforce
    have "pop_group key h1 (grp @ [x]) = (grp', h')"
      using 1(2) True p by (subst (asm) pop_group.simps) simp
    from 1(1) [OF True p [symmetric] refl this] show ?thesis by auto
  next
    case False
    with 1(2) show ?thesis by (subst (asm) pop_group.simps) auto
  qed
qed

lemma push_group_size: "push_group key gs h = Inr h' \<Longrightarrow> heap_size h' + length gs \<le> heap_size gs + heap_size h"
proof (induction key gs h arbitrary: h' rule: push_group.induct)
  case (2 key g gs h)
  obtain it where it: "advanceIterator g key = Inr it"
    "push_group key gs (case it of None \<Rightarrow> h | Some item \<Rightarrow> heap_Push mergeHeap_Less h item) = Inr h'"
    using 2(2) by (auto simp: bind_result_Inr_iff)
  have "heap_size (case it of None \<Rightarrow> h | Some item \<Rightarrow> heap_Push mergeHeap_Less h item) \<le> length (fst (mi_iter g)) + heap_size h"
    using it(1) advance_loop_size [of key "fst (mi_iter g)" "snd (mi_iter g)"]
    by (auto simp: advanceIterator_def split: option.split)
  with 2(1) [OF it(2)] show ?case by simp
qed simp

lemma merge_round_decreases:
  assumes "h \<noteq> []" "heap_Pop mergeHeap_Less h = (item, h1)" "pop_group key h1 [item] = (grp, h2)"
    "push_group key grp h2 = Inr h3"
  shows "heap_size h3 < heap_size h"
proof -
  obtain gs where "grp = item # gs" using pop_group_grows [OF assms(3)] by auto
  with pop_group_size [OF assms(3)] push_group_size [OF assms(4)] heap_size_Pop [OF assms(2,1)] show ?thesis by simp
qed

function merge_loop :: "bool \<Rightarrow> mergeItem list \<Rightarrow> entry list \<Rightarrow> entry list result" where
  "merge_loop dropTombstones h out =
     (if h = [] then Inr out
      else
        let (item, h1) = heap_Pop mergeHeap_Less h;
            key = Key (mi_entry item);
            (grp, h2) = pop_group key h1 [item];
            best = better (mi_entry item) (tl grp)
        in case push_group key grp h2 of
             Inl e \<Rightarrow> Inl e
           | Inr h3 \<Rightarrow> merge_loop dropTombstones h3 (if Tombstone best \<and> dropTombstones then out else out @ [best]))"
  by pat_completeness auto
termination
  by (relation "measure (\<lambda>(_, h, _). heap_size h)") (auto dest: merge_round_decreases [OF _ sym sym])

declare merge_loop.simps [simp del]

definition runner_mergeEntries :: "entryIterator list \<Rightarrow> bool \<Rightarrow> entry list result" where
  "runner_mergeEntries iters dropTombstones =
     bind_result (initial_heap iters) (\<lambda>h. merge_loop dropTombstones (heap_Init mergeHeap_Less h) [])"

section \<open>What the merge returns\<close>

definition rank_le :: "entry \<Rightarrow> entry \<Rightarrow> bool" where
  "rank_le x y \<longleftrightarrow> Seq x < Seq y \<or> Seq x = Seq y \<and> (Tombstone x \<longrightarrow> Tombstone y)"

definition newest_of :: "entry set \<Rightarrow> entry \<Rightarrow> bool" where
  "newest_of E e \<longleftrightarrow> e \<in> E \<and> (\<forall>x \<in> E. Key x = Key e \<longrightarrow> rank_le x e)"

definition merged :: "entry set \<Rightarrow> bool \<Rightarrow> entry list \<Rightarrow> bool" where
  "merged E dropTombstones out \<longleftrightarrow>
     entry_keys_sorted out \<and>
     (\<forall>e \<in> set out. newest_of E e \<and> \<not> (dropTombstones \<and> Tombstone e)) \<and>
     (\<forall>x \<in> E. \<exists>b. newest_of E b \<and> Key b = Key x \<and> (b \<in> set out \<or> dropTombstones \<and> Tombstone b))"

lemma rank_le_refl [simp]: "rank_le x x" by (simp add: rank_le_def)

lemma rank_le_trans: "rank_le x y \<Longrightarrow> rank_le y z \<Longrightarrow> rank_le x z"
  by (auto simp: rank_le_def)

lemma mergeHeap_Less_iff:
  "mergeHeap_Less a b \<longleftrightarrow>
     Key (mi_entry a) < Key (mi_entry b) \<or>
     Key (mi_entry a) = Key (mi_entry b) \<and>
       (Seq (mi_entry b) < Seq (mi_entry a) \<or>
        Seq (mi_entry a) = Seq (mi_entry b) \<and> Tombstone (mi_entry a) \<and> \<not> Tombstone (mi_entry b))"
  by (auto simp: mergeHeap_Less_def)

interpretation merge_order: strict_weak mergeHeap_Less
proof
  show "mergeHeap_Less x y \<Longrightarrow> \<not> mergeHeap_Less y x" for x y
    unfolding mergeHeap_Less_def by (metis less_asym)
  show "mergeHeap_Less x z \<Longrightarrow> mergeHeap_Less x y \<or> mergeHeap_Less y z" for x y z
  proof (cases "Key (mi_entry x)" "Key (mi_entry y)" rule: linorder_cases)
    case less
    then show ?thesis by (simp add: mergeHeap_Less_iff)
  next
    case greater
    then show "mergeHeap_Less x z \<Longrightarrow> ?thesis" by (auto simp: mergeHeap_Less_iff)
  next
    case equal
    then show "mergeHeap_Less x z \<Longrightarrow> ?thesis"
      by (cases "Seq (mi_entry x)" "Seq (mi_entry y)" rule: linorder_cases) (auto simp: mergeHeap_Less_iff)
  qed
qed

lemma Less_key: "\<not> mergeHeap_Less x y \<Longrightarrow> Key (mi_entry y) \<le> Key (mi_entry x)"
  by (auto simp: mergeHeap_Less_def not_less split: if_splits)

definition item_entries :: "mergeItem \<Rightarrow> entry list" where
  "item_entries x = mi_entry x # fst (mi_iter x)"

definition entries_of :: "mergeItem list \<Rightarrow> entry set" where
  "entries_of h = (\<Union>x \<in> set h. set (item_entries x))"

lemma better_rank:
  "better best gs \<in> insert best (mi_entry ` set gs) \<and> (\<forall>x \<in> insert best (mi_entry ` set gs). rank_le x (better best gs))"
proof (induction best gs rule: better.induct)
  case (2 best g gs)
  let ?d = "if Seq best < Seq (mi_entry g) \<or> Seq (mi_entry g) = Seq best \<and> Tombstone (mi_entry g) \<and> \<not> Tombstone best
            then mi_entry g else best"
  have d: "rank_le best ?d" "rank_le (mi_entry g) ?d" by (auto simp: rank_le_def)
  have eq: "better best (g # gs) = better ?d gs" by simp
  have ih: "better ?d gs \<in> insert ?d (mi_entry ` set gs)" "\<forall>x \<in> insert ?d (mi_entry ` set gs). rank_le x (better ?d gs)"
    using 2 by auto
  have "rank_le ?d (better ?d gs)" using ih(2) by blast
  then have "rank_le best (better ?d gs)" "rank_le (mi_entry g) (better ?d gs)"
    using rank_le_trans [OF d(1)] rank_le_trans [OF d(2)] by blast+
  moreover have "better ?d gs \<in> insert best (mi_entry ` set (g # gs))" using ih(1) by (auto split: if_splits)
  ultimately show ?case unfolding eq using ih(2) by simp
qed simp

lemma pop_group_spec:
  assumes "pop_group key h grp = (grp', h')"
  shows "mset grp' + mset h' = mset grp + mset h"
    and "heap_ok mergeHeap_Less h \<Longrightarrow> \<forall>x \<in> set h. key \<le> Key (mi_entry x) \<Longrightarrow> \<forall>x \<in> set grp. Key (mi_entry x) = key \<Longrightarrow>
      heap_ok mergeHeap_Less h' \<and> (\<forall>x \<in> set h'. key < Key (mi_entry x)) \<and> (\<forall>x \<in> set grp'. Key (mi_entry x) = key)"
  using assms
proof (induction key h grp rule: pop_group.induct)
  case (1 key h grp)
  show m: "mset grp' + mset h' = mset grp + mset h"
    if "pop_group key h grp = (grp', h')"
  proof (cases "h \<noteq> [] \<and> Key (mi_entry (h ! 0)) = key")
    case True
    obtain x h1 where p: "heap_Pop mergeHeap_Less h = (x, h1)" by fastforce
    have "pop_group key h1 (grp @ [x]) = (grp', h')"
      using that True p by (subst (asm) pop_group.simps) simp
    from 1(1) [OF True p [symmetric] refl this] heap_Pop_mset [of h mergeHeap_Less] p True show ?thesis by simp
  next
    case False
    with that show ?thesis by (subst (asm) pop_group.simps) auto
  qed
  show "heap_ok mergeHeap_Less h' \<and> (\<forall>x \<in> set h'. key < Key (mi_entry x)) \<and> (\<forall>x \<in> set grp'. Key (mi_entry x) = key)"
    if ok: "heap_ok mergeHeap_Less h" "\<forall>x \<in> set h. key \<le> Key (mi_entry x)" "\<forall>x \<in> set grp. Key (mi_entry x) = key"
      "pop_group key h grp = (grp', h')"
  proof (cases "h \<noteq> [] \<and> Key (mi_entry (h ! 0)) = key")
    case True
    obtain x h1 where p: "heap_Pop mergeHeap_Less h = (x, h1)" by fastforce
    have r: "pop_group key h1 (grp @ [x]) = (grp', h')"
      using ok(4) True p by (subst (asm) pop_group.simps) simp
    have x: "x = h ! 0" using heap_Pop_fst [of h mergeHeap_Less] True p by simp
    have "set h1 \<subseteq> set h" using heap_Pop_mset [of h mergeHeap_Less] True p by (metis fst_conv snd_conv mset_eq_setD set_mset_add_mset_insert set_mset_mset subset_insertI)
    moreover have "heap_ok mergeHeap_Less h1" using merge_order.heap_ok_Pop [OF ok(1)] True p by simp
    ultimately show ?thesis using 1(2) [OF True p [symmetric] refl _ _ _ r] ok(2,3) True x by auto
  next
    case False
    then have "grp' = grp" "h' = h" using ok(4) by (subst (asm) pop_group.simps, auto)+
    moreover have "key < Key (mi_entry x)" if "x \<in> set h" for x
    proof -
      have "h \<noteq> []" using that by auto
      with False ok(2) have "key < Key (mi_entry (h ! 0))" by (metis length_greater_0_conv nth_mem order_le_less)
      moreover have "Key (mi_entry (h ! 0)) \<le> Key (mi_entry x)"
        using merge_order.heap_least [OF ok(1) that] by (rule Less_key)
      ultimately show ?thesis by simp
    qed
    ultimately show ?thesis using ok by simp
  qed
qed

lemma advance_sorted:
  assumes "entry_keys_sorted (item_entries g)" "Key (mi_entry g) = key" "snd (mi_iter g) = None"
  shows "advanceIterator g key =
    Inr (case fst (mi_iter g) of [] \<Rightarrow> None | e # es \<Rightarrow> Some \<lparr>mi_entry = e, mi_iter = (es, None)\<rparr>)"
  using assms by (cases "fst (mi_iter g)") (auto simp: advanceIterator_def item_entries_def)

definition good_items :: "mergeItem list \<Rightarrow> bool" where
  "good_items h \<longleftrightarrow> (\<forall>x \<in> set h. entry_keys_sorted (item_entries x) \<and> snd (mi_iter x) = None)"

lemma good_items_mset: "mset h = mset h' \<Longrightarrow> good_items h = good_items h' \<and> entries_of h = entries_of h'"
  unfolding good_items_def entries_of_def by (metis set_mset_mset)

lemma good_items_simps [simp]:
  "good_items []" "good_items (x # h) \<longleftrightarrow> entry_keys_sorted (item_entries x) \<and> snd (mi_iter x) = None \<and> good_items h"
  "good_items (h @ h') \<longleftrightarrow> good_items h \<and> good_items h'"
  "entries_of [] = {}" "entries_of (x # h) = set (item_entries x) \<union> entries_of h"
  "entries_of (h @ h') = entries_of h \<union> entries_of h'"
  by (auto simp: good_items_def entries_of_def)

lemma good_items_Push [simp]:
  "good_items (heap_Push mergeHeap_Less h x) = good_items (x # h)" "entries_of (heap_Push mergeHeap_Less h x) = entries_of (x # h)"
  using good_items_mset [of "heap_Push mergeHeap_Less h x" "x # h"] by simp_all

lemma push_group_spec:
  assumes "good_items gs" "\<forall>g \<in> set gs. Key (mi_entry g) = key" "good_items h" "heap_ok mergeHeap_Less h"
  shows "\<exists>h'. push_group key gs h = Inr h' \<and> good_items h' \<and> heap_ok mergeHeap_Less h' \<and>
    entries_of h' = (\<Union>g \<in> set gs. set (fst (mi_iter g))) \<union> entries_of h"
  using assms
proof (induction gs arbitrary: h)
  case (Cons g gs)
  have adv: "advanceIterator g key =
      Inr (case fst (mi_iter g) of [] \<Rightarrow> None | e # es \<Rightarrow> Some \<lparr>mi_entry = e, mi_iter = (es, None)\<rparr>)"
    using Cons.prems by (intro advance_sorted) auto
  show ?case
  proof (cases "fst (mi_iter g)")
    case Nil
    then show ?thesis using Cons adv by simp
  next
    case (Cons e es)
    let ?x = "\<lparr>mi_entry = e, mi_iter = (es, None)\<rparr>"
    have "entry_keys_sorted (item_entries ?x)" using Cons.prems(1) Cons by (simp add: item_entries_def)
    then have "\<exists>h'. push_group key gs (heap_Push mergeHeap_Less h ?x) = Inr h' \<and> good_items h' \<and> heap_ok mergeHeap_Less h' \<and>
        entries_of h' = (\<Union>g \<in> set gs. set (fst (mi_iter g))) \<union> entries_of (heap_Push mergeHeap_Less h ?x)"
      using Cons.prems by (intro Cons.IH) (simp_all add: merge_order.heap_ok_Push)
    then show ?thesis using adv Cons by (auto simp: item_entries_def)
  qed
qed simp

lemma merged_step:
  assumes "merged E dt ms" "\<forall>x \<in> H. Key x = k" "\<forall>x \<in> E. k < Key x" "best \<in> H" "\<forall>x \<in> H. rank_le x best"
  shows "merged (H \<union> E) dt ((if Tombstone best \<and> dt then [] else [best]) @ ms)"
proof -
  have b: "newest_of (H \<union> E) best" using assms(2-5) by (auto simp: newest_of_def)
  have up: "newest_of (H \<union> E) e" if "newest_of E e" for e
    using that assms(2,3) by (auto simp: newest_of_def)
  have ms: "entry_keys_sorted ms" "\<forall>e \<in> set ms. newest_of E e \<and> \<not> (dt \<and> Tombstone e)"
    "\<forall>x \<in> E. \<exists>b. newest_of E b \<and> Key b = Key x \<and> (b \<in> set ms \<or> dt \<and> Tombstone b)"
    using assms(1) by (simp_all add: merged_def)
  have "k < Key e" if "e \<in> set ms" for e using ms(2) that assms(3) by (auto simp: newest_of_def)
  then have "entry_keys_sorted ((if Tombstone best \<and> dt then [] else [best]) @ ms)"
    using ms(1) assms(2,4) by auto
  moreover have "\<exists>b. newest_of (H \<union> E) b \<and> Key b = Key x \<and>
      (b \<in> set ((if Tombstone best \<and> dt then [] else [best]) @ ms) \<or> dt \<and> Tombstone b)" if "x \<in> H \<union> E" for x
    using that
  proof
    assume "x \<in> H"
    then have "Key best = Key x" using assms(2,4) by simp
    with b show ?thesis by (intro exI [of _ best]) auto
  next
    assume "x \<in> E"
    then obtain c where "newest_of E c" "Key c = Key x" "c \<in> set ms \<or> dt \<and> Tombstone c" using ms(3) by blast
    with up show ?thesis by (intro exI [of _ c]) auto
  qed
  ultimately show ?thesis using ms(2) up b by (auto simp: merged_def)
qed

lemma entries_of_split: "entries_of gs = mi_entry ` set gs \<union> (\<Union>g \<in> set gs. set (fst (mi_iter g)))"
  by (induction gs) (auto simp: item_entries_def)

lemma merge_loop_ok:
  assumes "heap_ok mergeHeap_Less h" "good_items h"
  shows "\<exists>ms. merge_loop dt h out = Inr (out @ ms) \<and> merged (entries_of h) dt ms"
  using assms
proof (induction "heap_size h" arbitrary: h out rule: less_induct)
  case less
  show ?case
  proof (cases "h = []")
    case True
    then show ?thesis by (subst merge_loop.simps) (simp add: merged_def)
  next
    case False
    obtain item h1 where p: "heap_Pop mergeHeap_Less h = (item, h1)" by fastforce
    define key where "key = Key (mi_entry item)"
    obtain grp h2 where g: "pop_group key h1 [item] = (grp, h2)" by fastforce
    define best where "best = better (mi_entry item) (tl grp)"
    have m: "mset h = mset (item # h1)" using heap_Pop_mset [OF False, of mergeHeap_Less] p by simp
    have good1: "good_items (item # h1)" and ent1: "entries_of h = entries_of (item # h1)"
      using good_items_mset [OF m] less.prems(2) by simp_all
    have low: "\<forall>x \<in> set h1. key \<le> Key (mi_entry x)"
      using merge_order.heap_Pop_least [OF less.prems(1)] p mset_eq_setD [OF m] Less_key by (auto simp: key_def)
    have ok1: "heap_ok mergeHeap_Less h1" using merge_order.heap_ok_Pop [OF less.prems(1) False] p by simp
    have m2: "mset (grp @ h2) = mset (item # h1)" using pop_group_spec(1) [OF g] by simp
    have s2: "heap_ok mergeHeap_Less h2" "\<forall>x \<in> set h2. key < Key (mi_entry x)" "\<forall>x \<in> set grp. Key (mi_entry x) = key"
      using pop_group_spec(2) [OF g ok1 low] by (simp_all add: key_def)
    have good2: "good_items grp" "good_items h2" and ent2: "entries_of h = entries_of grp \<union> entries_of h2"
      using good_items_mset [OF m2] good1 ent1 by simp_all
    obtain h3 where h3: "push_group key grp h2 = Inr h3" "good_items h3" "heap_ok mergeHeap_Less h3"
      "entries_of h3 = (\<Union>g \<in> set grp. set (fst (mi_iter g))) \<union> entries_of h2"
      using push_group_spec [OF good2(1) s2(3) good2(2) s2(1)] by blast
    have loop: "merge_loop dt h out = merge_loop dt h3 (if Tombstone best \<and> dt then out else out @ [best])"
      using False p g h3(1) by (subst merge_loop.simps) (simp add: Let_def key_def [symmetric] best_def)
    obtain ms where ms: "merge_loop dt h3 (if Tombstone best \<and> dt then out else out @ [best]) =
        Inr ((if Tombstone best \<and> dt then out else out @ [best]) @ ms)" "merged (entries_of h3) dt ms"
      using less.hyps [OF merge_round_decreases [OF False p g h3(1)] h3(3,2)] by metis
    obtain gs where gs: "grp = item # gs" using pop_group_grows [OF g] by auto
    have H: "mi_entry ` set grp = insert (mi_entry item) (mi_entry ` set (tl grp))" by (simp add: gs)
    have mg: "merged (mi_entry ` set grp \<union> entries_of h3) dt ((if Tombstone best \<and> dt then [] else [best]) @ ms)"
    proof (rule merged_step [OF ms(2)])
      show "\<forall>x \<in> mi_entry ` set grp. Key x = key" using s2(3) by simp
      show "best \<in> mi_entry ` set grp" "\<forall>x \<in> mi_entry ` set grp. rank_le x best"
        unfolding H best_def using better_rank [of "mi_entry item" "tl grp"] by simp_all
      have "key < Key e" if "e \<in> set (fst (mi_iter g))" "g \<in> set grp" for e g
        using that good2(1) s2(3) by (auto simp: good_items_def item_entries_def)
      moreover have "key < Key e" if "e \<in> entries_of h2" for e
      proof -
        obtain x where x: "x \<in> set h2" "e \<in> set (item_entries x)" using \<open>e \<in> entries_of h2\<close> by (auto simp: entries_of_def)
        have "entry_keys_sorted (item_entries x)" using good2(2) x(1) by (simp add: good_items_def)
        then have "Key (mi_entry x) \<le> Key e" using x(2) by (auto simp: item_entries_def)
        with bspec [OF s2(2) x(1)] show ?thesis by simp
      qed
      ultimately show "\<forall>x \<in> entries_of h3. key < Key x" unfolding h3(4) by auto
    qed
    have eh: "entries_of h = mi_entry ` set grp \<union> entries_of h3"
      using ent2 entries_of_split [of grp] by (simp add: h3(4) Un_assoc)
    have "merge_loop dt h out = Inr (out @ (if Tombstone best \<and> dt then [] else [best]) @ ms)"
      unfolding loop ms(1) by simp
    with mg show ?thesis unfolding eh by blast
  qed
qed

section \<open>Errors\<close>

definition has_error :: "mergeItem list \<Rightarrow> bool" where
  "has_error h \<longleftrightarrow> (\<exists>x \<in> set h. snd (mi_iter x) \<noteq> None)"

lemma has_error_simps [simp]:
  "\<not> has_error []" "has_error (x # h) \<longleftrightarrow> snd (mi_iter x) \<noteq> None \<or> has_error h"
  "has_error (h @ h') \<longleftrightarrow> has_error h \<or> has_error h'"
  by (auto simp: has_error_def)

lemma has_error_mset: "mset h = mset h' \<Longrightarrow> has_error h = has_error h'"
  unfolding has_error_def by (metis set_mset_mset)

lemma advance_keeps_error:
  "advance_loop key es (Some e) = Inr it \<Longrightarrow> \<exists>item. it = Some item \<and> snd (mi_iter item) = Some e"
  by (induction key es "Some e" rule: advance_loop.induct) (auto split: if_splits)

lemma push_keeps_error:
  "push_group key gs h = Inr h' \<Longrightarrow> has_error gs \<or> has_error h \<Longrightarrow> has_error h'"
proof (induction gs arbitrary: h)
  case (Cons g gs)
  obtain it where it: "advanceIterator g key = Inr it"
    "push_group key gs (case it of None \<Rightarrow> h | Some item \<Rightarrow> heap_Push mergeHeap_Less h item) = Inr h'"
    using Cons.prems(1) by (auto simp: bind_result_Inr_iff)
  have push: "has_error (heap_Push mergeHeap_Less h item) = has_error (item # h)" for item
    by (rule has_error_mset) simp
  have "has_error gs \<or> has_error (case it of None \<Rightarrow> h | Some item \<Rightarrow> heap_Push mergeHeap_Less h item)"
    using Cons.prems(2) it(1) advance_keeps_error [of key "fst (mi_iter g)"] push
    by (cases "snd (mi_iter g)") (auto simp: advanceIterator_def split: option.splits)
  then show ?case using Cons.IH [OF it(2)] by blast
qed simp

lemma merge_loop_error: "has_error h \<Longrightarrow> \<exists>e. merge_loop dt h out = Inl e"
proof (induction "heap_size h" arbitrary: h out rule: less_induct)
  case less
  have False: "h \<noteq> []" using less.prems by auto
  obtain item h1 where p: "heap_Pop mergeHeap_Less h = (item, h1)" by fastforce
  obtain grp h2 where g: "pop_group (Key (mi_entry item)) h1 [item] = (grp, h2)" by fastforce
  have m: "mset h = mset (item # h1)" using heap_Pop_mset [OF False, of mergeHeap_Less] p by simp
  have "mset (grp @ h2) = mset (item # h1)" using pop_group_spec(1) [OF g] by simp
  then have err: "has_error grp \<or> has_error h2" using has_error_mset [OF m] less.prems has_error_mset [of "grp @ h2" "item # h1"] by simp
  show ?case
  proof (cases "push_group (Key (mi_entry item)) grp h2")
    case (Inl e)
    then show ?thesis using False p g by (subst merge_loop.simps) simp
  next
    case (Inr h3)
    have "has_error h3" using push_keeps_error [OF Inr err] .
    then have "\<exists>e. merge_loop dt h3 (if Tombstone (better (mi_entry item) (tl grp)) \<and> dt then out
        else out @ [better (mi_entry item) (tl grp)]) = Inl e"
      using less.hyps [OF merge_round_decreases [OF False p g Inr]] by blast
    then show ?thesis using False p g Inr by (subst merge_loop.simps) (simp add: Let_def)
  qed
qed

lemma initial_heap_ok:
  assumes "\<forall>it \<in> set iters. entry_keys_sorted (fst it)" "\<forall>it \<in> set iters. snd it = None"
  shows "\<exists>h. initial_heap iters = Inr h \<and> good_items h \<and> entries_of h = (\<Union>it \<in> set iters. set (fst it))"
  using assms by (induction iters rule: initial_heap.induct) (auto simp: item_entries_def)

lemma initial_heap_error:
  "\<exists>it \<in> set iters. snd it \<noteq> None \<Longrightarrow> initial_heap iters = Inr h \<Longrightarrow> has_error h"
proof (induction iters arbitrary: h rule: initial_heap.induct)
  case (2 e es err its)
  from 2(3) obtain h1 where "initial_heap its = Inr h1" "h = \<lparr>mi_entry = e, mi_iter = (es, err)\<rparr> # h1"
    by (auto simp: bind_result_Inr_iff)
  with 2(1,2) show ?case by (cases err) auto
qed auto

text \<open>
  C8: the compaction merge of tables, each sorted by key, returns one entry per key in key order, the one with
  the highest sequence number (a tombstone before a value of the same number), without the tombstones when
  they are to be dropped; when some iterator ends in an error the merge fails.  It always ends.
\<close>

theorem compaction_keeps_newest:
  assumes "\<forall>it \<in> set iters. entry_keys_sorted (fst it)"
  shows "if \<forall>it \<in> set iters. snd it = None
    then \<exists>out. runner_mergeEntries iters dt = Inr out \<and> merged (\<Union>it \<in> set iters. set (fst it)) dt out
    else \<exists>e. runner_mergeEntries iters dt = Inl e"
proof (cases "\<forall>it \<in> set iters. snd it = None")
  case True
  obtain h where h: "initial_heap iters = Inr h" "good_items h" "entries_of h = (\<Union>it \<in> set iters. set (fst it))"
    using initial_heap_ok [OF assms True] by blast
  have "good_items (heap_Init mergeHeap_Less h)" "entries_of (heap_Init mergeHeap_Less h) = entries_of h"
    using good_items_mset [of "heap_Init mergeHeap_Less h" h] h(2) by simp_all
  then have "\<exists>ms. merge_loop dt (heap_Init mergeHeap_Less h) [] = Inr ([] @ ms) \<and> merged (entries_of h) dt ms"
    using merge_loop_ok [OF merge_order.heap_ok_Init, of h dt "[]"] by simp
  then show ?thesis using True h(1,3) by (auto simp: runner_mergeEntries_def)
next
  case False
  then have "\<exists>e. runner_mergeEntries iters dt = Inl e"
  proof (cases "initial_heap iters")
    case (Inr h)
    have "has_error (heap_Init mergeHeap_Less h)"
      using initial_heap_error [OF _ Inr] False has_error_mset [of "heap_Init mergeHeap_Less h" h] by auto
    from merge_loop_error [OF this] Inr show ?thesis by (simp add: runner_mergeEntries_def)
  qed (simp add: runner_mergeEntries_def)
  with False show ?thesis by auto
qed

theorem compaction_keeps_newest_witness:
  "let a = [\<lparr>Key = [1], Value = [7], Tombstone = False, Seq = 4\<rparr>]; b = [\<lparr>Key = [1], Value = [], Tombstone = True, Seq = 5\<rparr>] in
   (\<exists>out. runner_mergeEntries [(a, None), (b, None)] False = Inr out \<and> merged (set a \<union> set b) False out) \<and>
   (\<exists>e. runner_mergeEntries [(a, None), (b, Some ErrSSTableBadBlock)] False = Inl e)"
  using compaction_keeps_newest [of "[([\<lparr>Key = [1], Value = [7], Tombstone = False, Seq = 4\<rparr>], None),
      ([\<lparr>Key = [1], Value = [], Tombstone = True, Seq = 5\<rparr>], None)]" False]
    compaction_keeps_newest [of "[([\<lparr>Key = [1], Value = [7], Tombstone = False, Seq = 4\<rparr>], None),
      ([\<lparr>Key = [1], Value = [], Tombstone = True, Seq = 5\<rparr>], Some ErrSSTableBadBlock)]" False]
  by (simp add: Let_def)

end
