(* ===== verification/Table_Set.thy ===== *)
theory Table_Set
  imports Go_Std "HOL-Library.AList" "HOL-Library.Char_ord"
begin

text \<open>
  The tables of the engine in read order (\<^verbatim>\<open>internal/lsm/tableset\<close>) with the metadata the planners
  use (\<^verbatim>\<open>internal/lsm/metadata\<close>): edits, pins held by snapshots, and tables removed while pinned.  Go's
  maps are association lists without duplicate keys; the handle of a table is whatever its reader is.
\<close>

section \<open>Data\<close>

record TableMeta =
  tm_Path :: string
  tm_Level :: int
  tm_MinKey :: bytes
  tm_MaxKey :: bytes
  tm_SeqMin :: u64
  tm_SeqMax :: u64
  tm_SizeBytes :: u64

definition Meta_Copy :: "TableMeta \<Rightarrow> TableMeta" where
  "Meta_Copy m = m\<lparr>tm_MinKey := tm_MinKey m, tm_MaxKey := tm_MaxKey m\<rparr>"

lemma Meta_Copy_id [simp]: "Meta_Copy m = m" by (simp add: Meta_Copy_def)

record 'h Table =
  tb_Meta :: TableMeta
  tb_Handle :: 'h

abbreviation tb_Path :: "'h Table \<Rightarrow> string" where
  "tb_Path t \<equiv> tm_Path (tb_Meta t)"

record 'h Edit =
  ed_Add :: "'h Table list"
  ed_RemovePath :: "string list"

record 'h tableSet =
  ts_tables :: "'h Table list"
  ts_index :: "(string \<times> nat) list"
  ts_pinned :: "(string \<times> int) list option"
  ts_pending :: "(string \<times> 'h Table) list"

section \<open>Operations\<close>

definition table_less :: "'h Table \<Rightarrow> 'h Table \<Rightarrow> bool" where
  "table_less a b \<longleftrightarrow>
     (if tm_SeqMax (tb_Meta a) \<noteq> tm_SeqMax (tb_Meta b) then tm_SeqMax (tb_Meta b) < tm_SeqMax (tb_Meta a)
      else tb_Path a < tb_Path b)"

fun index_from :: "nat \<Rightarrow> 'h Table list \<Rightarrow> (string \<times> nat) list \<Rightarrow> (string \<times> nat) list" where
  "index_from i [] m = m"
| "index_from i (t # ts) m = index_from (Suc i) ts (AList.update (tb_Path t) i m)"

definition rebuild :: "'h tableSet \<Rightarrow> 'h tableSet" where
  "rebuild s = (let ts = sort_Slice table_less (ts_tables s) in s\<lparr>ts_tables := ts, ts_index := index_from 0 ts []\<rparr>)"

definition NewSet :: "'h Table list \<Rightarrow> 'h tableSet" where
  "NewSet tables =
     (let s = \<lparr>ts_tables = [], ts_index = [], ts_pinned = None, ts_pending = []\<rparr>
      in if tables \<noteq> [] then rebuild (s\<lparr>ts_tables := tables\<rparr>) else s)"

definition Set_Snapshot :: "'h tableSet \<Rightarrow> TableMeta list" where
  "Set_Snapshot s = map (\<lambda>t. Meta_Copy (tb_Meta t)) (ts_tables s)"

definition Set_Tables :: "'h tableSet \<Rightarrow> 'h list" where
  "Set_Tables s = map tb_Handle (ts_tables s)"

definition copy_table :: "'h Table \<Rightarrow> 'h Table" where
  "copy_table t = t\<lparr>tb_Meta := Meta_Copy (tb_Meta t)\<rparr>"

lemma copy_table_id [simp]: "copy_table t = t" by (simp add: copy_table_def)

definition TablesWithMeta :: "'h tableSet \<Rightarrow> 'h Table list" where
  "TablesWithMeta s = map copy_table (ts_tables s)"

definition pin_count :: "string \<Rightarrow> (string \<times> int) list \<Rightarrow> int" where
  "pin_count p pins = (case map_of pins p of None \<Rightarrow> 0 | Some n \<Rightarrow> n)"

fun pin_tables :: "'h Table list \<Rightarrow> (string \<times> int) list \<Rightarrow> (string \<times> int) list" where
  "pin_tables [] pins = pins"
| "pin_tables (t # ts) pins = pin_tables ts (AList.update (tb_Path t) (pin_count (tb_Path t) pins + 1) pins)"

definition pins_of :: "'h tableSet \<Rightarrow> (string \<times> int) list" where
  "pins_of s = (case ts_pinned s of None \<Rightarrow> [] | Some p \<Rightarrow> p)"

definition SnapshotAndPin :: "'h tableSet \<Rightarrow> 'h Table list \<times> 'h tableSet" where
  "SnapshotAndPin s = (map copy_table (ts_tables s), s\<lparr>ts_pinned := Some (pin_tables (ts_tables s) (pins_of s))\<rparr>)"

fun unpin_loop ::
  "string list \<Rightarrow> (string \<times> int) list \<Rightarrow> (string \<times> 'h Table) list \<Rightarrow> 'h Table list \<Rightarrow>
     'h Table list \<times> (string \<times> int) list \<times> (string \<times> 'h Table) list" where
  "unpin_loop [] pins pending ready = (ready, pins, pending)"
| "unpin_loop (p # ps) pins pending ready =
     (if pin_count p pins \<le> 1 then
        (case map_of pending p of
           Some t \<Rightarrow> unpin_loop ps (AList.delete p pins) (AList.delete p pending) (ready @ [copy_table t])
         | None \<Rightarrow> unpin_loop ps (AList.delete p pins) pending ready)
      else unpin_loop ps (AList.update p (pin_count p pins - 1) pins) pending ready)"

definition Unpin :: "string list \<Rightarrow> 'h tableSet \<Rightarrow> 'h Table list \<times> 'h tableSet" where
  "Unpin paths s =
     (if paths = [] then ([], s)
      else case ts_pinned s of
        None \<Rightarrow> ([], s)
      | Some pins \<Rightarrow>
          (case unpin_loop paths pins (ts_pending s) [] of
             (ready, pins', pending') \<Rightarrow> (ready, s\<lparr>ts_pinned := Some pins', ts_pending := pending'\<rparr>)))"

text \<open>The order of \<^verbatim>\<open>Pending\<close> is that of a Go map: the list stands for the order the iteration takes.\<close>

definition Pending :: "'h tableSet \<Rightarrow> 'h Table list" where
  "Pending s = map (copy_table \<circ> snd) (ts_pending s)"

fun resolve_loop :: "TableMeta list \<Rightarrow> 'h tableSet \<Rightarrow> 'h list \<Rightarrow> 'h list result" where
  "resolve_loop [] s out = Inr out"
| "resolve_loop (m # ms) s out =
     (case map_of (ts_index s) (tm_Path m) of
        None \<Rightarrow> Inl (ErrMsg ''tableset: missing table'')
      | Some i \<Rightarrow>
          if i < length (ts_tables s) then resolve_loop ms s (out @ [tb_Handle (ts_tables s ! i)]) else Inl PanicBounds)"

definition Resolve :: "TableMeta list \<Rightarrow> 'h tableSet \<Rightarrow> 'h list result" where
  "Resolve metas s = resolve_loop metas s []"

text \<open>The tables kept, removed, and moved to the pending ones.\<close>

fun remove_loop ::
  "string list \<Rightarrow> (string \<times> int) list \<Rightarrow> 'h Table list \<Rightarrow> 'h Table list \<Rightarrow> 'h Table list \<Rightarrow>
     (string \<times> 'h Table) list \<Rightarrow> 'h Table list \<times> 'h Table list \<times> (string \<times> 'h Table) list" where
  "remove_loop remove pins [] dst removed pending = (dst, removed, pending)"
| "remove_loop remove pins (t # ts) dst removed pending =
     (if tb_Path t \<in> set remove then
        if 0 < pin_count (tb_Path t) pins
        then remove_loop remove pins ts dst removed (AList.update (tb_Path t) t pending)
        else remove_loop remove pins ts dst (removed @ [t]) pending
      else remove_loop remove pins ts (dst @ [t]) removed pending)"

definition Set_Apply :: "'h Edit \<Rightarrow> 'h tableSet \<Rightarrow> 'h Table list \<times> 'h tableSet" where
  "Set_Apply edit s =
     (let (dst, removed, pending) =
            (if ed_RemovePath edit \<noteq> []
             then remove_loop (ed_RemovePath edit) (pins_of s) (ts_tables s) [] [] (ts_pending s)
             else (ts_tables s, [], ts_pending s))
      in (removed, rebuild (s\<lparr>ts_tables := dst @ map copy_table (ed_Add edit), ts_pending := pending\<rparr>)))"

section \<open>The order and the index\<close>

interpretation table_order: strict_weak "table_less :: 'h Table \<Rightarrow> 'h Table \<Rightarrow> bool"
proof
  show "table_less x y \<Longrightarrow> \<not> table_less y x" for x y :: "'h Table"
    by (auto simp: table_less_def split: if_splits)
  show "table_less x z \<Longrightarrow> table_less x y \<or> table_less y z" for x y z :: "'h Table"
    by (cases "tm_SeqMax (tb_Meta x)" "tm_SeqMax (tb_Meta y)" rule: linorder_cases)
       (auto simp: table_less_def split: if_splits)
qed

lemma index_from_other: "p \<notin> tb_Path ` set ts \<Longrightarrow> map_of (index_from i ts m) p = map_of m p"
  by (induction i ts m rule: index_from.induct) (auto simp: update_conv')

lemma index_from_nth:
  "distinct (map tb_Path ts) \<Longrightarrow> j < length ts \<Longrightarrow> map_of (index_from i ts m) (tb_Path (ts ! j)) = Some (i + j)"
proof (induction i ts m arbitrary: j rule: index_from.induct)
  case (2 i t ts m)
  show ?case
  proof (cases j)
    case 0
    then show ?thesis using 2 index_from_other [of "tb_Path t" ts "Suc i"] by (simp add: update_conv')
  next
    case (Suc k)
    then show ?thesis using 2 by simp
  qed
qed simp

definition set_ok :: "'h tableSet \<Rightarrow> bool" where
  "set_ok s \<longleftrightarrow> ts_index s = index_from 0 (ts_tables s) [] \<and> sorted_wrt (\<lambda>a b. \<not> table_less b a) (ts_tables s)"

lemma set_ok_rebuild [simp]: "set_ok (rebuild s)"
  by (simp add: set_ok_def rebuild_def Let_def table_order.sorted_sort_Slice)

lemma set_ok_New [simp]: "set_ok (NewSet ts)"
  by (auto simp: NewSet_def Let_def) (simp add: set_ok_def)

lemma resolve_loop_ok:
  assumes "set_ok s" "distinct (map tb_Path (ts_tables s))"
  shows "set ts \<subseteq> set (ts_tables s) \<Longrightarrow> resolve_loop (map tb_Meta ts) s out = Inr (out @ map tb_Handle ts)"
proof (induction ts arbitrary: out)
  case (Cons t ts)
  then obtain j where "j < length (ts_tables s)" "ts_tables s ! j = t" by (auto simp: in_set_conv_nth)
  with Cons index_from_nth [OF assms(2), of j 0 "[]"] assms(1) show ?case by (auto simp: set_ok_def)
qed simp

lemma resolve_loop_missing:
  assumes "set_ok s" "\<exists>m \<in> set ms. tm_Path m \<notin> tb_Path ` set (ts_tables s)" "distinct (map tb_Path (ts_tables s))"
  shows "resolve_loop ms s out = Inl (ErrMsg ''tableset: missing table'')"
  using assms(2)
proof (induction ms arbitrary: out)
  case (Cons m ms)
  show ?case
  proof (cases "tm_Path m \<in> tb_Path ` set (ts_tables s)")
    case True
    then obtain j where "j < length (ts_tables s)" "tb_Path (ts_tables s ! j) = tm_Path m"
      by (auto simp: in_set_conv_nth image_iff)
    with True Cons index_from_nth [OF assms(3), of j 0 "[]"] assms(1) show ?thesis by (auto simp: set_ok_def)
  next
    case False
    with index_from_other [OF False, of 0 "[]"] assms(1) show ?thesis by (simp add: set_ok_def)
  qed
qed simp

section \<open>Pins\<close>

lemma pin_count_Nil [simp]: "pin_count p [] = 0" by (simp add: pin_count_def)

lemma pin_count_update [simp]: "pin_count p (AList.update q n pins) = (if p = q then n else pin_count p pins)"
  by (simp add: pin_count_def update_conv')

lemma pin_count_delete [simp]: "pin_count p (AList.delete q pins) = (if p = q then 0 else pin_count p pins)"
  by (simp add: pin_count_def delete_conv')

lemma pin_tables_count: "pin_count p (pin_tables ts pins) = pin_count p pins + int (count_list (map tb_Path ts) p)"
  by (induction ts pins rule: pin_tables.induct) auto

text \<open>
  What \<open>unpin_loop\<close> does when every count is the number of pins held: the counts follow, a pending table
  is released exactly when its last pin goes, and the tables are only moved.
\<close>

definition pins_match :: "(string \<times> int) list \<Rightarrow> string list \<Rightarrow> (string \<times> 'h Table) list \<Rightarrow> bool" where
  "pins_match pins held pending \<longleftrightarrow>
     (\<forall>p. pin_count p pins = int (count_list held p)) \<and> distinct (map fst pending) \<and>
     (\<forall>x \<in> set pending. tb_Path (snd x) = fst x \<and> fst x \<in> set held)"

lemma pins_match_count: "pins_match pins held pending \<Longrightarrow> pin_count p pins = int (count_list held p)"
  by (simp add: pins_match_def)

lemma pins_match_last:
  assumes m: "pins_match pins (p # held) pending" and le: "pin_count p pins \<le> 1"
  shows "p \<notin> set held" "pins_match (AList.delete p pins) held (AList.delete p pending)"
proof -
  have "count_list held p = 0" using pins_match_count [OF m, of p] le by simp
  then show out: "p \<notin> set held" by (simp add: count_list_0_iff)
  have "pin_count q (AList.delete p pins) = int (count_list held q)" for q
    using pins_match_count [OF m, of q] \<open>count_list held p = 0\<close> by simp
  moreover have "distinct (map fst (AList.delete p pending))"
    using m by (simp add: pins_match_def distinct_delete)
  moreover have "tb_Path (snd x) = fst x \<and> fst x \<in> set held" if "x \<in> set (AList.delete p pending)" for x
  proof -
    have "x \<in> set pending" "fst x \<noteq> p" using that by (auto simp: AList.delete_eq)
    with m show ?thesis by (auto simp: pins_match_def)
  qed
  ultimately show "pins_match (AList.delete p pins) held (AList.delete p pending)" by (simp add: pins_match_def)
qed

lemma pins_match_more:
  assumes m: "pins_match pins (p # held) pending" and gt: "\<not> pin_count p pins \<le> 1"
  shows "pins_match (AList.update p (pin_count p pins - 1) pins) held pending"
proof -
  have "count_list held p \<noteq> 0" using pins_match_count [OF m, of p] gt by simp
  then have p: "p \<in> set held" using count_list_0_iff by metis
  have "pin_count q (AList.update p (pin_count p pins - 1) pins) = int (count_list held q)" for q
    using pins_match_count [OF m, of q] pins_match_count [OF m, of p] by simp
  then show ?thesis using m p by (auto simp: pins_match_def)
qed

lemma mset_delete_pending:
  "distinct (map fst al) \<Longrightarrow> map_of al p = Some t \<Longrightarrow> mset (map snd al) = add_mset t (mset (map snd (AList.delete p al)))"
proof (induction al)
  case (Cons x al)
  show ?case
  proof (cases "fst x = p")
    case True
    then have "AList.delete p al = al" using Cons.prems(1) by (intro delete_id) auto
    with True Cons.prems show ?thesis by (cases x) simp
  next
    case False
    with Cons show ?thesis by (cases x) simp
  qed
qed simp

lemma unpin_loop_ok:
  "pins_match pins (ps @ held) pending \<Longrightarrow> unpin_loop ps pins pending ready = (ready', pins', pending') \<Longrightarrow>
     pins_match pins' held pending' \<and>
     mset ready' + mset (map snd pending') = mset ready + mset (map snd pending) \<and>
     (\<forall>x \<in> set pending. fst x \<in> set held \<longrightarrow> x \<in> set pending')"
proof (induction ps pins pending ready rule: unpin_loop.induct)
  case (2 p ps pins pending ready)
  have m: "pins_match pins (p # ps @ held) pending" using 2(4) by simp
  show ?case
  proof (cases "pin_count p pins \<le> 1")
    case True
    note last = pins_match_last [OF m True]
    have keep: "x \<in> set (AList.delete p pending)" if "x \<in> set pending" "fst x \<in> set held" for x
      using that last(1) by (auto simp: AList.delete_eq)
    show ?thesis
    proof (cases "map_of pending p")
      case None
      then have d: "AList.delete p pending = pending" by (intro delete_id) (simp add: map_of_eq_None_iff)
      show ?thesis using 2(1) [OF True None] 2(5) True None last(2) by (simp add: d)
    next
      case (Some t)
      have e: "mset (map snd pending) = add_mset t (mset (map snd (AList.delete p pending)))"
        using m Some by (intro mset_delete_pending) (simp_all add: pins_match_def)
      have run: "unpin_loop ps (AList.delete p pins) (AList.delete p pending) (ready @ [copy_table t]) = (ready', pins', pending')"
        using 2(5) True Some by simp
      from 2(2) [OF True Some last(2) run] show ?thesis using keep unfolding e by simp
    qed
  next
    case False
    have run: "unpin_loop ps (AList.update p (pin_count p pins - 1) pins) pending ready = (ready', pins', pending')"
      using 2(5) False by simp
    show ?thesis by (rule 2(3) [OF False pins_match_more [OF m False] run])
  qed
qed simp

lemma count_list_mset: "mset xs = mset ys \<Longrightarrow> count_list xs x = count_list ys x"
  by (metis count_mset)

lemma pins_match_perm: "mset held = mset held' \<Longrightarrow> pins_match pins held pending = pins_match pins held' pending"
  unfolding pins_match_def using count_list_mset mset_eq_setD by metis

lemma Unpin_ok:
  assumes m: "pins_match (pins_of s) (ps @ held) (ts_pending s)" and u: "Unpin ps s = (ready, s')"
  shows "ts_tables s' = ts_tables s \<and> ts_index s' = ts_index s \<and> pins_match (pins_of s') held (ts_pending s') \<and>
    mset ready + mset (map snd (ts_pending s')) = mset (map snd (ts_pending s)) \<and>
    (\<forall>x \<in> set (ts_pending s). fst x \<in> set held \<longrightarrow> x \<in> set (ts_pending s'))"
proof (cases "ps = []")
  case True
  with u m show ?thesis by (simp add: Unpin_def)
next
  case False
  then obtain q where "q \<in> set ps" by (cases ps) auto
  then have "count_list ps q \<noteq> 0" by (simp add: count_list_0_iff)
  then have "pin_count q (pins_of s) \<noteq> 0" using pins_match_count [OF m, of q] by simp
  then obtain pins where pins: "ts_pinned s = Some pins" by (cases "ts_pinned s") (auto simp: pins_of_def)
  obtain pins' pending' where l: "unpin_loop ps pins (ts_pending s) [] = (ready, pins', pending')"
    "s' = s\<lparr>ts_pinned := Some pins', ts_pending := pending'\<rparr>"
    using u False pins by (auto simp: Unpin_def split: prod.splits)
  have "pins_match pins (ps @ held) (ts_pending s)" using m pins by (simp add: pins_of_def)
  from unpin_loop_ok [OF this l(1)] show ?thesis using l(2) by (simp add: pins_of_def)
qed

section \<open>Edits\<close>

lemma alist_update_new: "k \<notin> fst ` set al \<Longrightarrow> AList.update k v al = al @ [(k, v)]"
  by (induction al) auto

lemma remove_loop_spec:
  "distinct (map tb_Path ts) \<Longrightarrow> tb_Path ` set ts \<inter> fst ` set pending = {} \<Longrightarrow>
     remove_loop remove pins ts dst removed pending =
       (dst @ filter (\<lambda>t. tb_Path t \<notin> set remove) ts,
        removed @ filter (\<lambda>t. tb_Path t \<in> set remove \<and> pin_count (tb_Path t) pins \<le> 0) ts,
        pending @ map (\<lambda>t. (tb_Path t, t)) (filter (\<lambda>t. tb_Path t \<in> set remove \<and> 0 < pin_count (tb_Path t) pins) ts))"
proof (induction remove pins ts dst removed pending rule: remove_loop.induct)
  case (2 remove pins t ts dst removed pending)
  have "tb_Path t \<notin> fst ` set pending" using 2(5) by auto
  note new = alist_update_new [OF this, of t]
  have d: "distinct (map tb_Path ts)" "tb_Path t \<notin> tb_Path ` set ts" using 2(4) by auto
  have i: "tb_Path ` set ts \<inter> fst ` set pending = {}" using 2(5) by auto
  have i': "tb_Path ` set ts \<inter> fst ` set (AList.update (tb_Path t) t pending) = {}" using i d(2) by (auto simp: new)
  show ?case
  proof (cases "tb_Path t \<in> set remove")
    case True
    show ?thesis
    proof (cases "0 < pin_count (tb_Path t) pins")
      case pos: True
      show ?thesis using 2(1) [OF True pos d(1) i'] True pos by (simp add: new)
    next
      case neg: False
      show ?thesis using 2(2) [OF True neg d(1) i] True neg by simp
    qed
  next
    case False
    show ?thesis using 2(3) [OF False d(1) i] False by simp
  qed
qed simp

text \<open>An edit splits the tables into those kept, those handed back, and those still pinned.\<close>

lemma Set_Apply_ok:
  assumes "distinct (map tb_Path (ts_tables s))" "tb_Path ` set (ts_tables s) \<inter> fst ` set (ts_pending s) = {}"
    and "Set_Apply edit s = (removed, s')"
  shows "set_ok s' \<and> ts_pinned s' = ts_pinned s \<and>
    removed = filter (\<lambda>t. tb_Path t \<in> set (ed_RemovePath edit) \<and> pin_count (tb_Path t) (pins_of s) \<le> 0) (ts_tables s) \<and>
    ts_pending s' = ts_pending s @ map (\<lambda>t. (tb_Path t, t))
      (filter (\<lambda>t. tb_Path t \<in> set (ed_RemovePath edit) \<and> 0 < pin_count (tb_Path t) (pins_of s)) (ts_tables s)) \<and>
    mset (ts_tables s') = mset (filter (\<lambda>t. tb_Path t \<notin> set (ed_RemovePath edit)) (ts_tables s)) + mset (ed_Add edit)"
proof -
  have copies: "map copy_table xs = xs" for xs :: "'a Table list" by (induction xs) auto
  have r: "ts_pinned (rebuild u) = ts_pinned u" "ts_pending (rebuild u) = ts_pending u"
    "mset (ts_tables (rebuild u)) = mset (ts_tables u)" for u :: "'a tableSet"
    by (simp_all add: rebuild_def Let_def)
  show ?thesis
  proof (cases "ed_RemovePath edit = []")
    case True
    with assms(3) show ?thesis by (auto simp: Set_Apply_def copies r)
  next
    case False
    with assms(3) show ?thesis
      by (auto simp: Set_Apply_def Let_def remove_loop_spec [OF assms(1,2)] copies r)
  qed
qed

section \<open>Snapshots and edits in any order\<close>

text \<open>
  The set, the snapshots open on it, and the tables handed out for closing and deletion so far (by
  \<^verbatim>\<open>Apply\<close> to its caller and by \<^verbatim>\<open>Unpin\<close> to the snapshot that is closed).  A table that is added has a
  path that was never used: the writer puts the time in the file name.
\<close>

record 'h world =
  tw_set :: "'h tableSet"
  tw_snaps :: "'h Table list list"
  tw_freed :: "'h Table list"

definition all_tables :: "'h world \<Rightarrow> 'h Table list" where
  "all_tables w = ts_tables (tw_set w) @ map snd (ts_pending (tw_set w)) @ tw_freed w"

inductive set_step :: "'h world \<Rightarrow> 'h world \<Rightarrow> bool" where
  pin: "SnapshotAndPin (tw_set w) = (snap, s') \<Longrightarrow>
    set_step w (w\<lparr>tw_set := s', tw_snaps := snap # tw_snaps w\<rparr>)"
| unpin: "tw_snaps w = A @ snap # B \<Longrightarrow> Unpin (map tb_Path snap) (tw_set w) = (ready, s') \<Longrightarrow>
    set_step w (w\<lparr>tw_set := s', tw_snaps := A @ B, tw_freed := tw_freed w @ ready\<rparr>)"
| edit: "Set_Apply ed (tw_set w) = (removed, s') \<Longrightarrow> distinct (map tb_Path (ed_Add ed)) \<Longrightarrow>
    tb_Path ` set (ed_Add ed) \<inter> tb_Path ` set (all_tables w) = {} \<Longrightarrow>
    set_step w (w\<lparr>tw_set := s', tw_freed := tw_freed w @ removed\<rparr>)"

definition start_world :: "'h Table list \<Rightarrow> 'h world" where
  "start_world ts = \<lparr>tw_set = NewSet ts, tw_snaps = [], tw_freed = []\<rparr>"

definition held :: "'h world \<Rightarrow> string list" where
  "held w = concat (map (map tb_Path) (tw_snaps w))"

definition world_ok :: "'h world \<Rightarrow> bool" where
  "world_ok w \<longleftrightarrow>
     set_ok (tw_set w) \<and> pins_match (pins_of (tw_set w)) (held w) (ts_pending (tw_set w)) \<and>
     distinct (map tb_Path (all_tables w)) \<and>
     (\<forall>snap \<in> set (tw_snaps w). \<forall>t \<in> set snap. t \<in> set (ts_tables (tw_set w)) \<or> (tb_Path t, t) \<in> set (ts_pending (tw_set w)))"

lemma held_pinned: "pins_match pins hs pending \<Longrightarrow> p \<in> set hs \<Longrightarrow> 0 < pin_count p pins"
  by (simp add: pins_match_def) (metis count_list_0_iff not_gr_zero)

lemma pin_ok:
  assumes "world_ok w" "SnapshotAndPin (tw_set w) = (snap, s')"
  shows "world_ok (w\<lparr>tw_set := s', tw_snaps := snap # tw_snaps w\<rparr>)"
proof -
  let ?s = "tw_set w"
  have copies: "map copy_table xs = xs" for xs :: "'a Table list" by (induction xs) auto
  have e: "snap = ts_tables ?s" "s' = ?s\<lparr>ts_pinned := Some (pin_tables (ts_tables ?s) (pins_of ?s))\<rparr>"
    using assms(2) by (auto simp: SnapshotAndPin_def copies)
  have "pin_count p (pin_tables (ts_tables ?s) (pins_of ?s)) = int (count_list (map tb_Path (ts_tables ?s) @ held w) p)" for p
    using assms(1) by (simp add: pin_tables_count world_ok_def pins_match_def)
  then have "pins_match (pins_of s') (map tb_Path snap @ held w) (ts_pending s')"
    using assms(1) by (auto simp: e world_ok_def pins_match_def pins_of_def [of "ts_pinned_update _ _"])
  then show ?thesis using assms(1)
    by (auto simp: world_ok_def e held_def all_tables_def set_ok_def)
qed

lemma unpin_ok:
  assumes w: "world_ok w" and sn: "tw_snaps w = A @ snap # B" and u: "Unpin (map tb_Path snap) (tw_set w) = (ready, s')"
  shows "world_ok (w\<lparr>tw_set := s', tw_snaps := A @ B, tw_freed := tw_freed w @ ready\<rparr>)" (is "world_ok ?w")
proof -
  have "pins_match (pins_of (tw_set w)) (map tb_Path snap @ held ?w) (ts_pending (tw_set w))"
    by (rule pins_match_perm [THEN iffD1, of "held w"]) (use w in \<open>simp_all add: world_ok_def held_def sn\<close>)
  note ok = Unpin_ok [OF this u]
  have "mset (all_tables ?w) = mset (all_tables w)" using ok by (simp add: all_tables_def ac_simps)
  then have "distinct (map tb_Path (all_tables ?w))"
    using w mset_eq_imp_distinct_iff [of "map tb_Path (all_tables ?w)" "map tb_Path (all_tables w)"]
    by (simp add: world_ok_def)
  moreover have "t \<in> set (ts_tables s') \<or> (tb_Path t, t) \<in> set (ts_pending s')"
    if t: "other \<in> set (A @ B)" "t \<in> set other" for other t
  proof -
    have "tb_Path t \<in> set (held ?w)" using t by (auto simp: held_def)
    then have "(tb_Path t, t) \<in> set (ts_pending (tw_set w)) \<Longrightarrow> (tb_Path t, t) \<in> set (ts_pending s')" using ok by fastforce
    moreover have "t \<in> set (ts_tables (tw_set w)) \<or> (tb_Path t, t) \<in> set (ts_pending (tw_set w))"
      using w t sn by (auto simp: world_ok_def)
    ultimately show ?thesis using ok by auto
  qed
  ultimately show ?thesis using w ok by (auto simp: world_ok_def set_ok_def)
qed

lemma edit_ok:
  assumes w: "world_ok w" and a: "Set_Apply ed (tw_set w) = (removed, s')"
    and new: "distinct (map tb_Path (ed_Add ed))" "tb_Path ` set (ed_Add ed) \<inter> tb_Path ` set (all_tables w) = {}"
  shows "world_ok (w\<lparr>tw_set := s', tw_freed := tw_freed w @ removed\<rparr>)" (is "world_ok ?w")
proof -
  let ?s = "tw_set w"
  let ?gone = "\<lambda>t. tb_Path t \<in> set (ed_RemovePath ed)" and ?n = "\<lambda>t. pin_count (tb_Path t) (pins_of ?s)"
  have m: "pins_match (pins_of ?s) (held w) (ts_pending ?s)" and d: "distinct (map tb_Path (all_tables w))"
    using w by (simp_all add: world_ok_def)
  have keys: "fst ` set (ts_pending ?s) = tb_Path ` snd ` set (ts_pending ?s)"
    using m by (force simp: pins_match_def)
  have dt: "distinct (map tb_Path (ts_tables ?s))" "tb_Path ` set (ts_tables ?s) \<inter> fst ` set (ts_pending ?s) = {}"
    using d unfolding keys by (auto simp: all_tables_def)
  note ok = Set_Apply_ok [OF dt a]
  have split: "mset (filter (\<lambda>t. \<not> ?gone t) ts) + mset (filter (\<lambda>t. ?gone t \<and> 0 < ?n t) ts) +
      mset (filter (\<lambda>t. ?gone t \<and> ?n t \<le> 0) ts) = mset ts" for ts by (induction ts) auto
  have "mset (all_tables ?w) = mset (all_tables w) + mset (ed_Add ed)"
    using ok split [of "ts_tables ?s"] by (simp add: all_tables_def comp_def) (metis (no_types, lifting) add.assoc add.commute)
  then have ms: "mset (all_tables ?w) = mset (all_tables w @ ed_Add ed)" by simp
  have "distinct (map tb_Path (all_tables w @ ed_Add ed))" using d new by auto
  then have "distinct (map tb_Path (all_tables ?w))"
    using mset_eq_imp_distinct_iff [of "map tb_Path (all_tables ?w)" "map tb_Path (all_tables w @ ed_Add ed)"] ms
    by (simp add: mset_map del: map_append)
  moreover have "pins_match (pins_of s') (held ?w) (ts_pending s')"
  proof -
    let ?moved = "filter (\<lambda>t. ?gone t \<and> 0 < ?n t) (ts_tables ?s)"
    have p: "pins_of s' = pins_of ?s" "held ?w = held w" using ok by (simp_all add: pins_of_def held_def)
    have "fst x \<in> set (held w) \<and> tb_Path (snd x) = fst x" if "x \<in> set (ts_pending s')" for x
    proof -
      have "fst x \<in> set (held w)" if "0 < pin_count (fst x) (pins_of ?s)"
        using that pins_match_count [OF m, of "fst x"] count_list_0_iff [of "held w" "fst x"] by auto
      with that ok m show ?thesis by (auto simp: pins_match_def)
    qed
    moreover have "distinct (map fst (ts_pending s'))"
      using ok m dt by (auto simp: pins_match_def comp_def distinct_map_filter)
    ultimately show ?thesis using m unfolding p by (simp add: pins_match_def)
  qed
  moreover have "t \<in> set (ts_tables s') \<or> (tb_Path t, t) \<in> set (ts_pending s')"
    if t: "snap \<in> set (tw_snaps w)" "t \<in> set snap" for snap t
  proof -
    have "0 < ?n t" using held_pinned [OF m, of "tb_Path t"] t by (auto simp: held_def)
    moreover have "t \<in> set (ts_tables ?s) \<or> (tb_Path t, t) \<in> set (ts_pending ?s)" using w t by (auto simp: world_ok_def)
    moreover have "set (ts_tables s') = set (filter (\<lambda>t. \<not> ?gone t) (ts_tables ?s) @ ed_Add ed)"
      using ok by (intro mset_eq_setD) simp
    ultimately show ?thesis using ok by auto
  qed
  ultimately show ?thesis using ok by (auto simp: world_ok_def)
qed

lemma start_ok: "distinct (map tb_Path ts) \<Longrightarrow> world_ok (start_world ts)"
  by (auto simp: world_ok_def start_world_def NewSet_def Let_def rebuild_def pins_match_def pins_of_def held_def all_tables_def
      set_ok_def table_order.sorted_sort_Slice)

lemma step_ok: "set_step w w' \<Longrightarrow> world_ok w \<Longrightarrow> world_ok w'"
  by (induction rule: set_step.induct) (blast intro: pin_ok unpin_ok edit_ok)+

lemma reach_ok: "set_step\<^sup>*\<^sup>* w w' \<Longrightarrow> world_ok w \<Longrightarrow> world_ok w'"
  by (induction rule: rtranclp_induct) (blast intro: step_ok)+

text \<open>
  C20: snapshots and edits of the table set in any order.  A table of an open snapshot has never been handed
  out for deletion; a removed table does not stay behind once no snapshot is open; no table is handed out
  twice and none that is still in the set; the tables stand in read order, newest first; and the handles of any
  tables of the set are found through the index, while the description of any other table is refused.
\<close>

theorem pinned_tables_survive:
  assumes "distinct (map tb_Path ts)" "set_step\<^sup>*\<^sup>* (start_world ts) w"
  shows "(\<forall>snap \<in> set (tw_snaps w). \<forall>t \<in> set snap. tb_Path t \<notin> tb_Path ` set (tw_freed w)) \<and>
    (tw_snaps w = [] \<longrightarrow> Pending (tw_set w) = []) \<and>
    distinct (map tb_Path (ts_tables (tw_set w) @ tw_freed w)) \<and>
    sorted_wrt (\<lambda>a b. tm_SeqMax (tb_Meta b) \<le> tm_SeqMax (tb_Meta a)) (ts_tables (tw_set w)) \<and>
    (\<forall>us. set us \<subseteq> set (ts_tables (tw_set w)) \<longrightarrow> Resolve (map tb_Meta us) (tw_set w) = Inr (map tb_Handle us)) \<and>
    (\<forall>ms. \<not> tm_Path ` set ms \<subseteq> tb_Path ` set (ts_tables (tw_set w)) \<longrightarrow>
       Resolve ms (tw_set w) = Inl (ErrMsg ''tableset: missing table''))"
proof -
  have ok: "world_ok w" using reach_ok [OF assms(2) start_ok [OF assms(1)]] .
  then have s: "set_ok (tw_set w)" and d: "distinct (map tb_Path (all_tables w))" by (simp_all add: world_ok_def)
  have dt: "distinct (map tb_Path (ts_tables (tw_set w)))" using d by (simp add: all_tables_def)
  have "tb_Path t \<notin> tb_Path ` set (tw_freed w)" if "snap \<in> set (tw_snaps w)" "t \<in> set snap" for snap t
  proof -
    have "t \<in> set (ts_tables (tw_set w) @ map snd (ts_pending (tw_set w)))"
      using ok that by (force simp: world_ok_def)
    with d show ?thesis by (auto simp: all_tables_def)
  qed
  moreover have "Pending (tw_set w) = []" if "tw_snaps w = []"
    using ok that by (cases "ts_pending (tw_set w)") (auto simp: Pending_def world_ok_def held_def pins_match_def)
  moreover have "sorted_wrt (\<lambda>a b. tm_SeqMax (tb_Meta b) \<le> tm_SeqMax (tb_Meta a)) (ts_tables (tw_set w))"
    using s unfolding set_ok_def
    by (auto intro: sorted_wrt_mono_rel [rotated] simp: table_less_def not_less split: if_splits)
  moreover have "\<forall>us. set us \<subseteq> set (ts_tables (tw_set w)) \<longrightarrow> Resolve (map tb_Meta us) (tw_set w) = Inr (map tb_Handle us)"
    using resolve_loop_ok [OF s dt, of _ "[]"] by (simp add: Resolve_def)
  moreover have "Resolve ms (tw_set w) = Inl (ErrMsg ''tableset: missing table'')"
    if "\<not> tm_Path ` set ms \<subseteq> tb_Path ` set (ts_tables (tw_set w))" for ms
    using resolve_loop_missing [OF s _ dt, of ms "[]"] that unfolding Resolve_def by blast
  moreover have "distinct (map tb_Path (ts_tables (tw_set w) @ tw_freed w))" using d by (auto simp: all_tables_def)
  ultimately show ?thesis by blast
qed

definition demo_table :: "char \<Rightarrow> u64 \<Rightarrow> nat Table" where
  "demo_table c n = \<lparr>tb_Meta = \<lparr>tm_Path = [c], tm_Level = 0, tm_MinKey = [1], tm_MaxKey = [9], tm_SeqMin = 1, tm_SeqMax = n,
     tm_SizeBytes = 1\<rparr>, tb_Handle = of_char c\<rparr>"

definition demo_world :: "nat world" where
  "demo_world =
     \<lparr>tw_set = \<lparr>ts_tables = [demo_table (CHR ''c'') 12, demo_table (CHR ''b'') 9], ts_index = [(''c'', 0), (''b'', 1)],
        ts_pinned = Some [(''b'', 1), (''a'', 1)], ts_pending = [(''a'', demo_table (CHR ''a'') 5)]\<rparr>,
      tw_snaps = [[demo_table (CHR ''b'') 9, demo_table (CHR ''a'') 5]], tw_freed = []\<rparr>"

lemma demo_reach: "set_step\<^sup>*\<^sup>* (start_world [demo_table (CHR ''a'') 5, demo_table (CHR ''b'') 9]) demo_world"
proof -
  let ?w0 = "start_world [demo_table (CHR ''a'') 5, demo_table (CHR ''b'') 9]"
  let ?s0 = "\<lparr>ts_tables = [demo_table (CHR ''b'') 9, demo_table (CHR ''a'') 5], ts_index = [(''b'', 0), (''a'', 1)],
    ts_pinned = None, ts_pending = []\<rparr>"
  let ?s1 = "?s0\<lparr>ts_pinned := Some [(''b'', 1), (''a'', 1)]\<rparr>"
  let ?w1 = "\<lparr>tw_set = ?s1, tw_snaps = [ts_tables ?s0], tw_freed = []\<rparr>"
  let ?ed = "\<lparr>ed_Add = [demo_table (CHR ''c'') 12], ed_RemovePath = [''a'']\<rparr>"
  have w0: "?w0 = \<lparr>tw_set = ?s0, tw_snaps = [], tw_freed = []\<rparr>"
    by (simp add: start_world_def NewSet_def rebuild_def sort_Slice_def table_less_def demo_table_def)
  have "SnapshotAndPin (tw_set ?w0) = (ts_tables ?s0, ?s1)"
    unfolding w0 by (simp add: SnapshotAndPin_def pins_of_def pin_count_def demo_table_def)
  from set_step.pin [OF this] have "set_step ?w0 ?w1" by (simp add: w0)
  moreover have "Set_Apply ?ed ?s1 = ([], tw_set demo_world)"
    by (simp add: Set_Apply_def pins_of_def pin_count_def rebuild_def sort_Slice_def table_less_def demo_table_def demo_world_def)
  then have "set_step ?w1 (?w1\<lparr>tw_set := tw_set demo_world, tw_freed := tw_freed ?w1 @ []\<rparr>)"
    by (intro set_step.edit [of ?ed]) (simp_all add: demo_table_def all_tables_def)
  then have "set_step ?w1 demo_world" by (simp add: demo_world_def)
  ultimately show ?thesis by (rule converse_rtranclp_into_rtranclp [OF _ r_into_rtranclp])
qed

theorem pinned_tables_survive_witness:
  "set_step\<^sup>*\<^sup>* (start_world [demo_table (CHR ''a'') 5, demo_table (CHR ''b'') 9]) demo_world \<and>
   demo_table (CHR ''a'') 5 \<in> set (hd (tw_snaps demo_world)) \<and>
   tb_Path (demo_table (CHR ''a'') 5) \<notin> tb_Path ` set (tw_freed demo_world) \<and>
   Pending (tw_set demo_world) = [demo_table (CHR ''a'') 5] \<and>
   Resolve [tb_Meta (demo_table (CHR ''b'') 9)] (tw_set demo_world) = Inr [98]"
proof -
  have b: "set [demo_table (CHR ''b'') 9] \<subseteq> set (ts_tables (tw_set demo_world))" by (simp add: demo_world_def)
  have "distinct (map tb_Path [demo_table (CHR ''a'') 5, demo_table (CHR ''b'') 9])" by (simp add: demo_table_def)
  note ok = pinned_tables_survive [OF this demo_reach]
  have "Resolve (map tb_Meta [demo_table (CHR ''b'') 9]) (tw_set demo_world) = Inr (map tb_Handle [demo_table (CHR ''b'') 9])"
    using ok b by blast
  then have "Resolve [tb_Meta (demo_table (CHR ''b'') 9)] (tw_set demo_world) = Inr [98]"
    by (simp only: list.map) (simp add: demo_table_def)
  moreover have "Pending (tw_set demo_world) = [demo_table (CHR ''a'') 5]" by (simp add: Pending_def demo_world_def)
  moreover have a: "demo_table (CHR ''a'') 5 \<in> set (hd (tw_snaps demo_world))" "hd (tw_snaps demo_world) \<in> set (tw_snaps demo_world)"
    by (simp_all add: demo_world_def)
  moreover have "tb_Path (demo_table (CHR ''a'') 5) \<notin> tb_Path ` set (tw_freed demo_world)"
    using ok a by blast
  ultimately show ?thesis using demo_reach by blast
qed

end
