(* ===== verification/Spec2Isabelle.thy ===== *)
theory Spec2Isabelle
  imports Wal_Async Sst_Range Mem_Tables Control_Restart Compaction_Merge Table_Set
begin

text \<open>
  Verification of the LSM storage engine.

  \<^bold>\<open>The program.\<close>  A write goes to the write-ahead log (\<^verbatim>\<open>internal/lsm/wal\<close>) and then to a memtable
  (\<^verbatim>\<open>internal/lsm/memtable\<close>).  A full memtable is flushed to a sorted table file (\<^verbatim>\<open>internal/lsm/sstable\<close>), which
  joins the table set (\<^verbatim>\<open>internal/lsm/tableset\<close>).  Compaction (\<^verbatim>\<open>internal/lsm/compaction\<close>) merges tables.  Reads go
  through the memtables and the tables, newest first.  The control plane (\<^verbatim>\<open>pkg/lsm/engine/control_plane.go\<close>) divides
  the keys into shards with replicas and leaders and changes them through a commit log.

  \<^bold>\<open>Conventions.\<close>  A struct is a record, an error a value of \<open>lsm_error\<close>, a fallible call a \<open>'a result\<close>; methods pass
  the state on.  Integers are words where the code relies on their width.  The file system (\<open>Go_Fs\<close>, \<open>Go_Files\<close>) has a
  list of outcomes for the next operations, so that a theorem over all lists covers every pattern of failures.  The parts
  of the standard library that matter are written out in \<open>Go_Std\<close>, \<open>Go_Trim\<close> and \<open>Go_Json\<close>.  Compression and the
  floating-point scaling of the filters are parameters.

  \<^bold>\<open>Theories.\<close>
  \<^item> \<open>LSM_Prelude\<close>, \<open>Entry_Maps\<close>: types, errors and results; sorted lists of entries, the abstract value of every ordered
    structure.
  \<^item> \<open>Wal_Codec\<close>, \<open>Wal_Segment\<close>, \<open>Wal_Log\<close>, \<open>Wal_Async\<close>: the log format (\<^verbatim>\<open>wal/codec\<close>), segments, appending,
    replay and repair, and the asynchronous writer as a step relation.  As long as no input/output operation fails, appended
    entries are replayed and what is acknowledged is what the log holds; complete blocks survive a crash.
  \<^item> \<open>Arena\<close>, \<open>Skiplist\<close>, \<open>Memtable\<close>, \<open>Map_Table\<close>, \<open>Skiplist_Table\<close>, \<open>Sharded_Table\<close>, \<open>Mem_Tables\<close>: the memory of
    the memtables, the skip list over an address store, and the three kinds of memtable, which agree with one
    specification.
  \<^item> \<open>Sst_Format\<close>, \<open>Sst_Block\<close>, \<open>Bloom_Filter\<close>, \<open>Block_Cache\<close>, \<open>Sst_Options\<close>: wire formats, data blocks, filters, caches
    and options.
  \<^item> \<open>Sst_Writer\<close>, \<open>Sst_Pipeline\<close>, \<open>Sst_Reader\<close>: the flush, the read pipeline and the reader.  \<open>Sst_Table\<close>, \<open>Sst_Get\<close>,
    \<open>Sst_Flush\<close>, \<open>Sst_Tail\<close>, \<open>Sst_Open\<close>, \<open>Sst_Range\<close>: a flushed table answers point reads and range scans with exactly
    the flushed entries, while the prefetch workers run between the steps of a scan.
  \<^item> \<open>Compaction_Merge\<close>: the merge of the runner keeps the newest entry of each key.
  \<^item> \<open>Table_Set\<close>: pins, pending removals and the index of the table set under any order of operations.
  \<^item> \<open>Control_State\<close>, \<open>Control_Plane\<close>, \<open>Control_Proposals\<close>: the state, its file, the mutations and the proposals.
    \<open>Control_Routes\<close>, \<open>Control_Inv\<close>, \<open>Control_Ops\<close>, \<open>Control_Commit\<close>, \<open>Control_Log\<close>, \<open>Control_Start\<close>,
    \<open>Control_Props\<close>, \<open>Control_Restart\<close>: routing, the invariant, commits against a
    specification with rollback after failed saves, idempotence, splits, drains and restarts.

  \<^bold>\<open>Defects.\<close>  Some theorems state where the code fails: inputs on which decoders panic, a torn log header or block that
  costs later appends, a refused append that is replayed, an append that waits for ever, a read limit that wraps, options
  that are turned on again, shards that share an array of replicas, an order entry with spaces that loses a shard.

  \<^bold>\<open>Loops and bounds.\<close>  A loop that may not end is a \<^theory_text>\<open>partial_function\<close> into options, and its return is proved where a
  theorem needs it (the skip list, range scans) or characterised (\<open>nextPow2\<close>).  The flush theorems bound block and file
  sizes by \<open>2 ^ 32\<close> and by the limit on a block read, as the format does.  Strings saved as JSON are ASCII, since
  \<^verbatim>\<open>encoding/json\<close> replaces invalid UTF-8.  Memory is unbounded: an allocation fails for a negative length only.  A
  decoded slice fills its buffer, so that its length bounds its slice expressions.  The number of directories above the
  state file is a parameter.

  \<^bold>\<open>Not modelled.\<close>  The engine that connects these parts (\<^verbatim>\<open>pkg/lsm/engine\<close>: write, flush and read services, snapshots,
  start and close), the manifest, table edits, bootstrap, trash and the choice of compactions: the development has their
  building blocks and no theorem about their composition.  The servers, commands, change feeds and log output are
  input/output; \<^verbatim>\<open>iofs\<close> and its io_uring bindings are system calls; the raft adapter calls a third-party library; pools
  and metrics do not change results.  Locks are taken to make an operation one step; goroutines are modelled only in
  \<open>Wal_Async\<close> and as the prefetch workers of \<open>Sst_Range\<close>.
\<close>

end
